(* ===== verification/Prelude.thy ===== *)
theory Prelude
  imports Main "HOL-Library.Word"
begin

text \<open>
  Shared vocabulary of the development: names for the machine integers and strings of the C
  sources, the two ways the code copies a NUL-terminated string into a fixed array, and the
  generic facts about words, loops and lists that the component theories use.

  A C string is the list of its characters before the NUL, so it holds no NUL character itself.
  \<open>safe_copy\<close> of \<^verbatim>\<open>ir.c\<close> and the idiom \<^verbatim>\<open>strncpy(d, s, n - 1); d[n - 1] = 0\<close> both keep the
  first \<open>n - 1\<close> characters, which is \<open>c_copy n\<close> below.
\<close>

unbundle bit_operations_syntax

subsection \<open>Types\<close>

type_synonym u8 = "8 word"
type_synonym u32 = "32 word"
type_synonym u64 = "64 word"
type_synonym cstr = string

named_theorems carry_simps \<open>value lemmas of multi-word arithmetic\<close>
named_theorems wf_rules \<open>well-formedness rules of the components\<close>

subsection \<open>Strings in fixed arrays\<close>

definition c_copy :: "nat \<Rightarrow> cstr \<Rightarrow> cstr" where
  "c_copy n s = take (n - 1) s"

lemma c_copy_length: "0 < n \<Longrightarrow> length (c_copy n s) < n"
  by (cases n) (simp_all add: c_copy_def)

lemma c_copy_id: "length s < n \<Longrightarrow> c_copy n s = s"
  by (simp add: c_copy_def)

lemma c_copy_idem [simp]: "c_copy n (c_copy n s) = c_copy n s"
  by (simp add: c_copy_def)

lemma c_copy_Nil [simp]: "c_copy n [] = []"
  by (simp add: c_copy_def)

lemma c_copy_le: "m \<le> n \<Longrightarrow> c_copy m (c_copy n s) = c_copy m s"
  by (simp add: c_copy_def min_def)

subsection \<open>Counted loops\<close>

text \<open>A loop \<^verbatim>\<open>for (i = 0; i < n; i++)\<close> is \<open>foldl\<close> over \<open>[0..<n]\<close>.\<close>

lemma foldl_upt_Suc: "foldl f s [0..<Suc n] = f (foldl f s [0..<n]) n"
  by simp

lemma foldl_upt_invariant:
  assumes "P 0 s" and "\<And>i t. i < n \<Longrightarrow> P i t \<Longrightarrow> P (Suc i) (f t i)"
  shows "P n (foldl f s [0..<n])"
  using assms
proof (induction n)
  case 0
  then show ?case by simp
next
  case (Suc n)
  then show ?case by simp
qed

subsection \<open>Words\<close>

lemma unat_lt_64: "unat (x :: u64) < 18446744073709551616"
  using unsigned_less [where w = x] by simp

lemma unat_lt_32: "unat (x :: u32) < 4294967296"
  using unsigned_less [where w = x] by simp

lemma unat_lt_8: "unat (x :: u8) < 256"
  using unsigned_less [where w = x] by simp

lemma mod_once: "b \<le> (a::nat) \<Longrightarrow> a < 2 * b \<Longrightarrow> a mod b = a - b"
  by (simp add: le_mod_geq)

end
