(* ===== verification/Arith256.thy ===== *)
theory Arith256
  imports Prelude
begin

text \<open>
  The interface of 256-bit unsigned arithmetic. The repository implements it twice: on four 64-bit
  limbs (\<^verbatim>\<open>evm_uint256.h\<close>, theory \<open>U256\<close>) and on 32 big-endian bytes (\<^verbatim>\<open>lift_u256_*\<close> of
  \<^verbatim>\<open>evm_lifter.c\<close>, theory \<open>EvmBytes\<close>). Both interpret the locale below on their own
  operations, so that the ring laws and the laws of two's-complement negation hold of both.
\<close>

definition M256 :: nat where "M256 = 2 ^ 256"

lemma M256_pos [simp]: "0 < M256" by (simp add: M256_def)

definition signed_of :: "nat \<Rightarrow> nat \<Rightarrow> int" where
  "signed_of H v = (if v < H then int v else int v - 2 * int H)"

definition sval256 :: "nat \<Rightarrow> int" where
  "sval256 v = signed_of (2 ^ 255) v"

lemma M256_half: "M256 = 2 * 2 ^ 255" by (simp add: M256_def)

lemma signed_of_neg:
  assumes "v < M" "v \<noteq> H" "M = 2 * H"
  shows "signed_of H ((M - v) mod M) = - signed_of H v"
proof (cases "v = 0")
  case True
  then show ?thesis by (simp add: signed_of_def)
next
  case False
  then have "(M - v) mod M = M - v" using assms by simp
  then show ?thesis using assms False by (auto simp: signed_of_def of_nat_diff)
qed

lemma signed_of_add:
  assumes "a < M" "b < M" "M = 2 * H"
    and "- int H \<le> signed_of H a + signed_of H b" "signed_of H a + signed_of H b < int H"
  shows "signed_of H ((a + b) mod M) = signed_of H a + signed_of H b"
proof -
  have m: "(a + b) mod M = (if a + b < M then a + b else a + b - M)"
    using assms(1,2) by (simp add: mod_if)
  show ?thesis
    using assms unfolding m signed_of_def
    by (cases "a < H"; cases "b < H"; cases "a + b < M") (auto simp: of_nat_diff)
qed

lemma sval256_bounds: "v < M256 \<Longrightarrow> - (2 ^ 255) \<le> sval256 v \<and> sval256 v < 2 ^ 255"
  by (simp add: sval256_def signed_of_def M256_def)

lemma sval256_neg: "v < M256 \<Longrightarrow> v \<noteq> 2 ^ 255 \<Longrightarrow> sval256 ((M256 - v) mod M256) = - sval256 v"
  unfolding sval256_def by (rule signed_of_neg [OF _ _ M256_half])

lemma sval256_add:
  assumes "a < M256" "b < M256" "- (2 ^ 255) \<le> sval256 a + sval256 b" "sval256 a + sval256 b < 2 ^ 255"
  shows "sval256 ((a + b) mod M256) = sval256 a + sval256 b"
  using assms unfolding sval256_def by (intro signed_of_add [OF _ _ M256_half]) simp_all

lemma add_sub_gen:
  assumes "va < M" "vb < (M :: nat)"
  shows "(M + (va + vb) mod M - vb) mod M = va"
proof (cases "va + vb < M")
  case True
  then show ?thesis using assms by simp
next
  case False
  then have "(va + vb) mod M = va + vb - M" using assms by (simp add: le_mod_geq)
  then show ?thesis using assms False by simp
qed

locale arith256 =
  fixes ok :: "'a \<Rightarrow> bool" and val :: "'a \<Rightarrow> nat" and zero :: 'a
    and add :: "'a \<Rightarrow> 'a \<Rightarrow> 'a" and sub :: "'a \<Rightarrow> 'a \<Rightarrow> 'a" and mul :: "'a \<Rightarrow> 'a \<Rightarrow> 'a"
  assumes val_bound: "ok a \<Longrightarrow> val a < M256"
    and val_inj: "ok a \<Longrightarrow> ok b \<Longrightarrow> val a = val b \<Longrightarrow> a = b"
    and zero_ok: "ok zero" and zero_val: "val zero = 0"
    and add_ok: "ok a \<Longrightarrow> ok b \<Longrightarrow> ok (add a b)"
    and add_val: "ok a \<Longrightarrow> ok b \<Longrightarrow> val (add a b) = (val a + val b) mod M256"
    and sub_ok: "ok a \<Longrightarrow> ok b \<Longrightarrow> ok (sub a b)"
    and sub_val: "ok a \<Longrightarrow> ok b \<Longrightarrow> val (sub a b) = (M256 + val a - val b) mod M256"
    and mul_ok: "ok a \<Longrightarrow> ok b \<Longrightarrow> ok (mul a b)"
    and mul_val: "ok a \<Longrightarrow> ok b \<Longrightarrow> val (mul a b) = (val a * val b) mod M256"
begin

lemmas ok_intros = zero_ok add_ok sub_ok mul_ok
lemmas val_simps = zero_val add_val sub_val mul_val

lemma add_commute: "ok a \<Longrightarrow> ok b \<Longrightarrow> add a b = add b a"
  by (rule val_inj) (simp_all add: ok_intros val_simps add.commute)

lemma add_assoc: "ok a \<Longrightarrow> ok b \<Longrightarrow> ok c \<Longrightarrow> add (add a b) c = add a (add b c)"
  by (rule val_inj) (simp_all add: ok_intros val_simps mod_simps add.assoc)

lemma add_zero: "ok a \<Longrightarrow> add a zero = a"
  by (rule val_inj) (simp_all add: ok_intros val_simps val_bound)

lemma mul_commute: "ok a \<Longrightarrow> ok b \<Longrightarrow> mul a b = mul b a"
  by (rule val_inj) (simp_all add: ok_intros val_simps mult.commute)

lemma mul_assoc: "ok a \<Longrightarrow> ok b \<Longrightarrow> ok c \<Longrightarrow> mul (mul a b) c = mul a (mul b c)"
  by (rule val_inj) (simp_all add: ok_intros val_simps mod_simps mult.assoc)

lemma mul_zero: "ok a \<Longrightarrow> mul a zero = zero"
  by (rule val_inj) (simp_all add: ok_intros val_simps)

lemma mul_add_distrib:
  "ok a \<Longrightarrow> ok b \<Longrightarrow> ok c \<Longrightarrow> mul a (add b c) = add (mul a b) (mul a c)"
  by (rule val_inj) (simp_all add: ok_intros val_simps mod_simps distrib_left)

lemma sub_add_cancel:
  assumes "ok a" "ok b"
  shows "add (sub a b) b = a"
proof (rule val_inj)
  have "M256 + val a - val b + val b = val a + M256"
    using val_bound [OF assms(2)] by simp
  then show "val (add (sub a b) b) = val a"
    using assms by (simp add: ok_intros val_simps mod_simps val_bound)
qed (use assms in \<open>simp_all add: ok_intros\<close>)

lemma add_sub_cancel:
  assumes "ok a" "ok b"
  shows "sub (add a b) b = a"
proof (rule val_inj)
  show "val (sub (add a b) b) = val a"
    using assms add_sub_gen [OF val_bound val_bound] by (simp add: ok_intros val_simps)
qed (use assms in \<open>simp_all add: ok_intros\<close>)

lemma sub_self: "ok a \<Longrightarrow> sub a a = zero"
  by (rule val_inj) (simp_all add: ok_intros val_simps)

lemma neg_val: "ok a \<Longrightarrow> val (sub zero a) = (M256 - val a) mod M256"
  by (simp add: ok_intros val_simps)

lemma neg_involutive:
  assumes "ok a"
  shows "sub zero (sub zero a) = a"
proof (rule val_inj)
  show "val (sub zero (sub zero a)) = val a"
    using assms val_bound [OF assms]
    by (cases "val a = 0") (simp_all add: ok_intros val_simps)
qed (use assms in \<open>simp_all add: ok_intros\<close>)

lemma neg_signed:
  "ok a \<Longrightarrow> val a \<noteq> 2 ^ 255 \<Longrightarrow> sval256 (val (sub zero a)) = - sval256 (val a)"
  by (simp add: neg_val sval256_neg val_bound)

lemma add_signed_exact:
  assumes "ok a" "ok b" "- (2 ^ 255) \<le> sval256 (val a) + sval256 (val b)"
    "sval256 (val a) + sval256 (val b) < 2 ^ 255"
  shows "sval256 (val (add a b)) = sval256 (val a) + sval256 (val b)"
  using assms by (simp add: add_val sval256_add val_bound)

end

end
