(* ===== verification/U256.thy ===== *)
theory U256
  imports Arith256
begin

text \<open>
  The 256-bit arithmetic core \<^verbatim>\<open>evm_uint256.h\<close>: a number is four 64-bit limbs, least significant
  first (\<^verbatim>\<open>uint256_t\<close> of \<^verbatim>\<open>ir.h\<close>). Each loop of the header is a \<open>foldl\<close> over the loop
  counter with the state the loop carries. \<open>uval\<close> reads the number a limb vector denotes.
\<close>

subsection \<open>Limbs\<close>

datatype uint256 = UInt256 (limb0: u64) (limb1: u64) (limb2: u64) (limb3: u64)

fun limb :: "uint256 \<Rightarrow> nat \<Rightarrow> u64" where
  "limb (UInt256 a b c d) i = (if i = 0 then a else if i = 1 then b else if i = 2 then c else d)"

fun set_limb :: "uint256 \<Rightarrow> nat \<Rightarrow> u64 \<Rightarrow> uint256" where
  "set_limb (UInt256 a b c d) i x =
     (if i = 0 then UInt256 x b c d else if i = 1 then UInt256 a x c d
      else if i = 2 then UInt256 a b x d else UInt256 a b c x)"

definition u256_zero :: uint256 where
  "u256_zero = UInt256 0 0 0 0"

definition uval :: "uint256 \<Rightarrow> nat" where
  "uval a = unat (limb0 a) + 2 ^ 64 * unat (limb1 a) + 2 ^ 128 * unat (limb2 a)
            + 2 ^ 192 * unat (limb3 a)"

subsection \<open>Addition and subtraction\<close>

definition evm_u256_add :: "uint256 \<Rightarrow> uint256 \<Rightarrow> uint256" where
  "evm_u256_add a b =
     fst (foldl (\<lambda>(r, carry) i.
            let sum = limb a i + limb b i + carry
            in (set_limb r i sum,
                if sum < limb a i \<or> (sum = limb a i \<and> carry \<noteq> 0) then 1 else 0))
          (u256_zero, 0 :: u64) [0..<4])"

definition evm_u256_sub :: "uint256 \<Rightarrow> uint256 \<Rightarrow> uint256" where
  "evm_u256_sub a b =
     fst (foldl (\<lambda>(r, borrow) i.
            let diff = limb a i - limb b i - borrow
            in (set_limb r i diff,
                if limb a i < limb b i \<or> (limb a i = limb b i \<and> borrow \<noteq> 0) then 1 else 0))
          (u256_zero, 0 :: u64) [0..<4])"

subsection \<open>Multiplication on 32-bit half limbs\<close>

definition split32 :: "uint256 \<Rightarrow> u32 list" where
  "split32 a = foldl (\<lambda>x i. x[i * 2 := ucast (limb a i AND 0xFFFFFFFF),
                              i * 2 + 1 := ucast (drop_bit 32 (limb a i))])
                 (replicate 8 0) [0..<4]"

definition mul_inner :: "u32 list \<Rightarrow> u32 list \<Rightarrow> nat \<Rightarrow> u32 list \<Rightarrow> u32 list" where
  "mul_inner a32 b32 i r32 =
     fst (foldl (\<lambda>(r, carry) j.
            let prod = ucast (a32 ! i) * ucast (b32 ! j) + ucast (r ! (i + j)) + carry
            in (r[i + j := ucast (prod AND 0xFFFFFFFF)], drop_bit 32 prod))
          (r32, 0 :: u64) [0..<8 - i])"

definition join32 :: "u32 list \<Rightarrow> uint256" where
  "join32 r32 = foldl (\<lambda>r i. set_limb r i
                   (push_bit 32 (ucast (r32 ! (i * 2 + 1))) OR ucast (r32 ! (i * 2))))
                 u256_zero [0..<4]"

definition evm_u256_mul :: "uint256 \<Rightarrow> uint256 \<Rightarrow> uint256" where
  "evm_u256_mul a b =
     join32 (foldl (\<lambda>r32 i. mul_inner (split32 a) (split32 b) i r32) (replicate 8 0) [0..<8])"

subsection \<open>Sign, negation, the division stub\<close>

definition evm_u256_is_neg :: "uint256 \<Rightarrow> bool" where
  "evm_u256_is_neg a \<longleftrightarrow> drop_bit 63 (limb3 a) AND 1 \<noteq> 0"

definition evm_u256_neg :: "uint256 \<Rightarrow> uint256" where
  "evm_u256_neg a = evm_u256_sub u256_zero a"

definition evm_u256_div :: "uint256 \<Rightarrow> uint256 \<Rightarrow> uint256" where
  "evm_u256_div a b =
     (if limb0 b = 1 \<and> limb1 b = 0 \<and> limb2 b = 0 \<and> limb3 b = 0 then a else u256_zero)"

definition evm_u256_sdiv :: "uint256 \<Rightarrow> uint256 \<Rightarrow> uint256" where
  "evm_u256_sdiv a b =
     (let neg_a = evm_u256_is_neg a; neg_b = evm_u256_is_neg b;
          abs_a = (if neg_a then evm_u256_neg a else a);
          abs_b = (if neg_b then evm_u256_neg b else b);
          res = evm_u256_div abs_a abs_b
      in if neg_a \<noteq> neg_b then evm_u256_neg res else res)"

definition evm_u256_is_zero :: "uint256 \<Rightarrow> bool" where
  "evm_u256_is_zero a \<longleftrightarrow> limb0 a = 0 \<and> limb1 a = 0 \<and> limb2 a = 0 \<and> limb3 a = 0"

subsection \<open>The value of a limb vector\<close>

lemma uval_bound: "uval a < 2 ^ 256"
  using unat_lt_64 [of "limb0 a"] unat_lt_64 [of "limb1 a"]
    unat_lt_64 [of "limb2 a"] unat_lt_64 [of "limb3 a"]
  by (simp add: uval_def)

lemma uval_zero [simp]: "uval u256_zero = 0"
  by (simp add: uval_def u256_zero_def)

lemma uval_eq_0_iff: "uval a = 0 \<longleftrightarrow> evm_u256_is_zero a"
  by (auto simp: uval_def evm_u256_is_zero_def unat_eq_0)

lemma uval_UInt256:
  "uval (UInt256 a b c d) =
     unat a + 18446744073709551616 * unat b + 340282366920938463463374607431768211456 * unat c
     + 6277101735386680763835789423207666416102355444464034512896 * unat d"
  by (simp add: uval_def)

subsection \<open>Exactness of addition and subtraction\<close>

lemma carry_nat:
  fixes B X Y C s :: nat
  assumes "s = (if X + Y + C < B then X + Y + C else X + Y + C - B)" "C \<le> 1" "X < B" "Y < B"
  shows "s + B * (if s < X \<or> (s = X \<and> C = 1) then 1 else 0) = X + Y + C"
proof (cases "X + Y + C < B")
  case True
  with assms(1) have "s = X + Y + C" by simp
  with assms(2) True show ?thesis by (cases "s = X") auto
next
  case False
  with assms(1) have "s = X + Y + C - B" by simp
  with assms False have "s < X \<or> (s = X \<and> C = 1)" by linarith
  with False \<open>s = X + Y + C - B\<close> show ?thesis by simp
qed

lemma add_carry_step:
  fixes x y c :: u64
  assumes "c = 0 \<or> c = 1"
  shows "unat (x + y + c) + 18446744073709551616 * (if x + y + c < x \<or> (x + y + c = x \<and> c \<noteq> 0) then 1 else 0)
         = unat x + unat y + unat c"
proof -
  have b: "unat x + unat y + unat c < 2 * 18446744073709551616"
    using assms unat_lt_64 [of x] unat_lt_64 [of y] by auto
  have s: "unat (x + y + c) = (unat x + unat y + unat c) mod 18446744073709551616"
    by (simp add: unat_word_ariths mod_add_left_eq)
  have s2: "unat (x + y + c) = (if unat x + unat y + unat c < 18446744073709551616
      then unat x + unat y + unat c else unat x + unat y + unat c - 18446744073709551616)"
    unfolding s using b by (simp add: mod_once)
  have l: "x + y + c < x \<longleftrightarrow> unat (x + y + c) < unat x" "x + y + c = x \<longleftrightarrow> unat (x + y + c) = unat x"
    by (simp_all only: word_less_nat_alt word_unat_eq_iff)
  have c0: "c \<noteq> 0 \<longleftrightarrow> unat c = 1" and c1: "unat c \<le> 1" using assms by auto
  show ?thesis
    unfolding l c0 by (rule carry_nat [OF s2 c1 unat_lt_64 unat_lt_64])
qed

lemma sub_borrow_step:
  fixes x y c :: u64
  assumes "c = 0 \<or> c = 1"
  shows "unat (x - y - c) + unat y + unat c
         = unat x + 18446744073709551616 * (if x < y \<or> (x = y \<and> c \<noteq> 0) then 1 else 0)"
proof -
  have e: "unat (x - y - c) = (if unat y + unat c \<le> unat x then unat x - (unat y + unat c)
        else 18446744073709551616 + unat x - (unat y + unat c))"
    using assms unat_lt_64 [of x] unat_lt_64 [of y]
    by (auto simp: unat_sub_if' word_le_nat_alt)
  have l: "x < y \<longleftrightarrow> unat x < unat y" "x = y \<longleftrightarrow> unat x = unat y"
    by (simp_all only: word_less_nat_alt word_unat_eq_iff)
  show ?thesis unfolding l e
    using assms unat_lt_64 [of x] unat_lt_64 [of y] by auto
qed

lemma upt4: "[0..<4] = [0, 1, 2, 3::nat]" by (simp add: upt_rec)

definition add_cout :: "u64 \<Rightarrow> u64 \<Rightarrow> u64 \<Rightarrow> u64" where
  "add_cout x y c = (if x + y + c < x \<or> (x + y + c = x \<and> c \<noteq> 0) then 1 else 0)"

lemma evm_u256_add_unfold:
  "evm_u256_add (UInt256 a0 a1 a2 a3) (UInt256 b0 b1 b2 b3) =
     (let c1 = add_cout a0 b0 0; c2 = add_cout a1 b1 c1; c3 = add_cout a2 b2 c2
      in UInt256 (a0 + b0) (a1 + b1 + c1) (a2 + b2 + c2) (a3 + b3 + c3))"
  by (simp add: evm_u256_add_def upt4 Let_def add_cout_def u256_zero_def)

lemma add_cout_bit: "add_cout x y c = 0 \<or> add_cout x y c = 1"
  by (simp add: add_cout_def)

lemma add_cout_step:
  assumes "c = 0 \<or> c = 1"
  shows "unat (x + y + c) + 18446744073709551616 * unat (add_cout x y c) = unat x + unat y + unat c"
  using add_carry_step [OF assms, of x y]
  unfolding add_cout_def by (simp only: if_distrib [of unat] unat_0 unat_1 cong: if_cong)

lemma uval_add_carry:
  assumes "a = UInt256 a0 a1 a2 a3" "b = UInt256 b0 b1 b2 b3"
    and "c1 = add_cout a0 b0 0" "c2 = add_cout a1 b1 c1" "c3 = add_cout a2 b2 c2" "c4 = add_cout a3 b3 c3"
  shows "uval (evm_u256_add a b) + 2 ^ 256 * unat c4 = uval a + uval b"
proof -
  have bits: "c1 = 0 \<or> c1 = 1" "c2 = 0 \<or> c2 = 1" "c3 = 0 \<or> c3 = 1"
    unfolding assms by (rule add_cout_bit)+
  have "evm_u256_add a b = UInt256 (a0 + b0 + 0) (a1 + b1 + c1) (a2 + b2 + c2) (a3 + b3 + c3)"
    by (simp add: assms evm_u256_add_unfold Let_def)
  moreover have "unat (a0 + b0 + 0) + 18446744073709551616 * unat c1 = unat a0 + unat b0 + unat (0::u64)"
    unfolding assms by (rule add_cout_step) simp
  moreover have "unat (a1 + b1 + c1) + 18446744073709551616 * unat c2 = unat a1 + unat b1 + unat c1"
    unfolding assms(4) by (rule add_cout_step [OF bits(1)])
  moreover have "unat (a2 + b2 + c2) + 18446744073709551616 * unat c3 = unat a2 + unat b2 + unat c2"
    unfolding assms(5) by (rule add_cout_step [OF bits(2)])
  moreover have "unat (a3 + b3 + c3) + 18446744073709551616 * unat c4 = unat a3 + unat b3 + unat c3"
    unfolding assms(6) by (rule add_cout_step [OF bits(3)])
  ultimately show ?thesis
    unfolding assms(1,2) uval_UInt256 by (simp add: uval_UInt256)
qed

lemma uval_add: "uval (evm_u256_add a b) = (uval a + uval b) mod 2 ^ 256"
proof -
  obtain a0 a1 a2 a3 b0 b1 b2 b3 where e: "a = UInt256 a0 a1 a2 a3" "b = UInt256 b0 b1 b2 b3"
    by (cases a, cases b) blast
  obtain c where "uval (evm_u256_add a b) + 2 ^ 256 * c = uval a + uval b"
    using uval_add_carry [OF e refl refl refl refl] by blast
  then show ?thesis
    by (metis mod_less mod_mult_self2 uval_bound)
qed

definition sub_bout :: "u64 \<Rightarrow> u64 \<Rightarrow> u64 \<Rightarrow> u64" where
  "sub_bout x y c = (if x < y \<or> (x = y \<and> c \<noteq> 0) then 1 else 0)"

lemma evm_u256_sub_unfold:
  "evm_u256_sub (UInt256 a0 a1 a2 a3) (UInt256 b0 b1 b2 b3) =
     (let c1 = sub_bout a0 b0 0; c2 = sub_bout a1 b1 c1; c3 = sub_bout a2 b2 c2
      in UInt256 (a0 - b0) (a1 - b1 - c1) (a2 - b2 - c2) (a3 - b3 - c3))"
  by (simp add: evm_u256_sub_def upt4 Let_def sub_bout_def u256_zero_def)

lemma sub_bout_bit: "sub_bout x y c = 0 \<or> sub_bout x y c = 1"
  by (simp add: sub_bout_def)

lemma sub_bout_step:
  assumes "c = 0 \<or> c = 1"
  shows "unat (x - y - c) + unat y + unat c = unat x + 18446744073709551616 * unat (sub_bout x y c)"
  using sub_borrow_step [OF assms, of x y]
  unfolding sub_bout_def by (simp only: if_distrib [of unat] unat_0 unat_1 cong: if_cong)

lemma uval_sub_borrow:
  assumes "a = UInt256 a0 a1 a2 a3" "b = UInt256 b0 b1 b2 b3"
    and "c1 = sub_bout a0 b0 0" "c2 = sub_bout a1 b1 c1" "c3 = sub_bout a2 b2 c2" "c4 = sub_bout a3 b3 c3"
  shows "uval (evm_u256_sub a b) + uval b = uval a + 2 ^ 256 * unat c4"
proof -
  have bits: "c1 = 0 \<or> c1 = 1" "c2 = 0 \<or> c2 = 1" "c3 = 0 \<or> c3 = 1"
    unfolding assms by (rule sub_bout_bit)+
  have "evm_u256_sub a b = UInt256 (a0 - b0 - 0) (a1 - b1 - c1) (a2 - b2 - c2) (a3 - b3 - c3)"
    by (simp add: assms evm_u256_sub_unfold Let_def)
  moreover have "unat (a0 - b0 - 0) + unat b0 + unat (0::u64) = unat a0 + 18446744073709551616 * unat c1"
    unfolding assms by (rule sub_bout_step) simp
  moreover have "unat (a1 - b1 - c1) + unat b1 + unat c1 = unat a1 + 18446744073709551616 * unat c2"
    unfolding assms(4) by (rule sub_bout_step [OF bits(1)])
  moreover have "unat (a2 - b2 - c2) + unat b2 + unat c2 = unat a2 + 18446744073709551616 * unat c3"
    unfolding assms(5) by (rule sub_bout_step [OF bits(2)])
  moreover have "unat (a3 - b3 - c3) + unat b3 + unat c3 = unat a3 + 18446744073709551616 * unat c4"
    unfolding assms(6) by (rule sub_bout_step [OF bits(3)])
  ultimately show ?thesis
    unfolding assms(1,2) uval_UInt256 by (simp add: uval_UInt256)
qed

lemma uval_sub: "uval (evm_u256_sub a b) = (2 ^ 256 + uval a - uval b) mod 2 ^ 256"
proof -
  obtain a0 a1 a2 a3 b0 b1 b2 b3 where e: "a = UInt256 a0 a1 a2 a3" "b = UInt256 b0 b1 b2 b3"
    by (cases a, cases b) blast
  let ?c = "sub_bout a3 b3 (sub_bout a2 b2 (sub_bout a1 b1 (sub_bout a0 b0 0)))"
  have eq: "uval (evm_u256_sub a b) + uval b = uval a + 2 ^ 256 * unat ?c"
    by (rule uval_sub_borrow [OF e refl refl refl refl])
  have bit: "unat ?c = 0 \<or> unat ?c = 1"
    using sub_bout_bit [of a3 b3] by (metis unat_0 unat_1)
  show ?thesis
  proof (cases "unat ?c = 0")
    case True
    with eq have "2 ^ 256 + uval a - uval b = 2 ^ 256 + uval (evm_u256_sub a b)" by simp
    then show ?thesis using uval_bound [of "evm_u256_sub a b"] by simp
  next
    case False
    with bit eq have "2 ^ 256 + uval a - uval b = uval (evm_u256_sub a b)" by simp
    then show ?thesis using uval_bound [of "evm_u256_sub a b"] by simp
  qed
qed

subsection \<open>Exactness of multiplication\<close>

text \<open>The number a vector of 32-bit halves denotes, least significant first.\<close>

fun val32 :: "u32 list \<Rightarrow> nat" where
  "val32 [] = 0"
| "val32 (x # xs) = unat x + 2 ^ 32 * val32 xs"

lemma val32_update:
  "k < length xs \<Longrightarrow>
   val32 (xs[k := x]) + unat (xs ! k) * (2 ^ 32) ^ k = val32 xs + unat x * (2 ^ 32) ^ k"
proof (induction xs arbitrary: k)
  case Nil
  then show ?case by simp
next
  case (Cons y ys)
  show ?case
  proof (cases k)
    case 0
    then show ?thesis by simp
  next
    case (Suc m)
    with Cons have "val32 (ys[m := x]) + unat (ys ! m) * (2 ^ 32) ^ m = val32 ys + unat x * (2 ^ 32) ^ m"
      by simp
    then have "2 ^ 32 * (val32 (ys[m := x]) + unat (ys ! m) * (2 ^ 32) ^ m)
        = 2 ^ 32 * (val32 ys + unat x * (2 ^ 32) ^ m)" by (rule arg_cong)
    then show ?thesis by (simp add: Suc distrib_left mult.left_commute)
  qed
qed

lemma val32_bound: "val32 xs < (2 ^ 32) ^ length xs"
proof (induction xs)
  case Nil
  then show ?case by simp
next
  case (Cons x xs)
  have "unat x + 2 ^ 32 * val32 xs < 2 ^ 32 * (val32 xs + 1)"
    using unat_lt_32 [of x] by simp
  also have "\<dots> \<le> 2 ^ 32 * (2 ^ 32) ^ length xs"
    using Cons by (intro mult_left_mono) auto
  finally show ?case by simp
qed

lemma val32_replicate_0 [simp]: "val32 (replicate n 0) = 0"
  by (induction n) auto

lemma val32_take_Suc:
  "k < length xs \<Longrightarrow> val32 (take (Suc k) xs) = val32 (take k xs) + unat (xs ! k) * (2 ^ 32) ^ k"
proof (induction xs arbitrary: k)
  case Nil
  then show ?case by simp
next
  case (Cons x xs)
  then show ?case
    by (cases k) (auto simp: distrib_left mult.left_commute)
qed

lemma val32_take_drop: "val32 xs = val32 (take k xs) + (2 ^ 32) ^ k * val32 (drop k xs)"
proof (induction xs arbitrary: k)
  case Nil
  then show ?case by simp
next
  case (Cons x xs)
  show ?case
  proof (cases k)
    case 0
    then show ?thesis by simp
  next
    case (Suc m)
    have "2 ^ 32 * val32 xs = 2 ^ 32 * (val32 (take m xs) + (2 ^ 32) ^ m * val32 (drop m xs))"
      using Cons.IH [of m] by simp
    then show ?thesis by (simp add: Suc distrib_left mult.assoc)
  qed
qed

lemma mul_step:
  fixes x y r :: u32 and c :: u64
  defines "p \<equiv> ucast x * ucast y + ucast r + c :: u64"
  assumes "unat c < 2 ^ 32"
  shows "unat (ucast (p AND 0xFFFFFFFF) :: u32) + 2 ^ 32 * unat (drop_bit 32 p)
         = unat x * unat y + unat r + unat c"
    and "unat (drop_bit 32 p) < 2 ^ 32"
proof -
  have le: "unat x * unat y \<le> (2 ^ 32 - 1) * (2 ^ 32 - 1)"
    using unat_lt_32 [of x] unat_lt_32 [of y] by (intro mult_le_mono) auto
  have b: "unat x * unat y + unat r + unat c < 2 ^ 64"
    using le unat_lt_32 [of r] assms(2) by simp
  have u: "unat p = unat x * unat y + unat r + unat c"
  proof -
    have "unat p = (unat x * unat y + unat r + unat c) mod 2 ^ 64"
      by (simp add: p_def unat_word_ariths unsigned_ucast_eq take_bit_eq_mod mod_simps unat_lt_32 order_less_le_trans [OF unat_lt_32])
    then show ?thesis using b by simp
  qed
  have m: "(0xFFFFFFFF :: u64) = mask 32" by (simp add: mask_eq_exp_minus_1)
  have l: "unat (ucast (p AND 0xFFFFFFFF) :: u32) = unat p mod 2 ^ 32"
    unfolding m take_bit_eq_mask [symmetric] unsigned_ucast_eq unsigned_take_bit_eq
    by (simp add: take_bit_eq_mod [of _ "_ :: nat"])
  have h: "unat (drop_bit 32 p) = unat p div 2 ^ 32"
    by (simp add: unsigned_drop_bit_eq drop_bit_eq_div [of _ "_ :: nat"] take_bit_eq_mod [of _ "_ :: nat"] unat_lt_64)
  show "unat (ucast (p AND 0xFFFFFFFF) :: u32) + 2 ^ 32 * unat (drop_bit 32 p)
         = unat x * unat y + unat r + unat c"
    unfolding l h using u by simp
  show "unat (drop_bit 32 p) < 2 ^ 32"
    unfolding h using b u by (simp add: less_mult_imp_div_less)
qed


definition mul_pair :: "u32 \<Rightarrow> u32 \<Rightarrow> u32 \<Rightarrow> u64 \<Rightarrow> u32 \<times> u64" where
  "mul_pair x y r c = (let p = ucast x * ucast y + ucast r + c
      in (ucast (p AND 0xFFFFFFFF), drop_bit 32 p))"

lemma mul_pair_value:
  assumes "mul_pair x y r c = (l, h)" "unat c < 2 ^ 32"
  shows "unat l + 2 ^ 32 * unat h = unat x * unat y + unat r + unat c" "unat h < 2 ^ 32"
  using mul_step [OF assms(2), of x y r] assms(1) by (auto simp: mul_pair_def Let_def)

lemma val32_single:
  fixes B :: nat
  assumes "L + B * H = X * Y + R + C" "V' + R * Bk = V + L * Bk"
    and "V + C * Bk = V0 + X * Bi * W" "Bk = Bi * Bj"
  shows "V' + H * (B * Bk) = V0 + X * Bi * (W + Y * Bj)"
proof -
  have "V' + R * Bk + H * (B * Bk) = V + (L + B * H) * Bk"
    using assms(2) by (simp add: algebra_simps)
  also have "\<dots> = V + C * Bk + X * Y * Bk + R * Bk"
    by (simp add: assms(1) algebra_simps)
  also have "\<dots> = V0 + X * Bi * W + X * Y * Bk + R * Bk" by (simp add: assms(3))
  finally show ?thesis by (simp add: assms(4) algebra_simps)
qed

definition mul_inner_loop where
  "mul_inner_loop a32 b32 i n r32 = foldl (\<lambda>(r, carry) j.
            let (l, h) = mul_pair (a32 ! i) (b32 ! j) (r ! (i + j)) carry
            in (r[i + j := l], h)) (r32, 0) [0..<n]"

lemma mul_inner_loop: "mul_inner a32 b32 i r32 = fst (mul_inner_loop a32 b32 i (8 - i) r32)"
  by (simp add: mul_inner_def mul_inner_loop_def mul_pair_def Let_def)

lemma mul_inner_loop_inv:
  assumes "i + n \<le> length r32" "n \<le> length b32" "mul_inner_loop a32 b32 i n r32 = (r, c)"
  shows "val32 r + unat c * (2 ^ 32) ^ (i + n)
           = val32 r32 + unat (a32 ! i) * (2 ^ 32) ^ i * val32 (take n b32)
         \<and> unat c < 2 ^ 32 \<and> length r = length r32"
  using assms
proof (induction n arbitrary: r c)
  case 0
  then show ?case by (simp add: mul_inner_loop_def)
next
  case (Suc n)
  obtain r1 c1 where e: "mul_inner_loop a32 b32 i n r32 = (r1, c1)" by fastforce
  obtain l h where p: "mul_pair (a32 ! i) (b32 ! n) (r1 ! (i + n)) c1 = (l, h)" by fastforce
  have IH: "val32 r1 + unat c1 * (2 ^ 32) ^ (i + n)
           = val32 r32 + unat (a32 ! i) * (2 ^ 32) ^ i * val32 (take n b32)"
      "unat c1 < 2 ^ 32" "length r1 = length r32"
    using Suc.IH [OF _ _ e] Suc.prems by auto
  have rc: "r = r1[i + n := l]" "c = h"
    using Suc.prems(3) e p by (simp_all add: mul_inner_loop_def)
  note mp = mul_pair_value [OF p IH(2)]
  have up: "val32 r + unat (r1 ! (i + n)) * (2 ^ 32) ^ (i + n) = val32 r1 + unat l * (2 ^ 32) ^ (i + n)"
    unfolding rc using Suc.prems(1) IH(3) by (intro val32_update) simp
  have "val32 r + unat h * (2 ^ 32 * (2 ^ 32) ^ (i + n)) = val32 r32 + unat (a32 ! i) * (2 ^ 32) ^ i *
      (val32 (take n b32) + unat (b32 ! n) * (2 ^ 32) ^ n)"
    by (rule val32_single [OF mp(1) up IH(1)]) (simp add: power_add)
  then show ?case
    using Suc.prems(2) mp(2) IH(3) rc by (simp add: val32_take_Suc)
qed


lemma mul_inner_length: "i \<le> 8 \<Longrightarrow> length r32 = 8 \<Longrightarrow> length b32 = 8 \<Longrightarrow> length (mul_inner a32 b32 i r32) = 8"
  using mul_inner_loop_inv [of i "8 - i" r32 b32 a32]
  by (cases "mul_inner_loop a32 b32 i (8 - i) r32") (simp add: mul_inner_loop)

lemma mul_inner_mod:
  assumes "i < 8" "length r32 = 8" "length b32 = 8"
  shows "val32 (mul_inner a32 b32 i r32) mod 2 ^ 256
         = (val32 r32 + unat (a32 ! i) * (2 ^ 32) ^ i * val32 b32) mod 2 ^ 256"
proof -
  obtain r c where e: "mul_inner_loop a32 b32 i (8 - i) r32 = (r, c)" by fastforce
  have inv: "val32 r + unat c * 2 ^ 256
           = val32 r32 + unat (a32 ! i) * (2 ^ 32) ^ i * val32 (take (8 - i) b32)"
    using mul_inner_loop_inv [OF _ _ e] assms by (simp flip: power_mult)
  have "(2 ^ 32) ^ i * ((2 ^ 32) ^ (8 - i) * val32 (drop (8 - i) b32)) = 2 ^ 256 * val32 (drop (8 - i) b32)"
    using assms(1) by (simp add: mult.assoc [symmetric] flip: power_add power_mult)
  then have "unat (a32 ! i) * (2 ^ 32) ^ i * val32 b32
      = unat (a32 ! i) * (2 ^ 32) ^ i * val32 (take (8 - i) b32)
        + 2 ^ 256 * (unat (a32 ! i) * val32 (drop (8 - i) b32))"
    using val32_take_drop [of b32 "8 - i"] by (simp add: distrib_left mult.assoc mult.left_commute)
  then have "val32 r32 + unat (a32 ! i) * (2 ^ 32) ^ i * val32 b32
      = val32 r + 2 ^ 256 * (unat c + unat (a32 ! i) * val32 (drop (8 - i) b32))"
    using inv by (simp add: distrib_left)
  then show ?thesis
    by (simp only: mul_inner_loop e fst_conv mod_mult_self2)
qed

lemma mul_rows_mod:
  assumes "n \<le> 8" "length a32 = 8" "length b32 = 8"
  shows "length (foldl (\<lambda>r32 i. mul_inner a32 b32 i r32) (replicate 8 0) [0..<n]) = 8
    \<and> val32 (foldl (\<lambda>r32 i. mul_inner a32 b32 i r32) (replicate 8 0) [0..<n]) mod 2 ^ 256
        = (val32 (take n a32) * val32 b32) mod 2 ^ 256"
  using assms(1)
proof (induction n)
  case 0
  then show ?case by simp
next
  case (Suc n)
  let ?r = "foldl (\<lambda>r32 i. mul_inner a32 b32 i r32) (replicate 8 0) [0..<n]"
  have IH: "length ?r = 8" "val32 ?r mod 2 ^ 256 = (val32 (take n a32) * val32 b32) mod 2 ^ 256"
    using Suc by auto
  have "val32 (mul_inner a32 b32 n ?r) mod 2 ^ 256
      = (val32 ?r + unat (a32 ! n) * (2 ^ 32) ^ n * val32 b32) mod 2 ^ 256"
    using Suc.prems IH(1) assms(3) by (intro mul_inner_mod) auto
  also have "\<dots> = (val32 (take n a32) * val32 b32 + unat (a32 ! n) * (2 ^ 32) ^ n * val32 b32) mod 2 ^ 256"
    using IH(2) by (metis mod_add_left_eq)
  also have "\<dots> = (val32 (take (Suc n) a32) * val32 b32) mod 2 ^ 256"
    using Suc.prems assms(2) by (simp add: val32_take_Suc distrib_right)
  finally show ?case
    using Suc.prems IH(1) assms(3) by (simp add: mul_inner_length)
qed

lemma unat_halves:
  fixes x :: u64
  shows "unat (ucast (x AND 0xFFFFFFFF) :: u32) + 2 ^ 32 * unat (ucast (drop_bit 32 x) :: u32) = unat x"
proof -
  have m: "(0xFFFFFFFF :: u64) = mask 32" by (simp add: mask_eq_exp_minus_1)
  have l: "unat (ucast (x AND 0xFFFFFFFF) :: u32) = unat x mod 2 ^ 32"
    unfolding m take_bit_eq_mask [symmetric] unsigned_ucast_eq unsigned_take_bit_eq
    by (simp add: take_bit_eq_mod [of _ "_ :: nat"])
  have "unat x div 2 ^ 32 < 2 ^ 32"
    using unat_lt_64 [of x] by (simp add: less_mult_imp_div_less)
  then have h: "unat (ucast (drop_bit 32 x) :: u32) = unat x div 2 ^ 32"
    by (simp add: unsigned_ucast_eq unsigned_drop_bit_eq drop_bit_eq_div [of _ "_ :: nat"]
        take_bit_eq_mod [of _ "_ :: nat"] unat_lt_64)
  show ?thesis unfolding l h by simp
qed

lemma split32_length: "length (split32 a) = 8"
  by (simp add: split32_def upt4)

lemma replicate_8: "replicate 8 x = [x, x, x, x, x, x, x, x]"
  by (simp add: numeral_eq_Suc)

lemma split32_list:
  "split32 (UInt256 a0 a1 a2 a3) =
     [ucast (a0 AND 0xFFFFFFFF), ucast (drop_bit 32 a0), ucast (a1 AND 0xFFFFFFFF), ucast (drop_bit 32 a1),
      ucast (a2 AND 0xFFFFFFFF), ucast (drop_bit 32 a2), ucast (a3 AND 0xFFFFFFFF), ucast (drop_bit 32 a3)]"
  by (simp add: split32_def upt4 replicate_8)

lemma val32_split32: "val32 (split32 a) = uval a"
proof (cases a)
  case (UInt256 a0 a1 a2 a3)
  show ?thesis
    using unat_halves [of a0] unat_halves [of a1] unat_halves [of a2] unat_halves [of a3]
    by (simp add: UInt256 split32_list uval_UInt256)
qed

lemma unat_join:
  fixes h l :: u32
  shows "unat (push_bit 32 (ucast h) OR ucast l :: u64) = unat l + 2 ^ 32 * unat h"
proof -
  have d: "(push_bit 32 (ucast h) :: u64) AND ucast l = 0"
    by (rule bit_word_eqI) (auto simp: bit_simps dest: bit_imp_le_length)
  have u: "unat (ucast h :: u64) = unat h" "unat (ucast l :: u64) = unat l"
    using unat_lt_32 [of h] unat_lt_32 [of l]
    by (simp_all add: unsigned_ucast_eq take_bit_eq_mod [of _ "_ :: nat"])
  have "push_bit 32 (ucast h) OR ucast l = (push_bit 32 (ucast h) + ucast l :: u64)"
    using d by (simp add: disjunctive_add_eq_or)
  moreover have "unat (push_bit 32 (ucast h) :: u64) = 2 ^ 32 * unat h"
    using unat_lt_32 [of h]
    by (simp add: push_bit_eq_mult unat_word_ariths u)
  ultimately show ?thesis
    using unat_lt_32 [of h] unat_lt_32 [of l] by (simp add: unat_word_ariths u)
qed

lemma join32_list:
  "join32 [r0, r1, r2, r3, r4, r5, r6, r7] =
     UInt256 (push_bit 32 (ucast r1) OR ucast r0) (push_bit 32 (ucast r3) OR ucast r2)
             (push_bit 32 (ucast r5) OR ucast r4) (push_bit 32 (ucast r7) OR ucast r6)"
  by (simp add: join32_def upt4 u256_zero_def)

lemma length_8: "length xs = 8 \<Longrightarrow> \<exists>r0 r1 r2 r3 r4 r5 r6 r7. xs = [r0, r1, r2, r3, r4, r5, r6, r7]"
  by (auto simp: numeral_eq_Suc length_Suc_conv)

lemma uval_join32: "length r = 8 \<Longrightarrow> uval (join32 r) = val32 r"
  by (drule length_8) (auto simp: join32_list uval_UInt256 unat_join)

lemma uval_mul: "uval (evm_u256_mul a b) = (uval a * uval b) mod 2 ^ 256"
proof -
  let ?r = "foldl (\<lambda>r32 i. mul_inner (split32 a) (split32 b) i r32) (replicate 8 0) [0..<8]"
  have "length ?r = 8" "val32 ?r mod 2 ^ 256 = (uval a * uval b) mod 2 ^ 256"
    using mul_rows_mod [of 8 "split32 a" "split32 b"] by (simp_all add: split32_length val32_split32)
  moreover from this(1) have "val32 ?r < 2 ^ 256"
    using val32_bound [of ?r] by simp
  ultimately show ?thesis
    by (simp add: evm_u256_mul_def uval_join32)
qed

subsection \<open>The limb vectors as an instance of the arithmetic interface\<close>

lemma radix_inj:
  fixes B :: nat
  assumes "x + B * q = x' + B * q'" "x < B" "x' < B"
  shows "x = x' \<and> q = q'"
proof -
  have "(x + B * q) mod B = x" "(x' + B * q') mod B = x'" using assms(2,3) by simp_all
  then have "x = x'" using assms(1) by simp
  then show ?thesis using assms by simp
qed

lemma uval_nested:
  "uval (UInt256 a b c d) = unat a + 2 ^ 64 * (unat b + 2 ^ 64 * (unat c + 2 ^ 64 * unat d))"
  by (simp add: uval_UInt256)

lemma uval_inj:
  assumes "uval x = uval y"
  shows "x = y"
proof -
  obtain a b c d where x: "x = UInt256 a b c d" by (cases x)
  obtain a' b' c' d' where y: "y = UInt256 a' b' c' d'" by (cases y)
  have bnd: "unat w < 2 ^ 64" for w :: u64 using unat_lt_64 [of w] by simp
  note e0 = assms [unfolded x y uval_nested]
  note e1 = radix_inj [OF e0 bnd bnd]
  note e2 = radix_inj [OF e1 [THEN conjunct2] bnd bnd]
  note e3 = radix_inj [OF e2 [THEN conjunct2] bnd bnd]
  show ?thesis using e1 e2 e3 by (simp add: x y word_unat_eq_iff)
qed

interpretation limbs: arith256 "\<lambda>_. True" uval u256_zero evm_u256_add evm_u256_sub evm_u256_mul
proof unfold_locales
  show "uval a < M256" for a using uval_bound [of a] by (simp only: M256_def)
  show "uval a = uval b \<Longrightarrow> a = b" for a b by (rule uval_inj)
qed (simp_all only: uval_add uval_sub uval_mul uval_zero M256_def)

subsection \<open>Sign, negation and the division stub\<close>

lemma unat_top_bit:
  fixes x :: u64
  shows "drop_bit 63 x AND 1 \<noteq> 0 \<longleftrightarrow> 2 ^ 63 \<le> unat x"
proof -
  have d: "unat (drop_bit 63 x) = unat x div 2 ^ 63"
    by (simp add: unsigned_drop_bit_eq drop_bit_eq_div [of _ "_ :: nat"] take_bit_eq_mod [of _ "_ :: nat"] unat_lt_64)
  have "unat x div 2 ^ 63 < 2" using unat_lt_64 [of x] by (simp add: less_mult_imp_div_less)
  then have "unat (drop_bit 63 x) = 0 \<or> unat (drop_bit 63 x) = 1" unfolding d by linarith
  then have "drop_bit 63 x = 0 \<or> drop_bit 63 x = 1" by (metis word_unat_eq_iff unat_0 unat_1)
  then have "drop_bit 63 x AND 1 \<noteq> 0 \<longleftrightarrow> unat (drop_bit 63 x) = 1"
    by (elim disjE) simp_all
  also have "\<dots> \<longleftrightarrow> 2 ^ 63 \<le> unat x"
    unfolding d using \<open>unat x div 2 ^ 63 < 2\<close> less_eq_div_iff_mult_less_eq [of "2 ^ 63" 1 "unat x"]
    by (metis Suc_leI less_2_cases_iff mult_1 not_less_eq_eq le_refl one_neq_zero One_nat_def zero_less_power zero_less_numeral)
  finally show ?thesis .
qed

lemma is_neg_iff: "evm_u256_is_neg a \<longleftrightarrow> 2 ^ 255 \<le> uval a"
proof -
  obtain a0 a1 a2 a3 where a: "a = UInt256 a0 a1 a2 a3" by (cases a)
  have "evm_u256_is_neg a \<longleftrightarrow> 2 ^ 63 \<le> unat a3"
    by (simp only: a evm_u256_is_neg_def uint256.sel unat_top_bit)
  also have "\<dots> \<longleftrightarrow> 2 ^ 255 \<le> uval a"
    using unat_lt_64 [of a0] unat_lt_64 [of a1] unat_lt_64 [of a2] unfolding a uval_UInt256
    by simp linarith
  finally show ?thesis .
qed

lemma is_neg_sval: "evm_u256_is_neg a \<longleftrightarrow> sval256 (uval a) < 0"
  using limbs.val_bound [of a] by (simp add: is_neg_iff sval256_def signed_of_def M256_def) 

lemma uval_eq_1_iff: "uval b = 1 \<longleftrightarrow> limb0 b = 1 \<and> limb1 b = 0 \<and> limb2 b = 0 \<and> limb3 b = 0"
proof -
  have "uval (UInt256 1 0 0 0) = 1" by (simp add: uval_UInt256)
  then have "uval b = 1 \<longleftrightarrow> b = UInt256 1 0 0 0" using uval_inj by metis
  then show ?thesis by (cases b) simp
qed

lemma uval_div: "uval (evm_u256_div a b) = (if uval b = 1 then uval a else 0)"
  unfolding evm_u256_div_def uval_eq_1_iff by simp

definition u256_abs :: "uint256 \<Rightarrow> uint256" where
  "u256_abs a = (if evm_u256_is_neg a then evm_u256_neg a else a)"

lemma sdiv_abs:
  "evm_u256_sdiv a b =
     (if evm_u256_is_neg a \<noteq> evm_u256_is_neg b then evm_u256_neg (evm_u256_div (u256_abs a) (u256_abs b))
      else evm_u256_div (u256_abs a) (u256_abs b))"
  by (simp add: evm_u256_sdiv_def u256_abs_def Let_def)

lemma uval_abs: "int (uval (u256_abs a)) = \<bar>sval256 (uval a)\<bar>"
proof (cases "evm_u256_is_neg a")
  case True
  have "uval (u256_abs a) = M256 - uval a"
    using True limbs.neg_val [of a] is_neg_iff [of a]
    by (simp add: u256_abs_def evm_u256_neg_def M256_def)
  then show ?thesis
    using True limbs.val_bound [of a] is_neg_iff [of a]
    by (simp add: sval256_def signed_of_def M256_def)
next
  case False
  then show ?thesis
    using is_neg_iff [of a] by (simp add: u256_abs_def sval256_def signed_of_def)
qed

subsection \<open>Properties\<close>

text \<open>C1: the limb loops of addition, subtraction and multiplication are exact arithmetic modulo
  2^256: no carry, borrow or partial product is lost, at any operands.\<close>

theorem evm_u256_exact:
  "uval (evm_u256_add a b) = (uval a + uval b) mod 2 ^ 256
   \<and> uval (evm_u256_sub a b) = (2 ^ 256 + uval a - uval b) mod 2 ^ 256
   \<and> uval (evm_u256_mul a b) = (uval a * uval b) mod 2 ^ 256"
  by (intro conjI uval_add uval_sub uval_mul)

text \<open>\<^verbatim>\<open>evm_u256_neg\<close> is two's-complement negation: applied twice it is the identity, it cancels
  under addition, and it negates the signed value of every number but the least one, which
  \<^verbatim>\<open>evm_u256_is_neg\<close> classifies by its sign.\<close>

lemma evm_u256_neg_twos_complement:
  "evm_u256_neg (evm_u256_neg a) = a
   \<and> evm_u256_add a (evm_u256_neg a) = u256_zero
   \<and> (uval a \<noteq> 2 ^ 255 \<longrightarrow> sval256 (uval (evm_u256_neg a)) = - sval256 (uval a))
   \<and> (evm_u256_is_neg a \<longleftrightarrow> sval256 (uval a) < 0)"
  unfolding evm_u256_neg_def
  using limbs.neg_involutive [of a] limbs.sub_add_cancel [of u256_zero a]
    limbs.add_commute [of "evm_u256_sub u256_zero a" a] limbs.neg_signed [of a] is_neg_sval [of a]
  by simp

lemma evm_u256_neg_twos_complement_witness:
  "sval256 (uval (evm_u256_neg (UInt256 5 0 0 0))) = - 5"
proof -
  have "uval (UInt256 5 0 0 0) = 5" by (simp add: uval_UInt256)
  then show ?thesis
    using evm_u256_neg_twos_complement [of "UInt256 5 0 0 0"] by (simp add: sval256_def signed_of_def)
qed

text \<open>The division routine is a stub; this is exactly when it is nevertheless right: its result is
  the EVM's quotient (0 for a zero divisor) just when the divisor is at most 1 or exceeds the
  dividend.\<close>

lemma evm_u256_div_exact_iff:
  "uval (evm_u256_div a b) = uval a div uval b \<longleftrightarrow> uval b \<le> 1 \<or> uval a < uval b"
  unfolding uval_div by (cases "uval b = 0") (auto simp: div_eq_0_iff)

end
