(* ===== verification/IR.thy ===== *)
theory IR
  imports U256 "HOL-Library.Sublist"
begin

text \<open>
  The intermediate representation of \<^verbatim>\<open>ir.h\<close> and \<^verbatim>\<open>ir.c\<close>: opcodes, types, nodes, functions, modules,
  the emitter and the query helpers.

  A function's intrusive list of nodes is the list \<open>fn_nodes\<close>; a node pointer is an index into it.
  \<open>fn_node_count\<close> is the separate counter that the C code maintains by hand. Record fields carry the
  prefixes \<open>nd_\<close>, \<open>fn_\<close> and \<open>md_\<close>; \<^verbatim>\<open>phi_count\<close> is the length of \<open>nd_phi_ops\<close> and \<^verbatim>\<open>func_count\<close> the
  length of \<open>md_funcs\<close>. An \<^verbatim>\<open>exit(1)\<close> is \<open>None\<close>; allocation is assumed to succeed. The counters that
  name temporaries and labels only grow from 0 and are natural numbers.
\<close>

subsection \<open>Opcodes and types\<close>

datatype ir_op =
    IR_RET | IR_BR | IR_BR_IF | IR_ALLOCA | IR_LOAD | IR_STORE | IR_ADD | IR_SUB | IR_MUL |
    IR_DIV | IR_MOD | IR_NEG | IR_AND | IR_OR | IR_XOR | IR_NOT | IR_SHL | IR_SHR | IR_EQ |
    IR_NE | IR_LT | IR_LE | IR_GT | IR_GE | IR_CAST | IR_COPY | IR_CONST | IR_CONST_STR |
    IR_CALL | IR_ARG | IR_PHI | IR_ADDR | IR_LABEL | IR_NOP | IR_FCONST | IR_FADD | IR_FSUB |
    IR_FMUL | IR_FDIV | IR_ITOF | IR_FTOI | IR_ASM | IR_VLOAD | IR_VEXTRACT

datatype ir_type =
    IR_TY_VOID | IR_TY_I8 | IR_TY_I16 | IR_TY_I32 | IR_TY_I64 | IR_TY_U8 | IR_TY_U16 |
    IR_TY_U32 | IR_TY_U64 | IR_TY_PTR | IR_TY_F32 | IR_TY_F64

definition ir_ops :: "ir_op list" where
  "ir_ops = [
     IR_RET, IR_BR, IR_BR_IF, IR_ALLOCA, IR_LOAD, IR_STORE, IR_ADD, IR_SUB, IR_MUL, IR_DIV,
     IR_MOD, IR_NEG, IR_AND, IR_OR, IR_XOR, IR_NOT, IR_SHL, IR_SHR, IR_EQ, IR_NE, IR_LT, IR_LE,
     IR_GT, IR_GE, IR_CAST, IR_COPY, IR_CONST, IR_CONST_STR, IR_CALL, IR_ARG, IR_PHI, IR_ADDR,
     IR_LABEL, IR_NOP, IR_FCONST, IR_FADD, IR_FSUB, IR_FMUL, IR_FDIV, IR_ITOF, IR_FTOI, IR_ASM,
     IR_VLOAD, IR_VEXTRACT]"

fun op_code :: "ir_op \<Rightarrow> int" where
  "op_code IR_RET = 0"
| "op_code IR_BR = 1"
| "op_code IR_BR_IF = 2"
| "op_code IR_ALLOCA = 3"
| "op_code IR_LOAD = 4"
| "op_code IR_STORE = 5"
| "op_code IR_ADD = 6"
| "op_code IR_SUB = 7"
| "op_code IR_MUL = 8"
| "op_code IR_DIV = 9"
| "op_code IR_MOD = 10"
| "op_code IR_NEG = 11"
| "op_code IR_AND = 12"
| "op_code IR_OR = 13"
| "op_code IR_XOR = 14"
| "op_code IR_NOT = 15"
| "op_code IR_SHL = 16"
| "op_code IR_SHR = 17"
| "op_code IR_EQ = 18"
| "op_code IR_NE = 19"
| "op_code IR_LT = 20"
| "op_code IR_LE = 21"
| "op_code IR_GT = 22"
| "op_code IR_GE = 23"
| "op_code IR_CAST = 24"
| "op_code IR_COPY = 25"
| "op_code IR_CONST = 26"
| "op_code IR_CONST_STR = 27"
| "op_code IR_CALL = 28"
| "op_code IR_ARG = 29"
| "op_code IR_PHI = 30"
| "op_code IR_ADDR = 31"
| "op_code IR_LABEL = 32"
| "op_code IR_NOP = 33"
| "op_code IR_FCONST = 34"
| "op_code IR_FADD = 35"
| "op_code IR_FSUB = 36"
| "op_code IR_FMUL = 37"
| "op_code IR_FDIV = 38"
| "op_code IR_ITOF = 39"
| "op_code IR_FTOI = 40"
| "op_code IR_ASM = 41"
| "op_code IR_VLOAD = 42"
| "op_code IR_VEXTRACT = 43"

fun ty_code :: "ir_type \<Rightarrow> int" where
  "ty_code IR_TY_VOID = 0"
| "ty_code IR_TY_I8 = 1"
| "ty_code IR_TY_I16 = 2"
| "ty_code IR_TY_I32 = 3"
| "ty_code IR_TY_I64 = 4"
| "ty_code IR_TY_U8 = 5"
| "ty_code IR_TY_U16 = 6"
| "ty_code IR_TY_U32 = 7"
| "ty_code IR_TY_U64 = 8"
| "ty_code IR_TY_PTR = 9"
| "ty_code IR_TY_F32 = 10"
| "ty_code IR_TY_F64 = 11"

definition IR_OP_COUNT :: int where "IR_OP_COUNT = 44"

definition OP_NAMES :: "cstr list" where
  "OP_NAMES = [
     ''ret'', ''br'', ''br_if'', ''alloca'', ''load'', ''store'', ''add'', ''sub'', ''mul'',
     ''div'', ''mod'', ''neg'', ''and'', ''or'', ''xor'', ''not'', ''shl'', ''shr'', ''eq'',
     ''ne'', ''lt'', ''le'', ''gt'', ''ge'', ''cast'', ''copy'', ''const'', ''const_str'',
     ''call'', ''arg'', ''phi'', ''addr'', ''label'', ''nop'', ''fconst'', ''fadd'', ''fsub'',
     ''fmul'', ''fdiv'', ''itof'', ''ftoi'', ''asm'', ''vload'', ''vextract'']"

definition TY_NAMES :: "cstr list" where
  "TY_NAMES = [''void'', ''i8'', ''i16'', ''i32'', ''i64'', ''u8'', ''u16'', ''u32'', ''u64'',
     ''ptr'', ''f32'', ''f64'']"

definition TY_BYTES :: "int list" where
  "TY_BYTES = [0, 1, 2, 4, 8, 1, 2, 4, 8, 8, 4, 8]"

definition ir_op_name :: "int \<Rightarrow> cstr" where
  "ir_op_name op = (if op < 0 \<or> op \<ge> IR_OP_COUNT then ''???'' else OP_NAMES ! nat op)"

definition ir_type_name :: "int \<Rightarrow> cstr" where
  "ir_type_name ty = (if ty < 0 \<or> ty \<ge> 12 then ''???'' else TY_NAMES ! nat ty)"

definition ir_type_bytes :: "int \<Rightarrow> int" where
  "ir_type_bytes ty = (if ty < 0 \<or> ty \<ge> 12 then -1 else TY_BYTES ! nat ty)"

definition ir_type_unsigned :: "ir_type \<Rightarrow> bool" where
  "ir_type_unsigned ty \<longleftrightarrow> ty = IR_TY_U8 \<or> ty = IR_TY_U16 \<or> ty = IR_TY_U32 \<or> ty = IR_TY_U64"

definition ir_op_is_terminator :: "ir_op \<Rightarrow> bool" where
  "ir_op_is_terminator op \<longleftrightarrow> op = IR_RET \<or> op = IR_BR \<or> op = IR_BR_IF"

subsection \<open>Nodes, functions, modules\<close>

definition IR_NAME_MAX :: nat where "IR_NAME_MAX = 64"
definition IR_LABEL_MAX :: nat where "IR_LABEL_MAX = 64"
definition IR_FUNC_MAX :: nat where "IR_FUNC_MAX = 64"
definition IR_MAX_FUNCS :: nat where "IR_MAX_FUNCS = 8192"

type_synonym ir_phi_operand = "cstr \<times> cstr"

record ir_node =
  nd_op :: ir_op
  nd_type :: ir_type
  nd_dst :: cstr
  nd_src1 :: cstr
  nd_src2 :: cstr
  nd_label :: cstr
  nd_label2 :: cstr
  nd_asm_string :: "cstr option"
  nd_imm :: u64
  nd_imm256 :: uint256
  nd_lineno :: int
  nd_tag :: int
  nd_vuln_tags :: u32
  nd_phi_ops :: "ir_phi_operand list"
  nd_dom_id :: int
  nd_ssa_version :: int

record ir_func =
  fn_name :: cstr
  fn_ret_type :: ir_type
  fn_nodes :: "ir_node list"
  fn_node_count :: int
  fn_tmp_counter :: nat
  fn_lbl_counter :: nat
  fn_num_params :: int
  fn_param_names :: "cstr list"

record ir_module =
  md_funcs :: "ir_func list"

definition ir_node_alloc :: ir_node where
  "ir_node_alloc = \<lparr> nd_op = IR_RET, nd_type = IR_TY_VOID, nd_dst = [], nd_src1 = [], nd_src2 = [],
     nd_label = [], nd_label2 = [], nd_asm_string = None, nd_imm = 0, nd_imm256 = u256_zero,
     nd_lineno = 0, nd_tag = 0, nd_vuln_tags = 0, nd_phi_ops = [], nd_dom_id = 0, nd_ssa_version = 0 \<rparr>"

definition ir_append :: "ir_func \<Rightarrow> ir_node \<Rightarrow> ir_func" where
  "ir_append fn n = fn\<lparr> fn_nodes := fn_nodes fn @ [n], fn_node_count := fn_node_count fn + 1 \<rparr>"

definition safe_copy :: "cstr option \<Rightarrow> nat \<Rightarrow> cstr" where
  "safe_copy src mx = (case src of None \<Rightarrow> [] | Some s \<Rightarrow> c_copy mx s)"

definition or_empty :: "cstr option \<Rightarrow> cstr" where
  "or_empty s = (case s of None \<Rightarrow> [] | Some t \<Rightarrow> t)"

definition ir_emit ::
  "ir_func \<Rightarrow> ir_op \<Rightarrow> ir_type \<Rightarrow> cstr option \<Rightarrow> cstr option \<Rightarrow> cstr option \<Rightarrow> cstr option
   \<Rightarrow> u64 \<Rightarrow> int \<Rightarrow> ir_func \<times> ir_node" where
  "ir_emit fn op ty dst src1 src2 lbl imm lineno =
     (let n = ir_node_alloc\<lparr> nd_op := op, nd_type := ty, nd_imm := imm, nd_lineno := lineno,
                nd_dst := safe_copy (Some (or_empty dst)) IR_NAME_MAX,
                nd_src1 := safe_copy (Some (or_empty src1)) IR_NAME_MAX,
                nd_src2 := safe_copy (Some (or_empty src2)) IR_NAME_MAX,
                nd_label := safe_copy (Some (or_empty lbl)) IR_LABEL_MAX \<rparr>
      in (ir_append fn n, n))"

subsection \<open>Fresh names\<close>

text \<open>The digits of a number, least significant first, as the \<^verbatim>\<open>while (v > 0)\<close> loop stores them.\<close>

function dec_rev :: "nat \<Rightarrow> cstr" where
  "dec_rev v = (if v > 0 then char_of (48 + v mod 10) # dec_rev (v div 10) else [])"
  by pat_completeness auto
termination by (relation "measure id") auto

declare dec_rev.simps [simp del]

definition decimal :: "nat \<Rightarrow> cstr" where
  "decimal n = (if n = 0 then ''0'' else rev (dec_rev n))"

definition ir_fresh_tmp :: "ir_func \<Rightarrow> ir_func \<times> cstr" where
  "ir_fresh_tmp fn = (fn\<lparr> fn_tmp_counter := fn_tmp_counter fn + 1 \<rparr>,
                      ''t'' @ decimal (fn_tmp_counter fn))"

definition ir_fresh_label :: "ir_func \<Rightarrow> ir_func \<times> cstr" where
  "ir_fresh_label fn = (fn\<lparr> fn_lbl_counter := fn_lbl_counter fn + 1 \<rparr>,
                        ''.L'' @ decimal (fn_lbl_counter fn))"

subsection \<open>Modules and queries\<close>

definition ir_module_create :: ir_module where
  "ir_module_create = \<lparr> md_funcs = [] \<rparr>"

definition ir_func_create ::
  "ir_module \<Rightarrow> cstr option \<Rightarrow> ir_type \<Rightarrow> int \<Rightarrow> (ir_module \<times> ir_func) option" where
  "ir_func_create md nm ret_type num_params =
     (if length (md_funcs md) \<ge> IR_MAX_FUNCS then None
      else let fn = \<lparr> fn_name = safe_copy (Some (case nm of None \<Rightarrow> ''anon'' | Some s \<Rightarrow> s)) IR_FUNC_MAX,
                      fn_ret_type = ret_type, fn_nodes = [], fn_node_count = 0, fn_tmp_counter = 0,
                      fn_lbl_counter = 0, fn_num_params = num_params, fn_param_names = replicate 8 [] \<rparr>
           in Some (md\<lparr> md_funcs := md_funcs md @ [fn] \<rparr>, fn))"

definition ir_find_def :: "ir_func \<Rightarrow> nat option \<Rightarrow> cstr option \<Rightarrow> nat option" where
  "ir_find_def fn end_node vreg =
     (case vreg of None \<Rightarrow> None | Some [] \<Rightarrow> None
      | Some v \<Rightarrow>
          foldl (\<lambda>d i. if nd_dst (fn_nodes fn ! i) \<noteq> [] \<and> nd_dst (fn_nodes fn ! i) = v then Some i else d)
            None
            [0 ..< (case end_node of None \<Rightarrow> length (fn_nodes fn)
                                   | Some e \<Rightarrow> min e (length (fn_nodes fn)))])"

subsection \<open>Text emission\<close>

definition emit_field :: "cstr \<Rightarrow> cstr" where
  "emit_field s = (if s \<noteq> [] then s else ''-'')"

definition pad_right :: "nat \<Rightarrow> cstr \<Rightarrow> cstr" where
  "pad_right w s = s @ replicate (w - length s) (CHR '' '')"

definition show_int :: "int \<Rightarrow> cstr" where
  "show_int i = (if i < 0 then ''-'' @ decimal (nat (- i)) else decimal (nat i))"

definition emit_node_text :: "ir_node \<Rightarrow> cstr" where
  "emit_node_text n =
     ''  '' @ pad_right 10 (ir_op_name (op_code (nd_op n)))
     @ ''  '' @ pad_right 6 (if nd_type n = IR_TY_VOID then ''-'' else ir_type_name (ty_code (nd_type n)))
     @ ''  '' @ emit_field (nd_dst n)
     @ ''  '' @ emit_field (nd_src1 n)
     @ ''  '' @ emit_field (nd_src2 n)
     @ ''  '' @ emit_field (nd_label n)
     @ (if nd_op n = IR_ASM then ''  str='' @ [CHR 0x22] @ or_empty (nd_asm_string n) @ [CHR 0x22] else [])
     @ (if nd_op n = IR_CONST \<or> nd_op n = IR_ALLOCA \<or> nd_op n = IR_FCONST
        then ''  imm='' @ show_int (sint (nd_imm n)) else [])
     @ (if nd_lineno n > 0 then ''  ; line '' @ show_int (nd_lineno n) else [])
     @ [CHR 0x0A]"

definition ir_func_emit_text :: "ir_func \<Rightarrow> cstr" where
  "ir_func_emit_text fn =
     ''; func '' @ fn_name fn @ '' -> '' @ ir_type_name (ty_code (fn_ret_type fn)) @ [CHR 0x0A]
     @ concat (map emit_node_text (fn_nodes fn))
     @ ''; end '' @ fn_name fn @ ''  nodes='' @ show_int (fn_node_count fn) @ [CHR 0x0A, CHR 0x0A]"

definition ir_module_emit_text :: "ir_module \<Rightarrow> cstr" where
  "ir_module_emit_text md =
     ''; ZCC IR module  funcs='' @ show_int (int (length (md_funcs md))) @ [CHR 0x0A, CHR 0x0A]
     @ concat (map ir_func_emit_text (md_funcs md))"

subsection \<open>Decimal names\<close>

definition dec_val :: "cstr \<Rightarrow> nat" where
  "dec_val s = foldr (\<lambda>c a. (of_char c - 48) + 10 * a) s 0"

lemma dec_val_dec_rev: "dec_val (dec_rev n) = n"
proof (induction n rule: dec_rev.induct)
  case (1 v)
  show ?case
  proof (cases "v > 0")
    case True
    have "of_char (char_of (48 + v mod 10)) = (48 + v mod 10 :: nat)"
      by simp
    then show ?thesis
      using True 1 [OF True] by (subst dec_rev.simps) (simp add: dec_val_def)
  next
    case False
    then show ?thesis by (simp add: dec_rev.simps [of 0] dec_val_def)
  qed
qed

lemma decimal_inj: "decimal m = decimal n \<Longrightarrow> m = n"
proof -
  have "dec_val (rev (decimal k)) = k" for k
    by (cases "k = 0") (simp_all add: decimal_def dec_val_dec_rev, simp add: dec_val_def)
  then show "decimal m = decimal n \<Longrightarrow> m = n" by metis
qed

lemma dec_rev_length: "n < 10 ^ k \<Longrightarrow> length (dec_rev n) \<le> k"
proof (induction k arbitrary: n)
  case 0
  then show ?case by (simp add: dec_rev.simps [of 0])
next
  case (Suc k)
  then have "n div 10 < 10 ^ k" by (simp add: less_mult_imp_div_less mult.commute)
  then have "length (dec_rev (n div 10)) \<le> k" by (rule Suc.IH)
  then show ?case by (simp add: dec_rev.simps [of n])
qed

lemma decimal_length: "n < 10 ^ k \<Longrightarrow> 0 < k \<Longrightarrow> length (decimal n) \<le> k"
  by (simp add: decimal_def dec_rev_length)

lemma dec_rev_digits: "c \<in> set (dec_rev n) \<Longrightarrow> \<exists>d < 10. c = char_of (48 + d :: nat)"
proof (induction n rule: dec_rev.induct)
  case (1 v)
  then show ?case
    by (subst (asm) (2) dec_rev.simps) (auto split: if_splits intro: exI [of _ "v mod 10"])
qed

fun fresh_tmps :: "nat \<Rightarrow> ir_func \<Rightarrow> ir_func \<times> cstr list" where
  "fresh_tmps 0 fn = (fn, [])"
| "fresh_tmps (Suc k) fn =
     (let (fn1, t) = ir_fresh_tmp fn; (fn2, ts) = fresh_tmps k fn1 in (fn2, t # ts))"

lemma fresh_tmps_names:
  "fresh_tmps k fn = (fn\<lparr> fn_tmp_counter := fn_tmp_counter fn + k \<rparr>,
     map (\<lambda>i. ''t'' @ decimal i) [fn_tmp_counter fn ..< fn_tmp_counter fn + k])"
  by (induction k arbitrary: fn) (simp_all add: ir_fresh_tmp_def upt_rec)

lemma fresh_tmps_distinct:
  "distinct (snd (fresh_tmps k fn))
   \<and> (fn_tmp_counter fn + k < 10 ^ 10 \<longrightarrow> (\<forall>t \<in> set (snd (fresh_tmps k fn)). length t < IR_NAME_MAX))
   \<and> snd (ir_fresh_label fn) \<notin> set (snd (fresh_tmps k fn))"
proof (intro conjI impI ballI)
  show "distinct (snd (fresh_tmps k fn))"
    by (auto simp: fresh_tmps_names distinct_map inj_on_def dest: decimal_inj)
next
  fix t assume a: "fn_tmp_counter fn + k < 10 ^ 10" "t \<in> set (snd (fresh_tmps k fn))"
  then obtain i where "t = ''t'' @ decimal i" "i < 10 ^ 10"
    unfolding fresh_tmps_names by auto
  then show "length t < IR_NAME_MAX"
    using decimal_length [of i 10] by (simp add: IR_NAME_MAX_def)
next
  show "snd (ir_fresh_label fn) \<notin> set (snd (fresh_tmps k fn))"
    by (auto simp: fresh_tmps_names ir_fresh_label_def)
qed

subsection \<open>The emitter and the definition query\<close>

definition ir_empty_func :: "nat \<Rightarrow> ir_func" where
  "ir_empty_func k = \<lparr> fn_name = ''f'', fn_ret_type = IR_TY_I64, fn_nodes = [], fn_node_count = 0,
     fn_tmp_counter = k, fn_lbl_counter = 0, fn_num_params = 0, fn_param_names = replicate 8 [] \<rparr>"

definition count_ok :: "ir_func \<Rightarrow> bool" where
  "count_ok fn \<longleftrightarrow> fn_node_count fn = int (length (fn_nodes fn))"

lemma ir_append_count [wf_rules]: "count_ok fn \<Longrightarrow> count_ok (ir_append fn n)"
  by (simp add: count_ok_def ir_append_def)

lemma ir_emit_count [wf_rules]: "count_ok fn \<Longrightarrow> count_ok (fst (ir_emit fn op ty d s1 s2 l imm ln))"
  by (simp add: ir_emit_def Let_def ir_append_count)

definition node_names_ok :: "ir_node \<Rightarrow> bool" where
  "node_names_ok n \<longleftrightarrow> length (nd_dst n) < IR_NAME_MAX \<and> length (nd_src1 n) < IR_NAME_MAX
     \<and> length (nd_src2 n) < IR_NAME_MAX \<and> length (nd_label n) < IR_LABEL_MAX"

lemma ir_emit_names: "node_names_ok (snd (ir_emit fn op ty d s1 s2 l imm ln))"
  by (auto simp: ir_emit_def Let_def node_names_ok_def safe_copy_def IR_NAME_MAX_def IR_LABEL_MAX_def
      intro: c_copy_length split: option.splits)

definition last_def :: "ir_node list \<Rightarrow> nat \<Rightarrow> cstr \<Rightarrow> nat option \<Rightarrow> bool" where
  "last_def ns e v r = (case r of
       None \<Rightarrow> \<forall>j < e. nd_dst (ns ! j) \<noteq> v
     | Some i \<Rightarrow> i < e \<and> nd_dst (ns ! i) = v \<and> (\<forall>j. i < j \<and> j < e \<longrightarrow> nd_dst (ns ! j) \<noteq> v))"

lemma last_def_unique: "last_def ns e v r \<Longrightarrow> last_def ns e v (Some i) \<Longrightarrow> r = Some i"
  by (cases r) (auto simp: last_def_def intro: linorder_cases)

lemma last_def_foldl:
  assumes "v \<noteq> []"
  shows "last_def ns e v
    (foldl (\<lambda>d i. if nd_dst (ns ! i) \<noteq> [] \<and> nd_dst (ns ! i) = v then Some i else d) None [0..<e])"
proof (rule foldl_upt_invariant [where P = "\<lambda>e. last_def ns e v"])
  show "last_def ns 0 v None" by (simp add: last_def_def)
next
  fix i t assume "last_def ns i v t"
  then show "last_def ns (Suc i) v (if nd_dst (ns ! i) \<noteq> [] \<and> nd_dst (ns ! i) = v then Some i else t)"
    using assms by (auto simp: last_def_def less_Suc_eq split: option.splits)
qed

lemma ir_find_def_last:
  assumes "v \<noteq> []"
  shows "last_def (fn_nodes fn) (length (fn_nodes fn)) v (ir_find_def fn None (Some v))"
    and "e \<le> length (fn_nodes fn) \<Longrightarrow> last_def (fn_nodes fn) e v (ir_find_def fn (Some e) (Some v))"
proof -
  obtain c cs where v: "v = c # cs" using assms by (cases v) simp_all
  show "last_def (fn_nodes fn) (length (fn_nodes fn)) v (ir_find_def fn None (Some v))"
    unfolding ir_find_def_def v option.case list.case by (rule last_def_foldl) simp
  assume "e \<le> length (fn_nodes fn)"
  then have m: "min e (length (fn_nodes fn)) = e" by simp
  show "last_def (fn_nodes fn) e v (ir_find_def fn (Some e) (Some v))"
    unfolding ir_find_def_def v option.case list.case m by (rule last_def_foldl) simp
qed

subsection \<open>Reading the text form back\<close>

definition is_sep :: "char \<Rightarrow> bool" where
  "is_sep c \<longleftrightarrow> c = CHR '' '' \<or> c = CHR 0x0A"

fun tokens :: "cstr \<Rightarrow> cstr \<Rightarrow> cstr list" where
  "tokens cur [] = (if cur = [] then [] else [cur])"
| "tokens cur (c # cs) =
     (if is_sep c then (if cur = [] then tokens [] cs else cur # tokens [] cs) else tokens (cur @ [c]) cs)"

definition plain :: "cstr \<Rightarrow> bool" where
  "plain s \<longleftrightarrow> list_all (\<lambda>c. \<not> is_sep c) s"

lemma tokens_plain: "plain w \<Longrightarrow> tokens cur (w @ rest) = tokens (cur @ w) rest"
  by (induction w arbitrary: cur) (simp_all add: plain_def)

lemma tokens_spaces: "tokens [] (replicate k (CHR '' '') @ rest) = tokens [] rest"
  by (induction k) (simp_all add: is_sep_def)

lemma tokens_word:
  "plain w \<Longrightarrow> w \<noteq> [] \<Longrightarrow> rest = [] \<or> is_sep (hd rest) \<Longrightarrow> tokens [] (w @ rest) = w # tokens [] rest"
  using tokens_plain [of w "[]" "[]"] by (cases rest) (auto simp: tokens_plain)

lemma tokens_gap: "tokens [] (CHR '' '' # rest) = tokens [] rest"
  by (simp add: is_sep_def)

lemma sep_space [simp]: "is_sep (CHR '' '')" "is_sep (CHR 0x0A)"
  by (simp_all add: is_sep_def)

lemma pad_right_token:
  assumes "plain w" "w \<noteq> []" "rest \<noteq> []" "is_sep (hd rest)"
  shows "tokens [] (pad_right k w @ rest) = w # tokens [] rest"
proof -
  have "tokens [] (w @ replicate (k - length w) (CHR '' '') @ rest)
      = w # tokens [] (replicate (k - length w) (CHR '' '') @ rest)"
    using assms by (intro tokens_word) (auto simp: hd_append)
  then show ?thesis by (simp add: pad_right_def tokens_spaces)
qed

lemma op_name_plain: "plain (ir_op_name (op_code op)) \<and> ir_op_name (op_code op) \<noteq> []"
  by (cases op) (simp_all add: ir_op_name_def IR_OP_COUNT_def OP_NAMES_def plain_def is_sep_def)

lemma type_name_plain: "plain (ir_type_name (ty_code ty)) \<and> ir_type_name (ty_code ty) \<noteq> []"
  by (cases ty) (simp_all add: ir_type_name_def TY_NAMES_def plain_def is_sep_def)

definition parse_op :: "cstr \<Rightarrow> ir_op option" where
  "parse_op s = map_of (zip OP_NAMES ir_ops) s"

lemma parse_op_name: "parse_op (ir_op_name (op_code op)) = Some op"
  by (cases op) (simp_all add: parse_op_def ir_op_name_def IR_OP_COUNT_def OP_NAMES_def ir_ops_def)

lemma emit_field_plain: "plain s \<Longrightarrow> plain (emit_field s) \<and> emit_field s \<noteq> []"
  by (simp add: emit_field_def plain_def is_sep_def)

definition node_columns :: "ir_node \<Rightarrow> cstr list" where
  "node_columns n = [ir_op_name (op_code (nd_op n)),
     if nd_type n = IR_TY_VOID then ''-'' else ir_type_name (ty_code (nd_type n)),
     emit_field (nd_dst n), emit_field (nd_src1 n), emit_field (nd_src2 n), emit_field (nd_label n)]"

lemma take_columns:
  assumes "\<forall>w \<in> {a, b, c, d, e, f}. plain w \<and> w \<noteq> []" "rest \<noteq> []" "is_sep (hd rest)"
  shows "take 6 (tokens [] (''  '' @ pad_right 10 a @ ''  '' @ pad_right 6 b @ ''  '' @ c @ ''  '' @ d
     @ ''  '' @ e @ ''  '' @ f @ rest)) = [a, b, c, d, e, f]"
  using assms by (simp add: tokens_gap tokens_word pad_right_token)

lemma emit_node_columns:
  assumes "plain (nd_dst n)" "plain (nd_src1 n)" "plain (nd_src2 n)" "plain (nd_label n)"
  shows "take 6 (tokens [] (emit_node_text n)) = node_columns n"
proof -
  let ?ty = "if nd_type n = IR_TY_VOID then ''-'' else ir_type_name (ty_code (nd_type n))"
  have ty: "plain ?ty \<and> ?ty \<noteq> []" using type_name_plain by (simp add: plain_def is_sep_def)
  show ?thesis
    unfolding emit_node_text_def node_columns_def
    by (rule take_columns) (use assms ty op_name_plain emit_field_plain in auto)
qed


subsection \<open>Properties\<close>



text \<open>The text form of a node can be read back: the first six blank-separated columns of its line
  are the opcode, the type and the four name fields (a dash for an empty one), and the opcode
  column determines the opcode, for every node whose names contain no blank or newline.\<close>

lemma emit_node_text_readable:
  assumes "plain (nd_dst n)" "plain (nd_src1 n)" "plain (nd_src2 n)" "plain (nd_label n)"
  shows "take 6 (tokens [] (emit_node_text n)) = node_columns n
    \<and> parse_op (hd (tokens [] (emit_node_text n))) = Some (nd_op n)"
proof -
  have c: "take 6 (tokens [] (emit_node_text n)) = node_columns n"
    by (rule emit_node_columns [OF assms])
  then have "hd (tokens [] (emit_node_text n)) = ir_op_name (op_code (nd_op n))"
    by (cases "tokens [] (emit_node_text n)") (simp_all add: node_columns_def)
  then show ?thesis using c by (simp add: parse_op_name)
qed

lemma emit_node_text_readable_witness:
  "take 6 (tokens [] (emit_node_text
     (ir_node_alloc\<lparr> nd_op := IR_ADD, nd_type := IR_TY_I32, nd_dst := ''t2'', nd_src1 := ''t0'' \<rparr>)))
   = [''add'', ''i32'', ''t2'', ''t0'', ''-'', ''-'']"
  using emit_node_text_readable
    [of "ir_node_alloc\<lparr> nd_op := IR_ADD, nd_type := IR_TY_I32, nd_dst := ''t2'', nd_src1 := ''t0'' \<rparr>"]
  by (simp add: ir_node_alloc_def plain_def is_sep_def node_columns_def emit_field_def ir_op_name_def
      ir_type_name_def IR_OP_COUNT_def OP_NAMES_def TY_NAMES_def)

text \<open>\<^verbatim>\<open>ir_find_def\<close> returns the last node before the end node that defines the name, and none
  exactly when no node before it does.\<close>

lemma ir_find_def_is_last:
  assumes "v \<noteq> []" "e \<le> length (fn_nodes fn)"
  shows "last_def (fn_nodes fn) e v (ir_find_def fn (Some e) (Some v))"
  by (rule ir_find_def_last(2) [OF assms])

lemma ir_find_def_is_last_witness:
  "ir_find_def ((ir_empty_func 0)\<lparr> fn_nodes := [ir_node_alloc\<lparr> nd_dst := ''a'' \<rparr>,
     ir_node_alloc\<lparr> nd_dst := ''a'' \<rparr>, ir_node_alloc\<lparr> nd_dst := ''b'' \<rparr>] \<rparr>) (Some 3) (Some ''a'') = Some 1"
proof -
  let ?ns = "[ir_node_alloc\<lparr> nd_dst := ''a'' \<rparr>, ir_node_alloc\<lparr> nd_dst := ''a'' \<rparr>, ir_node_alloc\<lparr> nd_dst := ''b'' \<rparr>]"
  let ?fn = "(ir_empty_func 0)\<lparr> fn_nodes := ?ns \<rparr>"
  have "last_def ?ns 3 ''a'' (ir_find_def ?fn (Some 3) (Some ''a''))"
    using ir_find_def_is_last [of "''a''" 3 ?fn] by simp
  moreover have "last_def ?ns 3 ''a'' (Some 1)"
    by (auto simp: last_def_def less_Suc_eq numeral_3_eq_3)
  ultimately show ?thesis by (rule last_def_unique)
qed

end
