(* ===== verification/IRSem.thy ===== *)
theory IRSem
  imports IR "HOL-Library.Signed_Division"
begin

text \<open>
  An abstract machine for the intermediate representation, the specification the optimisation passes
  are proved against. It follows the operation comments of \<^verbatim>\<open>ir.h\<close>: a value is a 64-bit integer or,
  for the EVM's wide constants, a 256-bit one; a name has a value once a node has defined it; the
  signedness of a type decides division, remainder, right shift and order. What the text of \<^verbatim>\<open>ir.h\<close>
  leaves to the outside (memory, calls, casts, conversions, assembly) is the parameter \<open>ext\<close> of the
  machine, which answers from the node's signature, its operand values and the events so far.
  Doubles are bit patterns and the arithmetic on them is the parameter \<open>fp_ops\<close>.

  The state is the list of nodes still to execute. A jump restarts at the node after the label.
\<close>

subsection \<open>Values\<close>

datatype cval = C64 u64 | C256 uint256

record fp_ops =
  fp_add :: "u64 \<Rightarrow> u64 \<Rightarrow> u64"
  fp_sub :: "u64 \<Rightarrow> u64 \<Rightarrow> u64"
  fp_mul :: "u64 \<Rightarrow> u64 \<Rightarrow> u64"
  fp_div :: "u64 \<Rightarrow> u64 \<Rightarrow> u64"
  fp_is_zero :: "u64 \<Rightarrow> bool"

type_synonym env = "cstr \<Rightarrow> cval option"

type_synonym nsig = "ir_op \<times> ir_type \<times> cstr \<times> cstr \<times> u64 \<times> cstr option"

type_synonym event = "nsig \<times> cval list"

type_synonym ext = "nsig \<Rightarrow> cval list \<Rightarrow> event list \<Rightarrow> u64"

definition nsig :: "ir_node \<Rightarrow> nsig" where
  "nsig n = (nd_op n, nd_type n, nd_label n, nd_label2 n, nd_imm n, nd_asm_string n)"

definition bool64 :: "bool \<Rightarrow> u64" where "bool64 b = (if b then 1 else 0)"

definition u256_of_nat :: "nat \<Rightarrow> uint256" where
  "u256_of_nat v = UInt256 (of_nat (v mod 2 ^ 64)) (of_nat (v div 2 ^ 64 mod 2 ^ 64))
     (of_nat (v div 2 ^ 128 mod 2 ^ 64)) (of_nat (v div 2 ^ 192 mod 2 ^ 64))"

text \<open>Division of C: quotient towards zero; a zero divisor and the overflowing quotient trap.\<close>

definition c_sdiv :: "u64 \<Rightarrow> u64 \<Rightarrow> u64 option" where
  "c_sdiv a b = (if b = 0 \<or> (sint a = - (2 ^ 63) \<and> sint b = -1) then None
                 else Some (word_of_int (sint a sdiv sint b)))"

definition c_smod :: "u64 \<Rightarrow> u64 \<Rightarrow> u64 option" where
  "c_smod a b = (if b = 0 \<or> (sint a = - (2 ^ 63) \<and> sint b = -1) then None
                 else Some (word_of_int (sint a smod sint b)))"

definition shift_left :: "u64 \<Rightarrow> u64 \<Rightarrow> u64" where
  "shift_left a b = (if unat b < 64 then push_bit (unat b) a else 0)"

definition shift_right :: "bool \<Rightarrow> u64 \<Rightarrow> u64 \<Rightarrow> u64" where
  "shift_right sgn_ty a b =
     (if unat b < 64 then (if sgn_ty then signed_drop_bit (unat b) a else drop_bit (unat b) a) else 0)"

definition bin64 :: "fp_ops \<Rightarrow> ir_op \<Rightarrow> bool \<Rightarrow> u64 \<Rightarrow> u64 \<Rightarrow> u64 option" where
  "bin64 fp op sgn_ty a b = (case op of
       IR_ADD \<Rightarrow> Some (a + b)
     | IR_SUB \<Rightarrow> Some (a - b)
     | IR_MUL \<Rightarrow> Some (a * b)
     | IR_DIV \<Rightarrow> if sgn_ty then c_sdiv a b else if b = 0 then None else Some (a div b)
     | IR_MOD \<Rightarrow> if sgn_ty then c_smod a b else if b = 0 then None else Some (a mod b)
     | IR_AND \<Rightarrow> Some (a AND b)
     | IR_OR \<Rightarrow> Some (a OR b)
     | IR_XOR \<Rightarrow> Some (a XOR b)
     | IR_SHL \<Rightarrow> Some (shift_left a b)
     | IR_SHR \<Rightarrow> Some (shift_right sgn_ty a b)
     | IR_EQ \<Rightarrow> Some (bool64 (a = b))
     | IR_NE \<Rightarrow> Some (bool64 (a \<noteq> b))
     | IR_LT \<Rightarrow> Some (bool64 (if sgn_ty then a <s b else a < b))
     | IR_LE \<Rightarrow> Some (bool64 (if sgn_ty then a \<le>s b else a \<le> b))
     | IR_GT \<Rightarrow> Some (bool64 (if sgn_ty then b <s a else b < a))
     | IR_GE \<Rightarrow> Some (bool64 (if sgn_ty then b \<le>s a else b \<le> a))
     | IR_FADD \<Rightarrow> Some (fp_add fp a b)
     | IR_FSUB \<Rightarrow> Some (fp_sub fp a b)
     | IR_FMUL \<Rightarrow> Some (fp_mul fp a b)
     | IR_FDIV \<Rightarrow> Some (fp_div fp a b)
     | _ \<Rightarrow> None)"

definition is_bin_op :: "ir_op \<Rightarrow> bool" where
  "is_bin_op op \<longleftrightarrow> op \<in> {IR_ADD, IR_SUB, IR_MUL, IR_DIV, IR_MOD, IR_AND, IR_OR, IR_XOR, IR_SHL, IR_SHR,
     IR_EQ, IR_NE, IR_LT, IR_LE, IR_GT, IR_GE, IR_FADD, IR_FSUB, IR_FMUL, IR_FDIV}"

text \<open>Security tags of \<^verbatim>\<open>evm_lifter.h\<close> that the passes look at.\<close>

definition IR_TAG_NONE :: int where "IR_TAG_NONE = 0"
definition IR_TAG_TRUNCATED_WIDE_CONST :: int where "IR_TAG_TRUNCATED_WIDE_CONST = 7"
definition IR_TAG_EVM_EQ :: int where "IR_TAG_EVM_EQ = 11"
definition IR_TAG_EVM_LT :: int where "IR_TAG_EVM_LT = 12"
definition IR_TAG_EVM_GT :: int where "IR_TAG_EVM_GT = 13"
definition IR_TAG_EVM_ISZERO :: int where "IR_TAG_EVM_ISZERO = 14"
definition IR_TAG_EVM_SDIV :: int where "IR_TAG_EVM_SDIV = 19"

lemmas ir_tag_defs = IR_TAG_NONE_def IR_TAG_TRUNCATED_WIDE_CONST_def IR_TAG_EVM_EQ_def
  IR_TAG_EVM_LT_def IR_TAG_EVM_GT_def IR_TAG_EVM_ISZERO_def IR_TAG_EVM_SDIV_def

text \<open>Wide operations: comparisons selected by the tag, arithmetic modulo 2^256 on the numbers. A
  wide quotient or remainder by zero is 0, as in the EVM.\<close>

definition bin256 :: "int \<Rightarrow> ir_op \<Rightarrow> uint256 \<Rightarrow> uint256 \<Rightarrow> cval option" where
  "bin256 tag op a b =
     (if tag = IR_TAG_EVM_EQ then Some (C64 (bool64 (uval a = uval b)))
      else if tag = IR_TAG_EVM_LT then Some (C64 (bool64 (uval a < uval b)))
      else if tag = IR_TAG_EVM_GT then Some (C64 (bool64 (uval b < uval a)))
      else case op of
          IR_ADD \<Rightarrow> Some (C256 (u256_of_nat ((uval a + uval b) mod 2 ^ 256)))
        | IR_SUB \<Rightarrow> Some (C256 (u256_of_nat ((2 ^ 256 + uval a - uval b) mod 2 ^ 256)))
        | IR_MUL \<Rightarrow> Some (C256 (u256_of_nat ((uval a * uval b) mod 2 ^ 256)))
        | IR_DIV \<Rightarrow> if tag = IR_TAG_EVM_SDIV
             then Some (C256 (u256_of_nat (nat ((sval256 (uval a) sdiv sval256 (uval b)) mod 2 ^ 256))))
             else Some (C256 (u256_of_nat (uval a div uval b)))
        | IR_MOD \<Rightarrow> Some (C256 (u256_of_nat (if uval b = 0 then 0 else uval a mod uval b)))
        | _ \<Rightarrow> None)"

definition is_256_tag :: "int \<Rightarrow> bool" where
  "is_256_tag t \<longleftrightarrow> t = IR_TAG_EVM_EQ \<or> t = IR_TAG_EVM_LT \<or> t = IR_TAG_EVM_GT \<or> t = IR_TAG_EVM_ISZERO"

subsection \<open>Operands\<close>

definition operand_names :: "ir_node \<Rightarrow> cstr list" where
  "operand_names n = (if nd_op n = IR_STORE then [nd_dst n] else []) @
     filter (\<lambda>s. s \<noteq> []) [nd_src1 n, nd_src2 n] @ map fst (nd_phi_ops n)"

definition read_all :: "env \<Rightarrow> cstr list \<Rightarrow> cval list option" where
  "read_all env ns = those (map env ns)"

definition const_value :: "ir_node \<Rightarrow> cval" where
  "const_value n = (if nd_tag n = IR_TAG_TRUNCATED_WIDE_CONST then C256 (nd_imm256 n) else C64 (nd_imm n))"

text \<open>Arithmetic, conversions and casts have no memory: what the outside answers for them depends on the
  operation, the type, the immediate and the operands only.\<close>

definition is_pure_op :: "ir_op \<Rightarrow> bool" where
  "is_pure_op op \<longleftrightarrow> is_bin_op op \<or> op \<in> {IR_NEG, IR_NOT, IR_CAST, IR_ITOF, IR_FTOI}"

definition outside :: "ext \<Rightarrow> ir_node \<Rightarrow> cval list \<Rightarrow> event list \<Rightarrow> u64" where
  "outside ext n vs tr =
     (if is_pure_op (nd_op n) then ext (nd_op n, nd_type n, [], [], nd_imm n, None) vs []
      else ext (nsig n) vs tr)"

text \<open>The value a value-producing node computes.\<close>

definition node_value :: "fp_ops \<Rightarrow> ext \<Rightarrow> ir_node \<Rightarrow> env \<Rightarrow> event list \<Rightarrow> cval option" where
  "node_value fp ext n env tr =
     (if nd_op n = IR_CONST then Some (const_value n)
      else if nd_op n = IR_FCONST then Some (C64 (nd_imm n))
      else if nd_op n = IR_COPY then env (nd_src1 n)
      else case read_all env (operand_names n) of
          None \<Rightarrow> None
        | Some vs \<Rightarrow>
            (if is_bin_op (nd_op n) then
               (case vs of
                  [C64 a, C64 b] \<Rightarrow>
                    (if is_256_tag (nd_tag n) then Some (C64 (outside ext n vs tr))
                     else map_option C64 (bin64 fp (nd_op n) (\<not> ir_type_unsigned (nd_type n)) a b))
                | [C256 a, C64 b] \<Rightarrow>
                    (if nd_tag n = IR_TAG_EVM_ISZERO then Some (C64 (bool64 (uval a = 0)))
                     else Some (C64 (outside ext n vs tr)))
                | [C256 a, C256 b] \<Rightarrow>
                    (if nd_tag n = IR_TAG_EVM_ISZERO then Some (C64 (bool64 (uval a = 0)))
                     else case bin256 (nd_tag n) (nd_op n) a b of
                            Some v \<Rightarrow> Some v | None \<Rightarrow> Some (C64 (outside ext n vs tr)))
                | _ \<Rightarrow> Some (C64 (outside ext n vs tr)))
             else Some (C64 (outside ext n vs tr))))"

subsection \<open>The machine\<close>

datatype conf = Run "ir_node list" env "event list" | Done "event list"

definition set_dst :: "cstr \<Rightarrow> cval \<Rightarrow> env \<Rightarrow> env" where
  "set_dst d v env = (if d = [] then env else env(d \<mapsto> v))"

fun find_label :: "ir_node list \<Rightarrow> cstr \<Rightarrow> ir_node list option" where
  "find_label [] l = None"
| "find_label (n # ns) l = (if nd_op n = IR_LABEL \<and> nd_label n = l then Some ns else find_label ns l)"

definition truth :: "cval \<Rightarrow> bool" where
  "truth v = (case v of C64 x \<Rightarrow> x \<noteq> 0 | C256 x \<Rightarrow> uval x \<noteq> 0)"

definition is_effect :: "ir_op \<Rightarrow> bool" where
  "is_effect op \<longleftrightarrow> op = IR_STORE \<or> op = IR_CALL \<or> op = IR_ARG"

fun ir_next :: "fp_ops \<Rightarrow> ext \<Rightarrow> ir_node list \<Rightarrow> conf \<Rightarrow> conf option" where
  "ir_next fp ext prog (Done tr) = None"
| "ir_next fp ext prog (Run [] env tr) = Some (Done tr)"
| "ir_next fp ext prog (Run (n # rest) env tr) =
     (if nd_op n = IR_LABEL \<or> nd_op n = IR_NOP then Some (Run rest env tr)
      else if nd_op n = IR_BR then
        (case find_label prog (nd_label n) of None \<Rightarrow> None | Some r \<Rightarrow> Some (Run r env tr))
      else if nd_op n = IR_BR_IF then
        (case env (nd_src1 n) of None \<Rightarrow> None
         | Some v \<Rightarrow> if truth v
                     then (case find_label prog (nd_label n) of None \<Rightarrow> None | Some r \<Rightarrow> Some (Run r env tr))
                     else Some (Run rest env tr))
      else if nd_op n = IR_RET then
        (case read_all env (operand_names n) of None \<Rightarrow> None
         | Some vs \<Rightarrow> Some (Done (tr @ [(nsig n, vs)])))
      else if is_effect (nd_op n) then
        (case read_all env (operand_names n) of None \<Rightarrow> None
         | Some vs \<Rightarrow> Some (Run rest
              (if nd_op n = IR_CALL then set_dst (nd_dst n) (C64 (ext (nsig n) vs tr)) env else env)
              (tr @ [(nsig n, vs)])))
      else (case node_value fp ext n env tr of None \<Rightarrow> None
            | Some v \<Rightarrow> Some (Run rest (set_dst (nd_dst n) v env) tr)))"

inductive ir_steps :: "fp_ops \<Rightarrow> ext \<Rightarrow> ir_node list \<Rightarrow> conf \<Rightarrow> conf \<Rightarrow> bool"
  for fp ext prog where
  refl: "ir_steps fp ext prog c c"
| step: "ir_next fp ext prog c = Some c' \<Longrightarrow> ir_steps fp ext prog c' c'' \<Longrightarrow> ir_steps fp ext prog c c''"

text \<open>A run from the initial values \<open>env\<close> ends with the events \<open>tr\<close>.\<close>

definition ir_result :: "fp_ops \<Rightarrow> ext \<Rightarrow> ir_node list \<Rightarrow> env \<Rightarrow> event list \<Rightarrow> bool" where
  "ir_result fp ext prog env tr = ir_steps fp ext prog (Run prog env []) (Done tr)"

subsection \<open>Generic facts\<close>

inductive_cases ir_steps_DoneE: "ir_steps fp ext prog (Done tr) c"

lemma ir_steps_Done: "ir_steps fp ext prog (Done tr) c \<Longrightarrow> c = Done tr"
  by (erule ir_steps_DoneE) auto

lemma ir_steps_trans:
  "ir_steps fp ext prog a b \<Longrightarrow> ir_steps fp ext prog b c \<Longrightarrow> ir_steps fp ext prog a c"
  by (induction rule: ir_steps.induct) (auto intro: ir_steps.intros)

lemma ir_steps_one: "ir_next fp ext prog c = Some c' \<Longrightarrow> ir_steps fp ext prog c c'"
  by (auto intro: ir_steps.intros)

text \<open>Running a given number of steps, for evaluation on concrete programs.\<close>

fun ir_iter :: "fp_ops \<Rightarrow> ext \<Rightarrow> ir_node list \<Rightarrow> nat \<Rightarrow> conf \<Rightarrow> conf option" where
  "ir_iter fp ext prog 0 c = Some c"
| "ir_iter fp ext prog (Suc k) c =
     (case c of Done t \<Rightarrow> Some c
      | Run r env t \<Rightarrow> (case ir_next fp ext prog c of None \<Rightarrow> None | Some c' \<Rightarrow> ir_iter fp ext prog k c'))"

lemma ir_iter_steps: "ir_iter fp ext prog k c = Some c' \<Longrightarrow> ir_steps fp ext prog c c'"
  by (induction k arbitrary: c) (auto intro: ir_steps.intros split: option.splits conf.splits)

fun final_trace :: "conf option \<Rightarrow> event list option" where
  "final_trace (Some (Done t)) = Some t"
| "final_trace _ = None"

lemma ir_iter_result:
  "final_trace (ir_iter fp ext prog k (Run prog env [])) = Some tr \<Longrightarrow> ir_result fp ext prog env tr"
  unfolding ir_result_def
  by (cases "ir_iter fp ext prog k (Run prog env [])" rule: final_trace.cases) (auto dest: ir_iter_steps)

text \<open>Execution is deterministic: a program has at most one result.\<close>

lemma ir_steps_final_unique:
  assumes "ir_steps fp ext prog c d" "ir_steps fp ext prog c (Done t)" "d = Done t'"
  shows "t = t'"
  using assms
proof (induction arbitrary: t rule: ir_steps.induct)
  case (refl c)
  then show ?case using ir_steps_Done by fastforce
next
  case (step c c' c'')
  from step.prems(1) show ?case
  proof (cases rule: ir_steps.cases)
    case refl
    then show ?thesis using step.hyps(1) by auto
  next
    case (step d)
    then show ?thesis using step.IH step.hyps(1) step.prems by auto
  qed
qed

lemma ir_result_unique: "ir_result fp ext p env t \<Longrightarrow> ir_result fp ext p env t' \<Longrightarrow> t = t'"
  unfolding ir_result_def by (metis ir_steps_final_unique)

text \<open>Forward simulation: a relation that every step of the source keeps, and that relates
  final states to equal final states, transports results.\<close>

lemma simulation:
  assumes step: "\<And>c c' d. R c d \<Longrightarrow> ir_next fp ext p c = Some c' \<Longrightarrow>
                    \<exists>d'. ir_steps fp ext' q d d' \<and> R c' d'"
    and fin: "\<And>t d. R (Done t) d \<Longrightarrow> d = Done t"
    and "ir_steps fp ext p c c'" "R c d" "c' = Done t"
  shows "ir_steps fp ext' q d (Done t)"
  using assms(3,4,5)
proof (induction arbitrary: d rule: ir_steps.induct)
  case (refl c)
  then show ?case using fin ir_steps.refl by metis
next
  case (step c c1 c2)
  then obtain d1 where "ir_steps fp ext' q d d1" "R c1 d1" using assms(1) by metis
  then show ?case using step.IH step.prems ir_steps_trans by metis
qed

lemma those_Some_iff: "those xs = Some ys \<longleftrightarrow> xs = map Some ys"
proof (induction xs arbitrary: ys)
  case Nil
  then show ?case by auto
next
  case (Cons x xs)
  then show ?case by (cases x; cases ys) auto
qed

lemma read_all_cong:
  "(\<And>s. s \<in> set ns \<Longrightarrow> env s = env' s) \<Longrightarrow> read_all env ns = read_all env' ns"
  unfolding read_all_def by (metis map_eq_conv)

lemma read_all_Some: "read_all env ns = Some vs \<longleftrightarrow> map env ns = map Some vs"
  by (simp add: read_all_def those_Some_iff)

text \<open>The step at a node, by the kind of its operation.\<close>

definition is_value_op :: "ir_op \<Rightarrow> bool" where
  "is_value_op op \<longleftrightarrow> op \<noteq> IR_LABEL \<and> op \<noteq> IR_NOP \<and> op \<noteq> IR_BR \<and> op \<noteq> IR_BR_IF \<and> op \<noteq> IR_RET
     \<and> \<not> is_effect op"

lemma next_skip:
  "nd_op n = IR_LABEL \<or> nd_op n = IR_NOP \<Longrightarrow> ir_next fp ext prog (Run (n # rest) env tr) = Some (Run rest env tr)"
  by simp

lemma next_br:
  "nd_op n = IR_BR \<Longrightarrow> ir_next fp ext prog (Run (n # rest) env tr) =
     map_option (\<lambda>r. Run r env tr) (find_label prog (nd_label n))"
  by (simp split: option.splits)

lemma next_br_if:
  "nd_op n = IR_BR_IF \<Longrightarrow> ir_next fp ext prog (Run (n # rest) env tr) =
     (case env (nd_src1 n) of None \<Rightarrow> None
      | Some v \<Rightarrow> if truth v then map_option (\<lambda>r. Run r env tr) (find_label prog (nd_label n))
                  else Some (Run rest env tr))"
  by (simp split: option.splits)

lemma next_ret:
  "nd_op n = IR_RET \<Longrightarrow> ir_next fp ext prog (Run (n # rest) env tr) =
     map_option (\<lambda>vs. Done (tr @ [(nsig n, vs)])) (read_all env (operand_names n))"
  by (simp split: option.splits)

lemma next_effect:
  "is_effect (nd_op n) \<Longrightarrow> ir_next fp ext prog (Run (n # rest) env tr) =
     map_option (\<lambda>vs. Run rest
         (if nd_op n = IR_CALL then set_dst (nd_dst n) (C64 (ext (nsig n) vs tr)) env else env)
         (tr @ [(nsig n, vs)])) (read_all env (operand_names n))"
  by (auto simp: is_effect_def split: option.splits)

lemma next_value:
  "is_value_op (nd_op n) \<Longrightarrow> ir_next fp ext prog (Run (n # rest) env tr) =
     map_option (\<lambda>v. Run rest (set_dst (nd_dst n) v env) tr) (node_value fp ext n env tr)"
  by (simp add: is_value_op_def split: option.splits)

lemma op_kind_cases:
  obtains (skip) "op = IR_LABEL \<or> op = IR_NOP" | (br) "op = IR_BR" | (br_if) "op = IR_BR_IF"
    | (ret) "op = IR_RET" | (effect) "is_effect op" | (val) "is_value_op op"
  by (auto simp: is_value_op_def)

declare ir_next.simps(3) [simp del]

lemma set_dst_cong:
  "(\<And>s. s \<noteq> x \<Longrightarrow> env s = env' s) \<Longrightarrow> s \<noteq> x \<Longrightarrow> set_dst d v env s = set_dst d v env' s"
  by (simp add: set_dst_def)

subsection \<open>Concrete programs\<close>

text \<open>Small programs, and a machine whose outside answers 0, for evaluation.\<close>

definition fp0 :: fp_ops where
  "fp0 = \<lparr> fp_add = (+), fp_sub = (-), fp_mul = (*), fp_div = (\<lambda>x y. x), fp_is_zero = (\<lambda>x. x = 0) \<rparr>"

definition ext0 :: ext where "ext0 = (\<lambda>_ _ _. 0)"

definition mk_const :: "cstr \<Rightarrow> u64 \<Rightarrow> ir_node" where
  "mk_const d v = ir_node_alloc\<lparr> nd_op := IR_CONST, nd_type := IR_TY_I64, nd_dst := d, nd_imm := v \<rparr>"

definition mk_bin :: "ir_op \<Rightarrow> ir_type \<Rightarrow> cstr \<Rightarrow> cstr \<Rightarrow> cstr \<Rightarrow> ir_node" where
  "mk_bin op ty d a b = ir_node_alloc\<lparr> nd_op := op, nd_type := ty, nd_dst := d, nd_src1 := a, nd_src2 := b \<rparr>"

definition mk_ret :: "cstr \<Rightarrow> ir_node" where
  "mk_ret a = ir_node_alloc\<lparr> nd_op := IR_RET, nd_src1 := a \<rparr>"

definition ret_ev :: "u64 \<Rightarrow> event" where
  "ret_ev v = ((IR_RET, IR_TY_VOID, [], [], 0, None), [C64 v])"

definition run_ret :: "ir_node list \<Rightarrow> event list option" where
  "run_ret p = final_trace (ir_iter fp0 ext0 p 40 (Run p Map.empty []))"

lemma run_ret_result: "run_ret p = Some tr \<Longrightarrow> ir_result fp0 ext0 p Map.empty tr"
  unfolding run_ret_def by (rule ir_iter_result)

end
