(* ===== verification/Passes.thy ===== *)
theory Passes
  imports IRSem
begin

text \<open>
  The pass manager of \<^verbatim>\<open>ir_pass_manager.h\<close> and \<^verbatim>\<open>ir_pass_manager.c\<close>: pass results, the registry, the
  driver that runs every enabled pass over every function, and the contract of a pass.

  A pass maps the static state \<open>'s\<close> of the compiler and a function to the new state, the rewritten
  function and its metrics; \<open>None\<close> is a crash of the compiler inside the pass. What the driver prints
  is left out; its totals are kept.
\<close>

subsection \<open>Results\<close>

record ir_pass_result =
  nodes_before :: int
  nodes_after :: int
  nodes_deleted :: int
  nodes_modified :: int
  pass_changed :: bool

definition empty_result :: ir_pass_result where
  "empty_result = \<lparr> nodes_before = 0, nodes_after = 0, nodes_deleted = 0, nodes_modified = 0,
     pass_changed = False \<rparr>"

definition count_nodes :: "ir_func \<Rightarrow> int" where
  "count_nodes fn = foldl (\<lambda>count _. count + 1) 0 (fn_nodes fn)"

lemma count_nodes_length: "count_nodes fn = int (length (fn_nodes fn))"
proof -
  have "foldl (\<lambda>count _. count + 1) k xs = k + int (length xs)" for k and xs :: "ir_node list"
    by (induction xs arbitrary: k) simp_all
  then show ?thesis by (simp add: count_nodes_def)
qed

lemma count_ok_nodes: "count_ok fn \<longleftrightarrow> fn_node_count fn = count_nodes fn"
  by (simp add: count_ok_def count_nodes_length)

subsection \<open>Registry and driver\<close>

type_synonym 's ir_pass_fn = "'s \<Rightarrow> ir_func \<Rightarrow> ('s \<times> ir_func \<times> ir_pass_result) option"

record 's ir_pass_entry =
  pe_name :: cstr
  pe_fn :: "'s ir_pass_fn"
  pe_enabled :: bool

record 's ir_pass_manager =
  pm_passes :: "'s ir_pass_entry list"
  pm_verbose :: bool

definition IR_PM_MAX_PASSES :: nat where "IR_PM_MAX_PASSES = 16"

definition ir_pm_create :: "'s ir_pass_manager" where
  "ir_pm_create = \<lparr> pm_passes = [], pm_verbose = False \<rparr>"

definition ir_pm_register :: "'s ir_pass_manager \<Rightarrow> cstr \<Rightarrow> 's ir_pass_fn \<Rightarrow> 's ir_pass_manager" where
  "ir_pm_register pm nm f =
     (if length (pm_passes pm) \<ge> IR_PM_MAX_PASSES then pm
      else pm\<lparr> pm_passes := pm_passes pm @ [\<lparr> pe_name = nm, pe_fn = f, pe_enabled = True \<rparr>] \<rparr>)"

record pm_totals =
  total_in :: int
  total_out :: int
  total_deleted :: int
  total_modified :: int

text \<open>One pass over the functions of a module, with the sums of the metrics.\<close>

fun run_pass :: "'s ir_pass_fn \<Rightarrow> 's \<Rightarrow> ir_func list \<Rightarrow> ('s \<times> ir_func list \<times> ir_pass_result) option" where
  "run_pass f s [] = Some (s, [], empty_result)"
| "run_pass f s (fn # fns) = (case f s fn of None \<Rightarrow> None
     | Some (s1, fn', r) \<Rightarrow> (case run_pass f s1 fns of None \<Rightarrow> None
       | Some (s2, fns', t) \<Rightarrow> Some (s2, fn' # fns',
           t\<lparr> nodes_before := nodes_before r + nodes_before t, nodes_after := nodes_after r + nodes_after t,
              nodes_deleted := nodes_deleted r + nodes_deleted t,
              nodes_modified := nodes_modified r + nodes_modified t \<rparr>)))"

text \<open>The driver; \<open>p\<close> is the index of the pass.\<close>

fun pm_loop :: "nat \<Rightarrow> 's ir_pass_entry list \<Rightarrow> 's \<Rightarrow> ir_module \<Rightarrow> pm_totals
    \<Rightarrow> ('s \<times> ir_module \<times> pm_totals) option" where
  "pm_loop p [] s md t = Some (s, md, t)"
| "pm_loop p (e # es) s md t =
     (if \<not> pe_enabled e then pm_loop (Suc p) es s md t
      else case run_pass (pe_fn e) s (md_funcs md) of None \<Rightarrow> None
        | Some (s', fns, r) \<Rightarrow>
            pm_loop (Suc p) es s' (md\<lparr> md_funcs := fns \<rparr>)
              (t\<lparr> total_in := (if p = 0 then nodes_before r else total_in t),
                 total_out := nodes_after r,
                 total_deleted := total_deleted t + nodes_deleted r,
                 total_modified := total_modified t + nodes_modified r \<rparr>))"

definition ir_pm_run :: "'s ir_pass_manager \<Rightarrow> 's \<Rightarrow> ir_module \<Rightarrow> ('s \<times> ir_module \<times> pm_totals) option" where
  "ir_pm_run pm s md = pm_loop 0 (pm_passes pm) s md
     \<lparr> total_in = 0, total_out = 0, total_deleted = 0, total_modified = 0 \<rparr>"

text \<open>The default pipeline. The optimisation switches are the environment variables
  \<^verbatim>\<open>ZCC_OPT\<close>, \<^verbatim>\<open>ZCC_OPT_CONSTFOLD\<close>, \<^verbatim>\<open>ZCC_OPT_DCE\<close> and \<^verbatim>\<open>ZCC_OPT_MEM2REG\<close>; the passes are taken by name.\<close>

definition env_zero :: "cstr option \<Rightarrow> bool" where
  "env_zero v \<longleftrightarrow> v = Some ''0''"

definition default_passes :: "cstr option \<Rightarrow> cstr option \<Rightarrow> cstr option \<Rightarrow> cstr option \<Rightarrow> cstr list" where
  "default_passes zopt zfold zdce zm2r =
     (let opt_level = \<not> env_zero zopt;
          opt_constfold = (opt_level \<and> \<not> env_zero zfold);
          opt_dce = (opt_level \<and> \<not> env_zero zdce);
          opt_mem2reg = (opt_level \<and> \<not> env_zero zm2r)
      in [''symbolic_cfg'']
         @ (if opt_constfold then [''const_fold''] else [])
         @ (if opt_constfold then [''strength_reduce''] else [])
         @ [''dominance'']
         @ (if opt_mem2reg then [''ssa'', ''taint_propagate'', ''auto_healer''] else [])
         @ (if opt_dce then [''dce''] else [])
         @ (if opt_constfold then [''gvn''] else [])
         @ (if opt_constfold then [''coalesce_vload''] else [])
         @ [''lower_float'', ''warden'']
         @ (if opt_dce then [''dce2''] else []))"

definition ir_pm_run_default ::
  "(cstr \<Rightarrow> 's ir_pass_fn) \<Rightarrow> cstr option \<Rightarrow> cstr option \<Rightarrow> cstr option \<Rightarrow> cstr option \<Rightarrow> bool
   \<Rightarrow> 's \<Rightarrow> ir_module \<Rightarrow> ('s \<times> ir_module) option" where
  "ir_pm_run_default pass_of zopt zfold zdce zm2r verbose s md =
     (if md_funcs md = [] then Some (s, md)
      else let pm = foldl (\<lambda>pm nm. ir_pm_register pm nm (pass_of nm))
                      (ir_pm_create\<lparr> pm_verbose := verbose \<rparr>) (default_passes zopt zfold zdce zm2r)
           in map_option (\<lambda>(s', md', t). (s', md')) (ir_pm_run pm s md))"

subsection \<open>The contract of a pass\<close>

text \<open>A pass keeps the node counter and the signature of the function, reports the counts it found
  and left, and, where its precondition holds of the nodes and the initial values, every result the
  function has it also has afterwards.\<close>

locale ir_pass =
  fixes pass :: "'s ir_pass_fn" and fp :: fp_ops and pre :: "ir_node list \<Rightarrow> env \<Rightarrow> bool"
  assumes pass_count: "pass s fn = Some (s', fn', r) \<Longrightarrow> count_ok fn \<Longrightarrow> count_ok fn'"
    and pass_metrics: "pass s fn = Some (s', fn', r) \<Longrightarrow>
          nodes_before r = count_nodes fn \<and> nodes_after r = count_nodes fn'"
    and pass_frame: "pass s fn = Some (s', fn', r) \<Longrightarrow>
          fn_name fn' = fn_name fn \<and> fn_ret_type fn' = fn_ret_type fn \<and> fn_num_params fn' = fn_num_params fn"
    and pass_sound: "pass s fn = Some (s', fn', r) \<Longrightarrow> pre (fn_nodes fn) env \<Longrightarrow>
          ir_result fp ext (fn_nodes fn) env tr \<Longrightarrow> ir_result fp ext (fn_nodes fn') env tr"
begin

lemma run_pass_sum:
  "run_pass pass s fns = Some (s', fns', r) \<Longrightarrow>
     length fns' = length fns
     \<and> nodes_before r = (\<Sum>fn \<leftarrow> fns. count_nodes fn) \<and> nodes_after r = (\<Sum>fn \<leftarrow> fns'. count_nodes fn)
     \<and> map fn_name fns' = map fn_name fns"
proof (induction fns arbitrary: s s' fns' r)
  case Nil
  then show ?case by (auto simp: empty_result_def)
next
  case (Cons fn fns)
  from Cons.prems obtain s1 fn1 r1 s2 fns2 t where
    1: "pass s fn = Some (s1, fn1, r1)" "run_pass pass s1 fns = Some (s2, fns2, t)" "fns' = fn1 # fns2"
       "nodes_before r = nodes_before r1 + nodes_before t" "nodes_after r = nodes_after r1 + nodes_after t"
    by (auto split: option.splits prod.splits)
  then show ?case
    using Cons.IH [OF 1(2)] pass_metrics [OF 1(1)] pass_frame [OF 1(1)] by simp
qed

lemma run_pass_counts:
  "run_pass pass s fns = Some (s', fns', r) \<Longrightarrow> \<forall>fn \<in> set fns. count_ok fn \<Longrightarrow> \<forall>fn \<in> set fns'. count_ok fn"
proof (induction fns arbitrary: s s' fns' r)
  case Nil
  then show ?case by auto
next
  case (Cons fn fns)
  from Cons.prems obtain s1 fn1 r1 s2 fns2 t where
    1: "pass s fn = Some (s1, fn1, r1)" "run_pass pass s1 fns = Some (s2, fns2, t)" "fns' = fn1 # fns2"
    by (auto split: option.splits prod.splits)
  then show ?case
    using Cons.IH [OF 1(2)] Cons.prems(2) pass_count [OF 1(1)] by simp
qed

end

text \<open>Two passes in sequence on one function.\<close>

definition seq_pass :: "'s ir_pass_fn \<Rightarrow> 's ir_pass_fn \<Rightarrow> 's \<Rightarrow> ir_func \<Rightarrow> ('s \<times> ir_func) option" where
  "seq_pass f g s fn = (case f s fn of None \<Rightarrow> None
     | Some (s1, fn1, r1) \<Rightarrow> (case g s1 fn1 of None \<Rightarrow> None | Some (s2, fn2, r2) \<Rightarrow> Some (s2, fn2)))"

locale ir_pass_pair = first: ir_pass f fp pre1 + second: ir_pass g fp pre2
  for f :: "'s ir_pass_fn" and g :: "'s ir_pass_fn" and fp pre1 pre2 +
  assumes handover: "f s fn = Some (s', fn', r) \<Longrightarrow> pre1 (fn_nodes fn) env \<Longrightarrow> pre2 (fn_nodes fn) env
     \<Longrightarrow> pre2 (fn_nodes fn') env"
begin

lemma seq_sound:
  assumes "seq_pass f g s fn = Some (s', fn')" "pre1 (fn_nodes fn) env" "pre2 (fn_nodes fn) env"
    "ir_result fp ext (fn_nodes fn) env tr"
  shows "ir_result fp ext (fn_nodes fn') env tr"
proof -
  obtain s1 fn1 r1 r2 where e: "f s fn = Some (s1, fn1, r1)" "g s1 fn1 = Some (s', fn', r2)"
    using assms(1) by (auto simp: seq_pass_def split: option.splits prod.splits)
  show ?thesis
    using first.pass_sound [OF e(1) assms(2,4)] handover [OF e(1) assms(2,3)] second.pass_sound [OF e(2)]
    by blast
qed

lemma seq_count: "seq_pass f g s fn = Some (s', fn') \<Longrightarrow> count_ok fn \<Longrightarrow> count_ok fn'"
  by (auto simp: seq_pass_def dest: first.pass_count second.pass_count split: option.splits prod.splits)

end

subsection \<open>Registration\<close>

lemma register_bound:
  "length (pm_passes pm) \<le> IR_PM_MAX_PASSES \<Longrightarrow>
   length (pm_passes (ir_pm_register pm nm f)) \<le> IR_PM_MAX_PASSES"
  by (simp add: ir_pm_register_def)

lemma register_all:
  "length (pm_passes pm) + length nms \<le> IR_PM_MAX_PASSES \<Longrightarrow>
   map pe_name (pm_passes (foldl (\<lambda>pm nm. ir_pm_register pm nm (pass_of nm)) pm nms))
     = map pe_name (pm_passes pm) @ nms"
  by (induction nms arbitrary: pm) (simp_all add: ir_pm_register_def)

lemma default_passes_length: "length (default_passes a b c d) \<le> 13"
  by (simp add: default_passes_def Let_def)

end
