(* ===== verification/Rewrite.thy ===== *)
theory Rewrite
  imports Passes
begin

text \<open>
  In-place rewriting. Constant folding, strength reduction and value numbering replace nodes where
  they stand and keep the length of the list, so the source and the target run in lock step. This
  theory states what such a rewriting must keep, an invariant \<open>I\<close> of the values at each
  position, and proves once that results are preserved. It also holds the notions of single
  assignment and of names that fit the 32-byte tables of the passes.
\<close>

definition is_def :: "ir_node \<Rightarrow> bool" where
  "is_def n \<longleftrightarrow> nd_dst n \<noteq> [] \<and> nd_op n \<noteq> IR_STORE"

definition ssa_form :: "ir_node list \<Rightarrow> bool" where
  "ssa_form p \<longleftrightarrow> distinct (map nd_dst (filter is_def p))"

definition fresh_env :: "ir_node list \<Rightarrow> env \<Rightarrow> bool" where
  "fresh_env p env \<longleftrightarrow> list_all (\<lambda>n. is_def n \<longrightarrow> env (nd_dst n) = None) p"

definition no_phi :: "ir_node list \<Rightarrow> bool" where
  "no_phi p \<longleftrightarrow> list_all (\<lambda>m. nd_phi_ops m = []) p"

definition short_names :: "ir_node list \<Rightarrow> bool" where
  "short_names p \<longleftrightarrow> list_all (\<lambda>n. length (nd_dst n) < 32 \<and> length (nd_src1 n) < 32 \<and> length (nd_src2 n) < 32) p"

definition lockstep :: "fp_ops \<Rightarrow> ext \<Rightarrow> ir_node list \<Rightarrow> ir_node list \<Rightarrow> (nat \<Rightarrow> env \<Rightarrow> bool) \<Rightarrow> bool" where
  "lockstep fp ext p q I \<longleftrightarrow> length q = length p \<and>
     (\<forall>k < length p. let n = p ! k; n' = q ! k in
        (if is_value_op (nd_op n)
         then is_value_op (nd_op n') \<and> nd_dst n' = nd_dst n \<and>
              (\<forall>env tr v. I k env \<longrightarrow> node_value fp ext n env tr = Some v \<longrightarrow>
                 node_value fp ext n' env tr = Some v \<and> I (Suc k) (set_dst (nd_dst n) v env))
         else n' = n \<and> (\<forall>env w. I k env \<longrightarrow>
                 I (Suc k) (if nd_op n = IR_CALL then set_dst (nd_dst n) (C64 w) env else env)))
        \<and> (nd_op n = IR_LABEL \<longrightarrow> (\<forall>j env. I j env \<longrightarrow> I (Suc k) env)))"

lemma find_label_drop:
  assumes "find_label p l = Some r" "length q = length p"
    and "\<forall>k < length p. if is_value_op (nd_op (p ! k)) then is_value_op (nd_op (q ! k)) else q ! k = p ! k"
  shows "\<exists>k < length p. nd_op (p ! k) = IR_LABEL \<and> r = drop (Suc k) p \<and> find_label q l = Some (drop (Suc k) q)"
  using assms
proof (induction p arbitrary: q)
  case Nil
  then show ?case by simp
next
  case (Cons n p)
  obtain n' q' where q: "q = n' # q'" using Cons.prems(2) by (cases q) auto
  have hd: "if is_value_op (nd_op n) then is_value_op (nd_op n') else n' = n"
    using Cons.prems(3) q by fastforce
  have tl: "\<forall>k < length p. if is_value_op (nd_op (p ! k)) then is_value_op (nd_op (q' ! k)) else q' ! k = p ! k"
    using Cons.prems(3) q by fastforce
  show ?case
  proof (cases "nd_op n = IR_LABEL \<and> nd_label n = l")
    case True
    then have "n' = n" using hd by (simp add: is_value_op_def)
    then show ?thesis using True Cons.prems(1) q by (intro exI [of _ 0]) auto
  next
    case False
    have "\<not> (nd_op n' = IR_LABEL \<and> nd_label n' = l)"
      using hd False by (auto simp: is_value_op_def split: if_splits)
    moreover have pl: "find_label p l = Some r" and ql: "length q' = length p"
      using Cons.prems False q by auto
    moreover obtain k where "k < length p" "nd_op (p ! k) = IR_LABEL" "r = drop (Suc k) p"
        "find_label q' l = Some (drop (Suc k) q')"
      using Cons.IH [OF pl ql tl] by blast
    ultimately show ?thesis using q by (intro exI [of _ "Suc k"]) auto
  qed
qed

inductive lock_rel :: "ir_node list \<Rightarrow> ir_node list \<Rightarrow> (nat \<Rightarrow> env \<Rightarrow> bool) \<Rightarrow> conf \<Rightarrow> conf \<Rightarrow> bool"
  for p q I where
  run: "k \<le> length p \<Longrightarrow> I k env \<Longrightarrow> lock_rel p q I (Run (drop k p) env tr) (Run (drop k q) env tr)"
| fin: "lock_rel p q I (Done tr) (Done tr)"

inductive_cases lock_rel_DoneE: "lock_rel p q I (Done tr) d"

lemma lock_rel_run:
  "k \<le> length p \<Longrightarrow> I k env \<Longrightarrow> r = drop k p \<Longrightarrow> r' = drop k q \<Longrightarrow>
   lock_rel p q I (Run r env tr) (Run r' env tr)"
  using lock_rel.run by metis

lemma lockstep_step:
  assumes lk: "lockstep fp ext p q I" and k: "k < length p" and I: "I k env"
    and nx: "ir_next fp ext p (Run (drop k p) env tr) = Some c'"
  shows "\<exists>d'. ir_next fp ext q (Run (drop k q) env tr) = Some d' \<and> lock_rel p q I c' d'"
proof -
  have len: "length q = length p" using lk by (simp add: lockstep_def)
  define n where "n = p ! k" define n' where "n' = q ! k"
  have dp: "drop k p = n # drop (Suc k) p" and dq: "drop k q = n' # drop (Suc k) q"
    using k len by (simp_all add: n_def n'_def Cons_nth_drop_Suc)
  have fact: "if is_value_op (nd_op n)
         then is_value_op (nd_op n') \<and> nd_dst n' = nd_dst n \<and>
              (\<forall>env tr v. I k env \<longrightarrow> node_value fp ext n env tr = Some v \<longrightarrow>
                 node_value fp ext n' env tr = Some v \<and> I (Suc k) (set_dst (nd_dst n) v env))
         else n' = n \<and> (\<forall>env w. I k env \<longrightarrow>
                 I (Suc k) (if nd_op n = IR_CALL then set_dst (nd_dst n) (C64 w) env else env))"
    using lk k unfolding lockstep_def n_def n'_def Let_def by blast
  have same: "\<forall>k < length p. if is_value_op (nd_op (p ! k)) then is_value_op (nd_op (q ! k)) else q ! k = p ! k"
    using lk by (auto simp: lockstep_def Let_def split: if_splits)
  have jump: "\<exists>r'. find_label q l = Some r' \<and> lock_rel p q I (Run r env tr) (Run r' env tr)"
    if lab: "find_label p l = Some r" for l r
  proof -
    obtain j where j: "j < length p" "nd_op (p ! j) = IR_LABEL" "r = drop (Suc j) p"
      "find_label q l = Some (drop (Suc j) q)"
      using find_label_drop [OF lab len same] by blast
    have "I (Suc j) env" using lk j(1,2) I by (auto simp: lockstep_def Let_def)
    then show ?thesis using j lock_rel_run [of "Suc j" p I env] by (auto simp: Suc_le_eq)
  qed
  note go = lock_rel_run [of "Suc k" p I, OF Suc_leI [OF k]]
  show ?thesis
  proof (cases "nd_op n" rule: op_kind_cases)
    case skip
    then have "n' = n" "I (Suc k) env" using fact I by (auto simp: is_value_op_def split: if_splits)
    then show ?thesis using nx skip go unfolding dp dq by (auto simp: next_skip)
  next
    case br
    then have "n' = n" using fact by (simp add: is_value_op_def)
    moreover obtain r where r: "find_label p (nd_label n) = Some r" "c' = Run r env tr"
      using nx br unfolding dp by (auto simp: next_br)
    ultimately show ?thesis using jump [OF r(1)] br r(2) unfolding dq by (auto simp: next_br)
  next
    case br_if
    then have e: "n' = n" "I (Suc k) env" using fact I by (auto simp: is_value_op_def split: if_splits)
    obtain v where v: "env (nd_src1 n) = Some v"
      using nx br_if unfolding dp by (auto simp: next_br_if split: option.splits)
    show ?thesis
    proof (cases "truth v")
      case True
      then obtain r where r: "find_label p (nd_label n) = Some r" "c' = Run r env tr"
        using nx br_if v unfolding dp by (auto simp: next_br_if)
      then show ?thesis using jump [OF r(1)] br_if e v True unfolding dq by (auto simp: next_br_if)
    next
      case False
      then show ?thesis using nx br_if e v go unfolding dp dq by (auto simp: next_br_if)
    qed
  next
    case ret
    then have "n' = n" using fact by (simp add: is_value_op_def)
    then show ?thesis using nx ret unfolding dp dq by (auto simp: next_ret intro: lock_rel.fin)
  next
    case effect
    then have e: "n' = n" using fact by (simp add: is_value_op_def split: if_splits)
    have i: "I (Suc k) (if nd_op n = IR_CALL then set_dst (nd_dst n) (C64 w) env else env)" for w
      using fact I effect by (simp add: is_value_op_def split: if_splits)
    obtain vs where vs: "read_all env (operand_names n) = Some vs"
      using nx effect unfolding dp by (auto simp: next_effect)
    show ?thesis using nx effect e vs go [OF i] unfolding dp dq by (auto simp: next_effect)
  next
    case val
    obtain v where v: "node_value fp ext n env tr = Some v" "c' = Run (drop (Suc k) p) (set_dst (nd_dst n) v env) tr"
      using nx val unfolding dp by (auto simp: next_value)
    have "is_value_op (nd_op n')" "nd_dst n' = nd_dst n" "node_value fp ext n' env tr = Some v"
      "I (Suc k) (set_dst (nd_dst n) v env)"
      using fact val I v(1) by auto
    then show ?thesis using v(2) go unfolding dq by (auto simp: next_value)
  qed
qed

lemma lockstep_result:
  assumes lk: "lockstep fp ext p q I" and I: "I 0 env" and r: "ir_result fp ext p env tr"
  shows "ir_result fp ext q env tr"
  unfolding ir_result_def
proof (rule simulation [where R = "lock_rel p q I"])
  show "lock_rel p q I (Run p env []) (Run q env [])"
    using lock_rel.run [of 0 p I env q "[]"] I by simp
  show "\<And>t d. lock_rel p q I (Done t) d \<Longrightarrow> d = Done t" by (erule lock_rel_DoneE) simp
  show "ir_steps fp ext p (Run p env []) (Done tr)" using r by (simp add: ir_result_def)
next
  fix c c' d assume rel: "lock_rel p q I c d" and nx: "ir_next fp ext p c = Some c'"
  show "\<exists>d'. ir_steps fp ext q d d' \<and> lock_rel p q I c' d'"
    using rel
  proof (cases rule: lock_rel.cases)
    case (run k env tr)
    show ?thesis
    proof (cases "k < length p")
      case True
      then show ?thesis using lockstep_step [OF lk True run(4)] nx run ir_steps_one by metis
    next
      case False
      then have "k = length p" using run(3) by simp
      moreover have "length q = length p" using lk by (simp add: lockstep_def)
      ultimately show ?thesis using nx run by (auto intro!: ir_steps_one lock_rel.fin)
    qed
  next
    case (fin tr)
    then show ?thesis using nx by simp
  qed
qed simp

text \<open>In single-assignment form a name has one defining position.\<close>

lemma distinct_map_filter_nth:
  "distinct (map f (filter P xs)) \<Longrightarrow> i < length xs \<Longrightarrow> j < length xs \<Longrightarrow> P (xs ! i) \<Longrightarrow> P (xs ! j)
   \<Longrightarrow> f (xs ! i) = f (xs ! j) \<Longrightarrow> i = j"
proof (induction xs arbitrary: i j)
  case Nil
  then show ?case by simp
next
  case (Cons x xs)
  have no: "P x \<Longrightarrow> f x \<noteq> f (xs ! k)" if "k < length xs" "P (xs ! k)" for k
    using Cons.prems(1) that by (auto simp: image_iff)
  have dist: "distinct (map f (filter P xs))"
    using Cons.prems(1) by (simp split: if_splits)
  show ?case
  proof (cases i)
    case 0
    then show ?thesis using Cons.prems(3-6) no by (cases j) simp_all
  next
    case i: (Suc i')
    show ?thesis
    proof (cases j)
      case 0
      then show ?thesis using Cons.prems(2-6) i no [of i'] by simp
    next
      case (Suc j')
      then show ?thesis using Cons.prems(2-6) i Cons.IH [OF dist, of i' j'] by simp
    qed
  qed
qed

lemma ssa_unique_def:
  "ssa_form p \<Longrightarrow> i < length p \<Longrightarrow> j < length p \<Longrightarrow> is_def (p ! i) \<Longrightarrow> is_def (p ! j)
   \<Longrightarrow> nd_dst (p ! i) = nd_dst (p ! j) \<Longrightarrow> i = j"
  unfolding ssa_form_def by (rule distinct_map_filter_nth)

subsection \<open>Constants known to a pass\<close>

text \<open>The constants of the rewritten list as facts about the values: a name that a constant node
  defines is unset or has the constant's value.\<close>

definition const_like :: "ir_node \<Rightarrow> cval \<Rightarrow> bool" where
  "const_like n v \<longleftrightarrow> (nd_op n = IR_CONST \<and> v = const_value n) \<or> (nd_op n = IR_FCONST \<and> v = C64 (nd_imm n))"

definition known_const :: "ir_node list \<Rightarrow> cstr \<Rightarrow> cval \<Rightarrow> bool" where
  "known_const q x v \<longleftrightarrow> (\<exists>m \<in> set q. nd_dst m = x \<and> const_like m v)"

definition consts_hold :: "ir_node list \<Rightarrow> env \<Rightarrow> bool" where
  "consts_hold q env \<longleftrightarrow> (\<forall>x v w. x \<noteq> [] \<longrightarrow> known_const q x v \<longrightarrow> env x = Some w \<longrightarrow> w = v)"

lemma const_like_value: "const_like n v \<Longrightarrow> node_value fp ext n env tr = Some v"
  by (auto simp: const_like_def node_value_def)

lemma const_like_op: "const_like n v \<Longrightarrow> nd_op n = IR_CONST \<or> nd_op n = IR_FCONST"
  by (auto simp: const_like_def)

lemma consts_holdD: "consts_hold q env \<Longrightarrow> x \<noteq> [] \<Longrightarrow> known_const q x v \<Longrightarrow> env x = Some w \<Longrightarrow> w = v"
  by (auto simp: consts_hold_def)

definition node_rewrite ::
  "fp_ops \<Rightarrow> ext \<Rightarrow> ir_node list \<Rightarrow> (env \<Rightarrow> bool) \<Rightarrow> ir_node \<Rightarrow> ir_node \<Rightarrow> bool" where
  "node_rewrite fp ext q J n n' \<longleftrightarrow>
     (if is_value_op (nd_op n)
      then is_value_op (nd_op n') \<and> nd_dst n' = nd_dst n \<and>
           (\<forall>env tr v. consts_hold q env \<longrightarrow> J env \<longrightarrow> node_value fp ext n env tr = Some v \<longrightarrow>
              node_value fp ext n' env tr = Some v)
      else n' = n)"

lemma const_rewrite_result:
  assumes ssa: "ssa_form p" and all: "list_all2 (node_rewrite fp ext q J) p q"
    and J: "\<And>n env tr v. n \<in> set p \<Longrightarrow> J env \<Longrightarrow> node_value fp ext n env tr = Some v \<Longrightarrow> J (set_dst (nd_dst n) v env)"
    and Jc: "\<And>d w env. J env \<Longrightarrow> J (set_dst d (C64 w) env)"
    and init: "fresh_env p env0" "J env0" and r: "ir_result fp ext p env0 tr"
  shows "ir_result fp ext q env0 tr"
proof -
  have len: "length q = length p" using all by (simp add: list_all2_lengthD)
  have nr: "node_rewrite fp ext q J (p ! k) (q ! k)" if "k < length p" for k
    using all that by (simp add: list_all2_conv_all_nth)
  have dst: "nd_dst (q ! k) = nd_dst (p ! k)" if "k < length p" for k
    using nr [OF that] by (auto simp: node_rewrite_def split: if_splits)
  have at: "j = k" if "j < length p" "k < length p" "const_like (q ! j) w" "nd_dst (q ! j) = nd_dst (p ! k)"
      "nd_dst (p ! k) \<noteq> []" "nd_op (p ! k) \<noteq> IR_STORE" for j k w
  proof -
    have "nd_op (p ! j) \<noteq> IR_STORE"
      using nr [OF that(1)] const_like_op [OF that(3)] by (auto simp: node_rewrite_def is_value_op_def is_effect_def)
    then show ?thesis
      using ssa_unique_def [OF ssa that(1,2)] that dst by (auto simp: is_def_def)
  qed
  have keep: "consts_hold q (set_dst (nd_dst (p ! k)) v env)"
    if "k < length p" "nd_op (p ! k) \<noteq> IR_STORE" "consts_hold q env"
      "\<And>w. const_like (q ! k) w \<Longrightarrow> w = v" for k v env
  proof -
    have "w = v'" if h: "x \<noteq> []" "known_const q x v'" "set_dst (nd_dst (p ! k)) v env x = Some w" for x v' w
    proof (cases "x = nd_dst (p ! k)")
      case True
      obtain j where j: "j < length p" "nd_dst (q ! j) = x" "const_like (q ! j) v'"
        using h(2) len by (auto simp: known_const_def in_set_conv_nth)
      then have "j = k" using at [of j k] True h(1) \<open>k < length p\<close> \<open>nd_op (p ! k) \<noteq> IR_STORE\<close> by auto
      then show ?thesis using j True h(1,3) \<open>\<And>w. const_like (q ! k) w \<Longrightarrow> w = v\<close>
        by (auto simp: set_dst_def)
    next
      case False
      then show ?thesis using h consts_holdD [OF \<open>consts_hold q env\<close>]
        by (auto simp: set_dst_def split: if_splits)
    qed
    then show ?thesis by (auto simp: consts_hold_def)
  qed
  have "lockstep fp ext p q (\<lambda>_ env. consts_hold q env \<and> J env)"
    unfolding lockstep_def Let_def
  proof (intro conjI allI impI)
    show "length q = length p" by (rule len)
  next
    fix k assume k: "k < length p"
    show "if is_value_op (nd_op (p ! k)) then is_value_op (nd_op (q ! k)) \<and> nd_dst (q ! k) = nd_dst (p ! k) \<and>
             (\<forall>env tr v. consts_hold q env \<and> J env \<longrightarrow> node_value fp ext (p ! k) env tr = Some v \<longrightarrow>
                node_value fp ext (q ! k) env tr = Some v \<and>
                consts_hold q (set_dst (nd_dst (p ! k)) v env) \<and> J (set_dst (nd_dst (p ! k)) v env))
           else q ! k = p ! k \<and>
             (\<forall>env w. consts_hold q env \<and> J env \<longrightarrow>
                consts_hold q (if nd_op (p ! k) = IR_CALL then set_dst (nd_dst (p ! k)) (C64 w) env else env) \<and>
                J (if nd_op (p ! k) = IR_CALL then set_dst (nd_dst (p ! k)) (C64 w) env else env))"
    proof (cases "is_value_op (nd_op (p ! k))")
      case True
      have "consts_hold q (set_dst (nd_dst (p ! k)) v env) \<and> J (set_dst (nd_dst (p ! k)) v env)"
        if "consts_hold q env" "J env" "node_value fp ext (p ! k) env tr = Some v" for env tr v
      proof
        have nv: "node_value fp ext (q ! k) env tr = Some v"
          using nr [OF k] True that by (auto simp: node_rewrite_def)
        show "consts_hold q (set_dst (nd_dst (p ! k)) v env)"
          using k True that(1) const_like_value nv
          by (intro keep) (auto simp: is_value_op_def is_effect_def)
        show "J (set_dst (nd_dst (p ! k)) v env)" using J [OF _ that(2,3)] k by simp
      qed
      then show ?thesis using nr [OF k] True by (auto simp: node_rewrite_def)
    next
      case False
      then have e: "q ! k = p ! k" using nr [OF k] by (simp add: node_rewrite_def)
      have "\<not> const_like (q ! k) w" for w
        using const_like_op [of "q ! k" w] False e by (auto simp: is_value_op_def is_effect_def)
      then show ?thesis using False e keep [OF k] Jc by auto
    qed
  qed auto
  moreover have "consts_hold q env0"
  proof -
    have False if h: "x \<noteq> []" "known_const q x v" "env0 x = Some w" for x v w
    proof -
      obtain j where j: "j < length p" "nd_dst (q ! j) = x" "const_like (q ! j) v"
        using h(2) len by (auto simp: known_const_def in_set_conv_nth)
      have "is_def (p ! j)"
        using nr [OF j(1)] const_like_op [OF j(3)] dst [OF j(1)] j(2) h(1)
        by (auto simp: node_rewrite_def is_value_op_def is_effect_def is_def_def split: if_splits)
      then have "env0 (nd_dst (p ! j)) = None"
        using init(1) j(1) by (auto simp: fresh_env_def list_all_length)
      then show False using h(3) dst [OF j(1)] j(2) by simp
    qed
    then show ?thesis by (auto simp: consts_hold_def)
  qed
  ultimately show ?thesis using lockstep_result r init(2) by blast
qed

end
