(* ===== verification/NameTable.thy ===== *)
theory NameTable
  imports Prelude
begin

text \<open>
  The interface of the fixed-size tables keyed by C strings that several passes keep (the constant map
  of the folder, the hash tables of the taint analyses). A table stores truncated keys, so a key must
  fit; a table may be full, so an insertion needs room. Within these limits a lookup after an insertion
  returns the value inserted, and facts recorded in the table stay true.
\<close>

locale name_table =
  fixes look :: "'t \<Rightarrow> cstr \<Rightarrow> 'v option" and ins :: "'t \<Rightarrow> cstr \<Rightarrow> 'v \<Rightarrow> 't"
    and room :: "'t \<Rightarrow> cstr \<Rightarrow> bool" and fits :: "cstr \<Rightarrow> bool" and inv :: "'t \<Rightarrow> bool"
  assumes ins_inv: "inv t \<Longrightarrow> fits k \<Longrightarrow> inv (ins t k v)"
    and look_ins: "inv t \<Longrightarrow> fits k \<Longrightarrow> fits k' \<Longrightarrow>
          look (ins t k v) k' = (if k' = k \<and> room t k then Some v else look t k')"
    and present_room: "inv t \<Longrightarrow> fits k \<Longrightarrow> look t k \<noteq> None \<Longrightarrow> room t k"
    and room_ins: "inv t \<Longrightarrow> fits k \<Longrightarrow> \<not> room t k \<Longrightarrow> \<not> room (ins t k v) k"
begin

lemma ins_ins: "inv t \<Longrightarrow> fits k \<Longrightarrow> fits k' \<Longrightarrow> look (ins (ins t k v) k w) k' = look (ins t k w) k'"
proof -
  assume a: "inv t" "fits k" "fits k'"
  show ?thesis
  proof (cases "room t k")
    case True
    then have "look (ins t k v) k \<noteq> None" using a by (simp add: look_ins)
    then have "room (ins t k v) k" using a ins_inv present_room by blast
    then show ?thesis using a True by (simp add: look_ins ins_inv)
  next
    case False
    then show ?thesis using a room_ins by (simp add: look_ins ins_inv)
  qed
qed

lemma ins_commute:
  assumes "inv t" "fits k" "fits k'" "fits x" "k \<noteq> k'" "room t k" "room t k'"
    "room (ins t k v) k'" "room (ins t k' w) k"
  shows "look (ins (ins t k v) k' w) x = look (ins (ins t k' w) k v) x"
  using assms by (simp add: look_ins ins_inv)

definition facts :: "(cstr \<Rightarrow> 'v \<Rightarrow> bool) \<Rightarrow> 't \<Rightarrow> bool" where
  "facts F t \<longleftrightarrow> (\<forall>k v. fits k \<longrightarrow> look t k = Some v \<longrightarrow> F k v)"

lemma facts_ins: "inv t \<Longrightarrow> fits k \<Longrightarrow> facts F t \<Longrightarrow> F k v \<Longrightarrow> facts F (ins t k v)"
  by (auto simp: facts_def look_ins split: if_splits)

lemma facts_ins_ins: "inv t \<Longrightarrow> fits k \<Longrightarrow> facts F t \<Longrightarrow> F k w \<Longrightarrow> facts F (ins (ins t k v) k w)"
  using facts_ins [of t k F w] by (simp add: facts_def ins_ins)

end

end
