(* ===== verification/DeadCode.thy ===== *)
theory DeadCode
  imports Rewrite
begin

text \<open>
  Pass 1 of \<^verbatim>\<open>ir_pass_manager.c\<close>, dead code elimination: the loop of
  \<^verbatim>\<open>ir_pass_dce\<close> over the list, with the nodes already kept as its left context. Unlinking a node
  is leaving it out; \<open>fn_nodes\<close>, \<^verbatim>\<open>tail\<close> and \<open>fn_node_count\<close> change together. The trace printed to
  \<^verbatim>\<open>stderr\<close> is left out.
\<close>

subsection \<open>Helpers\<close>

definition is_side_effect :: "ir_op \<Rightarrow> bool" where
  "is_side_effect op = (case op of
     IR_STORE \<Rightarrow> True | IR_CALL \<Rightarrow> True | IR_RET \<Rightarrow> True | IR_BR \<Rightarrow> True | IR_BR_IF \<Rightarrow> True
   | IR_LABEL \<Rightarrow> True | IR_ARG \<Rightarrow> True | _ \<Rightarrow> False)"

definition node_uses :: "ir_node \<Rightarrow> cstr \<Rightarrow> bool" where
  "node_uses n nm =
     (if nm = [] then False
      else if nd_src1 n \<noteq> [] \<and> nd_src1 n = nm then True
      else if nd_src2 n \<noteq> [] \<and> nd_src2 n = nm then True
      else if nd_op n = IR_STORE \<and> nd_dst n \<noteq> [] \<and> nd_dst n = nm then True
      else False)"

subsection \<open>The pass\<close>

fun dce_loop :: "ir_node list \<Rightarrow> ir_node list \<Rightarrow> nat \<Rightarrow> ir_node list \<times> nat" where
  "dce_loop kept [] deleted = (kept, deleted)"
| "dce_loop kept (n # rest) deleted =
     (if nd_dst n \<noteq> [] \<and> \<not> is_side_effect (nd_op n) \<and> nd_op n \<noteq> IR_STORE
         \<and> \<not> list_ex (\<lambda>scan. node_uses scan (nd_dst n)) (kept @ n # rest)
      then dce_loop kept rest (deleted + 1)
      else dce_loop (kept @ [n]) rest deleted)"

definition ir_pass_dce :: "ir_func \<Rightarrow> ir_func \<times> ir_pass_result" where
  "ir_pass_dce fn =
     (let before = count_nodes fn;
          (nodes, deleted) = dce_loop [] (fn_nodes fn) 0
      in (fn\<lparr> fn_nodes := nodes, fn_node_count := fn_node_count fn - int deleted \<rparr>,
          empty_result\<lparr> nodes_before := before, nodes_after := before - int deleted,
                        nodes_deleted := int deleted, pass_changed := deleted > 0 \<rparr>))"

subsection \<open>Counting\<close>

lemma dce_loop_count: "dce_loop kept rest d = (ns, d') \<Longrightarrow> length ns + d' = length kept + length rest + d"
  by (induction kept rest d rule: dce_loop.induct) (auto split: if_splits)

lemma dce_loop_filter:
  "dce_loop kept rest d = (ns, d') \<Longrightarrow> \<exists>rest'. ns = kept @ rest' \<and> subseq rest' rest
     \<and> filter (\<lambda>n. is_side_effect (nd_op n) \<or> nd_dst n = []) rest'
       = filter (\<lambda>n. is_side_effect (nd_op n) \<or> nd_dst n = []) rest"
proof (induction kept rest d rule: dce_loop.induct)
  case (1 kept deleted)
  then show ?case by simp
next
  case (2 kept n rest deleted)
  show ?case
  proof (cases "nd_dst n \<noteq> [] \<and> \<not> is_side_effect (nd_op n) \<and> nd_op n \<noteq> IR_STORE
         \<and> \<not> list_ex (\<lambda>scan. node_uses scan (nd_dst n)) (kept @ n # rest)")
    case True
    then obtain rest' where "ns = kept @ rest'" "subseq rest' rest"
      "filter (\<lambda>n. is_side_effect (nd_op n) \<or> nd_dst n = []) rest'
       = filter (\<lambda>n. is_side_effect (nd_op n) \<or> nd_dst n = []) rest"
      using 2 by (auto split: if_splits)
    then show ?thesis using True by auto
  next
    case False
    then obtain rest' where "ns = (kept @ [n]) @ rest'" "subseq rest' rest"
      "filter (\<lambda>n. is_side_effect (nd_op n) \<or> nd_dst n = []) rest'
       = filter (\<lambda>n. is_side_effect (nd_op n) \<or> nd_dst n = []) rest"
      using 2 by (auto split: if_splits)
    then show ?thesis by (intro exI [of _ "n # rest'"]) auto
  qed
qed

subsection \<open>Removing one dead node\<close>

definition dead_in :: "ir_node list \<Rightarrow> ir_node \<Rightarrow> bool" where
  "dead_in p n \<longleftrightarrow> nd_dst n \<noteq> [] \<and> \<not> is_side_effect (nd_op n) \<and> (\<forall>m \<in> set p. \<not> node_uses m (nd_dst n))"

lemma not_used_operand:
  assumes "\<not> node_uses m x" "x \<noteq> []" "nd_phi_ops m = []"
  shows "x \<notin> set (operand_names m)" "nd_src1 m \<noteq> x"
  using assms by (auto simp: node_uses_def operand_names_def split: if_splits)

lemma node_value_cong:
  assumes "\<not> node_uses m x" "x \<noteq> []" "nd_phi_ops m = []" "\<And>s. s \<noteq> x \<Longrightarrow> env s = env' s"
  shows "node_value fp ext m env tr = node_value fp ext m env' tr"
    and "read_all env (operand_names m) = read_all env' (operand_names m)"
    and "env (nd_src1 m) = env' (nd_src1 m)"
proof -
  show r: "read_all env (operand_names m) = read_all env' (operand_names m)"
    by (rule read_all_cong) (use assms not_used_operand in metis)
  show s: "env (nd_src1 m) = env' (nd_src1 m)"
    using assms not_used_operand by metis
  show "node_value fp ext m env tr = node_value fp ext m env' tr"
    unfolding node_value_def r s ..
qed

lemma find_label_remove:
  assumes "nd_op n \<noteq> IR_LABEL"
  shows "(find_label (A @ n # B) l = None \<and> find_label (A @ B) l = None)
    \<or> (\<exists>A1 A2. A = A1 @ A2 \<and> find_label (A @ n # B) l = Some (A2 @ n # B) \<and> find_label (A @ B) l = Some (A2 @ B))
    \<or> (\<exists>B1 B2. B = B1 @ B2 \<and> find_label (A @ n # B) l = Some B2 \<and> find_label (A @ B) l = Some B2)"
proof (induction A)
  case Nil
  have "find_label B l = None \<or> (\<exists>B1 B2. B = B1 @ B2 \<and> find_label B l = Some B2)"
  proof (induction B)
    case (Cons b B)
    then show ?case by (cases "nd_op b = IR_LABEL \<and> nd_label b = l") (auto intro: exI [of _ "[b]"] exI [of _ "b # _"])
  qed simp
  then show ?case using assms by auto
next
  case (Cons a A)
  show ?case
  proof (cases "nd_op a = IR_LABEL \<and> nd_label a = l")
    case True
    then show ?thesis by (auto intro: exI [of _ "[a]"])
  next
    case False
    then have e: "find_label ((a # A) @ n # B) l = find_label (A @ n # B) l"
      "find_label ((a # A) @ B) l = find_label (A @ B) l" by auto
    show ?thesis unfolding e using Cons
      by (elim disjE) (auto intro: exI [of _ "a # _"])
  qed
qed

definition rem_rel :: "ir_node list \<Rightarrow> ir_node \<Rightarrow> ir_node list \<Rightarrow> ir_node list \<Rightarrow> ir_node list \<Rightarrow> bool" where
  "rem_rel A n B rest rest' \<longleftrightarrow>
     (\<exists>A1 A2. A = A1 @ A2 \<and> rest = A2 @ n # B \<and> rest' = A2 @ B) \<or> (\<exists>B1. B = B1 @ rest \<and> rest' = rest)"

inductive dead_rel :: "ir_node list \<Rightarrow> ir_node \<Rightarrow> ir_node list \<Rightarrow> conf \<Rightarrow> conf \<Rightarrow> bool" for A n B where
  run: "rem_rel A n B rest rest' \<Longrightarrow> (\<And>s. s \<noteq> nd_dst n \<Longrightarrow> env s = env' s)
        \<Longrightarrow> dead_rel A n B (Run rest env tr) (Run rest' env' tr)"
| fin: "dead_rel A n B (Done tr) (Done tr)"

inductive_cases dead_rel_RunE: "dead_rel A n B (Run rest env tr) d"
inductive_cases dead_rel_DoneE: "dead_rel A n B (Done tr) d"

lemma find_label_rel:
  assumes "nd_op n \<noteq> IR_LABEL" "find_label (A @ n # B) l = Some r"
  shows "\<exists>r'. find_label (A @ B) l = Some r' \<and> rem_rel A n B r r'"
  using find_label_remove [OF assms(1), of A B l] assms(2) by (auto simp: rem_rel_def)

text \<open>A step at a node that both programs have.\<close>

lemma common_step:
  assumes m: "m \<in> set (A @ B)" and dead: "dead_in (A @ n # B) n" and phi: "no_phi (A @ n # B)"
    and rel: "rem_rel A n B rest rest'" and env: "\<And>s. s \<noteq> nd_dst n \<Longrightarrow> env s = env' s"
    and nx: "ir_next fp ext (A @ n # B) (Run (m # rest) env tr) = Some c'"
  shows "\<exists>d'. ir_next fp ext (A @ B) (Run (m # rest') env' tr) = Some d' \<and> dead_rel A n B c' d'"
proof -
  have nl: "nd_op n \<noteq> IR_LABEL" and x: "nd_dst n \<noteq> []"
    using dead by (auto simp: dead_in_def is_side_effect_def)
  have nu: "\<not> node_uses m (nd_dst n)" "nd_phi_ops m = []"
    using m dead phi by (auto simp: dead_in_def no_phi_def list_all_iff)
  have cong: "node_value fp ext m env tr = node_value fp ext m env' tr"
    "read_all env (operand_names m) = read_all env' (operand_names m)"
    "env (nd_src1 m) = env' (nd_src1 m)"
    using node_value_cong [OF nu(1) x nu(2), of env env'] env by blast+
  note lab = find_label_rel [OF nl, of A B]
  have sd: "\<And>v s. s \<noteq> nd_dst n \<Longrightarrow> set_dst (nd_dst m) v env s = set_dst (nd_dst m) v env' s"
    by (rule set_dst_cong [OF env])
  show ?thesis
  proof (cases "nd_op m" rule: op_kind_cases)
    case skip
    then show ?thesis using nx by (auto simp: next_skip intro: dead_rel.run rel env)
  next
    case br
    then obtain r where r: "find_label (A @ n # B) (nd_label m) = Some r" "c' = Run r env tr"
      using nx by (auto simp: next_br)
    obtain r' where "find_label (A @ B) (nd_label m) = Some r'" "rem_rel A n B r r'"
      using lab [OF r(1)] by blast
    then show ?thesis using r br by (auto simp: next_br intro!: dead_rel.run env)
  next
    case br_if
    then obtain v where v: "env (nd_src1 m) = Some v" using nx by (auto simp: next_br_if split: option.splits)
    show ?thesis
    proof (cases "truth v")
      case True
      then obtain r where r: "find_label (A @ n # B) (nd_label m) = Some r" "c' = Run r env tr"
        using nx br_if v by (auto simp: next_br_if)
      obtain r' where "find_label (A @ B) (nd_label m) = Some r'" "rem_rel A n B r r'"
        using lab [OF r(1)] by blast
      then show ?thesis using r br_if v True cong(3) by (auto simp: next_br_if intro!: dead_rel.run env)
    next
      case False
      then show ?thesis using nx br_if v cong(3) by (auto simp: next_br_if intro: dead_rel.run rel env)
    qed
  next
    case ret
    then show ?thesis using nx cong(2) by (auto simp: next_ret intro: dead_rel.fin)
  next
    case effect
    then show ?thesis using nx cong(2) by (auto simp: next_effect intro!: dead_rel.run rel env sd)
  next
    case val
    then show ?thesis using nx cong(1) by (auto simp: next_value intro!: dead_rel.run rel env sd)
  qed
qed

text \<open>A step at the dead node itself: the other program stands still.\<close>

lemma dead_step:
  assumes dead: "dead_in (A @ n # B) n"
    and env: "\<And>s. s \<noteq> nd_dst n \<Longrightarrow> env s = env' s"
    and nx: "ir_next fp ext (A @ n # B) (Run (n # B) env tr) = Some c'"
  shows "dead_rel A n B c' (Run B env' tr)"
proof -
  have op: "nd_op n = IR_NOP \<or> is_value_op (nd_op n)"
    using dead by (auto simp: dead_in_def is_side_effect_def is_value_op_def is_effect_def split: ir_op.splits)
  have rel: "rem_rel A n B B B" by (simp add: rem_rel_def)
  from op show ?thesis
  proof
    assume "nd_op n = IR_NOP"
    then show ?thesis using nx by (auto simp: next_skip intro!: dead_rel.run rel env)
  next
    assume "is_value_op (nd_op n)"
    then obtain v where "c' = Run B (set_dst (nd_dst n) v env) tr"
      using nx by (auto simp: next_value)
    then show ?thesis by (auto simp: set_dst_def env intro!: dead_rel.run rel)
  qed
qed

lemma dead_simulation:
  assumes dead: "dead_in (A @ n # B) n" and phi: "no_phi (A @ n # B)"
    and r: "dead_rel A n B c d" and nx: "ir_next fp ext (A @ n # B) c = Some c'"
  shows "\<exists>d'. ir_steps fp ext (A @ B) d d' \<and> dead_rel A n B c' d'"
  using r
proof (cases rule: dead_rel.cases)
  case (run rest rest' env env' tr)
  note env = run(4)
  consider A2 A1 where "A = A1 @ A2" "rest = A2 @ n # B" "rest' = A2 @ B"
    | B1 where "B = B1 @ rest" "rest' = rest"
    using run(3) by (auto simp: rem_rel_def)
  then show ?thesis
  proof cases
    case 1
    show ?thesis
    proof (cases A2)
      case Nil
      then show ?thesis
        using dead_step [OF dead env] nx run 1 by (auto intro: ir_steps.refl)
    next
      case (Cons m A3)
      have rel: "rem_rel A n B (A3 @ n # B) (A3 @ B)"
        using 1 Cons by (auto simp: rem_rel_def intro: exI [of _ "A1 @ [m]"])
      show ?thesis
        using common_step [where m = m, OF _ dead phi rel env] nx run 1 Cons
        by (fastforce intro: ir_steps_one)
    qed
  next
    case 2
    show ?thesis
    proof (cases rest)
      case Nil
      then show ?thesis
        using nx run 2 by (auto intro!: exI [of _ "Done tr"] ir_steps_one dead_rel.fin)
    next
      case (Cons m r3)
      have rel: "rem_rel A n B r3 r3"
        using 2 Cons by (auto simp: rem_rel_def intro: exI [of _ "B1 @ [m]"])
      show ?thesis
        using common_step [where m = m, OF _ dead phi rel env] nx run 2 Cons
        by (fastforce intro: ir_steps_one)
    qed
  qed
next
  case (fin tr)
  then show ?thesis using nx by simp
qed

lemma remove_dead_result:
  assumes "dead_in (A @ n # B) n" "no_phi (A @ n # B)" "ir_result fp ext (A @ n # B) env tr"
  shows "ir_result fp ext (A @ B) env tr"
  unfolding ir_result_def
proof (rule simulation [where R = "dead_rel A n B"])
  show "dead_rel A n B (Run (A @ n # B) env []) (Run (A @ B) env [])"
    by (intro dead_rel.run) (auto simp: rem_rel_def)
  show "\<And>t d. dead_rel A n B (Done t) d \<Longrightarrow> d = Done t" by (erule dead_rel_DoneE) simp
  show "\<And>c c' d. dead_rel A n B c d \<Longrightarrow> ir_next fp ext (A @ n # B) c = Some c' \<Longrightarrow>
      \<exists>d'. ir_steps fp ext (A @ B) d d' \<and> dead_rel A n B c' d'"
    by (rule dead_simulation [OF assms(1,2)])
  show "ir_steps fp ext (A @ n # B) (Run (A @ n # B) env []) (Done tr)"
    using assms(3) by (simp add: ir_result_def)
qed simp

subsection \<open>The whole pass\<close>

lemma dce_loop_result:
  "dce_loop kept rest d = (ns, d') \<Longrightarrow> no_phi (kept @ rest) \<Longrightarrow> ir_result fp ext (kept @ rest) env tr
   \<Longrightarrow> ir_result fp ext ns env tr"
proof (induction kept rest d rule: dce_loop.induct)
  case (1 kept deleted)
  then show ?case by simp
next
  case (2 kept n rest deleted)
  show ?case
  proof (cases "nd_dst n \<noteq> [] \<and> \<not> is_side_effect (nd_op n) \<and> nd_op n \<noteq> IR_STORE
         \<and> \<not> list_ex (\<lambda>scan. node_uses scan (nd_dst n)) (kept @ n # rest)")
    case True
    then have "dead_in (kept @ n # rest) n" by (auto simp: dead_in_def list_ex_iff)
    then have "ir_result fp ext (kept @ rest) env tr"
      using remove_dead_result 2 by blast
    then show ?thesis using True 2 by (auto simp: no_phi_def split: if_splits)
  next
    case False
    then show ?thesis using 2 by (auto split: if_splits)
  qed
qed

definition dce_pass :: "'s ir_pass_fn" where
  "dce_pass s fn = (case ir_pass_dce fn of (fn', r) \<Rightarrow> Some (s, fn', r))"

lemma dce_pass_run:
  assumes "dce_pass s fn = Some (s', fn', r)"
  obtains ns d where "dce_loop [] (fn_nodes fn) 0 = (ns, d)" "s' = s"
    "fn' = fn\<lparr> fn_nodes := ns, fn_node_count := fn_node_count fn - int d \<rparr>"
    "nodes_before r = count_nodes fn" "nodes_after r = count_nodes fn - int d"
    "int (length ns) = count_nodes fn - int d"
  using assms dce_loop_count [of "[]" "fn_nodes fn" 0]
  by (cases "dce_loop [] (fn_nodes fn) 0")
    (auto simp: dce_pass_def ir_pass_dce_def Let_def empty_result_def count_nodes_length)

interpretation dce: ir_pass dce_pass fp "\<lambda>p env. no_phi p" for fp
proof unfold_locales
  fix s :: 's and s' fn fn' r assume a: "dce_pass s fn = Some (s', fn', r)"
  show "count_ok fn'" if "count_ok fn"
    using a by (rule dce_pass_run) (use that in \<open>simp add: count_ok_def count_nodes_length\<close>)
  show "nodes_before r = count_nodes fn \<and> nodes_after r = count_nodes fn'"
    using a by (rule dce_pass_run) (simp add: count_nodes_length)
  show "fn_name fn' = fn_name fn \<and> fn_ret_type fn' = fn_ret_type fn \<and> fn_num_params fn' = fn_num_params fn"
    using a by (rule dce_pass_run) simp
  show "ir_result fp ext (fn_nodes fn') env tr"
    if "no_phi (fn_nodes fn)" "ir_result fp ext (fn_nodes fn) env tr" for ext env tr
    using a by (rule dce_pass_run) (use that dce_loop_result [of "[]"] in auto)
qed

subsection \<open>Properties\<close>

text \<open>C3: dead code elimination is sound: whatever events a function produces, for any behaviour of
  memory, calls and floating point, the function left by the pass produces too. The scan ignores
  phi operands, so the function must hold no phi (the SSA pass has removed them by then).\<close>

theorem ir_pass_dce_preserves_results:
  assumes "no_phi (fn_nodes fn)" "ir_result fp ext (fn_nodes fn) env tr"
  shows "ir_result fp ext (fn_nodes (fst (ir_pass_dce fn))) env tr"
proof -
  have "dce_pass () fn = Some ((), fst (ir_pass_dce fn), snd (ir_pass_dce fn))"
    by (simp add: dce_pass_def split_beta)
  then show ?thesis using assms by (rule dce.pass_sound)
qed

definition dce_example :: ir_func where
  "dce_example = (ir_empty_func 0)\<lparr> fn_nodes :=
     [ir_node_alloc\<lparr> nd_op := IR_CONST, nd_dst := ''a'', nd_imm := 7 \<rparr>,
      ir_node_alloc\<lparr> nd_op := IR_COPY, nd_dst := ''b'', nd_src1 := ''a'' \<rparr>,
      ir_node_alloc\<lparr> nd_op := IR_RET, nd_src1 := ''a'' \<rparr>], fn_node_count := 3 \<rparr>"

theorem ir_pass_dce_preserves_results_witness:
  "ir_result fp0 ext0 (fn_nodes (fst (ir_pass_dce dce_example))) Map.empty [ret_ev 7]"
proof (rule ir_pass_dce_preserves_results)
  show "no_phi (fn_nodes dce_example)" by (simp add: no_phi_def dce_example_def ir_node_alloc_def)
  show "ir_result fp0 ext0 (fn_nodes dce_example) Map.empty [ret_ev 7]"
    by (rule run_ret_result) code_simp
qed

text \<open>What the pass removes and reports: the nodes left are a subsequence of the original ones that
  contains every side effect and every node without a destination, in order; the node counter
  stays the length of the list; the metrics are the lengths before and after.\<close>

lemma ir_pass_dce_removes:
  assumes "count_ok fn" "ir_pass_dce fn = (fn', r)"
  shows "subseq (fn_nodes fn') (fn_nodes fn)
    \<and> filter (\<lambda>n. is_side_effect (nd_op n) \<or> nd_dst n = []) (fn_nodes fn')
      = filter (\<lambda>n. is_side_effect (nd_op n) \<or> nd_dst n = []) (fn_nodes fn)
    \<and> count_ok fn' \<and> nodes_after r = count_nodes fn'
    \<and> nodes_deleted r = nodes_before r - nodes_after r \<and> (pass_changed r \<longleftrightarrow> fn_nodes fn' \<noteq> fn_nodes fn)"
proof -
  obtain ns d where l: "dce_loop [] (fn_nodes fn) 0 = (ns, d)" by fastforce
  have fn': "fn_nodes fn' = ns" "fn_node_count fn' = fn_node_count fn - int d"
    "r = empty_result\<lparr> nodes_before := count_nodes fn, nodes_after := count_nodes fn - int d,
                        nodes_deleted := int d, pass_changed := d > 0 \<rparr>"
    using assms(2) l by (auto simp: ir_pass_dce_def Let_def)
  note f = dce_loop_filter [OF l] and c = dce_loop_count [OF l]
  have "d > 0 \<longleftrightarrow> ns \<noteq> fn_nodes fn"
    using f c by (auto dest: subseq_same_length)
  then show ?thesis
    using f c assms(1) by (auto simp: fn' count_ok_def count_nodes_length)
qed

lemma ir_pass_dce_removes_witness:
  "nodes_deleted (snd (ir_pass_dce dce_example)) = 1"
proof -
  have "length (fn_nodes (fst (ir_pass_dce dce_example))) = 2" "nodes_before (snd (ir_pass_dce dce_example)) = 3"
    by (simp_all add: dce_example_def ir_pass_dce_def count_nodes_def is_side_effect_def node_uses_def
        ir_node_alloc_def)
  moreover have "count_ok dce_example" by (simp add: count_ok_def dce_example_def)
  ultimately show ?thesis
    using ir_pass_dce_removes [of dce_example "fst (ir_pass_dce dce_example)" "snd (ir_pass_dce dce_example)"]
    by (simp add: count_nodes_length)
qed

end
