(* ===== verification/ConstFold.thy ===== *)
theory ConstFold
  imports Rewrite NameTable "HOL-Library.AList"
begin

text \<open>
  Passes 2 and 3 of \<^verbatim>\<open>ir_pass_manager.c\<close>: the constant map, constant folding and strength reduction.

  The static array \<^verbatim>\<open>s_cmap\<close> is an association list from the 31-character name an entry stores to its
  value, \<open>C64\<close> when \<^verbatim>\<open>is_256\<close> is 0 and \<open>C256\<close> when it is 1: the field the flag does not select is
  never read. Overflow of C's signed addition, subtraction and multiplication is taken to wrap, as it
  does in the compiled code; a quotient that does not fit stops the compiler, which is \<open>None\<close>. The
  arithmetic of doubles is the parameter \<open>fp_ops\<close> of theory \<open>IRSem\<close>, on bit patterns as the two
  unions of the source reinterpret them.
\<close>

subsection \<open>The constant map\<close>

type_synonym cmap = "(cstr \<times> cval) list"

definition CONST_MAP_MAX :: nat where "CONST_MAP_MAX = 8192"

definition cmap_put :: "cmap \<Rightarrow> cstr \<Rightarrow> cval \<Rightarrow> cmap" where
  "cmap_put cm nm v =
     (if map_of cm nm \<noteq> None then AList.update nm v cm
      else if length cm \<ge> CONST_MAP_MAX then cm
      else cm @ [(c_copy 32 nm, v)])"

definition cmap_add :: "cmap \<Rightarrow> cstr \<Rightarrow> u64 \<Rightarrow> cmap" where
  "cmap_add cm nm v = cmap_put cm nm (C64 v)"

definition cmap_add_256 :: "cmap \<Rightarrow> cstr \<Rightarrow> uint256 \<Rightarrow> cmap" where
  "cmap_add_256 cm nm v = cmap_put cm nm (C256 v)"

definition cmap_get :: "cmap \<Rightarrow> cstr \<Rightarrow> u64 option" where
  "cmap_get cm nm = (if nm = [] then None
     else case map_of cm nm of Some (C64 v) \<Rightarrow> Some v | _ \<Rightarrow> None)"

definition cmap_get_256 :: "cmap \<Rightarrow> cstr \<Rightarrow> uint256 option" where
  "cmap_get_256 cm nm = (if nm = [] then None
     else case map_of cm nm of Some (C256 v) \<Rightarrow> Some v | _ \<Rightarrow> None)"

definition zcc_uint256_eq :: "uint256 \<Rightarrow> uint256 \<Rightarrow> bool" where
  "zcc_uint256_eq a b \<longleftrightarrow> limb a 0 = limb b 0 \<and> limb a 1 = limb b 1 \<and> limb a 2 = limb b 2 \<and> limb a 3 = limb b 3"

text \<open>The loop from limb 3 down to limb 0; \<open>i\<close> is one more than the limb looked at.\<close>

fun uint256_lt_from :: "uint256 \<Rightarrow> uint256 \<Rightarrow> nat \<Rightarrow> bool" where
  "uint256_lt_from a b 0 = False"
| "uint256_lt_from a b (Suc i) =
     (if limb a i < limb b i then True else if limb a i > limb b i then False else uint256_lt_from a b i)"

definition zcc_uint256_lt :: "uint256 \<Rightarrow> uint256 \<Rightarrow> bool" where
  "zcc_uint256_lt a b = uint256_lt_from a b 4"

subsection \<open>Constant folding\<close>

datatype fold_res = FTrap | FSkip | FVal u64

definition fold_div :: "u64 option \<Rightarrow> u64 \<Rightarrow> fold_res" where
  "fold_div q b = (if b = 0 then FSkip else case q of None \<Rightarrow> FTrap | Some r \<Rightarrow> FVal r)"

text \<open>The \<^verbatim>\<open>switch\<close> over the operation on two 64-bit constants.\<close>

definition fold64 :: "ir_op \<Rightarrow> u64 \<Rightarrow> u64 \<Rightarrow> fold_res" where
  "fold64 op a b = (case op of
       IR_ADD \<Rightarrow> FVal (a + b)
     | IR_SUB \<Rightarrow> FVal (a - b)
     | IR_MUL \<Rightarrow> FVal (a * b)
     | IR_DIV \<Rightarrow> fold_div (c_sdiv a b) b
     | IR_MOD \<Rightarrow> fold_div (c_smod a b) b
     | IR_AND \<Rightarrow> FVal (a AND b)
     | IR_OR \<Rightarrow> FVal (a OR b)
     | IR_XOR \<Rightarrow> FVal (a XOR b)
     | IR_SHL \<Rightarrow> FVal (if 0 \<le>s b \<and> b <s 64 then push_bit (unat b) a else 0)
     | IR_SHR \<Rightarrow> FVal (if 0 \<le>s b \<and> b <s 64 then drop_bit (unat b) a else 0)
     | IR_EQ \<Rightarrow> FVal (if a = b then 1 else 0)
     | IR_NE \<Rightarrow> FVal (if a \<noteq> b then 1 else 0)
     | IR_LT \<Rightarrow> FVal (if a <s b then 1 else 0)
     | IR_LE \<Rightarrow> FVal (if a \<le>s b then 1 else 0)
     | IR_GT \<Rightarrow> FVal (if b <s a then 1 else 0)
     | IR_GE \<Rightarrow> FVal (if b \<le>s a then 1 else 0)
     | _ \<Rightarrow> FSkip)"

text \<open>The wide branch: a comparison selected by the tag gives a 64-bit result, an arithmetic operation a
  wide one, anything else is left alone.\<close>

definition fold256 :: "int \<Rightarrow> ir_op \<Rightarrow> uint256 \<Rightarrow> uint256 \<Rightarrow> cval option" where
  "fold256 tag op a b =
     (if tag = IR_TAG_EVM_EQ then Some (C64 (if zcc_uint256_eq a b then 1 else 0))
      else if tag = IR_TAG_EVM_LT then Some (C64 (if zcc_uint256_lt a b then 1 else 0))
      else if tag = IR_TAG_EVM_GT then Some (C64 (if zcc_uint256_lt b a then 1 else 0))
      else if tag = IR_TAG_EVM_ISZERO then Some (C64 (if zcc_uint256_eq a u256_zero then 1 else 0))
      else if op = IR_ADD then Some (C256 (evm_u256_add a b))
      else if op = IR_SUB then Some (C256 (evm_u256_sub a b))
      else if op = IR_MUL then Some (C256 (evm_u256_mul a b))
      else if op = IR_DIV then
        Some (C256 (if tag = IR_TAG_EVM_SDIV then evm_u256_sdiv a b else evm_u256_div a b))
      else if op = IR_MOD then Some (C256 (evm_u256_div a b))
      else None)"

definition is_fp_bin :: "ir_op \<Rightarrow> bool" where
  "is_fp_bin op \<longleftrightarrow> op = IR_FADD \<or> op = IR_FSUB \<or> op = IR_FMUL \<or> op = IR_FDIV"

definition fold_fp :: "fp_ops \<Rightarrow> ir_op \<Rightarrow> u64 \<Rightarrow> u64 \<Rightarrow> u64 option" where
  "fold_fp fp op a b =
     (if op = IR_FADD then Some (fp_add fp a b)
      else if op = IR_FSUB then Some (fp_sub fp a b)
      else if op = IR_FMUL then Some (fp_mul fp a b)
      else if fp_is_zero fp b then None else Some (fp_div fp a b))"

definition to_const :: "ir_node \<Rightarrow> u64 \<Rightarrow> ir_node" where
  "to_const n v = n\<lparr> nd_op := IR_CONST, nd_imm := v, nd_tag := IR_TAG_NONE, nd_src1 := [], nd_src2 := [] \<rparr>"

definition to_wide_const :: "ir_node \<Rightarrow> uint256 \<Rightarrow> ir_node" where
  "to_wide_const n v = n\<lparr> nd_op := IR_CONST, nd_imm := limb0 v, nd_imm256 := v,
     nd_tag := IR_TAG_TRUNCATED_WIDE_CONST, nd_src1 := [], nd_src2 := [] \<rparr>"

definition to_fconst :: "ir_node \<Rightarrow> u64 \<Rightarrow> ir_node" where
  "to_fconst n v = n\<lparr> nd_op := IR_FCONST, nd_imm := v, nd_tag := IR_TAG_NONE, nd_src1 := [], nd_src2 := [] \<rparr>"

definition track_const :: "cmap \<Rightarrow> ir_node \<Rightarrow> cmap" where
  "track_const cm n =
     (if nd_tag n = IR_TAG_TRUNCATED_WIDE_CONST \<or> nd_tag n = IR_TAG_NONE
      then let cm1 = cmap_add cm (nd_dst n) (nd_imm n)
           in if nd_tag n = IR_TAG_TRUNCATED_WIDE_CONST then cmap_add_256 cm1 (nd_dst n) (nd_imm256 n) else cm1
      else cmap_add cm (nd_dst n) (nd_imm n))"

text \<open>The body of the loop: the node, the map and whether the node was rewritten. First the branch for
  operands the map holds as 256-bit constants, then the one for 64-bit constants.\<close>

definition const_fold_wide :: "cmap \<Rightarrow> ir_node \<Rightarrow> ir_node \<times> cmap \<times> bool" where
  "const_fold_wide cm n =
     (case cmap_get_256 cm (nd_src1 n) of None \<Rightarrow> (n, cm, False)
      | Some a \<Rightarrow>
          (if nd_tag n \<noteq> IR_TAG_EVM_ISZERO \<and> cmap_get_256 cm (nd_src2 n) = None then (n, cm, False)
           else (case fold256 (nd_tag n) (nd_op n) a
                   (case cmap_get_256 cm (nd_src2 n) of None \<Rightarrow> u256_zero | Some b \<Rightarrow> b) of
               None \<Rightarrow> (n, cm, False)
             | Some (C64 v) \<Rightarrow> (to_const n v, cmap_add cm (nd_dst n) v, True)
             | Some (C256 v) \<Rightarrow> (to_wide_const n v,
                  cmap_add_256 (cmap_add cm (nd_dst n) (limb0 v)) (nd_dst n) v, True))))"

definition const_fold_plain :: "fp_ops \<Rightarrow> cmap \<Rightarrow> ir_node \<Rightarrow> (ir_node \<times> cmap \<times> bool) option" where
  "const_fold_plain fp cm n =
     (case (cmap_get cm (nd_src1 n), cmap_get cm (nd_src2 n)) of
        (Some a, Some b) \<Rightarrow>
          (if is_fp_bin (nd_op n) then
             (case fold_fp fp (nd_op n) a b of None \<Rightarrow> Some (n, cm, False)
              | Some v \<Rightarrow> Some (to_fconst n v, cmap_add cm (nd_dst n) v, True))
           else (case fold64 (nd_op n) a b of
               FTrap \<Rightarrow> None
             | FSkip \<Rightarrow> Some (n, cm, False)
             | FVal v \<Rightarrow> Some (to_const n v, cmap_add cm (nd_dst n) v, True)))
      | _ \<Rightarrow> Some (n, cm, False))"

definition const_fold_node :: "fp_ops \<Rightarrow> cmap \<Rightarrow> ir_node \<Rightarrow> (ir_node \<times> cmap \<times> bool) option" where
  "const_fold_node fp cm n =
     (if nd_op n = IR_CONST \<and> nd_dst n \<noteq> [] then Some (n, track_const cm n, False)
      else if nd_src1 n \<noteq> [] \<and> nd_src2 n \<noteq> [] then
        (if is_256_tag (nd_tag n) \<or> nd_tag n = IR_TAG_TRUNCATED_WIDE_CONST
            \<or> cmap_get_256 cm (nd_src1 n) \<noteq> None
         then Some (const_fold_wide cm n)
         else const_fold_plain fp cm n)
      else Some (n, cm, False))"

fun const_fold_loop :: "fp_ops \<Rightarrow> cmap \<Rightarrow> ir_node list \<Rightarrow> nat \<Rightarrow> (ir_node list \<times> nat) option" where
  "const_fold_loop fp cm [] modified = Some ([], modified)"
| "const_fold_loop fp cm (n # ns) modified =
     (case const_fold_node fp cm n of None \<Rightarrow> None
      | Some (n', cm', m) \<Rightarrow>
          (case const_fold_loop fp cm' ns (if m then modified + 1 else modified) of None \<Rightarrow> None
           | Some (ns', modified') \<Rightarrow> Some (n' # ns', modified')))"

definition ir_pass_const_fold :: "fp_ops \<Rightarrow> ir_func \<Rightarrow> (ir_func \<times> ir_pass_result) option" where
  "ir_pass_const_fold fp fn =
     (case const_fold_loop fp [] (fn_nodes fn) 0 of None \<Rightarrow> None
      | Some (ns, modified) \<Rightarrow>
          Some (fn\<lparr> fn_nodes := ns \<rparr>,
                empty_result\<lparr> nodes_before := count_nodes fn, nodes_after := count_nodes fn,
                              nodes_modified := int modified, pass_changed := modified > 0 \<rparr>))"

subsection \<open>Strength reduction\<close>

fun collect_consts :: "cmap \<Rightarrow> ir_node list \<Rightarrow> cmap" where
  "collect_consts cm [] = cm"
| "collect_consts cm (n # ns) =
     collect_consts (if nd_op n = IR_CONST \<and> nd_dst n \<noteq> [] then cmap_add cm (nd_dst n) (nd_imm n) else cm) ns"

definition to_zero :: "ir_node \<Rightarrow> ir_node" where
  "to_zero n = n\<lparr> nd_op := IR_CONST, nd_imm := 0, nd_src1 := [], nd_src2 := [] \<rparr>"

definition to_copy1 :: "ir_node \<Rightarrow> ir_node" where
  "to_copy1 n = n\<lparr> nd_op := IR_COPY, nd_src2 := [] \<rparr>"

text \<open>The second operand moves into the 64-byte \<^verbatim>\<open>src1\<close> with a copy bounded at 31 characters.\<close>

definition to_copy2 :: "ir_node \<Rightarrow> ir_node" where
  "to_copy2 n = n\<lparr> nd_op := IR_COPY, nd_src1 := c_copy 32 (nd_src2 n), nd_src2 := [] \<rparr>"

definition strength_node :: "cmap \<Rightarrow> ir_node \<Rightarrow> ir_node \<times> cmap \<times> bool" where
  "strength_node cm n =
     (if nd_op n = IR_MUL then
        (if cmap_get cm (nd_src2 n) = Some 0 then (to_zero n, cmap_add cm (nd_dst n) 0, True)
         else if cmap_get cm (nd_src1 n) = Some 0 then (to_zero n, cmap_add cm (nd_dst n) 0, True)
         else if cmap_get cm (nd_src2 n) = Some 1 then (to_copy1 n, cm, True)
         else if cmap_get cm (nd_src1 n) = Some 1 then (to_copy2 n, cm, True)
         else (n, cm, False))
      else if nd_op n = IR_ADD then
        (if cmap_get cm (nd_src2 n) = Some 0 then (to_copy1 n, cm, True)
         else if cmap_get cm (nd_src1 n) = Some 0 then (to_copy2 n, cm, True)
         else (n, cm, False))
      else if nd_op n = IR_SUB then
        (if cmap_get cm (nd_src2 n) = Some 0 then (to_copy1 n, cm, True) else (n, cm, False))
      else (n, cm, False))"

fun strength_loop :: "cmap \<Rightarrow> ir_node list \<Rightarrow> nat \<Rightarrow> ir_node list \<times> nat" where
  "strength_loop cm [] modified = ([], modified)"
| "strength_loop cm (n # ns) modified =
     (case strength_node cm n of (n', cm', m) \<Rightarrow>
        (case strength_loop cm' ns (if m then modified + 1 else modified) of (ns', modified') \<Rightarrow>
           (n' # ns', modified')))"

definition ir_pass_strength_reduce :: "ir_func \<Rightarrow> ir_func \<times> ir_pass_result" where
  "ir_pass_strength_reduce fn =
     (let (ns, modified) = strength_loop (collect_consts [] (fn_nodes fn)) (fn_nodes fn) 0
      in (fn\<lparr> fn_nodes := ns \<rparr>,
          empty_result\<lparr> nodes_before := count_nodes fn, nodes_after := count_nodes fn,
                        nodes_modified := int modified, pass_changed := modified > 0 \<rparr>))"

subsection \<open>The constant map as a table\<close>

definition fits32 :: "cstr \<Rightarrow> bool" where "fits32 k \<longleftrightarrow> length k < 32"

definition cmap_room :: "cmap \<Rightarrow> cstr \<Rightarrow> bool" where
  "cmap_room cm k \<longleftrightarrow> map_of cm k \<noteq> None \<or> length cm < CONST_MAP_MAX"

lemma map_of_cmap_put:
  "fits32 k \<Longrightarrow> map_of (cmap_put cm k v) k' = (if k' = k \<and> cmap_room cm k then Some v else map_of cm k')"
  by (auto simp: cmap_put_def cmap_room_def update_conv fits32_def c_copy_id map_add_def
      split: option.splits)

lemma cmap_put_full: "\<not> cmap_room cm k \<Longrightarrow> cmap_put cm k v = cm"
  by (simp add: cmap_put_def cmap_room_def)

interpretation cmap: name_table map_of cmap_put cmap_room fits32 "\<lambda>_. True"
proof unfold_locales
  show "fits32 k \<Longrightarrow> fits32 k' \<Longrightarrow>
      map_of (cmap_put t k v) k' = (if k' = k \<and> cmap_room t k then Some v else map_of t k')" for t k k' v
    by (rule map_of_cmap_put)
qed (simp_all add: cmap_put_full, simp add: cmap_room_def)

lemma cmap_get_map: "cmap_get cm x = Some v \<Longrightarrow> x \<noteq> [] \<and> map_of cm x = Some (C64 v)"
  by (auto simp: cmap_get_def split: if_splits option.splits cval.splits)

lemma cmap_get_256_map: "cmap_get_256 cm x = Some v \<Longrightarrow> x \<noteq> [] \<and> map_of cm x = Some (C256 v)"
  by (auto simp: cmap_get_256_def split: if_splits option.splits cval.splits)

subsection \<open>Folding agrees with the machine\<close>

lemma radix4:
  fixes v B :: nat
  assumes "v div B div B div B < B"
  shows "v mod B + B * (v div B mod B) + B * B * (v div B div B mod B)
    + B * (B * B) * (v div B div B div B mod B) = v"
proof -
  have m: "x = x mod B + B * (x div B)" for x by (metis add.commute mult_div_mod_eq)
  have "v mod B + B * (v div B mod B + B * (v div B div B mod B + B * (v div B div B div B))) = v"
    using m [of v] m [of "v div B"] m [of "v div B div B"] by metis
  moreover have "v div B div B div B mod B = v div B div B div B" using assms by simp
  ultimately show ?thesis by (simp only: distrib_left mult.assoc add.assoc)
qed

lemma uval_u256_of_nat: "v < 2 ^ 256 \<Longrightarrow> uval (u256_of_nat v) = v"
proof -
  assume v: "v < 2 ^ 256"
  have w: "unat (of_nat (x mod 2 ^ 64) :: u64) = x mod 2 ^ 64" for x
    by (simp add: unat_of_nat)
  have e: "uval (u256_of_nat v) = v mod 2 ^ 64 + 2 ^ 64 * ((v div 2 ^ 64) mod 2 ^ 64)
      + 2 ^ 128 * ((v div 2 ^ 128) mod 2 ^ 64) + 2 ^ 192 * ((v div 2 ^ 192) mod 2 ^ 64)"
    unfolding uval_def u256_of_nat_def uint256.sel w ..
  have d: "v div 2 ^ 128 = v div 2 ^ 64 div 2 ^ 64" "v div 2 ^ 192 = v div 2 ^ 64 div 2 ^ 64 div 2 ^ 64"
    by (simp_all add: div_mult2_eq [symmetric])
  have p: "2 ^ 128 = 2 ^ 64 * (2 ^ 64 :: nat)" "2 ^ 192 = 2 ^ 64 * (2 ^ 64 * (2 ^ 64 :: nat))" by simp_all
  have "v div 2 ^ 64 div 2 ^ 64 div 2 ^ 64 < 2 ^ 64"
    using v by (simp add: div_mult2_eq [symmetric] less_mult_imp_div_less)
  then show ?thesis unfolding e d unfolding p by (rule radix4)
qed

lemma u256_of_uval: "u256_of_nat (uval x) = x"
  using uval_inj [OF uval_u256_of_nat [OF uval_bound]] .

lemma uint256_eq_uval: "zcc_uint256_eq a b \<longleftrightarrow> uval a = uval b"
proof -
  have "zcc_uint256_eq a b \<longleftrightarrow> a = b" by (cases a; cases b) (auto simp: zcc_uint256_eq_def)
  then show ?thesis using uval_inj by blast
qed

lemma nested_less:
  fixes B :: nat
  assumes "x < B" "x' < B"
  shows "x + B * q < x' + B * q' \<longleftrightarrow> q < q' \<or> (q = q' \<and> x < x')"
proof -
  have "x + B * q < x' + B * q'" if "q < q'"
  proof -
    have "B * (q + 1) \<le> B * q'" using that by (intro mult_le_mono2) simp
    then show ?thesis using assms by simp
  qed
  moreover have "x' + B * q' < x + B * q" if "q' < q"
  proof -
    have "B * (q' + 1) \<le> B * q" using that by (intro mult_le_mono2) simp
    then show ?thesis using assms by simp
  qed
  ultimately show ?thesis by (metis add_less_cancel_right not_less_iff_gr_or_eq)
qed

lemma nested_eq:
  "x < B \<Longrightarrow> x' < B \<Longrightarrow> x + B * q = x' + B * q' \<longleftrightarrow> x = x' \<and> q = (q' :: nat)"
  using radix_inj by blast

lemma uint256_lt_uval: "zcc_uint256_lt a b \<longleftrightarrow> uval a < uval b"
proof -
  obtain a0 a1 a2 a3 b0 b1 b2 b3 where e: "a = UInt256 a0 a1 a2 a3" "b = UInt256 b0 b1 b2 b3"
    by (cases a, cases b) blast
  have bnd: "unat w < 2 ^ 64" for w :: u64 using unat_lt_64 [of w] by simp
  have "uval a < uval b \<longleftrightarrow> a3 < b3 \<or> a3 = b3 \<and> (a2 < b2 \<or> a2 = b2 \<and> (a1 < b1 \<or> a1 = b1 \<and> a0 < b0))"
    unfolding e uval_nested nested_less [OF bnd bnd] nested_eq [OF bnd bnd]
    by (auto simp: word_less_nat_alt word_unat_eq_iff)
  then show ?thesis
    by (auto simp: zcc_uint256_lt_def e eval_nat_numeral)
qed

text \<open>The operations whose folding ignores the type: they are only right for the sign the folder
  assumes.\<close>

definition sign_ok :: "ir_op \<Rightarrow> ir_type \<Rightarrow> bool" where
  "sign_ok op ty \<longleftrightarrow>
     (op \<in> {IR_DIV, IR_MOD, IR_LT, IR_LE, IR_GT, IR_GE} \<longrightarrow> \<not> ir_type_unsigned ty)
     \<and> (op = IR_SHR \<longrightarrow> ir_type_unsigned ty)"

lemma small_signed_64: "0 \<le>s (b :: u64) \<and> b <s 64 \<longleftrightarrow> unat b < 64"
proof -
  have s: "0 \<le>s b \<and> b <s 64 \<longleftrightarrow> 0 \<le> sint b \<and> sint b < 64"
    by (simp add: word_sle_eq word_sless_alt)
  have u: "unat b < 64 \<longleftrightarrow> uint b < 64" using of_nat_less_iff [of "unat b" 64, where 'a = int] by simp
  show ?thesis unfolding s u
  proof
    assume a: "0 \<le> sint b \<and> sint b < 64"
    have "uint b < 2 ^ 64" using uint_lt2p [of b] by simp
    moreover have "sint b = take_bit 64 (uint b) - 2 ^ 64 * of_bool (bit (uint b) 63)"
      unfolding sint_uint using signed_take_bit_eq_take_bit_minus [of 63 "uint b"] by simp
    moreover have "take_bit 64 (uint b) = uint b" using calculation(1) by (simp add: take_bit_int_eq_self)
    ultimately show "uint b < 64" using a by (cases "bit (uint b) 63") auto
  next
    assume a: "uint b < 64"
    have "sint b = uint b"
      unfolding sint_uint using a by (intro signed_take_bit_int_eq_self) (auto intro: order_trans [of _ 0])
    then show "0 \<le> sint b \<and> sint b < 64" using a uint_ge_0 [of b] by simp
  qed
qed

lemma fold64_bin64:
  "fold64 op a b = FVal v \<Longrightarrow> sign_ok op ty \<Longrightarrow> bin64 fp op (\<not> ir_type_unsigned ty) a b = Some v"
  by (cases op) (auto simp: fold64_def bin64_def fold_div_def sign_ok_def bool64_def shift_left_def
      shift_right_def small_signed_64 split: if_splits option.splits)

lemma fold64_bin_op: "fold64 op a b = FVal v \<Longrightarrow> is_bin_op op"
  by (cases op) (auto simp: fold64_def is_bin_op_def)

definition no_div :: "ir_op \<Rightarrow> bool" where
  "no_div op \<longleftrightarrow> op \<noteq> IR_DIV \<and> op \<noteq> IR_MOD"

text \<open>Wide folding is the machine's operation, division and remainder apart.\<close>

lemma fold256_bin256:
  assumes "fold256 tag op a b = Some v" "no_div op" "tag \<noteq> IR_TAG_EVM_ISZERO"
  shows "bin256 tag op a b = Some v"
proof -
  have ops: "u256_of_nat ((uval a + uval b) mod 2 ^ 256) = evm_u256_add a b"
    "u256_of_nat ((2 ^ 256 + uval a - uval b) mod 2 ^ 256) = evm_u256_sub a b"
    "u256_of_nat ((uval a * uval b) mod 2 ^ 256) = evm_u256_mul a b"
    unfolding uval_add [symmetric] uval_sub [symmetric] uval_mul [symmetric] by (rule u256_of_uval)+
  have "op = IR_ADD \<or> op = IR_SUB \<or> op = IR_MUL \<or> is_256_tag tag"
    using assms(1,2) by (auto simp: fold256_def no_div_def is_256_tag_def split: if_splits)
  then show ?thesis
    using assms
    by (elim disjE) (auto simp: fold256_def bin256_def ops uint256_eq_uval uint256_lt_uval bool64_def
        is_256_tag_def ir_tag_defs simp del: power_numeral split: if_splits)
qed

lemma fold256_iszero:
  "fold256 IR_TAG_EVM_ISZERO op a b = Some (C64 (bool64 (uval a = 0)))"
  by (simp add: fold256_def ir_tag_defs uint256_eq_uval bool64_def)

lemma fold256_op:
  "fold256 tag op a b = Some v \<Longrightarrow> is_256_tag tag \<or> op \<in> {IR_ADD, IR_SUB, IR_MUL, IR_DIV, IR_MOD}"
  by (auto simp: fold256_def is_256_tag_def split: if_splits)

lemma fold_fp_bin64:
  "fold_fp fp op a b = Some v \<Longrightarrow> is_fp_bin op \<Longrightarrow> bin64 fp op s a b = Some v"
  by (auto simp: fold_fp_def is_fp_bin_def bin64_def split: if_splits)

subsection \<open>The nodes a folding is right for\<close>

definition fold_ok :: "ir_node \<Rightarrow> bool" where
  "fold_ok n \<longleftrightarrow> sign_ok (nd_op n) (nd_type n) \<and> (is_256_tag (nd_tag n) \<longrightarrow> is_bin_op (nd_op n))
     \<and> nd_phi_ops n = []"

lemma bin_op_value: "is_bin_op op \<Longrightarrow> is_value_op op \<and> op \<noteq> IR_CONST \<and> op \<noteq> IR_FCONST \<and> op \<noteq> IR_COPY \<and> op \<noteq> IR_STORE"
  by (auto simp: is_bin_op_def is_value_op_def is_effect_def)

lemma bin_node_operands:
  assumes "is_bin_op (nd_op n)" "nd_phi_ops n = []" "nd_src1 n \<noteq> []" "nd_src2 n \<noteq> []"
    "node_value fp ext n env tr = Some v"
  obtains a b where "env (nd_src1 n) = Some a" "env (nd_src2 n) = Some b"
    "read_all env (operand_names n) = Some [a, b]"
proof -
  have on: "operand_names n = [nd_src1 n, nd_src2 n]"
    using assms bin_op_value by (auto simp: operand_names_def)
  obtain vs where "read_all env (operand_names n) = Some vs"
    using assms(1,5) bin_op_value [OF assms(1)] by (auto simp: node_value_def split: option.splits)
  then show ?thesis using on that by (auto simp: read_all_Some map_eq_Cons_conv Cons_eq_map_conv)
qed

lemma node_value_bin:
  "is_bin_op (nd_op n) \<Longrightarrow> read_all env (operand_names n) = Some [a, b] \<Longrightarrow>
   node_value fp ext n env tr = (case (a, b) of
      (C64 x, C64 y) \<Rightarrow> if is_256_tag (nd_tag n) then Some (C64 (outside ext n [a, b] tr))
                       else map_option C64 (bin64 fp (nd_op n) (\<not> ir_type_unsigned (nd_type n)) x y)
    | (C256 x, C64 y) \<Rightarrow> if nd_tag n = IR_TAG_EVM_ISZERO then Some (C64 (bool64 (uval x = 0)))
                       else Some (C64 (outside ext n [a, b] tr))
    | (C256 x, C256 y) \<Rightarrow> if nd_tag n = IR_TAG_EVM_ISZERO then Some (C64 (bool64 (uval x = 0)))
                       else (case bin256 (nd_tag n) (nd_op n) x y of
                               Some v \<Rightarrow> Some v | None \<Rightarrow> Some (C64 (outside ext n [a, b] tr)))
    | _ \<Rightarrow> Some (C64 (outside ext n [a, b] tr)))"
  using bin_op_value [of "nd_op n"] by (auto simp: node_value_def split: cval.splits)

subsection \<open>The loop\<close>

text \<open>What a rewriting step may do, read off the code.\<close>

lemma const_fold_wide_cases:
  assumes "const_fold_wide cm n = (n', cm', m)"
  shows "(n' = n \<and> cm' = cm \<and> \<not> m) \<or>
    (\<exists>a b v. cmap_get_256 cm (nd_src1 n) = Some a
      \<and> (nd_tag n = IR_TAG_EVM_ISZERO \<or> cmap_get_256 cm (nd_src2 n) = Some b)
      \<and> fold256 (nd_tag n) (nd_op n) a b = Some v \<and> m
      \<and> (case v of C64 w \<Rightarrow> n' = to_const n w \<and> cm' = cmap_add cm (nd_dst n) w
         | C256 w \<Rightarrow> n' = to_wide_const n w
            \<and> cm' = cmap_add_256 (cmap_add cm (nd_dst n) (limb0 w)) (nd_dst n) w))"
proof (cases "cmap_get_256 cm (nd_src1 n)")
  case None
  then show ?thesis using assms by (simp add: const_fold_wide_def)
next
  case (Some a)
  define b where "b = (case cmap_get_256 cm (nd_src2 n) of None \<Rightarrow> u256_zero | Some b \<Rightarrow> b)"
  show ?thesis
  proof (cases "nd_tag n \<noteq> IR_TAG_EVM_ISZERO \<and> cmap_get_256 cm (nd_src2 n) = None")
    case True
    then show ?thesis using assms Some by (simp add: const_fold_wide_def)
  next
    case False
    then have fb: "nd_tag n = IR_TAG_EVM_ISZERO \<or> cmap_get_256 cm (nd_src2 n) = Some b"
      by (auto simp: b_def)
    note e = assms [unfolded const_fold_wide_def Some option.case if_not_P [OF False], folded b_def]
    show ?thesis
    proof (cases "fold256 (nd_tag n) (nd_op n) a b")
      case None
      then show ?thesis using e by simp
    next
      case (Some v)
      then show ?thesis
        using e fb \<open>cmap_get_256 cm (nd_src1 n) = Some a\<close>
        by (intro disjI2 exI [of _ a] exI [of _ b] exI [of _ v]) (cases v, auto)
    qed
  qed
qed

lemma const_fold_plain_cases:
  assumes "const_fold_plain fp cm n = Some (n', cm', m)"
  shows "(n' = n \<and> cm' = cm \<and> \<not> m) \<or>
    (\<exists>a b v. cmap_get cm (nd_src1 n) = Some a \<and> cmap_get cm (nd_src2 n) = Some b
      \<and> cm' = cmap_add cm (nd_dst n) v \<and> m
      \<and> (is_fp_bin (nd_op n) \<and> fold_fp fp (nd_op n) a b = Some v \<and> n' = to_fconst n v
         \<or> fold64 (nd_op n) a b = FVal v \<and> n' = to_const n v))"
  using assms
  by (auto simp: const_fold_plain_def split: option.splits if_splits fold_res.splits)

lemma const_fold_node_branch:
  assumes "const_fold_node fp cm n = Some (n', cm', m)"
  obtains (track) "nd_op n = IR_CONST" "nd_dst n \<noteq> []" "n' = n" "cm' = track_const cm n" "\<not> m"
  | (same) "n' = n" "cm' = cm" "\<not> m"
  | (wide) "nd_src2 n \<noteq> []" "const_fold_wide cm n = (n', cm', m)"
  | (plain) "\<not> is_256_tag (nd_tag n)" "const_fold_plain fp cm n = Some (n', cm', m)"
  using assms unfolding const_fold_node_def by (auto split: if_split_asm)

subsection \<open>The map only holds constants of the rewritten list\<close>

lemma known_mono: "set q \<subseteq> set q' \<Longrightarrow> known_const q x v \<Longrightarrow> known_const q' x v"
  by (auto simp: known_const_def)

lemma const_like_conv [simp]:
  "const_like (to_const n v) w \<longleftrightarrow> w = C64 v"
  "const_like (to_wide_const n u) w \<longleftrightarrow> w = C256 u"
  "const_like (to_fconst n v) w \<longleftrightarrow> w = C64 v"
  by (auto simp: const_like_def to_const_def to_wide_const_def to_fconst_def const_value_def ir_tag_defs)

lemma conv_dst [simp]:
  "nd_dst (to_const n v) = nd_dst n" "nd_dst (to_wide_const n u) = nd_dst n" "nd_dst (to_fconst n v) = nd_dst n"
  by (simp_all add: to_const_def to_wide_const_def to_fconst_def)

lemma known_intro: "n' \<in> set q \<Longrightarrow> const_like n' v \<Longrightarrow> known_const q (nd_dst n') v"
  by (auto simp: known_const_def)

lemma track_facts:
  assumes "nd_op n = IR_CONST" "fits32 (nd_dst n)" "n \<in> set q" "cmap.facts (known_const q) cm"
  shows "cmap.facts (known_const q) (track_const cm n)"
proof -
  have k: "known_const q (nd_dst n) (const_value n)"
    using assms(1,3) by (intro known_intro) (auto simp: const_like_def)
  show ?thesis
    using assms(2,4) k
    by (auto simp: track_const_def Let_def cmap_add_def cmap_add_256_def const_value_def ir_tag_defs
        intro!: cmap.facts_ins cmap.facts_ins_ins)
qed

lemma const_fold_node_facts:
  assumes "const_fold_node fp cm n = Some (n', cm', m)" "n' \<in> set q" "fits32 (nd_dst n)"
    "cmap.facts (known_const q) cm"
  shows "cmap.facts (known_const q) cm'"
  using assms(1)
proof (cases rule: const_fold_node_branch)
  case track
  then show ?thesis using assms by (simp add: track_facts)
next
  case same
  then show ?thesis using assms by simp
next
  case wide
  consider "n' = n" "cm' = cm"
    | v where "n' = to_const n v" "cm' = cmap_add cm (nd_dst n) v"
    | v where "n' = to_wide_const n v" "cm' = cmap_add_256 (cmap_add cm (nd_dst n) (limb0 v)) (nd_dst n) v"
    using const_fold_wide_cases [OF wide(2)] by (auto split: cval.split_asm) (metis cval.exhaust)+
  then show ?thesis
    using assms(2-4) known_intro [OF assms(2)]
    by cases (auto simp: cmap_add_def cmap_add_256_def intro!: cmap.facts_ins cmap.facts_ins_ins)
next
  case plain
  show ?thesis
    using const_fold_plain_cases [OF plain(2)] assms(2-4) known_intro [OF assms(2)]
    by (auto simp: cmap_add_def intro!: cmap.facts_ins)
qed

subsection \<open>Soundness of constant folding\<close>

definition fold_pre :: "ir_node list \<Rightarrow> env \<Rightarrow> bool" where
  "fold_pre p env \<longleftrightarrow> ssa_form p \<and> fresh_env p env \<and> short_names p \<and> list_all fold_ok p
     \<and> (list_ex (\<lambda>n. nd_tag n = IR_TAG_TRUNCATED_WIDE_CONST) p \<longrightarrow> list_all (\<lambda>n. no_div (nd_op n)) p)"

lemma cmap_operand:
  assumes "cmap.facts (known_const q) cm" "consts_hold q env" "fits32 x"
  shows "cmap_get cm x = Some a \<Longrightarrow> env x = Some w \<Longrightarrow> w = C64 a"
    and "cmap_get_256 cm x = Some u \<Longrightarrow> env x = Some w \<Longrightarrow> w = C256 u"
  using assms consts_holdD [OF assms(2)] cmap_get_map [of cm x a] cmap_get_256_map [of cm x u]
  by (auto simp: cmap.facts_def)

lemma const_value_node:
  "node_value fp ext (to_const n v) env tr = Some (C64 v)"
  "node_value fp ext (to_wide_const n u) env tr = Some (C256 u)"
  "node_value fp ext (to_fconst n v) env tr = Some (C64 v)"
  by (rule const_like_value, simp)+

lemma const_node_value_op:
  "is_value_op (nd_op (to_const n v))" "is_value_op (nd_op (to_wide_const n u))" "is_value_op (nd_op (to_fconst n v))"
  by (simp_all add: to_const_def to_wide_const_def to_fconst_def is_value_op_def is_effect_def)

lemma fold_wide_sound:
  assumes facts: "cmap.facts (known_const q) cm" and hold: "consts_hold q env"
    and fit: "fits32 (nd_src1 n)" "fits32 (nd_src2 n)" and ok: "fold_ok n" "no_div (nd_op n)"
    and a: "cmap_get_256 cm (nd_src1 n) = Some a" and s2: "nd_src2 n \<noteq> []"
    and b: "nd_tag n = IR_TAG_EVM_ISZERO \<or> cmap_get_256 cm (nd_src2 n) = Some b"
    and f: "fold256 (nd_tag n) (nd_op n) a b = Some v"
  shows "is_bin_op (nd_op n) \<and> (node_value fp ext n env tr = Some w \<longrightarrow> w = v)"
proof -
  have s1: "nd_src1 n \<noteq> []" using cmap_get_256_map [OF a] by simp
  have bin: "is_bin_op (nd_op n)"
    using fold256_op [OF f] ok(1) by (auto simp: fold_ok_def is_bin_op_def)
  moreover have "w = v" if nv: "node_value fp ext n env tr = Some w"
  proof -
    obtain x y where xy: "env (nd_src1 n) = Some x" "env (nd_src2 n) = Some y"
      "read_all env (operand_names n) = Some [x, y]"
      using bin_node_operands [OF bin _ s1 s2 nv] ok(1) by (auto simp: fold_ok_def)
    have x: "x = C256 a" using cmap_operand(2) [OF facts hold fit(1) a xy(1)] .
    note nv = nv [unfolded node_value_bin [OF bin xy(3)] x]
    show ?thesis
    proof (cases "nd_tag n = IR_TAG_EVM_ISZERO")
      case True
      then show ?thesis using nv f by (cases y) (simp_all add: fold256_iszero)
    next
      case False
      then have "y = C256 b" using cmap_operand(2) [OF facts hold fit(2) _ xy(2)] b by blast
      then show ?thesis using nv False fold256_bin256 [OF f ok(2) False] by simp
    qed
  qed
  ultimately show ?thesis by blast
qed

lemma fold_plain_sound:
  assumes facts: "cmap.facts (known_const q) cm" and hold: "consts_hold q env"
    and fit: "fits32 (nd_src1 n)" "fits32 (nd_src2 n)" and ok: "fold_ok n" "\<not> is_256_tag (nd_tag n)"
    and a: "cmap_get cm (nd_src1 n) = Some a" and b: "cmap_get cm (nd_src2 n) = Some b"
    and f: "is_fp_bin (nd_op n) \<and> fold_fp fp (nd_op n) a b = Some v \<or> fold64 (nd_op n) a b = FVal v"
  shows "is_bin_op (nd_op n) \<and> (node_value fp ext n env tr = Some w \<longrightarrow> w = C64 v)"
proof -
  have s: "nd_src1 n \<noteq> []" "nd_src2 n \<noteq> []" using cmap_get_map [OF a] cmap_get_map [OF b] by simp_all
  have bin: "is_bin_op (nd_op n)"
    using f fold64_bin_op by (auto simp: is_fp_bin_def is_bin_op_def)
  moreover have "w = C64 v" if nv: "node_value fp ext n env tr = Some w"
  proof -
    obtain x y where xy: "env (nd_src1 n) = Some x" "env (nd_src2 n) = Some y"
      "read_all env (operand_names n) = Some [x, y]"
      using bin_node_operands [OF bin _ s nv] ok(1) by (auto simp: fold_ok_def)
    have "x = C64 a" "y = C64 b"
      using cmap_operand(1) [OF facts hold fit(1) a xy(1)] cmap_operand(1) [OF facts hold fit(2) b xy(2)] by auto
    moreover have "bin64 fp (nd_op n) (\<not> ir_type_unsigned (nd_type n)) a b = Some v"
      using f fold_fp_bin64 fold64_bin64 ok(1) by (auto simp: fold_ok_def)
    ultimately show ?thesis using nv ok(2) unfolding node_value_bin [OF bin xy(3)] by simp
  qed
  ultimately show ?thesis by blast
qed

lemma const_fold_node_rewrite:
  assumes "const_fold_node fp cm n = Some (n', cm', m)" and facts: "cmap.facts (known_const q) cm"
    and fit: "fits32 (nd_src1 n)" "fits32 (nd_src2 n)" and ok: "fold_ok n"
    and div: "cmap_get_256 cm (nd_src1 n) \<noteq> None \<Longrightarrow> no_div (nd_op n)"
  shows "node_rewrite fp ext q (\<lambda>_. True) n n'"
  using assms(1)
proof (cases rule: const_fold_node_branch)
  case wide
  show ?thesis
  proof (cases "n' = n")
    case False
    then obtain a b v where w: "cmap_get_256 cm (nd_src1 n) = Some a"
      "nd_tag n = IR_TAG_EVM_ISZERO \<or> cmap_get_256 cm (nd_src2 n) = Some b"
      "fold256 (nd_tag n) (nd_op n) a b = Some v"
      and n': "case v of C64 w \<Rightarrow> n' = to_const n w | C256 w \<Rightarrow> n' = to_wide_const n w"
      using const_fold_wide_cases [OF wide(2)] by (fastforce split: cval.splits)
    note snd = fold_wide_sound [OF facts _ fit ok div w(1) wide(1) w(2,3)]
    have "is_bin_op (nd_op n)" using fold256_op [OF w(3)] ok by (auto simp: fold_ok_def is_bin_op_def)
    then have "is_value_op (nd_op n)" using bin_op_value by blast
    moreover have "nd_dst n' = nd_dst n \<and> is_value_op (nd_op n') \<and> node_value fp ext n' env tr = Some v" for env tr
      using n' const_value_node const_node_value_op by (cases v) auto
    ultimately show ?thesis using snd w(1) by (auto simp: node_rewrite_def)
  qed (simp add: node_rewrite_def)
next
  case plain
  show ?thesis
  proof (cases "n' = n")
    case False
    then obtain a b v where w: "cmap_get cm (nd_src1 n) = Some a" "cmap_get cm (nd_src2 n) = Some b"
      and f: "is_fp_bin (nd_op n) \<and> fold_fp fp (nd_op n) a b = Some v \<and> n' = to_fconst n v
         \<or> fold64 (nd_op n) a b = FVal v \<and> n' = to_const n v"
      using const_fold_plain_cases [OF plain(2)] by blast
    have f': "is_fp_bin (nd_op n) \<and> fold_fp fp (nd_op n) a b = Some v \<or> fold64 (nd_op n) a b = FVal v"
      using f by blast
    note snd = fold_plain_sound [OF facts _ fit ok plain(1) w f']
    have "is_bin_op (nd_op n)" using f fold64_bin_op by (auto simp: is_fp_bin_def is_bin_op_def)
    then have "is_value_op (nd_op n)" using bin_op_value by blast
    moreover have "nd_dst n' = nd_dst n \<and> is_value_op (nd_op n') \<and> node_value fp ext n' env tr = Some (C64 v)" for env tr
      using f const_value_node const_node_value_op by auto
    ultimately show ?thesis using snd by (auto simp: node_rewrite_def)
  qed (simp add: node_rewrite_def)
qed (simp_all add: node_rewrite_def)

text \<open>Without wide constants in the list the map holds none.\<close>

definition no_wide_entries :: "cmap \<Rightarrow> bool" where
  "no_wide_entries cm \<longleftrightarrow> (\<forall>(k, v) \<in> set cm. \<exists>w. v = C64 w)"

lemma no_wide_get: "no_wide_entries cm \<Longrightarrow> cmap_get_256 cm x = None"
  by (auto simp: no_wide_entries_def cmap_get_256_def split: option.splits cval.splits dest!: map_of_SomeD)

lemma set_update_subset: "set (AList.update k v al) \<subseteq> insert (k, v) (set al)"
  by (induction al) auto

lemma no_wide_add: "no_wide_entries cm \<Longrightarrow> no_wide_entries (cmap_add cm k v)"
  using set_update_subset [of k "C64 v" cm]
  by (fastforce simp: no_wide_entries_def cmap_add_def cmap_put_def)

lemma const_fold_node_no_wide:
  assumes "const_fold_node fp cm n = Some (n', cm', m)" "no_wide_entries cm"
    "nd_tag n \<noteq> IR_TAG_TRUNCATED_WIDE_CONST"
  shows "no_wide_entries cm'"
  using assms(1)
proof (cases rule: const_fold_node_branch)
  case track
  then show ?thesis using assms no_wide_add by (simp add: track_const_def Let_def)
next
  case same
  then show ?thesis using assms by simp
next
  case wide
  then show ?thesis using assms no_wide_get by (simp add: const_fold_wide_def)
next
  case plain
  then show ?thesis using const_fold_plain_cases [OF plain(2)] assms no_wide_add by auto
qed

lemma const_fold_loop_length:
  "const_fold_loop fp cm ns m = Some (ns', m') \<Longrightarrow> length ns' = length ns"
  by (induction ns arbitrary: cm m ns' m') (auto split: option.splits prod.splits)

lemma const_fold_loop_rewrite:
  assumes "const_fold_loop fp cm ns m = Some (ns', m')" "set ns' \<subseteq> set q"
    "cmap.facts (known_const q) cm" "short_names ns" "list_all fold_ok ns"
    "list_all (\<lambda>n. no_div (nd_op n)) ns \<or>
       (no_wide_entries cm \<and> list_all (\<lambda>n. nd_tag n \<noteq> IR_TAG_TRUNCATED_WIDE_CONST) ns)"
  shows "list_all2 (node_rewrite fp ext q (\<lambda>_. True)) ns ns'"
  using assms
proof (induction ns arbitrary: cm m ns' m')
  case Nil
  then show ?case by simp
next
  case (Cons n ns)
  from Cons.prems(1) obtain n1 cm1 b ns1 where
    1: "const_fold_node fp cm n = Some (n1, cm1, b)"
       "const_fold_loop fp cm1 ns (if b then m + 1 else m) = Some (ns1, m')" "ns' = n1 # ns1"
    by (auto split: option.splits prod.splits)
  have fit: "fits32 (nd_dst n)" "fits32 (nd_src1 n)" "fits32 (nd_src2 n)"
    using Cons.prems(4) by (simp_all add: short_names_def fits32_def)
  have "node_rewrite fp ext q (\<lambda>_. True) n n1"
    using Cons.prems no_wide_get by (intro const_fold_node_rewrite [OF 1(1)] fit) auto
  moreover have "list_all2 (node_rewrite fp ext q (\<lambda>_. True)) ns ns1"
  proof (rule Cons.IH [OF 1(2)])
    show "set ns1 \<subseteq> set q" "short_names ns" "list_all fold_ok ns"
      using Cons.prems 1(3) by (auto simp: short_names_def)
    show "cmap.facts (known_const q) cm1"
      using const_fold_node_facts [OF 1(1) _ fit(1) Cons.prems(3)] Cons.prems(2) 1(3) by simp
    show "list_all (\<lambda>n. no_div (nd_op n)) ns \<or>
       (no_wide_entries cm1 \<and> list_all (\<lambda>n. nd_tag n \<noteq> IR_TAG_TRUNCATED_WIDE_CONST) ns)"
      using Cons.prems(6) const_fold_node_no_wide [OF 1(1)] by auto
  qed
  ultimately show ?case using 1(3) by simp
qed

lemma const_fold_result:
  assumes "const_fold_loop fp [] p 0 = Some (q, m)" "fold_pre p env" "ir_result fp ext p env tr"
  shows "ir_result fp ext q env tr"
proof (rule const_rewrite_result [where J = "\<lambda>_. True"])
  show "list_all2 (node_rewrite fp ext q (\<lambda>_. True)) p q"
  proof (rule const_fold_loop_rewrite [OF assms(1) subset_refl])
    show "cmap.facts (known_const q) []" by (simp add: cmap.facts_def)
    show "list_all (\<lambda>n. no_div (nd_op n)) p \<or>
       (no_wide_entries [] \<and> list_all (\<lambda>n. nd_tag n \<noteq> IR_TAG_TRUNCATED_WIDE_CONST) p)"
      using assms(2) by (auto simp: fold_pre_def no_wide_entries_def list_ex_iff list_all_iff)
  qed (use assms(2) in \<open>simp_all add: fold_pre_def\<close>)
qed (use assms in \<open>auto simp: fold_pre_def\<close>)

definition const_fold_pass :: "fp_ops \<Rightarrow> 's ir_pass_fn" where
  "const_fold_pass fp s fn = map_option (\<lambda>(fn', r). (s, fn', r)) (ir_pass_const_fold fp fn)"

lemma const_fold_pass_run:
  assumes "const_fold_pass fp s fn = Some (s', fn', r)"
  obtains q m where "const_fold_loop fp [] (fn_nodes fn) 0 = Some (q, m)" "s' = s" "fn' = fn\<lparr> fn_nodes := q \<rparr>"
    "nodes_before r = count_nodes fn" "nodes_after r = count_nodes fn" "length q = length (fn_nodes fn)"
  using assms const_fold_loop_length
  by (fastforce simp: const_fold_pass_def ir_pass_const_fold_def empty_result_def split: option.splits)

interpretation const_fold: ir_pass "const_fold_pass fp" fp fold_pre for fp
proof unfold_locales
  fix s :: 's and s' fn fn' r assume a: "const_fold_pass fp s fn = Some (s', fn', r)"
  show "count_ok fn'" if "count_ok fn"
    using a by (rule const_fold_pass_run) (use that in \<open>simp add: count_ok_def\<close>)
  show "nodes_before r = count_nodes fn \<and> nodes_after r = count_nodes fn'"
    using a by (rule const_fold_pass_run) (simp add: count_nodes_length)
  show "fn_name fn' = fn_name fn \<and> fn_ret_type fn' = fn_ret_type fn \<and> fn_num_params fn' = fn_num_params fn"
    using a by (rule const_fold_pass_run) simp
  show "ir_result fp ext (fn_nodes fn') env tr"
    if "fold_pre (fn_nodes fn) env" "ir_result fp ext (fn_nodes fn) env tr" for ext env tr
    using a by (rule const_fold_pass_run) (use that const_fold_result in auto)
qed

subsection \<open>Strength reduction is sound without wide values\<close>

definition env64 :: "env \<Rightarrow> bool" where
  "env64 env \<longleftrightarrow> (\<forall>x v. env x = Some v \<longrightarrow> (\<exists>w. v = C64 w))"

definition reduce_ok :: "ir_node \<Rightarrow> bool" where
  "reduce_ok n \<longleftrightarrow> nd_tag n \<noteq> IR_TAG_TRUNCATED_WIDE_CONST \<and> nd_phi_ops n = []
     \<and> (nd_op n \<in> {IR_ADD, IR_SUB, IR_MUL} \<longrightarrow> \<not> is_256_tag (nd_tag n) \<and> nd_src1 n \<noteq> [] \<and> nd_src2 n \<noteq> [])"

definition reduce_pre :: "ir_node list \<Rightarrow> env \<Rightarrow> bool" where
  "reduce_pre p env \<longleftrightarrow> ssa_form p \<and> fresh_env p env \<and> short_names p \<and> list_all reduce_ok p \<and> env64 env"

lemma env64_value:
  assumes "env64 env" "reduce_ok n" "node_value fp ext n env tr = Some v"
  shows "\<exists>w. v = C64 w"
proof -
  have vs: "\<exists>ws. vs = map C64 ws" if "read_all env ns = Some vs" for ns vs
    using that
  proof (induction ns arbitrary: vs)
    case Nil
    then show ?case by (simp add: read_all_def)
  next
    case (Cons x ns)
    then obtain v vs' where "vs = v # vs'" "env x = Some v" "read_all env ns = Some vs'"
      by (auto simp: read_all_Some map_eq_Cons_conv Cons_eq_map_conv)
    moreover from this obtain w ws where "v = C64 w" "vs' = map C64 ws"
      using assms(1) Cons.IH unfolding env64_def by metis
    ultimately show ?case by (intro exI [of _ "w # ws"]) simp
  qed
  show ?thesis
  proof (cases "nd_op n = IR_CONST \<or> nd_op n = IR_FCONST \<or> nd_op n = IR_COPY")
    case True
    then show ?thesis
      using assms by (auto simp: node_value_def const_value_def reduce_ok_def env64_def)
  next
    case False
    then obtain ws where "read_all env (operand_names n) = Some (map C64 ws)"
      using assms(3) vs by (auto simp: node_value_def split: option.splits)
    then show ?thesis
      using assms(3) False by (auto simp: node_value_def split: if_splits list.splits)
  qed
qed

lemma env64_set: "env64 env \<Longrightarrow> env64 (set_dst d (C64 w) env)"
  by (auto simp: env64_def set_dst_def)

lemma reduce_dst [simp]:
  "nd_dst (to_zero n) = nd_dst n" "nd_dst (to_copy1 n) = nd_dst n" "nd_dst (to_copy2 n) = nd_dst n"
  by (simp_all add: to_zero_def to_copy1_def to_copy2_def)

lemma reduce_value:
  "reduce_ok n \<Longrightarrow> node_value fp ext (to_zero n) env tr = Some (C64 0)"
  "node_value fp ext (to_copy1 n) env tr = env (nd_src1 n)"
  "length (nd_src2 n) < 32 \<Longrightarrow> node_value fp ext (to_copy2 n) env tr = env (nd_src2 n)"
  by (simp_all add: to_zero_def to_copy1_def to_copy2_def node_value_def const_value_def reduce_ok_def c_copy_id)

lemma reduce_value_op:
  "is_value_op (nd_op (to_zero n))" "is_value_op (nd_op (to_copy1 n))" "is_value_op (nd_op (to_copy2 n))"
  by (simp_all add: to_zero_def to_copy1_def to_copy2_def is_value_op_def is_effect_def)

definition absorbs :: "ir_op \<Rightarrow> u64 option \<Rightarrow> u64 option \<Rightarrow> bool" where
  "absorbs op a b \<longleftrightarrow> op = IR_MUL \<and> (a = Some 0 \<or> b = Some 0)"

definition keeps1 :: "ir_op \<Rightarrow> u64 option \<Rightarrow> bool" where
  "keeps1 op b \<longleftrightarrow> op = IR_MUL \<and> b = Some 1 \<or> op \<in> {IR_ADD, IR_SUB} \<and> b = Some 0"

definition keeps2 :: "ir_op \<Rightarrow> u64 option \<Rightarrow> bool" where
  "keeps2 op a \<longleftrightarrow> op = IR_MUL \<and> a = Some 1 \<or> op = IR_ADD \<and> a = Some 0"

lemma strength_node_cases:
  assumes "strength_node cm n = (n', cm', m)"
  shows "(n' = n \<and> cm' = cm)
    \<or> (absorbs (nd_op n) (cmap_get cm (nd_src1 n)) (cmap_get cm (nd_src2 n)) \<and> n' = to_zero n
       \<and> cm' = cmap_add cm (nd_dst n) 0)
    \<or> (keeps1 (nd_op n) (cmap_get cm (nd_src2 n)) \<and> n' = to_copy1 n \<and> cm' = cm)
    \<or> (keeps2 (nd_op n) (cmap_get cm (nd_src1 n)) \<and> n' = to_copy2 n \<and> cm' = cm)"
  using assms by (auto simp: strength_node_def absorbs_def keeps1_def keeps2_def split: if_splits)

lemma reduce_node_operands:
  assumes "nd_op n \<in> {IR_ADD, IR_SUB, IR_MUL}" "reduce_ok n" "env64 env" "node_value fp ext n env tr = Some v"
  obtains x y where "env (nd_src1 n) = Some (C64 x)" "env (nd_src2 n) = Some (C64 y)"
    "v = C64 (if nd_op n = IR_ADD then x + y else if nd_op n = IR_SUB then x - y else x * y)"
proof -
  have bin: "is_bin_op (nd_op n)" using assms(1) by (auto simp: is_bin_op_def)
  obtain a b where ab: "env (nd_src1 n) = Some a" "env (nd_src2 n) = Some b"
    "read_all env (operand_names n) = Some [a, b]"
    using bin_node_operands [OF bin _ _ _ assms(4)] assms(1,2) by (auto simp: reduce_ok_def)
  obtain x y where xy: "a = C64 x" "b = C64 y" using ab assms(3) unfolding env64_def by metis
  have "\<not> is_256_tag (nd_tag n)" using assms(1,2) by (auto simp: reduce_ok_def)
  then have "v = C64 (if nd_op n = IR_ADD then x + y else if nd_op n = IR_SUB then x - y else x * y)"
    using assms(1,4) unfolding node_value_bin [OF bin ab(3)] xy by (auto simp: bin64_def)
  then show ?thesis using that ab xy by simp
qed

lemma strength_node_rewrite:
  assumes s: "strength_node cm n = (n', cm', m)" and facts: "cmap.facts (known_const q) cm"
    and fit: "fits32 (nd_src1 n)" "fits32 (nd_src2 n)" and ok: "reduce_ok n"
  shows "node_rewrite fp ext q env64 n n'"
proof (cases "n' = n")
  case False
  note c = strength_node_cases [OF s]
  have op: "nd_op n \<in> {IR_ADD, IR_SUB, IR_MUL}"
    using c False by (auto simp: absorbs_def keeps1_def keeps2_def)
  have vop: "is_value_op (nd_op n)" using op by (auto simp: is_value_op_def is_effect_def)
  have shape: "nd_dst n' = nd_dst n \<and> is_value_op (nd_op n')" using c False reduce_value_op by auto
  have "node_value fp ext n' env tr = Some v"
    if e: "consts_hold q env" "env64 env" "node_value fp ext n env tr = Some v" for env tr v
  proof -
    obtain x y where xy: "env (nd_src1 n) = Some (C64 x)" "env (nd_src2 n) = Some (C64 y)"
      "v = C64 (if nd_op n = IR_ADD then x + y else if nd_op n = IR_SUB then x - y else x * y)"
      using reduce_node_operands [OF op ok e(2,3)] .
    have k: "cmap_get cm (nd_src1 n) = Some a \<Longrightarrow> x = a" "cmap_get cm (nd_src2 n) = Some a \<Longrightarrow> y = a" for a
      using cmap_operand(1) [OF facts e(1) fit(1) _ xy(1)] cmap_operand(1) [OF facts e(1) fit(2) _ xy(2)] by auto
    have "absorbs (nd_op n) (cmap_get cm (nd_src1 n)) (cmap_get cm (nd_src2 n)) \<Longrightarrow> v = C64 0"
      "keeps1 (nd_op n) (cmap_get cm (nd_src2 n)) \<Longrightarrow> v = C64 x"
      "keeps2 (nd_op n) (cmap_get cm (nd_src1 n)) \<Longrightarrow> v = C64 y"
      using k xy(3) by (auto simp: absorbs_def keeps1_def keeps2_def)
    then show ?thesis
      using c False reduce_value fit ok xy(1,2) by (auto simp: fits32_def)
  qed
  then show ?thesis using vop shape by (auto simp: node_rewrite_def)
qed (simp add: node_rewrite_def)

lemma const_like_zero: "reduce_ok n \<Longrightarrow> const_like (to_zero n) (C64 0)"
  by (simp add: const_like_def to_zero_def const_value_def reduce_ok_def)

lemma collect_facts:
  "cmap.facts (known_const q) cm \<Longrightarrow> short_names ns \<Longrightarrow> list_all reduce_ok ns \<Longrightarrow>
   (\<And>n. n \<in> set ns \<Longrightarrow> nd_op n = IR_CONST \<Longrightarrow> n \<in> set q) \<Longrightarrow>
   cmap.facts (known_const q) (collect_consts cm ns)"
proof (induction ns arbitrary: cm)
  case Nil
  then show ?case by simp
next
  case (Cons n ns)
  have fit: "fits32 (nd_dst n)" using Cons.prems(2) by (simp add: short_names_def fits32_def)
  have "cmap.facts (known_const q) (if nd_op n = IR_CONST \<and> nd_dst n \<noteq> [] then cmap_add cm (nd_dst n) (nd_imm n) else cm)"
  proof (cases "nd_op n = IR_CONST")
    case True
    have "const_like n (C64 (nd_imm n))"
      using True Cons.prems(3) by (simp add: const_like_def const_value_def reduce_ok_def)
    then have "known_const q (nd_dst n) (C64 (nd_imm n))"
      using True Cons.prems(4) by (intro known_intro) auto
    then show ?thesis
      using Cons.prems(1) fit by (auto simp: cmap_add_def intro!: cmap.facts_ins)
  qed (use Cons.prems in simp)
  then show ?case using Cons by (simp add: short_names_def)
qed

lemma strength_loop_rewrite:
  assumes "strength_loop cm ns m = (ns', m')" "set ns' \<subseteq> set q"
    "cmap.facts (known_const q) cm" "short_names ns" "list_all reduce_ok ns"
  shows "list_all2 (node_rewrite fp ext q env64) ns ns'"
  using assms
proof (induction ns arbitrary: cm m ns' m')
  case Nil
  then show ?case by simp
next
  case (Cons n ns)
  from Cons.prems(1) obtain n1 cm1 b ns1 where
    1: "strength_node cm n = (n1, cm1, b)"
       "strength_loop cm1 ns (if b then m + 1 else m) = (ns1, m')" "ns' = n1 # ns1"
    by (auto split: prod.splits)
  have fit: "fits32 (nd_dst n)" "fits32 (nd_src1 n)" "fits32 (nd_src2 n)" and ok: "reduce_ok n"
    using Cons.prems(4,5) by (simp_all add: short_names_def fits32_def)
  have "cmap.facts (known_const q) cm1"
    using strength_node_cases [OF 1(1)] Cons.prems(2,3) 1(3) fit(1) known_intro [of n1 q "C64 0"] const_like_zero [OF ok]
    by (auto simp: cmap_add_def intro!: cmap.facts_ins)
  then have "list_all2 (node_rewrite fp ext q env64) ns ns1"
    using Cons.IH [OF 1(2)] Cons.prems 1(3) by (simp add: short_names_def)
  then show ?case using 1(3) strength_node_rewrite [OF 1(1) Cons.prems(3) fit(2,3) ok] by simp
qed

lemma strength_loop_length: "strength_loop cm ns m = (ns', m') \<Longrightarrow> length ns' = length ns"
  by (induction ns arbitrary: cm m ns' m') (auto split: prod.splits)

lemma strength_loop_consts:
  "strength_loop cm ns m = (ns', m') \<Longrightarrow> n \<in> set ns \<Longrightarrow> nd_op n = IR_CONST \<Longrightarrow> n \<in> set ns'"
proof (induction ns arbitrary: cm m ns' m')
  case Nil
  then show ?case by simp
next
  case (Cons a ns)
  then show ?case by (auto simp: strength_node_def split: prod.splits)
qed

lemma strength_result:
  assumes "strength_loop (collect_consts [] p) p 0 = (q, m)" "reduce_pre p env" "ir_result fp ext p env tr"
  shows "ir_result fp ext q env tr"
proof (rule const_rewrite_result [where J = env64])
  have pre: "ssa_form p" "fresh_env p env" "short_names p" "list_all reduce_ok p" "env64 env"
    using assms(2) by (simp_all add: reduce_pre_def)
  then show "ssa_form p" "fresh_env p env" "env64 env" by simp_all
  show "list_all2 (node_rewrite fp ext q env64) p q"
  proof (rule strength_loop_rewrite [OF assms(1) subset_refl _ pre(3,4)])
    show "cmap.facts (known_const q) (collect_consts [] p)"
      by (rule collect_facts [OF _ pre(3,4)]) (use strength_loop_consts [OF assms(1)] in \<open>auto simp: cmap.facts_def\<close>)
  qed
  show "env64 (set_dst (nd_dst n) v env)"
    if "n \<in> set p" "env64 env" "node_value fp ext n env tr = Some v" for n env tr v
    using env64_value [OF that(2) _ that(3)] that(1) pre(4) env64_set [OF that(2)] by (auto simp: list_all_iff)
  show "ir_result fp ext p env tr" by (rule assms(3))
qed (rule env64_set)

definition strength_pass :: "'s ir_pass_fn" where
  "strength_pass s fn = (case ir_pass_strength_reduce fn of (fn', r) \<Rightarrow> Some (s, fn', r))"

lemma strength_pass_run:
  assumes "strength_pass s fn = Some (s', fn', r)"
  obtains q m where "strength_loop (collect_consts [] (fn_nodes fn)) (fn_nodes fn) 0 = (q, m)"
    "s' = s" "fn' = fn\<lparr> fn_nodes := q \<rparr>"
    "nodes_before r = count_nodes fn" "nodes_after r = count_nodes fn" "length q = length (fn_nodes fn)"
  using assms strength_loop_length
  by (cases "strength_loop (collect_consts [] (fn_nodes fn)) (fn_nodes fn) 0")
    (fastforce simp: strength_pass_def ir_pass_strength_reduce_def empty_result_def)

interpretation strength: ir_pass strength_pass fp reduce_pre for fp
proof unfold_locales
  fix s :: 's and s' fn fn' r assume a: "strength_pass s fn = Some (s', fn', r)"
  show "count_ok fn'" if "count_ok fn"
    using a by (rule strength_pass_run) (use that in \<open>simp add: count_ok_def\<close>)
  show "nodes_before r = count_nodes fn \<and> nodes_after r = count_nodes fn'"
    using a by (rule strength_pass_run) (simp add: count_nodes_length)
  show "fn_name fn' = fn_name fn \<and> fn_ret_type fn' = fn_ret_type fn \<and> fn_num_params fn' = fn_num_params fn"
    using a by (rule strength_pass_run) simp
  show "ir_result fp ext (fn_nodes fn') env tr"
    if "reduce_pre (fn_nodes fn) env" "ir_result fp ext (fn_nodes fn) env tr" for ext env tr
    using a by (rule strength_pass_run) (use that strength_result in auto)
qed

subsection \<open>Folding, then reducing\<close>

definition fold_shape :: "ir_node \<Rightarrow> ir_node \<Rightarrow> bool" where
  "fold_shape n n' \<longleftrightarrow> nd_dst n' = nd_dst n \<and> is_def n' = is_def n \<and> reduce_ok n'
     \<and> length (nd_src1 n') < 32 \<and> length (nd_src2 n') < 32"

lemma fold_shape_plain:
  assumes "const_fold_plain fp cm n = Some (n', cm', m)" "reduce_ok n" "length (nd_src1 n) < 32" "length (nd_src2 n) < 32"
  shows "fold_shape n n'"
proof (cases "n' = n")
  case True
  then show ?thesis using assms by (simp add: fold_shape_def)
next
  case False
  then obtain a b v where f: "is_fp_bin (nd_op n) \<and> fold_fp fp (nd_op n) a b = Some v \<and> n' = to_fconst n v
         \<or> fold64 (nd_op n) a b = FVal v \<and> n' = to_const n v"
    using const_fold_plain_cases [OF assms(1)] by blast
  then have "nd_op n \<noteq> IR_STORE" by (auto simp: is_fp_bin_def fold64_def)
  then show ?thesis
    using f assms(2) by (auto simp: fold_shape_def is_def_def reduce_ok_def to_const_def to_fconst_def ir_tag_defs)
qed

lemma const_fold_loop_shape:
  assumes "const_fold_loop fp cm ns m = Some (ns', m')" "no_wide_entries cm" "short_names ns" "list_all reduce_ok ns"
  shows "list_all2 fold_shape ns ns'"
  using assms
proof (induction ns arbitrary: cm m ns' m')
  case Nil
  then show ?case by simp
next
  case (Cons n ns)
  from Cons.prems(1) obtain n1 cm1 b ns1 where
    1: "const_fold_node fp cm n = Some (n1, cm1, b)"
       "const_fold_loop fp cm1 ns (if b then m + 1 else m) = Some (ns1, m')" "ns' = n1 # ns1"
    by (auto split: option.splits prod.splits)
  have same: "fold_shape n n" using Cons.prems(3,4) by (simp add: fold_shape_def short_names_def)
  have "fold_shape n n1"
    using 1(1)
  proof (cases rule: const_fold_node_branch)
    case wide
    then show ?thesis using same no_wide_get [OF Cons.prems(2)] by (simp add: const_fold_wide_def)
  next
    case plain
    then show ?thesis using fold_shape_plain Cons.prems(3,4) by (simp add: short_names_def)
  qed (use same in simp_all)
  moreover have "no_wide_entries cm1"
    using const_fold_node_no_wide [OF 1(1) Cons.prems(2)] Cons.prems(4) by (simp add: reduce_ok_def)
  ultimately show ?case using Cons.IH [OF 1(2)] Cons.prems(3,4) 1(3) by (simp add: short_names_def)
qed

lemma list_all2_filter_map:
  "list_all2 (\<lambda>x y. f y = f x \<and> P y = P x) xs ys \<Longrightarrow> map f (filter P ys) = map f (filter P xs)"
  by (induction rule: list_all2_induct) auto

lemma fold_keeps_reduce_pre:
  assumes "const_fold_loop fp [] p 0 = Some (q, m)" "reduce_pre p env"
  shows "reduce_pre q env"
proof -
  have pre: "ssa_form p" "fresh_env p env" "short_names p" "list_all reduce_ok p" "env64 env"
    using assms(2) by (simp_all add: reduce_pre_def)
  have sh: "list_all2 fold_shape p q"
    by (rule const_fold_loop_shape [OF assms(1) _ pre(3,4)]) (simp add: no_wide_entries_def)
  then have "list_all2 (\<lambda>x y. nd_dst y = nd_dst x \<and> is_def y = is_def x) p q"
    by (rule list_all2_mono) (simp add: fold_shape_def)
  then have "map nd_dst (filter is_def q) = map nd_dst (filter is_def p)" by (rule list_all2_filter_map)
  then have "ssa_form q" using pre(1) by (simp add: ssa_form_def)
  moreover have "fresh_env q env \<and> short_names q \<and> list_all reduce_ok q"
    using sh pre(2-4)
    by (induction rule: list_all2_induct) (auto simp: fold_shape_def fresh_env_def short_names_def)
  ultimately show ?thesis using pre(5) by (simp add: reduce_pre_def)
qed

interpretation fold_reduce: ir_pass_pair "const_fold_pass fp" strength_pass fp fold_pre reduce_pre for fp
proof unfold_locales
  fix s :: 's and fn s' fn' r env
  assume "const_fold_pass fp s fn = Some (s', fn', r)" "reduce_pre (fn_nodes fn) env"
  then show "reduce_pre (fn_nodes fn') env"
    by (elim const_fold_pass_run) (auto intro: fold_keeps_reduce_pre)
qed

subsection \<open>Properties\<close>


definition fold_example :: ir_func where
  "fold_example = (ir_empty_func 0)\<lparr> fn_nodes := [mk_const ''a'' 6, mk_const ''b'' 7,
     mk_bin IR_MUL IR_TY_I64 ''c'' ''a'' ''b'', mk_ret ''c''], fn_node_count := 4 \<rparr>"

lemma fold_example_run:
  "ir_pass_const_fold fp0 fold_example =
     Some (fold_example\<lparr> fn_nodes := [mk_const ''a'' 6, mk_const ''b'' 7, mk_const ''c'' 42, mk_ret ''c''] \<rparr>,
           empty_result\<lparr> nodes_before := 4, nodes_after := 4, nodes_modified := 1, pass_changed := True \<rparr>)"
  by code_simp

lemma fold_example_pre: "fold_pre (fn_nodes fold_example) Map.empty"
  by code_simp

lemma fold_example_result: "ir_result fp0 ext0 (fn_nodes fold_example) Map.empty [ret_ev 42]"
  by (rule run_ret_result) code_simp


text \<open>The folder stops the compiler exactly when it divides, or takes the remainder of, the least
  64-bit number by -1; on every other node it returns.\<close>

lemma const_fold_node_traps_iff:
  "const_fold_node fp cm n = None \<longleftrightarrow>
     (nd_op n = IR_DIV \<or> nd_op n = IR_MOD) \<and> \<not> is_256_tag (nd_tag n)
     \<and> nd_tag n \<noteq> IR_TAG_TRUNCATED_WIDE_CONST
     \<and> cmap_get cm (nd_src1 n) = Some (2 ^ 63) \<and> cmap_get cm (nd_src2 n) = Some (- 1)"
proof -
  have m: "sint a = - (2 ^ 63) \<longleftrightarrow> a = 2 ^ 63" for a :: u64
  proof -
    have "sint (2 ^ 63 :: u64) = - (2 ^ 63)" by simp
    then show ?thesis by (metis signed_word_eqI)
  qed
  have o: "sint b = -1 \<longleftrightarrow> b = -1" for b :: u64
    by (metis signed_word_eqI signed_minus_1)
  have t: "fold64 op a b = FTrap \<longleftrightarrow> (op = IR_DIV \<or> op = IR_MOD) \<and> a = 2 ^ 63 \<and> b = -1" for op a b
    unfolding m [symmetric] o [symmetric]
    by (cases op) (auto simp: fold64_def fold_div_def c_sdiv_def c_smod_def split: option.splits if_splits)
  have w: "cmap_get_256 cm x = None" if "cmap_get cm x = Some v" for x v
    using cmap_get_map [OF that] by (simp add: cmap_get_256_def)
  have p: "const_fold_plain fp cm n = None \<longleftrightarrow> (nd_op n = IR_DIV \<or> nd_op n = IR_MOD)
      \<and> cmap_get cm (nd_src1 n) = Some (2 ^ 63) \<and> cmap_get cm (nd_src2 n) = Some (- 1)"
  proof (cases "cmap_get cm (nd_src1 n)"; cases "cmap_get cm (nd_src2 n)")
    fix a b assume ab: "cmap_get cm (nd_src1 n) = Some a" "cmap_get cm (nd_src2 n) = Some b"
    have "const_fold_plain fp cm n = None \<longleftrightarrow> \<not> is_fp_bin (nd_op n) \<and> fold64 (nd_op n) a b = FTrap"
      unfolding const_fold_plain_def ab
      by (cases "fold64 (nd_op n) a b"; cases "fold_fp fp (nd_op n) a b") (auto split: if_split)
    then show ?thesis unfolding ab t by (auto simp: is_fp_bin_def)
  qed (simp_all add: const_fold_plain_def)
  have s: "x \<noteq> []" if "cmap_get cm x = Some v" for x v using cmap_get_map [OF that] by simp
  show ?thesis
    unfolding const_fold_node_def using p w s by auto
qed

text \<open>Strength reduction is sound: in single-assignment form, with names that fit the map and no
  wide values, replacing products with 0 or 1 and sums and differences with 0 keeps every result.\<close>

lemma strength_reduce_preserves_results:
  assumes "reduce_pre (fn_nodes fn) env" "ir_result fp ext (fn_nodes fn) env tr"
  shows "ir_result fp ext (fn_nodes (fst (ir_pass_strength_reduce fn))) env tr"
proof -
  have "strength_pass () fn = Some ((), fst (ir_pass_strength_reduce fn), snd (ir_pass_strength_reduce fn))"
    by (simp add: strength_pass_def split_beta)
  then show ?thesis using assms by (rule strength.pass_sound)
qed

definition reduce_example :: ir_func where
  "reduce_example = (ir_empty_func 0)\<lparr> fn_nodes := [mk_const ''z'' 0,
     ir_node_alloc\<lparr> nd_op := IR_LOAD, nd_dst := ''x'' \<rparr>,
     mk_bin IR_ADD IR_TY_I64 ''c'' ''z'' ''x'', mk_ret ''c''], fn_node_count := 4 \<rparr>"

lemma strength_reduce_preserves_results_witness:
  "ir_result fp0 ext0 (fn_nodes (fst (ir_pass_strength_reduce reduce_example))) Map.empty [ret_ev 0]
   \<and> map nd_op (fn_nodes (fst (ir_pass_strength_reduce reduce_example))) = [IR_CONST, IR_LOAD, IR_COPY, IR_RET]"
proof
  have "env64 Map.empty" by (simp add: env64_def)
  moreover have "ssa_form (fn_nodes reduce_example) \<and> fresh_env (fn_nodes reduce_example) Map.empty
     \<and> short_names (fn_nodes reduce_example) \<and> list_all reduce_ok (fn_nodes reduce_example)" by code_simp
  ultimately have "reduce_pre (fn_nodes reduce_example) Map.empty" by (simp add: reduce_pre_def)
  moreover have "ir_result fp0 ext0 (fn_nodes reduce_example) Map.empty [ret_ev 0]"
    by (rule run_ret_result) code_simp
  ultimately show "ir_result fp0 ext0 (fn_nodes (fst (ir_pass_strength_reduce reduce_example))) Map.empty [ret_ev 0]"
    by (rule strength_reduce_preserves_results)
  show "map nd_op (fn_nodes (fst (ir_pass_strength_reduce reduce_example))) = [IR_CONST, IR_LOAD, IR_COPY, IR_RET]"
    by code_simp
qed



text \<open>Folding a right shift ignores the sign of the type: \<^verbatim>\<open>ir.h\<close> makes the shift of a signed type
  arithmetic, so that -8 shifted by 1 is -4, but the folded function returns a large positive number.\<close>

definition shift_example :: ir_func where
  "shift_example = (ir_empty_func 0)\<lparr> fn_nodes := [mk_const ''a'' (- 8), mk_const ''b'' 1,
     mk_bin IR_SHR IR_TY_I64 ''c'' ''a'' ''b'', mk_ret ''c''], fn_node_count := 4 \<rparr>"

lemma const_fold_signed_shift_wrong:
  "ir_result fp0 ext0 (fn_nodes shift_example) Map.empty [ret_ev (- 4)]
   \<and> ir_result fp0 ext0 (fn_nodes (fst (the (ir_pass_const_fold fp0 shift_example)))) Map.empty
       [ret_ev 0x7FFFFFFFFFFFFFFC]"
  by (intro conjI run_ret_result) code_simp+

text \<open>Two names that agree in their first 31 characters are one name to the folder: a constant
  whose name is longer hides a variable whose name is its prefix, and the variable's sum is folded to
  a number it does not have.\<close>

definition prefix31 :: cstr where "prefix31 = replicate 31 (CHR ''v'')"

definition prefix_example :: ir_func where
  "prefix_example = (ir_empty_func 0)\<lparr> fn_nodes := [
     ir_node_alloc\<lparr> nd_op := IR_LOAD, nd_dst := prefix31 \<rparr>,
     mk_const (prefix31 @ ''w'') 5,
     mk_bin IR_ADD IR_TY_I64 ''c'' prefix31 prefix31, mk_ret ''c''], fn_node_count := 4 \<rparr>"

lemma const_fold_prefix_wrong:
  "ir_result fp0 ext0 (fn_nodes prefix_example) Map.empty [ret_ev 0]
   \<and> ir_result fp0 ext0 (fn_nodes (fst (the (ir_pass_const_fold fp0 prefix_example)))) Map.empty [ret_ev 10]"
  by (intro conjI run_ret_result) code_simp+

end
