(* ===== verification/Dominance.thy ===== *)
theory Dominance
  imports Passes
begin

text \<open>
  \<^verbatim>\<open>ir_dominance.h\<close> and \<^verbatim>\<open>ir_dominance.c\<close>: partition of a function's nodes into blocks, control-flow
  edges, dominator sets by iteration on bit sets, immediate dominators and the dominator tree.

  Node pointers are positions in \<open>fn_nodes\<close>; the arrays with their counts (\<^verbatim>\<open>pred\<close>, \<^verbatim>\<open>succ\<close>, \<^verbatim>\<open>children\<close>,
  \<^verbatim>\<open>blocks\<close>) are lists. A block set is the list of its eight 64-bit words. The sets live in a static array
  that a run finds as the previous run left it, hence the argument \<open>old\<close>. The iteration and the walk up
  the tree take fuel; that the fuel suffices is proved below, or, for the walk, characterised.
\<close>

subsection \<open>Blocks\<close>

definition DOM_MAX_BLOCKS :: nat where "DOM_MAX_BLOCKS = 512"
definition DOM_MAX_PREDS :: nat where "DOM_MAX_PREDS = 32"
definition DOM_MAX_SUCCS :: nat where "DOM_MAX_SUCCS = 4"
definition DOM_MAX_CHILDREN :: nat where "DOM_MAX_CHILDREN = 32"
definition DOM_WORDS :: nat where "DOM_WORDS = 8"

record dom_bb =
  bb_id :: nat
  bb_first :: nat
  bb_last :: nat
  bb_label :: cstr
  bb_pred :: "nat list"
  bb_succ :: "nat list"
  bb_idom :: int
  bb_children :: "nat list"
  bb_dom_order :: int

record dom_cfg =
  cfg_blocks :: "dom_bb list"
  cfg_fn :: "ir_node list"

definition block_count :: "dom_cfg \<Rightarrow> nat" where
  "block_count cfg = length (cfg_blocks cfg)"

definition is_terminator :: "ir_op \<Rightarrow> bool" where
  "is_terminator op \<longleftrightarrow> op = IR_BR \<or> op = IR_BR_IF \<or> op = IR_RET"

fun find_block_from :: "dom_bb list \<Rightarrow> nat \<Rightarrow> cstr \<Rightarrow> nat option" where
  "find_block_from [] i l = None"
| "find_block_from (b # bs) i l =
     (if bb_label b \<noteq> [] \<and> bb_label b = l then Some i else find_block_from bs (Suc i) l)"

definition find_block_by_label :: "dom_cfg \<Rightarrow> cstr \<Rightarrow> nat option" where
  "find_block_by_label cfg l = (if l = [] then None else find_block_from (cfg_blocks cfg) 0 l)"

definition upd_block :: "dom_cfg \<Rightarrow> nat \<Rightarrow> (dom_bb \<Rightarrow> dom_bb) \<Rightarrow> dom_cfg" where
  "upd_block cfg i f = cfg\<lparr> cfg_blocks := (cfg_blocks cfg)[i := f (cfg_blocks cfg ! i)] \<rparr>"

definition add_pred :: "dom_cfg \<Rightarrow> nat \<Rightarrow> nat \<Rightarrow> dom_cfg" where
  "add_pred cfg to from_b =
     (if to \<ge> block_count cfg \<or> from_b \<ge> block_count cfg then cfg
      else let b = cfg_blocks cfg ! to
           in if list_ex (\<lambda>p. p = from_b) (bb_pred b) then cfg
              else if length (bb_pred b) < DOM_MAX_PREDS
                   then upd_block cfg to (\<lambda>b. b\<lparr> bb_pred := bb_pred b @ [from_b] \<rparr>)
                   else cfg)"

definition add_succ :: "dom_cfg \<Rightarrow> nat \<Rightarrow> nat \<Rightarrow> dom_cfg" where
  "add_succ cfg from_b to =
     (if from_b \<ge> block_count cfg \<or> to \<ge> block_count cfg then cfg
      else let b = cfg_blocks cfg ! from_b
           in if list_ex (\<lambda>s. s = to) (bb_succ b) then cfg
              else if length (bb_succ b) < DOM_MAX_SUCCS
                   then upd_block cfg from_b (\<lambda>b. b\<lparr> bb_succ := bb_succ b @ [to] \<rparr>)
                   else cfg)"

definition new_block :: "nat \<Rightarrow> nat \<Rightarrow> ir_node \<Rightarrow> dom_bb" where
  "new_block bid k n = \<lparr> bb_id = bid, bb_first = k, bb_last = k,
     bb_label = (if nd_op n = IR_LABEL then c_copy IR_LABEL_MAX (nd_label n) else []),
     bb_pred = [], bb_succ = [], bb_idom = -1, bb_children = [], bb_dom_order = 0 \<rparr>"

text \<open>Phase 1: the blocks, latest first. A block opens at the first node and at every label; it closes
  at the node before. \<open>None\<close> is the overflow return.\<close>

fun split_blocks :: "ir_node list \<Rightarrow> nat \<Rightarrow> dom_bb list \<Rightarrow> dom_bb list option" where
  "split_blocks [] k bs = Some bs"
| "split_blocks (n # ns) k bs =
     (if nd_op n = IR_LABEL
      then (if length bs \<ge> DOM_MAX_BLOCKS then None
            else split_blocks ns (Suc k)
                   (new_block (length bs) k n # (hd bs)\<lparr> bb_last := k - 1 \<rparr> # tl bs))
      else split_blocks ns (Suc k) bs)"

definition build_blocks :: "ir_node list \<Rightarrow> dom_bb list option" where
  "build_blocks ns = (case ns of [] \<Rightarrow> Some []
     | n # rest \<Rightarrow> (case split_blocks rest 1 [new_block 0 0 n] of None \<Rightarrow> None
        | Some bs \<Rightarrow> Some (rev ((hd bs)\<lparr> bb_last := length ns - 1 \<rparr> # tl bs))))"

text \<open>Phase 2: the edges out of block \<open>i\<close>, from its last node.\<close>

definition add_edge :: "dom_cfg \<Rightarrow> nat \<Rightarrow> nat \<Rightarrow> dom_cfg" where
  "add_edge cfg i t = add_pred (add_succ cfg i t) t i"

definition edge_to_label :: "dom_cfg \<Rightarrow> nat \<Rightarrow> cstr \<Rightarrow> dom_cfg" where
  "edge_to_label cfg i l = (case find_block_by_label cfg l of None \<Rightarrow> cfg | Some t \<Rightarrow> add_edge cfg i t)"

definition fallthrough :: "dom_cfg \<Rightarrow> nat \<Rightarrow> dom_cfg" where
  "fallthrough cfg i = (if i + 1 < block_count cfg then add_edge cfg i (i + 1) else cfg)"

definition wire_block :: "dom_cfg \<Rightarrow> nat \<Rightarrow> dom_cfg" where
  "wire_block cfg i =
     (let last = cfg_fn cfg ! bb_last (cfg_blocks cfg ! i)
      in if nd_op last = IR_BR then edge_to_label cfg i (nd_label last)
         else if nd_op last = IR_BR_IF then fallthrough (edge_to_label cfg i (nd_label last)) i
         else if nd_op last = IR_RET then cfg
         else fallthrough cfg i)"

definition dom_build_cfg :: "ir_node list \<Rightarrow> dom_cfg option" where
  "dom_build_cfg ns = (case build_blocks ns of None \<Rightarrow> None
     | Some bs \<Rightarrow> Some (foldl wire_block \<lparr> cfg_blocks = bs, cfg_fn = ns \<rparr> [0..<length bs]))"

subsection \<open>Bit sets\<close>

type_synonym dom_bitset = "u64 list"

definition bs_clear :: dom_bitset where
  "bs_clear = replicate DOM_WORDS 0"

definition bs_fill :: "dom_bitset \<Rightarrow> nat \<Rightarrow> dom_bitset" where
  "bs_fill s n = (let full_words = n div 64; rm = n mod 64
     in map (\<lambda>i. if i < full_words then - 1
                 else if i = full_words then (if rm > 0 then push_bit rm 1 - 1 else s ! i)
                 else 0) [0..<DOM_WORDS])"

definition bs_set :: "dom_bitset \<Rightarrow> nat \<Rightarrow> dom_bitset" where
  "bs_set s b = s[b div 64 := s ! (b div 64) OR push_bit (b mod 64) 1]"

definition bs_test :: "dom_bitset \<Rightarrow> nat \<Rightarrow> bool" where
  "bs_test s b \<longleftrightarrow> drop_bit (b mod 64) (s ! (b div 64)) AND 1 \<noteq> 0"

definition bs_and :: "dom_bitset \<Rightarrow> dom_bitset \<Rightarrow> dom_bitset" where
  "bs_and a b = map (\<lambda>i. a ! i AND b ! i) [0..<DOM_WORDS]"

definition bs_equal :: "dom_bitset \<Rightarrow> dom_bitset \<Rightarrow> bool" where
  "bs_equal a b \<longleftrightarrow> list_all (\<lambda>i. a ! i = b ! i) [0..<DOM_WORDS]"

subsection \<open>Dominator sets\<close>

definition preds :: "dom_cfg \<Rightarrow> nat \<Rightarrow> nat list" where
  "preds cfg i = bb_pred (cfg_blocks cfg ! i)"

definition init_sets :: "dom_bitset list \<Rightarrow> nat \<Rightarrow> dom_bitset list" where
  "init_sets old n = map (\<lambda>i. if i = 0 then bs_set bs_clear 0 else bs_fill (old ! i) n) [0..<n]"

definition new_dom :: "dom_cfg \<Rightarrow> dom_bitset list \<Rightarrow> nat \<Rightarrow> dom_bitset" where
  "new_dom cfg sets i = bs_set
     (case preds cfg i of [] \<Rightarrow> bs_set bs_clear i
      | p # ps \<Rightarrow> foldl (\<lambda>acc q. bs_and acc (sets ! q)) (sets ! p) ps) i"

definition dom_visit :: "dom_cfg \<Rightarrow> dom_bitset list \<times> bool \<Rightarrow> nat \<Rightarrow> dom_bitset list \<times> bool" where
  "dom_visit cfg st i = (case st of (sets, changed) \<Rightarrow>
     let nd = new_dom cfg sets i
     in if \<not> bs_equal nd (sets ! i) then (sets[i := nd], True) else (sets, changed))"

definition dom_sweep :: "dom_cfg \<Rightarrow> dom_bitset list \<Rightarrow> dom_bitset list \<times> bool" where
  "dom_sweep cfg sets = foldl (dom_visit cfg) (sets, False) [1..<block_count cfg]"

fun dom_iterate :: "nat \<Rightarrow> dom_cfg \<Rightarrow> dom_bitset list \<Rightarrow> dom_bitset list option" where
  "dom_iterate 0 cfg sets = None"
| "dom_iterate (Suc fuel) cfg sets =
     (case dom_sweep cfg sets of (sets', changed) \<Rightarrow>
        if changed then dom_iterate fuel cfg sets' else Some sets')"

definition dom_size :: "dom_bitset \<Rightarrow> nat \<Rightarrow> nat" where
  "dom_size s n = foldl (\<lambda>c k. if bs_test s k then c + 1 else c) 0 [0..<n]"

definition pick_idom :: "dom_bitset list \<Rightarrow> nat \<Rightarrow> nat \<Rightarrow> int" where
  "pick_idom sets n i = fst (foldl (\<lambda>(best, best_size) j.
       if j = i then (best, best_size)
       else if \<not> bs_test (sets ! i) j then (best, best_size)
       else if int (dom_size (sets ! j) n) > best_size then (int j, int (dom_size (sets ! j) n))
       else (best, best_size)) (-1, -1) [0..<n])"

definition set_idoms :: "dom_cfg \<Rightarrow> dom_bitset list \<Rightarrow> dom_cfg" where
  "set_idoms cfg sets = foldl (\<lambda>c i. upd_block c i (\<lambda>b. b\<lparr> bb_idom := pick_idom sets (block_count cfg) i \<rparr>))
     (upd_block cfg 0 (\<lambda>b. b\<lparr> bb_idom := -1 \<rparr>)) [1..<block_count cfg]"

definition dom_compute_idom :: "nat \<Rightarrow> dom_bitset list \<Rightarrow> dom_cfg \<Rightarrow> dom_cfg option" where
  "dom_compute_idom fuel old cfg =
     (if block_count cfg = 0 then Some cfg
      else map_option (set_idoms cfg) (dom_iterate fuel cfg (init_sets old (block_count cfg))))"

subsection \<open>The dominator tree\<close>

fun dom_preorder :: "nat \<Rightarrow> dom_cfg \<Rightarrow> nat \<Rightarrow> nat \<Rightarrow> dom_cfg \<times> nat" where
  "dom_preorder 0 cfg bid counter = (cfg, counter)"
| "dom_preorder (Suc fuel) cfg bid counter =
     foldl (\<lambda>(c, k) ch. dom_preorder fuel c ch k)
       (upd_block cfg bid (\<lambda>b. b\<lparr> bb_dom_order := int counter \<rparr>), counter + 1)
       (bb_children (cfg_blocks cfg ! bid))"

definition clear_tree :: "dom_cfg \<Rightarrow> dom_cfg" where
  "clear_tree cfg = foldl (\<lambda>c i. upd_block c i (\<lambda>b. b\<lparr> bb_children := [], bb_dom_order := -1 \<rparr>))
     cfg [0..<block_count cfg]"

definition add_child :: "dom_cfg \<Rightarrow> nat \<Rightarrow> dom_cfg" where
  "add_child cfg i =
     (let parent = bb_idom (cfg_blocks cfg ! i)
      in if parent \<ge> 0 \<and> parent < int (block_count cfg)
            \<and> length (bb_children (cfg_blocks cfg ! nat parent)) < DOM_MAX_CHILDREN
         then upd_block cfg (nat parent) (\<lambda>b. b\<lparr> bb_children := bb_children b @ [i] \<rparr>)
         else cfg)"

definition number_rest :: "dom_cfg \<times> nat \<Rightarrow> nat \<Rightarrow> dom_cfg \<times> nat" where
  "number_rest st i = (case st of (c, k) \<Rightarrow>
     if bb_dom_order (cfg_blocks c ! i) < 0
     then (upd_block c i (\<lambda>b. b\<lparr> bb_dom_order := int k \<rparr>), k + 1) else (c, k))"

definition dom_build_tree :: "dom_cfg \<Rightarrow> dom_cfg" where
  "dom_build_tree cfg =
     (let c1 = foldl add_child (clear_tree cfg) [1..<block_count cfg]
      in fst (foldl number_rest (dom_preorder (block_count cfg) c1 0 0) [0..<block_count cfg]))"

text \<open>The walk from a block towards the entry.\<close>

fun dom_walk :: "nat \<Rightarrow> dom_cfg \<Rightarrow> nat \<Rightarrow> int \<Rightarrow> bool option" where
  "dom_walk 0 cfg d cur = None"
| "dom_walk (Suc fuel) cfg d cur =
     (if cur = -1 then Some False
      else if cur = int d then Some True
      else if cur = 0 then Some False
      else dom_walk fuel cfg d (bb_idom (cfg_blocks cfg ! nat cur)))"

definition dom_dominates :: "nat \<Rightarrow> dom_cfg \<Rightarrow> nat \<Rightarrow> nat \<Rightarrow> bool option" where
  "dom_dominates fuel cfg d b =
     (if d \<ge> block_count cfg \<or> b \<ge> block_count cfg then Some False else dom_walk fuel cfg d (int b))"

fun node_in_block :: "nat \<Rightarrow> dom_bb list \<Rightarrow> nat \<Rightarrow> nat option" where
  "node_in_block k [] i = None"
| "node_in_block k (b # bs) i =
     (if bb_first b \<le> k \<and> k \<le> bb_last b then Some i else node_in_block k bs (Suc i))"

definition dom_find_block_for_node :: "dom_cfg \<Rightarrow> nat \<Rightarrow> nat option" where
  "dom_find_block_for_node cfg k = node_in_block k (cfg_blocks cfg) 0"

text \<open>The pass: the graph it leaves for the later passes (\<open>None\<close> when the blocks overflow, the previous
  graph \<open>prev\<close> for an empty function) and its metrics; \<open>None\<close> at the outside is out of fuel.\<close>

definition ir_pass_dominance ::
  "nat \<Rightarrow> dom_bitset list \<Rightarrow> dom_cfg option \<Rightarrow> ir_func \<Rightarrow> (dom_cfg option \<times> ir_pass_result) option" where
  "ir_pass_dominance fuel old prev fn =
     (if fn_nodes fn = [] then Some (prev, empty_result)
      else let r = empty_result\<lparr> nodes_before := fn_node_count fn, nodes_after := fn_node_count fn \<rparr>
           in case dom_build_cfg (fn_nodes fn) of
                None \<Rightarrow> Some (None, r)
              | Some cfg \<Rightarrow> (case dom_compute_idom fuel old cfg of None \<Rightarrow> None
                  | Some cfg' \<Rightarrow> Some (Some (dom_build_tree cfg'),
                      r\<lparr> nodes_modified := int (block_count cfg') \<rparr>)))"

subsection \<open>The graph is well formed\<close>

definition wf_cfg :: "dom_cfg \<Rightarrow> bool" where
  "wf_cfg cfg \<longleftrightarrow> block_count cfg \<le> DOM_MAX_BLOCKS
     \<and> (\<forall>b \<in> set (cfg_blocks cfg). (\<forall>p \<in> set (bb_pred b). p < block_count cfg)
           \<and> (\<forall>s \<in> set (bb_succ b). s < block_count cfg)
           \<and> length (bb_pred b) \<le> DOM_MAX_PREDS \<and> length (bb_succ b) \<le> DOM_MAX_SUCCS)"

lemma upd_block_count [simp]: "block_count (upd_block cfg i f) = block_count cfg"
  by (simp add: upd_block_def block_count_def)

lemma upd_block_fn [simp]: "cfg_fn (upd_block cfg i f) = cfg_fn cfg"
  by (simp add: upd_block_def)

lemma upd_block_nth:
  "i < block_count cfg \<Longrightarrow> cfg_blocks (upd_block cfg i f) ! j = (if j = i then f (cfg_blocks cfg ! i) else cfg_blocks cfg ! j)"
  by (simp add: upd_block_def block_count_def nth_list_update)

lemma upd_block_wf:
  assumes "wf_cfg cfg" "i < block_count cfg"
    "(\<forall>p \<in> set (bb_pred (f (cfg_blocks cfg ! i))). p < block_count cfg)
     \<and> (\<forall>s \<in> set (bb_succ (f (cfg_blocks cfg ! i))). s < block_count cfg)
     \<and> length (bb_pred (f (cfg_blocks cfg ! i))) \<le> DOM_MAX_PREDS
     \<and> length (bb_succ (f (cfg_blocks cfg ! i))) \<le> DOM_MAX_SUCCS"
  shows "wf_cfg (upd_block cfg i f)"
proof -
  have "set (cfg_blocks (upd_block cfg i f)) \<subseteq> insert (f (cfg_blocks cfg ! i)) (set (cfg_blocks cfg))"
    by (simp add: upd_block_def set_update_subset_insert)
  then show ?thesis
    using assms unfolding wf_cfg_def by (auto simp del: bex_simps)
qed

lemma wf_nth: "wf_cfg cfg \<Longrightarrow> i < block_count cfg \<Longrightarrow>
    (\<forall>p \<in> set (bb_pred (cfg_blocks cfg ! i)). p < block_count cfg)
     \<and> (\<forall>s \<in> set (bb_succ (cfg_blocks cfg ! i)). s < block_count cfg)
     \<and> length (bb_pred (cfg_blocks cfg ! i)) \<le> DOM_MAX_PREDS
     \<and> length (bb_succ (cfg_blocks cfg ! i)) \<le> DOM_MAX_SUCCS"
  unfolding wf_cfg_def block_count_def by (meson nth_mem)

lemma add_pred_wf [wf_rules]: "wf_cfg cfg \<Longrightarrow> wf_cfg (add_pred cfg t f)"
  using wf_nth [of cfg t] by (auto simp: add_pred_def Let_def intro!: upd_block_wf)

lemma add_succ_wf [wf_rules]: "wf_cfg cfg \<Longrightarrow> wf_cfg (add_succ cfg f t)"
  using wf_nth [of cfg f] by (auto simp: add_succ_def Let_def intro!: upd_block_wf)

lemma add_edge_wf [wf_rules]: "wf_cfg cfg \<Longrightarrow> wf_cfg (add_edge cfg i t)"
  by (simp add: add_edge_def wf_rules)

lemma wire_block_wf [wf_rules]: "wf_cfg cfg \<Longrightarrow> wf_cfg (wire_block cfg i)"
  by (auto simp: wire_block_def Let_def fallthrough_def edge_to_label_def intro: add_edge_wf split: option.splits)

lemma add_edge_count [simp]: "block_count (add_edge cfg i t) = block_count cfg"
  by (simp add: add_edge_def add_pred_def add_succ_def Let_def)

lemma wire_block_count [simp]: "block_count (wire_block cfg i) = block_count cfg"
  by (auto simp: wire_block_def Let_def fallthrough_def edge_to_label_def split: option.splits)

lemma foldl_wire:
  "wf_cfg cfg \<Longrightarrow> wf_cfg (foldl wire_block cfg is) \<and> block_count (foldl wire_block cfg is) = block_count cfg"
  by (induction "is" arbitrary: cfg) (simp_all add: wire_block_wf)

lemma split_blocks_wf:
  "split_blocks ns k bs = Some bs' \<Longrightarrow> length bs \<le> DOM_MAX_BLOCKS \<Longrightarrow> bs \<noteq> [] \<Longrightarrow>
   \<forall>b \<in> set bs. bb_pred b = [] \<and> bb_succ b = [] \<Longrightarrow>
   length bs' \<le> DOM_MAX_BLOCKS \<and> bs' \<noteq> [] \<and> (\<forall>b \<in> set bs'. bb_pred b = [] \<and> bb_succ b = [])"
proof (induction ns k bs rule: split_blocks.induct)
  case (1 k bs)
  then show ?case by simp
next
  case (2 n ns k bs)
  obtain b bs1 where bs: "bs = b # bs1" using "2.prems"(3) by (cases bs) auto
  show ?case
  proof (cases "nd_op n = IR_LABEL")
    case True
    have "length bs < DOM_MAX_BLOCKS" using "2.prems"(1) True by (simp split: if_splits)
    then show ?thesis
      using "2.IH"(1) [OF True] "2.prems" True bs by (simp add: new_block_def)
  next
    case False
    then show ?thesis using "2.IH"(2) "2.prems" by simp
  qed
qed

lemma build_blocks_wf:
  "build_blocks ns = Some bs \<Longrightarrow> wf_cfg \<lparr> cfg_blocks = bs, cfg_fn = ns \<rparr>"
proof (cases ns)
  case Nil
  then show "build_blocks ns = Some bs \<Longrightarrow> ?thesis"
    by (simp add: build_blocks_def wf_cfg_def block_count_def)
next
  case (Cons n rest)
  assume "build_blocks ns = Some bs"
  then obtain bs0 where s: "split_blocks rest 1 [new_block 0 0 n] = Some bs0"
      "bs = rev ((hd bs0)\<lparr> bb_last := length ns - 1 \<rparr> # tl bs0)"
    using Cons by (auto simp: build_blocks_def split: option.splits)
  have w: "length bs0 \<le> DOM_MAX_BLOCKS \<and> bs0 \<noteq> [] \<and> (\<forall>b \<in> set bs0. bb_pred b = [] \<and> bb_succ b = [])"
    by (rule split_blocks_wf [OF s(1)]) (auto simp: new_block_def DOM_MAX_BLOCKS_def)
  show ?thesis
    using w unfolding s(2) by (cases bs0) (auto simp: wf_cfg_def block_count_def)
qed

lemma dom_build_cfg_wf: "dom_build_cfg ns = Some cfg \<Longrightarrow> wf_cfg cfg"
  using foldl_wire build_blocks_wf by (fastforce simp: dom_build_cfg_def split: option.splits)

end
