(* ===== verification/DomCorrect.thy ===== *)
theory DomCorrect
  imports Dominance
begin

text \<open>
  Correctness of the dominator computation. \<open>avoids cfg d i\<close> is a path from a root (the entry, or a block
  without predecessors) to \<open>i\<close> that does not pass \<open>d\<close>; \<open>d\<close> dominates \<open>i\<close> when there is none. The bit-set
  iteration ends, within a computed number of sweeps, in exactly this relation; the immediate dominator
  it extracts is the closest strict dominator; the walk up the tree decides dominance for blocks that a
  root reaches.
\<close>

subsection \<open>Bit sets as sets\<close>

lemma bs_test_bit: "bs_test s b \<longleftrightarrow> bit (s ! (b div 64)) (b mod 64)"
  by (simp add: bs_test_def bit_iff_odd_drop_bit and_one_eq odd_iff_mod_2_eq_one)

definition bs_ok :: "dom_bitset \<Rightarrow> bool" where "bs_ok s \<longleftrightarrow> length s = 8"

lemma bs_ok_intros:
  "bs_ok bs_clear" "bs_ok (bs_fill s n)" "bs_ok (bs_and a b)" "bs_ok s \<Longrightarrow> bs_ok (bs_set s k)"
  by (simp_all add: bs_ok_def bs_clear_def bs_fill_def bs_and_def bs_set_def DOM_WORDS_def Let_def)

lemma word_index: "c < 512 \<Longrightarrow> c div 64 < (8 :: nat)" by (simp add: less_mult_imp_div_less)

lemma test_clear: "c < 512 \<Longrightarrow> \<not> bs_test bs_clear c"
  by (simp add: bs_test_bit bs_clear_def DOM_WORDS_def word_index)

lemma test_set:
  assumes "bs_ok s" "b < 512" "c < 512"
  shows "bs_test (bs_set s b) c \<longleftrightarrow> c = b \<or> bs_test s c"
proof (cases "c div 64 = b div 64")
  case True
  have "c = b \<longleftrightarrow> c mod 64 = b mod 64" using True by (metis div_mod_decomp)
  then show ?thesis
    using assms True word_index [OF assms(2)]
    by (auto simp: bs_test_bit bs_set_def bs_ok_def bit_simps)
next
  case False
  then show ?thesis
    using assms by (auto simp: bs_test_bit bs_set_def bs_ok_def nth_list_update)
qed

lemma test_and: "c < 512 \<Longrightarrow> bs_test (bs_and a b) c \<longleftrightarrow> bs_test a c \<and> bs_test b c"
  using word_index [of c] by (simp add: bs_test_bit bs_and_def DOM_WORDS_def bit_simps)

definition fill_clean :: "dom_bitset \<Rightarrow> nat \<Rightarrow> bool" where
  "fill_clean s n \<longleftrightarrow> (n mod 64 = 0 \<and> n < 512 \<longrightarrow> s ! (n div 64) = 0)"

lemma test_fill:
  assumes "fill_clean s n" "n \<le> 512" "c < 512"
  shows "bs_test (bs_fill s n) c \<longleftrightarrow> c < n"
proof -
  consider "c div 64 < n div 64" | "c div 64 = n div 64" | "n div 64 < c div 64" by linarith
  then show ?thesis
  proof cases
    case 1
    then have "c < n" by (metis div_le_mono leD not_less)
    moreover have "bit (- 1 :: u64) (c mod 64)" by (simp add: bit_simps)
    ultimately show ?thesis
      using 1 word_index [OF assms(3)] by (simp add: bs_test_bit bs_fill_def DOM_WORDS_def Let_def)
  next
    case 2
    have lt: "c < n \<longleftrightarrow> c mod 64 < n mod 64"
      using 2 by (metis add_less_cancel_left mult_div_mod_eq)
    have m: "bit (push_bit r 1 - 1 :: u64) k \<longleftrightarrow> k < r" if "k < 64" for r k
      using that by (simp add: push_bit_eq_mult mask_eq_exp_minus_1 [symmetric] bit_mask_iff)
    show ?thesis
    proof (cases "n mod 64 > 0")
      case True
      then show ?thesis
        using 2 word_index [OF assms(3)] lt m
        by (simp add: bs_test_bit bs_fill_def DOM_WORDS_def Let_def)
    next
      case False
      moreover have "n < 512" using 2 assms word_index [OF assms(3)] by linarith
      ultimately show ?thesis
        using 2 word_index [OF assms(3)] lt assms(1)
        by (simp add: bs_test_bit bs_fill_def DOM_WORDS_def Let_def fill_clean_def)
    qed
  next
    case 3
    then have "n < c" by (metis div_le_mono leD not_less)
    then show ?thesis
      using 3 word_index [OF assms(3)] by (simp add: bs_test_bit bs_fill_def DOM_WORDS_def Let_def)
  qed
qed

lemma bs_equal_iff:
  assumes "bs_ok a" "bs_ok b"
  shows "bs_equal a b \<longleftrightarrow> (\<forall>c < 512. bs_test a c = bs_test b c)"
proof
  assume "bs_equal a b"
  then have "a ! i = b ! i" if "i < 8" for i
    using that by (simp add: bs_equal_def DOM_WORDS_def list_all_iff)
  then show "\<forall>c < 512. bs_test a c = bs_test b c"
    using word_index by (simp add: bs_test_bit)
next
  assume t: "\<forall>c < 512. bs_test a c = bs_test b c"
  have "a ! i = b ! i" if "i < 8" for i
  proof (rule bit_word_eqI)
    fix k assume "k < LENGTH(64)"
    then have k: "k < 64" by simp
    have "i * 64 + k < 512" using that k by linarith
    then have "bs_test a (i * 64 + k) = bs_test b (i * 64 + k)" using t by blast
    then show "bit (a ! i) k = bit (b ! i) k" using k by (simp add: bs_test_bit)
  qed
  then show "bs_equal a b" by (simp add: bs_equal_def DOM_WORDS_def list_all_iff)
qed

lemma bs_equal_eq: "bs_ok a \<Longrightarrow> bs_ok b \<Longrightarrow> bs_equal a b \<longleftrightarrow> a = b"
  by (auto simp: bs_equal_def DOM_WORDS_def list_all_iff bs_ok_def intro!: nth_equalityI)

subsection \<open>Paths\<close>

definition is_root :: "dom_cfg \<Rightarrow> nat \<Rightarrow> bool" where
  "is_root cfg i \<longleftrightarrow> i < block_count cfg \<and> (i = 0 \<or> preds cfg i = [])"

inductive avoids :: "dom_cfg \<Rightarrow> nat \<Rightarrow> nat \<Rightarrow> bool" for cfg d where
  root: "is_root cfg i \<Longrightarrow> i \<noteq> d \<Longrightarrow> avoids cfg d i"
| edge: "avoids cfg d p \<Longrightarrow> i < block_count cfg \<Longrightarrow> i \<noteq> 0 \<Longrightarrow> p \<in> set (preds cfg i) \<Longrightarrow> i \<noteq> d \<Longrightarrow> avoids cfg d i"

definition dominates :: "dom_cfg \<Rightarrow> nat \<Rightarrow> nat \<Rightarrow> bool" where
  "dominates cfg d i \<longleftrightarrow> d < block_count cfg \<and> \<not> avoids cfg d i"

text \<open>A root reaches a block when a path avoids the number past the last block.\<close>

definition reached :: "dom_cfg \<Rightarrow> nat \<Rightarrow> bool" where
  "reached cfg i \<longleftrightarrow> avoids cfg (block_count cfg) i"

lemma avoids_ne: "avoids cfg d i \<Longrightarrow> i \<noteq> d \<and> i < block_count cfg"
  by (erule avoids.cases) (auto simp: is_root_def)

lemma dom_refl: "i < block_count cfg \<Longrightarrow> dominates cfg i i"
  using avoids_ne unfolding dominates_def by blast

lemma avoids_reached: "avoids cfg d i \<Longrightarrow> reached cfg i"
  unfolding reached_def
  by (induction rule: avoids.induct) (auto intro: avoids.intros simp: is_root_def)

lemma reached_lt: "reached cfg i \<Longrightarrow> i < block_count cfg"
  unfolding reached_def using avoids_ne by blast

lemma dom_trans: "dominates cfg a b \<Longrightarrow> dominates cfg b c \<Longrightarrow> dominates cfg a c"
proof -
  assume ab: "dominates cfg a b" and bc: "dominates cfg b c"
  have "avoids cfg a j \<Longrightarrow> avoids cfg b j \<or> avoids cfg a b" for j
    by (induction rule: avoids.induct) (metis avoids.intros)+
  then show "dominates cfg a c" using ab bc by (auto simp: dominates_def)
qed

lemma dom_antisym:
  assumes "dominates cfg a b" "dominates cfg b a" "reached cfg a"
  shows "a = b"
proof (rule ccontr)
  assume ne: "a \<noteq> b"
  have "avoids cfg (block_count cfg) j \<Longrightarrow> avoids cfg a j \<and> avoids cfg b j" for j
  proof (induction rule: avoids.induct)
    case (root i)
    have "i \<noteq> a" using root ne assms(2) by (auto simp: dominates_def intro: avoids.root)
    moreover have "i \<noteq> b" using root ne assms(1) by (auto simp: dominates_def intro: avoids.root)
    ultimately show ?case using root by (auto intro: avoids.root)
  next
    case (edge p i)
    have "i \<noteq> a" using edge ne assms(2) by (auto simp: dominates_def intro: avoids.edge)
    moreover have "i \<noteq> b" using edge ne assms(1) by (auto simp: dominates_def intro: avoids.edge)
    ultimately show ?case using edge by (auto intro: avoids.edge)
  qed
  then have "avoids cfg a a" using assms(3) by (simp add: reached_def)
  then show False using avoids_ne by blast
qed

text \<open>The dominators of a reached block are a chain.\<close>

lemma dom_linear:
  assumes "dominates cfg a i" "dominates cfg b i" "reached cfg i"
  shows "dominates cfg a b \<or> dominates cfg b a"
proof (rule ccontr)
  assume "\<not> (dominates cfg a b \<or> dominates cfg b a)"
  then have ab: "avoids cfg a b" "avoids cfg b a"
    using assms by (auto simp: dominates_def)
  then have ne: "a \<noteq> b" using avoids_ne by blast
  have "avoids cfg (block_count cfg) j \<Longrightarrow> avoids cfg a j \<or> avoids cfg b j" for j
  proof (induction rule: avoids.induct)
    case (root i)
    then show ?case using ne by (metis avoids.root)
  next
    case (edge p i)
    then show ?case using ab by (metis avoids.edge)
  qed
  then show False using assms by (auto simp: dominates_def reached_def)
qed

subsection \<open>The iteration\<close>

definition sets_ok :: "nat \<Rightarrow> dom_bitset list \<Rightarrow> bool" where
  "sets_ok n sets \<longleftrightarrow> length sets = n \<and> (\<forall>i < n. bs_ok (sets ! i) \<and> (\<forall>c < 512. bs_test (sets ! i) c \<longrightarrow> c < n))"

lemma foldl_and:
  "c < 512 \<Longrightarrow> bs_test (foldl (\<lambda>acc q. bs_and acc (f q)) a ps) c \<longleftrightarrow> bs_test a c \<and> (\<forall>q \<in> set ps. bs_test (f q) c)"
  by (induction ps arbitrary: a) (auto simp: test_and)

lemma foldl_and_ok: "bs_ok a \<Longrightarrow> bs_ok (foldl (\<lambda>acc q. bs_and acc (f q)) a ps)"
  by (induction ps arbitrary: a) (auto intro: bs_ok_intros)

lemma wf_preds: "wf_cfg cfg \<Longrightarrow> i < block_count cfg \<Longrightarrow> p \<in> set (preds cfg i) \<Longrightarrow> p < block_count cfg"
  unfolding preds_def using wf_nth [of cfg i] by blast

lemma wf_512: "wf_cfg cfg \<Longrightarrow> i < block_count cfg \<Longrightarrow> i < 512"
  by (auto simp: wf_cfg_def DOM_MAX_BLOCKS_def)

lemma new_dom_ok:
  assumes "wf_cfg cfg" "sets_ok (block_count cfg) sets" "i < block_count cfg"
  shows "bs_ok (new_dom cfg sets i)"
proof (cases "preds cfg i")
  case Nil
  then show ?thesis by (simp add: new_dom_def bs_ok_intros)
next
  case (Cons p ps)
  then have "p < block_count cfg" using wf_preds [OF assms(1,3)] by simp
  then show ?thesis
    using Cons assms(2) by (simp add: new_dom_def bs_ok_intros foldl_and_ok sets_ok_def)
qed

lemma test_new_dom:
  assumes "wf_cfg cfg" "sets_ok (block_count cfg) sets" "i < block_count cfg" "c < 512"
  shows "bs_test (new_dom cfg sets i) c \<longleftrightarrow>
    c = i \<or> (preds cfg i \<noteq> [] \<and> (\<forall>p \<in> set (preds cfg i). bs_test (sets ! p) c))"
proof (cases "preds cfg i")
  case Nil
  then show ?thesis
    using assms wf_512 [OF assms(1,3)] by (auto simp: new_dom_def bs_ok_intros test_set test_clear)
next
  case (Cons p ps)
  then have "bs_ok (sets ! p)" using wf_preds [OF assms(1,3)] assms(2) by (simp add: sets_ok_def)
  then show ?thesis
    using Cons assms wf_512 [OF assms(1,3)]
    by (simp add: new_dom_def test_set foldl_and_ok foldl_and)
qed

text \<open>What every visit keeps: the sets hold block numbers only, the entry's set is itself, no dominator
  is missing, and no set can grow.\<close>

definition dom_inv :: "dom_cfg \<Rightarrow> dom_bitset list \<Rightarrow> bool" where
  "dom_inv cfg sets \<longleftrightarrow> sets_ok (block_count cfg) sets
     \<and> (\<forall>c < 512. bs_test (sets ! 0) c \<longrightarrow> c = 0)
     \<and> (\<forall>i < block_count cfg. \<forall>d. dominates cfg d i \<longrightarrow> bs_test (sets ! i) d)
     \<and> (\<forall>i < block_count cfg. i \<noteq> 0 \<longrightarrow> (\<forall>c < 512. bs_test (new_dom cfg sets i) c \<longrightarrow> bs_test (sets ! i) c))"

lemma new_dom_keeps_dom:
  assumes wf: "wf_cfg cfg" and inv: "dom_inv cfg sets" and i: "i < block_count cfg" "i \<noteq> 0" and d: "dominates cfg d i"
  shows "bs_test (new_dom cfg sets i) d"
proof -
  have ok: "sets_ok (block_count cfg) sets" using inv by (simp add: dom_inv_def)
  have d512: "d < 512" using d wf_512 [OF wf] by (simp add: dominates_def)
  show ?thesis
  proof (cases "d = i")
    case False
    have "preds cfg i \<noteq> []"
      using d False i(1) by (auto simp: dominates_def is_root_def intro: avoids.root)
    moreover have "dominates cfg d p" if "p \<in> set (preds cfg i)" for p
      using that d False i by (auto simp: dominates_def intro: avoids.edge)
    moreover have "bs_test (sets ! p) d" if "p \<in> set (preds cfg i)" "dominates cfg d p" for p
      using that inv wf_preds [OF wf i(1)] by (simp add: dom_inv_def)
    ultimately show ?thesis using test_new_dom [OF wf ok i(1) d512] by blast
  qed (use test_new_dom [OF wf ok i(1) d512] in simp)
qed

lemma dom_inv_update:
  assumes wf: "wf_cfg cfg" and inv: "dom_inv cfg sets" and i: "i < block_count cfg" "i \<noteq> 0"
  shows "dom_inv cfg (sets[i := new_dom cfg sets i])"
proof -
  let ?s = "sets[i := new_dom cfg sets i]"
  have ok: "sets_ok (block_count cfg) sets" using inv by (simp add: dom_inv_def)
  have len: "length sets = block_count cfg" using ok by (simp add: sets_ok_def)
  have sub: "bs_test (new_dom cfg sets i) c \<Longrightarrow> bs_test (sets ! i) c" if "c < 512" for c
    using inv i that by (simp add: dom_inv_def)
  have le: "bs_test (?s ! j) c \<Longrightarrow> bs_test (sets ! j) c" if "c < 512" for j c
    using sub that i len by (cases "j = i") auto
  have "bs_ok (?s ! j)" if "j < block_count cfg" for j
    using ok new_dom_ok [OF wf ok i(1)] that len by (cases "j = i") (simp_all add: sets_ok_def)
  then have ok': "sets_ok (block_count cfg) ?s"
    using ok le by (auto simp: sets_ok_def)
  have mono: "bs_test (new_dom cfg ?s j) c \<Longrightarrow> bs_test (new_dom cfg sets j) c"
    if "j < block_count cfg" "c < 512" for j c
    using test_new_dom [OF wf ok that] test_new_dom [OF wf ok' that] le [OF that(2)] by auto
  show ?thesis
    unfolding dom_inv_def
  proof (intro conjI allI impI)
    show "sets_ok (block_count cfg) ?s" by (rule ok')
    show "c = 0" if "c < 512" "bs_test (?s ! 0) c" for c
      using that i(2) inv by (simp add: dom_inv_def)
    show "bs_test (?s ! j) d" if "j < block_count cfg" "dominates cfg d j" for j d
      using that inv new_dom_keeps_dom [OF wf inv i] len by (cases "j = i") (auto simp: dom_inv_def)
    show "bs_test (?s ! j) c"
      if "j < block_count cfg" "j \<noteq> 0" "c < 512" "bs_test (new_dom cfg ?s j) c" for j c
    proof -
      have "bs_test (new_dom cfg sets j) c" using mono that by blast
      then show ?thesis using that inv len by (cases "j = i") (auto simp: dom_inv_def)
    qed
  qed
qed

definition set_card :: "nat \<Rightarrow> dom_bitset \<Rightarrow> nat" where
  "set_card n s = card {c. c < n \<and> bs_test s c}"

definition dom_measure :: "nat \<Rightarrow> dom_bitset list \<Rightarrow> nat" where
  "dom_measure n sets = (\<Sum>i < n. set_card n (sets ! i))"

lemma dom_measure_bound: "dom_measure n sets \<le> n * n"
proof -
  have "set_card n s \<le> n" for s
    unfolding set_card_def using card_mono [of "{..<n}" "{c. c < n \<and> bs_test s c}"] by auto
  then have "dom_measure n sets \<le> (\<Sum>i < n. n)" unfolding dom_measure_def by (intro sum_mono) simp
  then show ?thesis by simp
qed

lemma dom_measure_update:
  assumes wf: "wf_cfg cfg" and inv: "dom_inv cfg sets" and i: "i < block_count cfg" "i \<noteq> 0"
    and ne: "\<not> bs_equal (new_dom cfg sets i) (sets ! i)"
  shows "dom_measure (block_count cfg) (sets[i := new_dom cfg sets i]) < dom_measure (block_count cfg) sets"
proof -
  let ?n = "block_count cfg" and ?s = "sets[i := new_dom cfg sets i]"
  have ok: "sets_ok ?n sets" using inv by (simp add: dom_inv_def)
  have len: "length sets = ?n" using ok by (simp add: sets_ok_def)
  have sub: "bs_test (new_dom cfg sets i) c \<Longrightarrow> bs_test (sets ! i) c" if "c < 512" for c
    using inv i that by (simp add: dom_inv_def)
  obtain c where c: "c < 512" "bs_test (sets ! i) c" "\<not> bs_test (new_dom cfg sets i) c"
    using ne sub bs_equal_iff [OF new_dom_ok [OF wf ok i(1)], of "sets ! i"] ok i(1) by (auto simp: sets_ok_def)
  then have "c < ?n" using ok i(1) by (auto simp: sets_ok_def)
  then have "{c. c < ?n \<and> bs_test (new_dom cfg sets i) c} \<subset> {c. c < ?n \<and> bs_test (sets ! i) c}"
    using c sub wf_512 [OF wf] by auto
  then have "set_card ?n (?s ! i) < set_card ?n (sets ! i)"
    unfolding set_card_def using i(1) len by (simp add: psubset_card_mono)
  moreover have "set_card ?n (?s ! j) \<le> set_card ?n (sets ! j)" if "j < ?n" for j
    using calculation that by (cases "j = i") auto
  ultimately show ?thesis
    unfolding dom_measure_def using i(1) by (intro sum_strict_mono_ex1) auto
qed

lemma dom_visits:
  assumes wf: "wf_cfg cfg" and inv: "dom_inv cfg sets" and "is": "\<forall>i \<in> set is. i < block_count cfg \<and> i \<noteq> 0"
    and f: "foldl (dom_visit cfg) (sets, ch) is = (sets', ch')"
  shows "dom_inv cfg sets' \<and> dom_measure (block_count cfg) sets' \<le> dom_measure (block_count cfg) sets
    \<and> (ch' \<longrightarrow> ch \<or> dom_measure (block_count cfg) sets' < dom_measure (block_count cfg) sets)
    \<and> (\<not> ch' \<longrightarrow> \<not> ch \<and> sets' = sets \<and> (\<forall>i \<in> set is. bs_equal (new_dom cfg sets i) (sets ! i)))"
  using inv "is" f
proof (induction "is" arbitrary: sets ch)
  case Nil
  then show ?case by simp
next
  case (Cons i "is")
  have i: "i < block_count cfg" "i \<noteq> 0" using Cons.prems(2) by auto
  show ?case
  proof (cases "bs_equal (new_dom cfg sets i) (sets ! i)")
    case True
    then have "dom_visit cfg (sets, ch) i = (sets, ch)" by (simp add: dom_visit_def Let_def)
    then have "foldl (dom_visit cfg) (sets, ch) is = (sets', ch')" using Cons.prems(3) by simp
    note IH = Cons.IH [OF Cons.prems(1) _ this]
    then show ?thesis using Cons.prems(2) True by auto
  next
    case False
    let ?s = "sets[i := new_dom cfg sets i]"
    have "dom_visit cfg (sets, ch) i = (?s, True)" using False by (simp add: dom_visit_def Let_def)
    then have f: "foldl (dom_visit cfg) (?s, True) is = (sets', ch')" using Cons.prems(3) by simp
    have "dom_inv cfg ?s" by (rule dom_inv_update [OF wf Cons.prems(1) i])
    note IH = Cons.IH [OF this _ f]
    have "dom_measure (block_count cfg) ?s < dom_measure (block_count cfg) sets"
      by (rule dom_measure_update [OF wf Cons.prems(1) i False])
    then show ?thesis using IH Cons.prems(2) by auto
  qed
qed

definition dom_fixed :: "dom_cfg \<Rightarrow> dom_bitset list \<Rightarrow> bool" where
  "dom_fixed cfg sets \<longleftrightarrow> (\<forall>i. i \<noteq> 0 \<longrightarrow> i < block_count cfg \<longrightarrow> bs_equal (new_dom cfg sets i) (sets ! i))"

lemma dom_iterate_total:
  assumes wf: "wf_cfg cfg"
  shows "dom_inv cfg sets \<Longrightarrow> dom_measure (block_count cfg) sets < fuel \<Longrightarrow>
    \<exists>sets'. dom_iterate fuel cfg sets = Some sets' \<and> dom_inv cfg sets' \<and> dom_fixed cfg sets'"
proof (induction fuel arbitrary: sets)
  case 0
  then show ?case by simp
next
  case (Suc fuel)
  obtain s ch where f: "foldl (dom_visit cfg) (sets, False) [1..<block_count cfg] = (s, ch)" by fastforce
  have is': "\<forall>i \<in> set [1..<block_count cfg]. i < block_count cfg \<and> i \<noteq> 0" by auto
  note v = dom_visits [OF wf Suc.prems(1) is' f]
  show ?case
  proof (cases ch)
    case True
    then have "dom_measure (block_count cfg) s < fuel" using v Suc.prems(2) by auto
    then show ?thesis using Suc.IH v True f by (simp add: dom_sweep_def)
  next
    case False
    then have "dom_fixed cfg s" using v by (auto simp: dom_fixed_def)
    then show ?thesis using False f v by (auto simp: dom_sweep_def)
  qed
qed

lemma dom_fixed_sound:
  assumes wf: "wf_cfg cfg" and inv: "dom_inv cfg sets" and fx: "dom_fixed cfg sets" and d: "d < 512"
  shows "avoids cfg d i \<Longrightarrow> \<not> bs_test (sets ! i) d"
proof (induction rule: avoids.induct)
  have ok: "sets_ok (block_count cfg) sets" using inv by (simp add: dom_inv_def)
  have eq: "bs_test (sets ! i) d \<longleftrightarrow> bs_test (new_dom cfg sets i) d" if "i \<noteq> 0" "i < block_count cfg" for i
  proof -
    have "bs_equal (new_dom cfg sets i) (sets ! i)" using fx that by (simp add: dom_fixed_def)
    moreover have "bs_ok (sets ! i)" using ok that by (simp add: sets_ok_def)
    ultimately show ?thesis using bs_equal_iff [OF new_dom_ok [OF wf ok that(2)]] d by blast
  qed
  {
    case (root i)
    then have i: "i < block_count cfg" by (simp add: is_root_def)
    show ?case
    proof (cases "i = 0")
      case True
      then show ?thesis using inv root d by (auto simp: dom_inv_def)
    next
      case False
      then show ?thesis using root eq [OF False i] test_new_dom [OF wf ok i d] by (auto simp: is_root_def)
    qed
  next
    case (edge p i)
    then show ?case using eq test_new_dom [OF wf ok _ d] by blast
  }
qed

lemma init_sets_inv:
  assumes wf: "wf_cfg cfg" and n: "0 < block_count cfg"
    and clean: "\<forall>i < block_count cfg. fill_clean (old ! i) (block_count cfg)"
  shows "dom_inv cfg (init_sets old (block_count cfg))"
proof -
  let ?n = "block_count cfg" and ?s = "init_sets old (block_count cfg)"
  have n512: "?n \<le> 512" using wf by (simp add: wf_cfg_def DOM_MAX_BLOCKS_def)
  have s0: "?s ! 0 = bs_set bs_clear 0" using n by (simp add: init_sets_def)
  have si: "?s ! i = bs_fill (old ! i) ?n" if "i \<noteq> 0" "i < ?n" for i using that by (simp add: init_sets_def)
  have t0: "bs_test (?s ! 0) c \<longleftrightarrow> c = 0" if "c < 512" for c
    using that by (simp add: s0 test_set bs_ok_intros test_clear)
  have ti: "bs_test (?s ! i) c \<longleftrightarrow> c < ?n" if "i \<noteq> 0" "i < ?n" "c < 512" for i c
    using that clean by (simp add: si test_fill n512)
  have ok: "sets_ok ?n ?s"
    unfolding sets_ok_def
  proof (intro conjI allI impI)
    show "length ?s = ?n" by (simp add: init_sets_def)
    show "bs_ok (?s ! i)" if "i < ?n" for i using that s0 si by (cases "i = 0") (auto intro: bs_ok_intros)
    show "c < ?n" if "i < ?n" "c < 512" "bs_test (?s ! i) c" for i c
      using that t0 ti n by (cases "i = 0") auto
  qed
  show ?thesis
    unfolding dom_inv_def
  proof (intro conjI allI impI)
    show "sets_ok ?n ?s" by (rule ok)
    show "c = 0" if "c < 512" "bs_test (?s ! 0) c" for c using that t0 by blast
    show "bs_test (?s ! i) d" if "i < ?n" "dominates cfg d i" for i d
    proof (cases "i = 0")
      case True
      then have "d = 0" using that n by (auto simp: dominates_def is_root_def intro: avoids.root)
      then show ?thesis using True t0 by simp
    next
      case False
      then show ?thesis using that ti [OF False that(1)] wf_512 [OF wf] by (auto simp: dominates_def)
    qed
    show "bs_test (?s ! i) c" if "i < ?n" "i \<noteq> 0" "c < 512" "bs_test (new_dom cfg ?s i) c" for i c
    proof -
      have "c = i \<or> (\<exists>p \<in> set (preds cfg i). bs_test (?s ! p) c)"
        using that test_new_dom [OF wf ok that(1,3)] by (cases "preds cfg i") auto
      then have "c < ?n"
        using that ok wf_preds [OF wf that(1)] by (auto simp: sets_ok_def)
      then show ?thesis using ti that by blast
    qed
  qed
qed

text \<open>The sets the computation ends with are the dominance relation.\<close>

lemma dom_iterate_correct:
  assumes wf: "wf_cfg cfg" and n: "0 < block_count cfg"
    and clean: "\<forall>i < block_count cfg. fill_clean (old ! i) (block_count cfg)"
    and fuel: "block_count cfg * block_count cfg < fuel"
  shows "\<exists>sets. dom_iterate fuel cfg (init_sets old (block_count cfg)) = Some sets \<and> sets_ok (block_count cfg) sets
    \<and> (\<forall>i < block_count cfg. \<forall>d < block_count cfg. bs_test (sets ! i) d \<longleftrightarrow> dominates cfg d i)"
proof -
  note inv = init_sets_inv [OF wf n clean]
  have "dom_measure (block_count cfg) (init_sets old (block_count cfg)) < fuel"
    using dom_measure_bound fuel by (rule le_less_trans)
  then obtain sets where s: "dom_iterate fuel cfg (init_sets old (block_count cfg)) = Some sets"
    "dom_inv cfg sets" "dom_fixed cfg sets"
    using dom_iterate_total [OF wf inv] by blast
  have "bs_test (sets ! i) d \<longleftrightarrow> dominates cfg d i" if "i < block_count cfg" "d < block_count cfg" for i d
    using dom_fixed_sound [OF wf s(2,3) wf_512 [OF wf that(2)], of i] s(2) that by (auto simp: dominates_def dom_inv_def)
  then show ?thesis using s by (auto simp: dom_inv_def)
qed

subsection \<open>Immediate dominators\<close>

definition idom_candidate :: "dom_bitset list \<Rightarrow> nat \<Rightarrow> nat \<Rightarrow> bool" where
  "idom_candidate sets i j \<longleftrightarrow> j \<noteq> i \<and> bs_test (sets ! i) j"

definition best_so_far :: "dom_bitset list \<Rightarrow> nat \<Rightarrow> nat \<Rightarrow> nat \<Rightarrow> int \<times> int \<Rightarrow> bool" where
  "best_so_far sets n i m st \<longleftrightarrow>
     (st = (-1, -1) \<and> (\<forall>j < m. \<not> idom_candidate sets i j))
     \<or> (\<exists>b < m. st = (int b, int (dom_size (sets ! b) n)) \<and> idom_candidate sets i b
          \<and> (\<forall>j < m. idom_candidate sets i j \<longrightarrow> dom_size (sets ! j) n \<le> dom_size (sets ! b) n))"

lemma pick_idom_best:
  "best_so_far sets n i n (foldl (\<lambda>(best, best_size) j.
       if j = i then (best, best_size)
       else if \<not> bs_test (sets ! i) j then (best, best_size)
       else if int (dom_size (sets ! j) n) > best_size then (int j, int (dom_size (sets ! j) n))
       else (best, best_size)) (-1, -1) [0..<n])"
proof (rule foldl_upt_invariant [where P = "\<lambda>m st. best_so_far sets n i m st"])
  show "best_so_far sets n i 0 (-1, -1)" by (simp add: best_so_far_def)
next
  fix m and t :: "int \<times> int" assume inv: "best_so_far sets n i m t"
  obtain b sz where t: "t = (b, sz)" by fastforce
  show "best_so_far sets n i (Suc m) ((\<lambda>(best, best_size) j.
       if j = i then (best, best_size)
       else if \<not> bs_test (sets ! i) j then (best, best_size)
       else if int (dom_size (sets ! j) n) > best_size then (int j, int (dom_size (sets ! j) n))
       else (best, best_size)) t m)"
  proof (cases "idom_candidate sets i m")
    case False
    then show ?thesis using inv unfolding t by (auto simp: best_so_far_def idom_candidate_def less_Suc_eq)
  next
    case True
    then show ?thesis
      using inv unfolding t
      by (auto simp: best_so_far_def idom_candidate_def less_Suc_eq intro: exI [of _ m])
  qed
qed

lemma dom_size_card: "dom_size s n = card {k. k < n \<and> bs_test s k}"
proof (induction n)
  case 0
  then show ?case by (simp add: dom_size_def)
next
  case (Suc n)
  have "{k. k < Suc n \<and> bs_test s k} = (if bs_test s n then insert n {k. k < n \<and> bs_test s k} else {k. k < n \<and> bs_test s k})"
    by (auto simp: less_Suc_eq)
  then show ?case using Suc by (simp add: dom_size_def)
qed

lemma foldl_upd_block:
  assumes "distinct is" "\<forall>i \<in> set is. i < block_count cfg"
  shows "block_count (foldl (\<lambda>c i. upd_block c i (f i)) cfg is) = block_count cfg
    \<and> (\<forall>j < block_count cfg. cfg_blocks (foldl (\<lambda>c i. upd_block c i (f i)) cfg is) ! j
        = (if j \<in> set is then f j (cfg_blocks cfg ! j) else cfg_blocks cfg ! j))"
  using assms
proof (induction "is" arbitrary: cfg)
  case Nil
  then show ?case by simp
next
  case (Cons i "is")
  then show ?case using upd_block_nth [of i cfg] by auto
qed

lemma set_idoms_blocks:
  assumes "i < block_count cfg"
  shows "block_count (set_idoms cfg sets) = block_count cfg"
    and "cfg_blocks (set_idoms cfg sets) ! i =
      (cfg_blocks cfg ! i)\<lparr> bb_idom := (if i = 0 then -1 else pick_idom sets (block_count cfg) i) \<rparr>"
proof -
  let ?c = "upd_block cfg 0 (\<lambda>b. b\<lparr> bb_idom := -1 \<rparr>)"
  have n: "0 < block_count cfg" using assms by simp
  have r: "\<forall>i \<in> set [1..<block_count cfg]. i < block_count ?c" by auto
  note f = foldl_upd_block [OF distinct_upt r,
      where f = "\<lambda>i b. b\<lparr> bb_idom := pick_idom sets (block_count cfg) i \<rparr>"]
  show "block_count (set_idoms cfg sets) = block_count cfg" using f by (simp add: set_idoms_def)
  show "cfg_blocks (set_idoms cfg sets) ! i =
      (cfg_blocks cfg ! i)\<lparr> bb_idom := (if i = 0 then -1 else pick_idom sets (block_count cfg) i) \<rparr>"
    using f assms upd_block_nth [OF n] by (cases "i = 0") (simp_all add: set_idoms_def)
qed

lemma set_idoms_avoids: "avoids (set_idoms cfg sets) d i \<longleftrightarrow> avoids cfg d i"
proof (cases "block_count cfg = 0")
  case True
  then have "block_count (set_idoms cfg sets) = 0" by (simp add: set_idoms_def)
  then show ?thesis using True avoids_ne by fastforce
next
  case False
  have c: "block_count (set_idoms cfg sets) = block_count cfg"
    using set_idoms_blocks(1) False by blast
  have p: "preds (set_idoms cfg sets) i = preds cfg i" if "i < block_count cfg" for i
    using set_idoms_blocks(2) [OF that] by (simp add: preds_def)
  have r: "is_root (set_idoms cfg sets) i \<longleftrightarrow> is_root cfg i" for i
    using c p by (auto simp: is_root_def)
  show ?thesis
  proof
    show "avoids (set_idoms cfg sets) d i \<Longrightarrow> avoids cfg d i"
      by (induction rule: avoids.induct) (use r c p in \<open>auto intro: avoids.intros\<close>)
    show "avoids cfg d i \<Longrightarrow> avoids (set_idoms cfg sets) d i"
      by (induction rule: avoids.induct) (use r c p in \<open>auto intro: avoids.intros\<close>)
  qed
qed

lemma dom_reached:
  assumes "dominates cfg b i" "reached cfg i"
  shows "reached cfg b"
proof -
  have "avoids cfg (block_count cfg) j \<Longrightarrow> avoids cfg b j \<or> reached cfg b" for j
  proof (induction rule: avoids.induct)
    case (root i)
    then show ?case by (metis avoids.root reached_def)
  next
    case (edge p i)
    then show ?case by (metis avoids.edge reached_def)
  qed
  then show ?thesis using assms by (auto simp: dominates_def reached_def)
qed

definition doms :: "dom_cfg \<Rightarrow> nat \<Rightarrow> nat set" where
  "doms cfg i = {k. dominates cfg k i}"

lemma finite_doms: "finite (doms cfg i)" "card (doms cfg i) \<le> block_count cfg"
proof -
  have s: "doms cfg i \<subseteq> {..<block_count cfg}" by (auto simp: doms_def dominates_def)
  show "finite (doms cfg i)" using s finite_subset by blast
  show "card (doms cfg i) \<le> block_count cfg" using card_mono [OF _ s] by simp
qed

lemma doms_strict:
  assumes "dominates cfg b i" "b \<noteq> i" "reached cfg i"
  shows "card (doms cfg b) < card (doms cfg i)"
proof -
  have "i \<notin> doms cfg b"
    using assms dom_antisym [of cfg i b] by (auto simp: doms_def)
  moreover have "i \<in> doms cfg i" using assms(3) dom_refl reached_lt by (simp add: doms_def)
  moreover have "doms cfg b \<subseteq> doms cfg i" using assms(1) dom_trans by (auto simp: doms_def)
  ultimately show ?thesis using finite_doms by (intro psubset_card_mono) auto
qed

text \<open>What the extraction finds, for a block that a root reaches.\<close>

definition idom_spec :: "dom_cfg \<Rightarrow> nat \<Rightarrow> int \<Rightarrow> bool" where
  "idom_spec cfg i r \<longleftrightarrow>
     (r = -1 \<and> (\<forall>a. dominates cfg a i \<longrightarrow> a = i))
     \<or> (\<exists>b. r = int b \<and> dominates cfg b i \<and> b \<noteq> i \<and> (\<forall>a. dominates cfg a i \<longrightarrow> a \<noteq> i \<longrightarrow> dominates cfg a b))"

lemma pick_idom_spec:
  assumes rel: "\<forall>i < block_count cfg. \<forall>d < block_count cfg. bs_test (sets ! i) d \<longleftrightarrow> dominates cfg d i"
    and i: "reached cfg i"
  shows "idom_spec cfg i (pick_idom sets (block_count cfg) i)"
proof -
  let ?n = "block_count cfg"
  have il: "i < ?n" using reached_lt [OF i] .
  have cand: "j < ?n \<Longrightarrow> idom_candidate sets i j \<longleftrightarrow> dominates cfg j i \<and> j \<noteq> i" for j
    using rel il by (auto simp: idom_candidate_def)
  have size: "dom_size (sets ! j) ?n = card (doms cfg j)" if "j < ?n" for j
  proof -
    have "{k. k < ?n \<and> bs_test (sets ! j) k} = doms cfg j" using rel that by (auto simp: doms_def dominates_def)
    then show ?thesis by (simp add: dom_size_card)
  qed
  have lt: "dominates cfg a i \<Longrightarrow> a < ?n" for a by (simp add: dominates_def)
  obtain st where st: "best_so_far sets ?n i ?n st" "pick_idom sets ?n i = fst st"
    using pick_idom_best unfolding pick_idom_def by blast
  from st(1) consider "st = (-1, -1)" "\<forall>j < ?n. \<not> idom_candidate sets i j"
    | b where "b < ?n" "fst st = int b" "idom_candidate sets i b"
       "\<forall>j < ?n. idom_candidate sets i j \<longrightarrow> dom_size (sets ! j) ?n \<le> dom_size (sets ! b) ?n"
    by (auto simp: best_so_far_def)
  then show ?thesis
  proof cases
    case 1
    then show ?thesis using cand lt st(2) by (auto simp: idom_spec_def)
  next
    case (2 b)
    have b: "dominates cfg b i" "b \<noteq> i" using 2 cand by auto
    have "dominates cfg a b" if a: "dominates cfg a i" "a \<noteq> i" for a
    proof (rule ccontr)
      assume n: "\<not> dominates cfg a b"
      then have ba: "dominates cfg b a" using dom_linear [OF a(1) b(1) i] by blast
      have "b \<noteq> a" using n dom_refl lt [OF a(1)] by blast
      then have "card (doms cfg b) < card (doms cfg a)"
        using doms_strict [OF ba] dom_reached [OF a(1) i] by blast
      moreover have "dom_size (sets ! a) ?n \<le> dom_size (sets ! b) ?n"
        using 2(4) cand lt [OF a(1)] a by blast
      ultimately show False using size lt [OF a(1)] 2(1) by simp
    qed
    then show ?thesis using b 2(2) st(2) by (auto simp: idom_spec_def)
  qed
qed

subsection \<open>The walk up the tree\<close>

definition idoms_ok :: "dom_cfg \<Rightarrow> bool" where
  "idoms_ok cfg \<longleftrightarrow> (\<forall>i. reached cfg i \<longrightarrow> i \<noteq> 0 \<longrightarrow> idom_spec cfg i (bb_idom (cfg_blocks cfg ! i)))"

lemma dom_walk_correct:
  assumes ok: "idoms_ok cfg" and d: "d < block_count cfg"
  shows "reached cfg i \<Longrightarrow> card (doms cfg i) < fuel \<Longrightarrow> dom_walk fuel cfg d (int i) = Some (dominates cfg d i)"
proof (induction fuel arbitrary: i)
  case 0
  then show ?case by simp
next
  case (Suc fuel)
  have il: "i < block_count cfg" using reached_lt Suc.prems(1) .
  show ?case
  proof (cases "i = d \<or> i = 0")
    case True
    have "\<not> dominates cfg d 0" if "d \<noteq> 0" using that d by (auto simp: dominates_def is_root_def intro: avoids.root)
    then show ?thesis using True dom_refl [OF il] by auto
  next
    case False
    then have sp: "idom_spec cfg i (bb_idom (cfg_blocks cfg ! i))"
      using ok Suc.prems(1) by (simp add: idoms_ok_def)
    from sp consider "bb_idom (cfg_blocks cfg ! i) = -1" "\<forall>a. dominates cfg a i \<longrightarrow> a = i"
      | b where "bb_idom (cfg_blocks cfg ! i) = int b" "dominates cfg b i" "b \<noteq> i"
          "\<forall>a. dominates cfg a i \<longrightarrow> a \<noteq> i \<longrightarrow> dominates cfg a b"
      by (auto simp: idom_spec_def)
    then show ?thesis
    proof cases
      case 1
      have "0 < fuel" using Suc.prems(2) finite_doms(1) [of cfg i] dom_refl [OF il]
        by (cases fuel) (auto simp: doms_def card_eq_0_iff)
      then have "dom_walk fuel cfg d (- 1) = Some False" by (cases fuel) auto
      then show ?thesis using 1 False by auto
    next
      case (2 b)
      have "card (doms cfg b) < fuel" using doms_strict [OF 2(2,3) Suc.prems(1)] Suc.prems(2) by simp
      then have "dom_walk fuel cfg d (int b) = Some (dominates cfg d b)"
        using Suc.IH dom_reached [OF 2(2) Suc.prems(1)] by blast
      moreover have "dominates cfg d i \<longleftrightarrow> dominates cfg d b" using 2 False dom_trans by blast
      ultimately show ?thesis using False 2(1) by simp
    qed
  qed
qed

lemma compute_idom_correct:
  assumes wf: "wf_cfg cfg" and n: "0 < block_count cfg"
    and clean: "\<forall>i < block_count cfg. fill_clean (old ! i) (block_count cfg)"
    and fuel: "block_count cfg * block_count cfg < fuel"
  shows "\<exists>cfg'. dom_compute_idom fuel old cfg = Some cfg' \<and> block_count cfg' = block_count cfg
    \<and> (\<forall>d i. avoids cfg' d i = avoids cfg d i) \<and> idoms_ok cfg'"
proof -
  obtain sets where s: "dom_iterate fuel cfg (init_sets old (block_count cfg)) = Some sets"
    "\<forall>i < block_count cfg. \<forall>d < block_count cfg. bs_test (sets ! i) d \<longleftrightarrow> dominates cfg d i"
    using dom_iterate_correct [OF assms] by blast
  let ?c = "set_idoms cfg sets"
  have c: "block_count ?c = block_count cfg" using set_idoms_blocks(1) n by blast
  have a: "avoids ?c d i = avoids cfg d i" for d i by (rule set_idoms_avoids)
  have dominates': "dominates ?c = dominates cfg" "reached ?c = reached cfg" using a c by (auto simp: dominates_def reached_def fun_eq_iff)
  have "idom_spec ?c i (bb_idom (cfg_blocks ?c ! i))" if "reached ?c i" "i \<noteq> 0" for i
  proof -
    have r: "reached cfg i" using that dominates' by simp
    have "idom_spec cfg i (pick_idom sets (block_count cfg) i)" by (rule pick_idom_spec [OF s(2) r])
    then show ?thesis
      using set_idoms_blocks(2) [OF reached_lt [OF r]] that(2) dominates' by (simp add: idom_spec_def)
  qed
  then have "idoms_ok ?c" by (simp add: idoms_ok_def)
  then show ?thesis using s(1) c a n by (simp add: dom_compute_idom_def)
qed

subsection \<open>Properties\<close>

text \<open>C6: the do-while iteration of \<^verbatim>\<open>dom_compute_idom\<close> ends within one sweep more than the square of the
  number of blocks, and the bit sets it ends with are the dominance relation of the graph the builder
  made: bit \<open>d\<close> of block \<open>i\<close> is set exactly when every path from a root to \<open>i\<close> passes \<open>d\<close>. The sets the
  run starts from may hold anything, except that when the number of blocks is a multiple of 64 the word
  after the last full one, which \<^verbatim>\<open>bs_fill\<close> then skips, must be zero.\<close>

theorem dominator_sets_correct:
  assumes "dom_build_cfg ns = Some cfg" "ns \<noteq> []"
    and "\<forall>i < block_count cfg. fill_clean (old ! i) (block_count cfg)"
    and "block_count cfg * block_count cfg < fuel"
  shows "\<exists>sets. dom_iterate fuel cfg (init_sets old (block_count cfg)) = Some sets
    \<and> (\<forall>i < block_count cfg. \<forall>d < block_count cfg. bs_test (sets ! i) d \<longleftrightarrow> \<not> avoids cfg d i)"
proof -
  have "0 < block_count cfg"
  proof -
    obtain bs where bs: "build_blocks ns = Some bs" "block_count cfg = length bs"
      using assms(1) foldl_wire build_blocks_wf
      by (fastforce simp: dom_build_cfg_def block_count_def split: option.splits)
    then show ?thesis using assms(2) by (auto simp: build_blocks_def split: list.splits option.splits)
  qed
  then show ?thesis
    using dom_iterate_correct [OF dom_build_cfg_wf [OF assms(1)] _ assms(3,4)] by (auto simp: dominates_def)
qed

definition mk_label :: "cstr \<Rightarrow> ir_node" where
  "mk_label l = ir_node_alloc\<lparr> nd_op := IR_LABEL, nd_label := l \<rparr>"

definition mk_br :: "cstr \<Rightarrow> ir_node" where
  "mk_br l = ir_node_alloc\<lparr> nd_op := IR_BR, nd_label := l \<rparr>"

definition mk_br_if :: "cstr \<Rightarrow> cstr \<Rightarrow> ir_node" where
  "mk_br_if c l = ir_node_alloc\<lparr> nd_op := IR_BR_IF, nd_src1 := c, nd_label := l \<rparr>"

text \<open>A diamond: block 0 branches to 2 or falls into 1, which jumps to 3, and 2 falls into 3.\<close>

definition diamond :: "ir_node list" where
  "diamond = [mk_const ''c'' 1, mk_br_if ''c'' ''B'', mk_label ''A'', mk_br ''D'', mk_label ''B'',
              mk_label ''D'', mk_ret ''c'']"

definition zero_sets :: "dom_bitset list" where "zero_sets = replicate 512 (replicate 8 0)"

lemma diamond_cfg:
  "\<exists>cfg. dom_build_cfg diamond = Some cfg \<and> block_count cfg = 4 \<and> preds cfg 3 = [1, 2]"
proof -
  have "block_count (the (dom_build_cfg diamond)) = 4 \<and> preds (the (dom_build_cfg diamond)) 3 = [1, 2]
      \<and> dom_build_cfg diamond \<noteq> None"
    by code_simp
  then show ?thesis by force
qed

lemma zero_sets_clean: "i < 4 \<Longrightarrow> fill_clean (zero_sets ! i) 4"
  by (simp add: fill_clean_def)

theorem dominator_sets_correct_witness:
  "dom_iterate 17 (the (dom_build_cfg diamond)) (init_sets zero_sets 4) \<noteq> None"
proof -
  obtain cfg where cfg: "dom_build_cfg diamond = Some cfg" "block_count cfg = 4"
    using diamond_cfg by blast
  have "diamond \<noteq> []" by (simp add: diamond_def)
  then show ?thesis
    using dominator_sets_correct [OF cfg(1), of zero_sets 17] cfg zero_sets_clean by auto
qed

text \<open>The immediate dominator recorded for a block that a root reaches is its closest strict
  dominator: every other strict dominator of the block dominates it; -1 is recorded exactly when there
  is none.\<close>

lemma immediate_dominators_correct:
  assumes "dom_build_cfg ns = Some cfg" "dom_compute_idom fuel old cfg = Some cfg'"
    and "\<forall>i < block_count cfg. fill_clean (old ! i) (block_count cfg)"
    and "block_count cfg * block_count cfg < fuel" "reached cfg i" "i \<noteq> 0"
  shows "idom_spec cfg i (bb_idom (cfg_blocks cfg' ! i))"
proof -
  have n: "0 < block_count cfg" using reached_lt [OF assms(5)] by simp
  obtain c where c: "dom_compute_idom fuel old cfg = Some c" "block_count c = block_count cfg"
    "\<forall>d i. avoids c d i = avoids cfg d i" "idoms_ok c"
    using compute_idom_correct [OF dom_build_cfg_wf [OF assms(1)] n assms(3,4)] by blast
  have "dominates c = dominates cfg" "reached c = reached cfg" using c by (auto simp: dominates_def reached_def fun_eq_iff)
  then show ?thesis using c assms(2,5,6) by (simp add: idoms_ok_def idom_spec_def)
qed

lemma immediate_dominators_correct_witness:
  "idom_spec (the (dom_build_cfg diamond)) 3
     (bb_idom (cfg_blocks (the (dom_compute_idom 17 zero_sets (the (dom_build_cfg diamond)))) ! 3))"
proof -
  obtain cfg where cfg: "dom_build_cfg diamond = Some cfg" "block_count cfg = 4" "preds cfg 3 = [1, 2]"
    using diamond_cfg by blast
  have "preds cfg 1 = [0]"
  proof -
    have "preds (the (dom_build_cfg diamond)) 1 = [0]" by code_simp
    then show ?thesis using cfg(1) by simp
  qed
  then have "avoids cfg 4 1" by (intro avoids.edge [OF avoids.root]) (auto simp: cfg is_root_def)
  then have r: "reached cfg 3" unfolding reached_def cfg(2) by (rule avoids.edge) (auto simp: cfg)
  obtain c where c: "dom_compute_idom 17 zero_sets cfg = Some c"
    using compute_idom_correct [OF dom_build_cfg_wf [OF cfg(1)], of zero_sets 17] cfg zero_sets_clean by auto
  show ?thesis
    using immediate_dominators_correct [OF cfg(1) c _ _ r] cfg c zero_sets_clean by simp
qed



text \<open>For blocks that no root reaches the walk need not end: after a return, two blocks that jump to
  each other become each other's immediate dominator, and \<^verbatim>\<open>dom_dominates\<close> asked about the entry and one
  of them circles forever, whatever the number of steps.\<close>

definition dead_cycle :: "ir_node list" where
  "dead_cycle = [ir_node_alloc\<lparr> nd_op := IR_RET \<rparr>, mk_label ''A'', mk_br ''B'', mk_label ''B'', mk_br ''A'']"

definition dead_cfg :: dom_cfg where
  "dead_cfg = the (dom_compute_idom 10 zero_sets (the (dom_build_cfg dead_cycle)))"

lemma dom_dominates_diverges: "dom_dominates fuel dead_cfg 0 1 = None"
proof -
  have i: "block_count dead_cfg = 3" "bb_idom (cfg_blocks dead_cfg ! 1) = 2" "bb_idom (cfg_blocks dead_cfg ! 2) = 1"
    by code_simp+
  have "dom_walk fuel dead_cfg 0 1 = None \<and> dom_walk fuel dead_cfg 0 2 = None"
    using i by (induction fuel) simp_all
  then show ?thesis using i(1) by (simp add: dom_dominates_def)
qed

text \<open>The blocks are split at labels only, so a branch inside a block gets no edge: here the machine
  jumps from block 0 straight to block 2, yet the graph makes block 1 the dominator of block 2.\<close>

definition inner_branch :: "ir_node list" where
  "inner_branch = [mk_const ''c'' 1, mk_br_if ''c'' ''D'', mk_br ''A'', mk_label ''A'', mk_br ''D'',
                   mk_label ''D'', mk_ret ''c'']"

lemma inner_branch_missing_edge:
  "dom_dominates 4 (the (dom_compute_idom 10 zero_sets (the (dom_build_cfg inner_branch)))) 1 2 = Some True
   \<and> map bb_first (cfg_blocks (the (dom_build_cfg inner_branch))) = [0, 3, 5]
   \<and> ir_iter fp0 ext0 inner_branch 2 (Run inner_branch Map.empty [])
       = Some (Run (drop 6 inner_branch) [''c'' \<mapsto> C64 1] [])"
proof (intro conjI)
  show "dom_dominates 4 (the (dom_compute_idom 10 zero_sets (the (dom_build_cfg inner_branch)))) 1 2 = Some True"
    by code_simp
  show "map bb_first (cfg_blocks (the (dom_build_cfg inner_branch))) = [0, 3, 5]" by code_simp
  have "node_value fp0 ext0 (mk_const ''c'' 1) Map.empty [] = Some (C64 1)"
    by (simp add: node_value_def mk_const_def const_value_def ir_node_alloc_def ir_tag_defs)
  then show "ir_iter fp0 ext0 inner_branch 2 (Run inner_branch Map.empty [])
       = Some (Run (drop 6 inner_branch) [''c'' \<mapsto> C64 1] [])"
    by (simp add: inner_branch_def numeral_2_eq_2 next_value next_br_if is_value_op_def is_effect_def set_dst_def
        mk_const_def mk_br_if_def mk_br_def mk_label_def mk_ret_def ir_node_alloc_def truth_def)
qed

end
