(* ===== verification/GVN.thy ===== *)
theory GVN
  imports DeadCode Dominance
begin

text \<open>
  Pass 4 of \<^verbatim>\<open>ir_pass_manager.c\<close>, global value numbering: the hash, the open-addressed table of 4096
  slots, the scoped table with its rollback stack, the walk over the dominator tree and the linear mode
  with its reset at labels; then load coalescing.

  The static table is a function from slots to entries, \<open>None\<close> where \<^verbatim>\<open>occupied\<close> is 0; an entry's fields
  are only read when it is occupied. The scope stack is a list with its top first.
\<close>

subsection \<open>The hash\<close>

definition GVN_TABLE_SIZE :: nat where "GVN_TABLE_SIZE = 4096"
definition GVN_SCOPE_MAX :: nat where "GVN_SCOPE_MAX = 8192"
definition FNV_OFFSET :: u64 where "FNV_OFFSET = 14695981039346656037"
definition FNV_PRIME :: u64 where "FNV_PRIME = 1099511628211"

definition fnv_byte :: "u64 \<Rightarrow> u64 \<Rightarrow> u64" where
  "fnv_byte h b = (h XOR b) * FNV_PRIME"

definition fnv_str :: "u64 \<Rightarrow> cstr \<Rightarrow> u64" where
  "fnv_str h s = foldl (\<lambda>h c. fnv_byte h (of_char c)) h s"

definition gvn_hash_node :: "ir_node \<Rightarrow> u64" where
  "gvn_hash_node n =
     (let h = fnv_byte FNV_OFFSET (of_int (op_code (nd_op n)));
          h = fnv_byte h (of_int (ty_code (nd_type n)));
          h = fnv_byte (fnv_str h (nd_src1 n)) 0xFF;
          h = fnv_byte (fnv_str h (nd_src2 n)) 0xFE
      in foldl (\<lambda>h i. fnv_byte h (signed_drop_bit (i * 8) (nd_imm n) AND 0xFF)) h [0..<8])"

definition gvn_is_pure :: "ir_op \<Rightarrow> bool" where
  "gvn_is_pure op = (case op of
     IR_ADD \<Rightarrow> True | IR_SUB \<Rightarrow> True | IR_MUL \<Rightarrow> True | IR_DIV \<Rightarrow> True | IR_MOD \<Rightarrow> True
   | IR_NEG \<Rightarrow> True | IR_AND \<Rightarrow> True | IR_OR \<Rightarrow> True | IR_XOR \<Rightarrow> True | IR_NOT \<Rightarrow> True
   | IR_SHL \<Rightarrow> True | IR_SHR \<Rightarrow> True | IR_EQ \<Rightarrow> True | IR_NE \<Rightarrow> True | IR_LT \<Rightarrow> True
   | IR_LE \<Rightarrow> True | IR_GT \<Rightarrow> True | IR_GE \<Rightarrow> True | IR_CAST \<Rightarrow> True | IR_FADD \<Rightarrow> True
   | IR_FSUB \<Rightarrow> True | IR_FMUL \<Rightarrow> True | IR_FDIV \<Rightarrow> True | IR_ITOF \<Rightarrow> True | IR_FTOI \<Rightarrow> True
   | _ \<Rightarrow> False)"

subsection \<open>The table\<close>

record gvn_entry =
  ge_hash :: u64
  ge_dst :: cstr
  ge_op :: ir_op
  ge_type :: ir_type
  ge_src1 :: cstr
  ge_src2 :: cstr
  ge_imm :: u64

type_synonym gvn_table = "nat \<Rightarrow> gvn_entry option"

definition gvn_clear :: gvn_table where "gvn_clear = (\<lambda>_. None)"

definition gvn_keys_match :: "gvn_entry \<Rightarrow> ir_node \<Rightarrow> bool" where
  "gvn_keys_match e n =
     (if ge_op e \<noteq> nd_op n then False
      else if ge_type e \<noteq> nd_type n then False
      else if ge_imm e \<noteq> nd_imm n then False
      else if ge_src1 e \<noteq> nd_src1 n then False
      else if ge_src2 e \<noteq> nd_src2 n then False
      else True)"

definition gvn_entry_of :: "u64 \<Rightarrow> ir_node \<Rightarrow> gvn_entry" where
  "gvn_entry_of h n = \<lparr> ge_hash = h, ge_dst = c_copy IR_NAME_MAX (nd_dst n), ge_op = nd_op n, ge_type = nd_type n,
     ge_src1 = c_copy IR_NAME_MAX (nd_src1 n), ge_src2 = c_copy IR_NAME_MAX (nd_src2 n), ge_imm = nd_imm n \<rparr>"

text \<open>The probe: the slot filled by an insertion, or the name found, or neither when the table is full.\<close>

datatype probe_result = Inserted nat | Found cstr | Full

fun gvn_probe :: "gvn_table \<Rightarrow> u64 \<Rightarrow> ir_node \<Rightarrow> nat \<Rightarrow> nat \<Rightarrow> probe_result" where
  "gvn_probe t h n slot 0 = Full"
| "gvn_probe t h n slot (Suc left) =
     (case t (slot mod GVN_TABLE_SIZE) of
        None \<Rightarrow> Inserted (slot mod GVN_TABLE_SIZE)
      | Some e \<Rightarrow> if ge_hash e = h \<and> gvn_keys_match e n then Found (ge_dst e)
                  else gvn_probe t h n (Suc slot) left)"

definition gvn_probe_from :: "gvn_table \<Rightarrow> u64 \<Rightarrow> ir_node \<Rightarrow> probe_result" where
  "gvn_probe_from t h n = gvn_probe t h n (unat (h AND 4095)) GVN_TABLE_SIZE"

definition gvn_lookup_or_insert :: "gvn_table \<Rightarrow> u64 \<Rightarrow> ir_node \<Rightarrow> gvn_table \<times> cstr option" where
  "gvn_lookup_or_insert t h n = (case gvn_probe_from t h n of
       Inserted s \<Rightarrow> (t(s \<mapsto> gvn_entry_of h n), None)
     | Found d \<Rightarrow> (t, Some d)
     | Full \<Rightarrow> (t, None))"

definition gvn_rewrite :: "ir_node \<Rightarrow> cstr \<Rightarrow> ir_node" where
  "gvn_rewrite n canon = n\<lparr> nd_op := IR_COPY, nd_src1 := c_copy IR_NAME_MAX canon, nd_src2 := [], nd_imm := 0 \<rparr>"

subsection \<open>The linear mode\<close>

definition gvn_step :: "gvn_table \<Rightarrow> ir_node \<Rightarrow> gvn_table \<times> ir_node \<times> bool" where
  "gvn_step t n =
     (if nd_op n = IR_LABEL then (gvn_clear, n, False)
      else if \<not> gvn_is_pure (nd_op n) then (t, n, False)
      else if nd_dst n = [] then (t, n, False)
      else (case gvn_lookup_or_insert t (gvn_hash_node n) n of
              (t', None) \<Rightarrow> (t', n, False)
            | (t', Some canon) \<Rightarrow> (t', gvn_rewrite n canon, True)))"

fun gvn_linear :: "gvn_table \<Rightarrow> ir_node list \<Rightarrow> nat \<Rightarrow> ir_node list \<times> nat" where
  "gvn_linear t [] m = ([], m)"
| "gvn_linear t (n # ns) m =
     (case gvn_step t n of (t', n', b) \<Rightarrow>
        (case gvn_linear t' ns (if b then m + 1 else m) of (ns', m') \<Rightarrow> (n' # ns', m')))"

subsection \<open>The scoped mode\<close>

record gvn_state =
  gs_table :: gvn_table
  gs_stack :: "nat list"
  gs_marks :: "nat \<Rightarrow> nat"
  gs_nodes :: "ir_node list"
  gs_modified :: nat

definition gvn_lookup_or_insert_scoped :: "gvn_state \<Rightarrow> u64 \<Rightarrow> ir_node \<Rightarrow> gvn_state \<times> cstr option" where
  "gvn_lookup_or_insert_scoped st h n = (case gvn_probe_from (gs_table st) h n of
       Inserted s \<Rightarrow> (st\<lparr> gs_table := (gs_table st)(s \<mapsto> gvn_entry_of h n),
                         gs_stack := (if length (gs_stack st) < GVN_SCOPE_MAX then s # gs_stack st else gs_stack st) \<rparr>,
                      None)
     | Found d \<Rightarrow> (st, Some d)
     | Full \<Rightarrow> (st, None))"

definition gvn_scope_push :: "gvn_state \<Rightarrow> nat \<Rightarrow> gvn_state" where
  "gvn_scope_push st bid = st\<lparr> gs_marks := (gs_marks st)(bid := length (gs_stack st)) \<rparr>"

fun pop_to :: "nat \<Rightarrow> gvn_table \<Rightarrow> nat list \<Rightarrow> gvn_table \<times> nat list" where
  "pop_to mark t [] = (t, [])"
| "pop_to mark t (s # ss) =
     (if length (s # ss) > mark then pop_to mark (t(s := None)) ss else (t, s # ss))"

definition gvn_scope_pop :: "gvn_state \<Rightarrow> nat \<Rightarrow> gvn_state" where
  "gvn_scope_pop st bid = (case pop_to (gs_marks st bid) (gs_table st) (gs_stack st) of
     (t, ss) \<Rightarrow> st\<lparr> gs_table := t, gs_stack := ss \<rparr>)"

definition gvn_visit :: "gvn_state \<Rightarrow> nat \<Rightarrow> gvn_state" where
  "gvn_visit st k =
     (let n = gs_nodes st ! k
      in if \<not> gvn_is_pure (nd_op n) then st
         else if nd_dst n = [] then st
         else (case gvn_lookup_or_insert_scoped st (gvn_hash_node n) n of
                 (st', None) \<Rightarrow> st'
               | (st', Some canon) \<Rightarrow>
                   st'\<lparr> gs_nodes := (gs_nodes st')[k := gvn_rewrite n canon], gs_modified := gs_modified st' + 1 \<rparr>))"

definition gvn_process_block :: "dom_cfg \<Rightarrow> gvn_state \<Rightarrow> nat \<Rightarrow> gvn_state" where
  "gvn_process_block cfg st bid =
     (let b = cfg_blocks cfg ! bid in foldl gvn_visit st [bb_first b ..< bb_last b + 1])"

fun gvn_walk_domtree :: "nat \<Rightarrow> dom_cfg \<Rightarrow> gvn_state \<Rightarrow> nat \<Rightarrow> gvn_state" where
  "gvn_walk_domtree 0 cfg st bid = st"
| "gvn_walk_domtree (Suc fuel) cfg st bid =
     gvn_scope_pop
       (foldl (gvn_walk_domtree fuel cfg) (gvn_process_block cfg (gvn_scope_push st bid) bid)
          (bb_children (cfg_blocks cfg ! bid)))
       bid"

text \<open>The pass: \<open>cfg\<close> is the graph of the last dominance run when it belongs to this function.\<close>

definition ir_pass_gvn :: "dom_cfg option \<Rightarrow> ir_func \<Rightarrow> ir_func \<times> ir_pass_result" where
  "ir_pass_gvn cfg fn =
     (let (ns, modified) =
        (case cfg of
           Some c \<Rightarrow> if block_count c > 0
             then let st = gvn_walk_domtree (block_count c) c
                        \<lparr> gs_table = gvn_clear, gs_stack = [], gs_marks = (\<lambda>_. 0), gs_nodes = fn_nodes fn, gs_modified = 0 \<rparr> 0
                  in (gs_nodes st, gs_modified st)
             else gvn_linear gvn_clear (fn_nodes fn) 0
         | None \<Rightarrow> gvn_linear gvn_clear (fn_nodes fn) 0)
      in (fn\<lparr> fn_nodes := ns \<rparr>,
          empty_result\<lparr> nodes_before := count_nodes fn, nodes_after := count_nodes fn,
                        nodes_modified := int modified, pass_changed := modified > 0 \<rparr>))"

subsection \<open>Coalescing of vector loads\<close>

text \<open>The forward scan for the second load, at most ten nodes; \<open>k\<close> is the position of the first load.\<close>

definition add_of_const :: "ir_func \<Rightarrow> nat \<Rightarrow> (nat \<times> ir_node \<times> ir_node) option" where
  "add_of_const fn k = (case ir_find_def fn (Some k) (Some (nd_src1 (fn_nodes fn ! k))) of None \<Rightarrow> None
     | Some a \<Rightarrow> (if nd_op (fn_nodes fn ! a) \<noteq> IR_ADD then None
         else (case ir_find_def fn (Some a) (Some (nd_src2 (fn_nodes fn ! a))) of None \<Rightarrow> None
           | Some c \<Rightarrow> if nd_op (fn_nodes fn ! c) \<noteq> IR_CONST then None
                       else Some (a, fn_nodes fn ! a, fn_nodes fn ! c))))"

definition is_load4 :: "ir_node \<Rightarrow> bool" where
  "is_load4 n \<longleftrightarrow> nd_op n = IR_LOAD \<and> ir_type_bytes (ty_code (nd_type n)) = 4"

fun scan_second :: "ir_func \<Rightarrow> cstr \<Rightarrow> u64 \<Rightarrow> nat \<Rightarrow> nat \<Rightarrow> nat option" where
  "scan_second fn base_r off1 j 0 = None"
| "scan_second fn base_r off1 j (Suc left) =
     (if j \<ge> length (fn_nodes fn) then None
      else if is_side_effect (nd_op (fn_nodes fn ! j)) then None
      else if is_load4 (fn_nodes fn ! j) then
        (case add_of_const fn j of
           Some (a, na, nc) \<Rightarrow> if nd_src1 na = base_r \<and> nd_imm nc = off1 + 4 then Some j
                                else scan_second fn base_r off1 (Suc j) left
         | None \<Rightarrow> scan_second fn base_r off1 (Suc j) left)
      else scan_second fn base_r off1 (Suc j) left)"

definition coalesce_at :: "ir_func \<times> nat \<Rightarrow> nat \<Rightarrow> ir_func \<times> nat" where
  "coalesce_at st k = (case st of (fn, m) \<Rightarrow>
     if \<not> is_load4 (fn_nodes fn ! k) then (fn, m)
     else (case add_of_const fn k of None \<Rightarrow> (fn, m)
       | Some (a, na, nc) \<Rightarrow>
           if sint (nd_imm nc) smod 8 \<noteq> 0 then (fn, m)
           else (case scan_second fn (nd_src1 na) (nd_imm nc) (Suc k) 10 of None \<Rightarrow> (fn, m)
             | Some j \<Rightarrow>
                 let l1 = (fn_nodes fn ! k)\<lparr> nd_op := IR_VLOAD, nd_type := IR_TY_U64 \<rparr>;
                     l2 = (fn_nodes fn ! j)\<lparr> nd_op := IR_VEXTRACT, nd_src1 := nd_dst l1, nd_imm := 1 \<rparr>
                 in (fn\<lparr> fn_nodes := (fn_nodes fn)[k := l1, j := l2] \<rparr>, m + 1))))"

definition ir_pass_coalesce_vload :: "ir_func \<Rightarrow> ir_func \<times> ir_pass_result" where
  "ir_pass_coalesce_vload fn =
     (let (fn', modified) = foldl (coalesce_at) (fn, 0) [0..<length (fn_nodes fn)]
      in (fn', empty_result\<lparr> nodes_before := count_nodes fn, nodes_after := count_nodes fn,
                             nodes_modified := int modified, pass_changed := modified > 0 \<rparr>))"

subsection \<open>The table as facts\<close>

lemma gvn_pure_op: "gvn_is_pure op \<longleftrightarrow> is_pure_op op"
  by (cases op) (simp_all add: gvn_is_pure_def is_pure_op_def is_bin_op_def)

lemma pure_value_op: "is_pure_op op \<Longrightarrow> is_value_op op \<and> op \<noteq> IR_CONST \<and> op \<noteq> IR_FCONST \<and> op \<noteq> IR_COPY \<and> op \<noteq> IR_STORE"
  by (auto simp: is_pure_op_def is_bin_op_def is_value_op_def is_effect_def)

text \<open>The tags that do not change what a pure node computes.\<close>

definition gvn_tag_ok :: "ir_node \<Rightarrow> bool" where
  "gvn_tag_ok n \<longleftrightarrow> \<not> is_256_tag (nd_tag n) \<and> nd_tag n \<noteq> IR_TAG_EVM_SDIV"

lemma bin256_tag:
  "\<not> is_256_tag t \<Longrightarrow> t \<noteq> IR_TAG_EVM_SDIV \<Longrightarrow> \<not> is_256_tag t' \<Longrightarrow> t' \<noteq> IR_TAG_EVM_SDIV \<Longrightarrow>
   bin256 t op a b = bin256 t' op a b"
  by (simp add: bin256_def is_256_tag_def cong: ir_op.case_cong)

definition same_key :: "ir_node \<Rightarrow> ir_node \<Rightarrow> bool" where
  "same_key m n \<longleftrightarrow> nd_op m = nd_op n \<and> nd_type m = nd_type n \<and> nd_imm m = nd_imm n
     \<and> nd_src1 m = nd_src1 n \<and> nd_src2 m = nd_src2 n"

lemma pure_node_value:
  assumes "same_key m n" "is_pure_op (nd_op n)" "gvn_tag_ok m" "gvn_tag_ok n" "nd_phi_ops m = []" "nd_phi_ops n = []"
  shows "node_value fp ext m env tr = node_value fp ext n env tr'"
proof -
  have k: "nd_op m = nd_op n" "nd_type m = nd_type n" "nd_imm m = nd_imm n" "nd_src1 m = nd_src1 n" "nd_src2 m = nd_src2 n"
    using assms(1) by (simp_all add: same_key_def)
  have t: "is_256_tag (nd_tag m) = is_256_tag (nd_tag n)"
    "(nd_tag m = IR_TAG_EVM_ISZERO) = False" "(nd_tag n = IR_TAG_EVM_ISZERO) = False"
    "bin256 (nd_tag m) (nd_op n) x y = bin256 (nd_tag n) (nd_op n) x y" for x y
    using assms(3,4) bin256_tag by (auto simp: gvn_tag_ok_def is_256_tag_def)
  have o: "outside ext m vs tr = outside ext n vs tr'" for vs
    using assms(2) by (simp add: outside_def k)
  have on: "operand_names m = operand_names n"
    using assms(5,6) pure_value_op [OF assms(2)] by (simp add: operand_names_def k)
  note p = pure_value_op [OF assms(2)]
  show ?thesis
    unfolding node_value_def k on o t using p by simp
qed

subsection \<open>The linear mode is sound\<close>

text \<open>No name is defined at or after a use of it, in list order.\<close>

fun defs_before_uses :: "ir_node list \<Rightarrow> bool" where
  "defs_before_uses [] = True"
| "defs_before_uses (n # ns) \<longleftrightarrow>
     list_all (\<lambda>m. is_def m \<longrightarrow> nd_dst m \<noteq> nd_src1 n \<and> nd_dst m \<noteq> nd_src2 n) (n # ns) \<and> defs_before_uses ns"

definition gvn_node_ok :: "ir_node \<Rightarrow> bool" where
  "gvn_node_ok n \<longleftrightarrow> node_names_ok n \<and> (is_pure_op (nd_op n) \<longrightarrow> gvn_tag_ok n \<and> nd_phi_ops n = [])"

definition gvn_pre :: "ir_node list \<Rightarrow> env \<Rightarrow> bool" where
  "gvn_pre p env \<longleftrightarrow> ssa_form p \<and> defs_before_uses p \<and> list_all gvn_node_ok p"

lemma defs_before_nth:
  "defs_before_uses p \<Longrightarrow> j \<le> i \<Longrightarrow> i < length p \<Longrightarrow> is_def (p ! i) \<Longrightarrow>
   nd_dst (p ! i) \<noteq> nd_src1 (p ! j) \<and> nd_dst (p ! i) \<noteq> nd_src2 (p ! j)"
proof (induction p arbitrary: i j)
  case Nil
  then show ?case by simp
next
  case (Cons n ns)
  show ?case
  proof (cases j)
    case 0
    have "(n # ns) ! i \<in> set (n # ns)" using Cons.prems(3) by (rule nth_mem)
    moreover have "\<forall>m \<in> set (n # ns). is_def m \<longrightarrow> nd_dst m \<noteq> nd_src1 n \<and> nd_dst m \<noteq> nd_src2 n"
      using Cons.prems(1) unfolding defs_before_uses.simps list_all_iff by blast
    ultimately show ?thesis using Cons.prems(4) 0 unfolding 0 nth_Cons_0 by blast
  next
    case (Suc j')
    then show ?thesis using Cons.prems Cons.IH [of j' "i - 1"] by (cases i) auto
  qed
qed

text \<open>An entry holds when its name has the value of the node it was made from, an earlier node of the
  list, and that node's operands still have the values they had.\<close>

definition entry_holds :: "fp_ops \<Rightarrow> ext \<Rightarrow> ir_node list \<Rightarrow> nat \<Rightarrow> env \<Rightarrow> gvn_entry \<Rightarrow> bool" where
  "entry_holds fp ext p k env e \<longleftrightarrow>
     (\<exists>i < k. i < length p \<and> is_pure_op (nd_op (p ! i)) \<and> nd_dst (p ! i) \<noteq> []
        \<and> e = gvn_entry_of (ge_hash e) (p ! i)
        \<and> (\<exists>v. env (nd_dst (p ! i)) = Some v \<and> node_value fp ext (p ! i) env [] = Some v))"

definition table_holds :: "fp_ops \<Rightarrow> ext \<Rightarrow> ir_node list \<Rightarrow> nat \<Rightarrow> env \<Rightarrow> gvn_table \<Rightarrow> bool" where
  "table_holds fp ext p k env t \<longleftrightarrow> (\<forall>s e. t s = Some e \<longrightarrow> entry_holds fp ext p k env e)"

lemma gvn_entry_id: "node_names_ok n \<Longrightarrow>
   gvn_entry_of h n = \<lparr> ge_hash = h, ge_dst = nd_dst n, ge_op = nd_op n, ge_type = nd_type n,
     ge_src1 = nd_src1 n, ge_src2 = nd_src2 n, ge_imm = nd_imm n \<rparr>"
  by (simp add: gvn_entry_of_def node_names_ok_def c_copy_id)

lemma pure_value_cong:
  assumes "is_pure_op (nd_op n)" "nd_phi_ops n = []" "env (nd_src1 n) = env' (nd_src1 n)" "env (nd_src2 n) = env' (nd_src2 n)"
  shows "node_value fp ext n env tr = node_value fp ext n env' tr"
proof -
  have "set (operand_names n) \<subseteq> {nd_src1 n, nd_src2 n}"
    using assms(2) pure_value_op [OF assms(1)] by (auto simp: operand_names_def)
  then have r: "read_all env (operand_names n) = read_all env' (operand_names n)"
    using assms(3,4) by (intro read_all_cong) auto
  show ?thesis unfolding node_value_def r assms(3) ..
qed

lemma entry_holds_step:
  assumes pre: "ssa_form p" "defs_before_uses p" "list_all gvn_node_ok p" and k: "k < length p"
    and d: "is_def (p ! k)" and e: "entry_holds fp ext p k env e"
  shows "entry_holds fp ext p (Suc k) (set_dst (nd_dst (p ! k)) v env) e"
proof -
  obtain i w where i: "i < k" "i < length p" "is_pure_op (nd_op (p ! i))" "nd_dst (p ! i) \<noteq> []"
    "e = gvn_entry_of (ge_hash e) (p ! i)"
    "env (nd_dst (p ! i)) = Some w" "node_value fp ext (p ! i) env [] = Some w"
    using e by (auto simp: entry_holds_def)
  have di: "is_def (p ! i)" using i(3,4) pure_value_op by (auto simp: is_def_def)
  have ne: "nd_dst (p ! k) \<noteq> nd_dst (p ! i)" using ssa_unique_def [OF pre(1) k i(2) d di] i(1) by blast
  have src: "nd_dst (p ! k) \<noteq> nd_src1 (p ! i)" "nd_dst (p ! k) \<noteq> nd_src2 (p ! i)"
    using defs_before_nth [OF pre(2) _ k d, of i] i(1) by auto
  let ?env = "set_dst (nd_dst (p ! k)) v env"
  have phi: "nd_phi_ops (p ! i) = []" using pre(3) i(2,3) by (simp add: list_all_length gvn_node_ok_def)
  have "?env (nd_src1 (p ! i)) = env (nd_src1 (p ! i))" "?env (nd_src2 (p ! i)) = env (nd_src2 (p ! i))"
    "?env (nd_dst (p ! i)) = env (nd_dst (p ! i))"
    using ne src by (simp_all add: set_dst_def)
  moreover from this have "node_value fp ext (p ! i) ?env [] = Some w"
    using pure_value_cong [OF i(3) phi, of ?env env] i(7) by simp
  ultimately show ?thesis using i unfolding entry_holds_def by (metis less_SucI)
qed

lemma entry_holds_mono: "entry_holds fp ext p k env e \<Longrightarrow> entry_holds fp ext p (Suc k) env e"
  unfolding entry_holds_def using less_SucI by blast

lemma gvn_probe_found:
  "gvn_probe t h n slot left = Found d \<Longrightarrow> \<exists>s e. t s = Some e \<and> gvn_keys_match e n \<and> d = ge_dst e"
  by (induction t h n slot left rule: gvn_probe.induct) (auto split: option.splits if_splits)

lemma gvn_probe_inserted: "gvn_probe t h n slot left = Inserted s \<Longrightarrow> t s = None \<and> s < GVN_TABLE_SIZE"
  by (induction t h n slot left rule: gvn_probe.induct)
     (auto simp: GVN_TABLE_SIZE_def split: option.splits if_splits)

lemma gvn_step_cases:
  assumes "gvn_step t n = (t', n', b)"
  obtains (lab) "nd_op n = IR_LABEL" "t' = gvn_clear" "n' = n" "\<not> b"
  | (skip) "nd_op n \<noteq> IR_LABEL" "\<not> is_pure_op (nd_op n) \<or> nd_dst n = []" "t' = t" "n' = n" "\<not> b"
  | (new) s where "is_pure_op (nd_op n)" "nd_dst n \<noteq> []" "t' = t(s \<mapsto> gvn_entry_of (gvn_hash_node n) n)" "n' = n" "\<not> b"
  | (full) "is_pure_op (nd_op n)" "nd_dst n \<noteq> []" "t' = t" "n' = n" "\<not> b"
  | (dup) s e where "is_pure_op (nd_op n)" "nd_dst n \<noteq> []" "t s = Some e" "gvn_keys_match e n"
      "t' = t" "n' = gvn_rewrite n (ge_dst e)" "b"
proof -
  consider (a) "nd_op n = IR_LABEL" | (b) "nd_op n \<noteq> IR_LABEL" "\<not> is_pure_op (nd_op n) \<or> nd_dst n = []"
    | (c) "nd_op n \<noteq> IR_LABEL" "is_pure_op (nd_op n)" "nd_dst n \<noteq> []" by blast
  then show ?thesis
  proof cases
    case a
    then show ?thesis using assms lab [OF a] by (simp add: gvn_step_def)
  next
    case b
    then have "gvn_step t n = (t, n, False)" by (auto simp: gvn_step_def gvn_pure_op)
    then show ?thesis using assms skip [OF b] by simp
  next
    case c
    have s: "(case gvn_lookup_or_insert t (gvn_hash_node n) n of
              (t', None) \<Rightarrow> (t', n, False) | (t', Some canon) \<Rightarrow> (t', gvn_rewrite n canon, True)) = (t', n', b)"
      using assms c by (simp add: gvn_step_def gvn_pure_op)
    show ?thesis
    proof (cases "gvn_probe_from t (gvn_hash_node n) n")
      case (Inserted k)
      then have "t' = t(k \<mapsto> gvn_entry_of (gvn_hash_node n) n) \<and> n' = n \<and> \<not> b"
        using s by (auto simp: gvn_lookup_or_insert_def)
      then show ?thesis using new [OF c(2,3)] by blast
    next
      case (Found d)
      then obtain k e where "t k = Some e" "gvn_keys_match e n" "d = ge_dst e"
        using gvn_probe_found unfolding gvn_probe_from_def by blast
      moreover have "t' = t \<and> n' = gvn_rewrite n d \<and> b"
        using s Found by (auto simp: gvn_lookup_or_insert_def)
      ultimately show ?thesis using dup [OF c(2,3)] by blast
    next
      case Full
      then have "t' = t \<and> n' = n \<and> \<not> b" using s by (auto simp: gvn_lookup_or_insert_def)
      then show ?thesis using full [OF c(2,3)] by blast
    qed
  qed
qed

text \<open>The table before position \<open>k\<close>.\<close>

definition gvn_table_at :: "ir_node list \<Rightarrow> nat \<Rightarrow> gvn_table" where
  "gvn_table_at p k = foldl (\<lambda>t n. fst (gvn_step t n)) gvn_clear (take k p)"

lemma gvn_linear_nth:
  "gvn_linear t ns m = (ns', m') \<Longrightarrow> length ns' = length ns \<and>
     (\<forall>k < length ns. ns' ! k = fst (snd (gvn_step (foldl (\<lambda>t n. fst (gvn_step t n)) t (take k ns)) (ns ! k))))"
proof (induction ns arbitrary: t m ns' m')
  case Nil
  then show ?case by simp
next
  case (Cons n ns)
  obtain t1 n1 b where s: "gvn_step t n = (t1, n1, b)" by (cases "gvn_step t n") auto
  obtain ns1 where l: "gvn_linear t1 ns (if b then m + 1 else m) = (ns1, m')" "ns' = n1 # ns1"
    using Cons.prems s by (auto split: prod.splits)
  show ?case using Cons.IH [OF l(1)] l(2) s by (auto simp: nth_Cons split: nat.splits)
qed

lemma gvn_table_at_Suc: "k < length p \<Longrightarrow> gvn_table_at p (Suc k) = fst (gvn_step (gvn_table_at p k) (p ! k))"
  by (simp add: gvn_table_at_def take_Suc_conv_app_nth)

lemma table_holds_step:
  assumes pre: "ssa_form p" "defs_before_uses p" "list_all gvn_node_ok p" and k: "k < length p"
    and t: "table_holds fp ext p k env (gvn_table_at p k)" and v: "node_value fp ext (p ! k) env tr = Some v"
    and op: "is_value_op (nd_op (p ! k))"
  shows "table_holds fp ext p (Suc k) (set_dst (nd_dst (p ! k)) v env) (gvn_table_at p (Suc k))"
proof -
  let ?n = "p ! k" and ?t = "gvn_table_at p k" and ?env = "set_dst (nd_dst (p ! k)) v env"
  have nl: "nd_op ?n \<noteq> IR_LABEL" "nd_op ?n \<noteq> IR_STORE" using op by (auto simp: is_value_op_def is_effect_def)
  have old: "table_holds fp ext p (Suc k) ?env ?t"
  proof (cases "nd_dst ?n = []")
    case True
    then show ?thesis using t entry_holds_mono by (auto simp: table_holds_def set_dst_def)
  next
    case False
    then have "is_def ?n" using nl by (simp add: is_def_def)
    then show ?thesis using t entry_holds_step [OF pre k] by (auto simp: table_holds_def)
  qed
  obtain t' n' b where s: "gvn_step ?t ?n = (t', n', b)" by (cases "gvn_step ?t ?n") auto
  have ts: "gvn_table_at p (Suc k) = t'" using gvn_table_at_Suc [OF k] s by simp
  from s show ?thesis
  proof (cases rule: gvn_step_cases)
    case lab
    then show ?thesis using nl by simp
  next
    case (new s)
    have phi: "nd_phi_ops ?n = []" "gvn_tag_ok ?n" using pre(3) k new(1) by (simp_all add: list_all_length gvn_node_ok_def)
    have d: "is_def ?n" using new nl by (simp add: is_def_def)
    have src: "nd_dst ?n \<noteq> nd_src1 ?n" "nd_dst ?n \<noteq> nd_src2 ?n"
      using defs_before_nth [OF pre(2) order_refl k d] by auto
    have "node_value fp ext ?n ?env [] = node_value fp ext ?n env []"
      using src by (intro pure_value_cong [OF new(1) phi(1)]) (simp_all add: set_dst_def)
    also have "\<dots> = node_value fp ext ?n env tr"
      using pure_node_value [of ?n ?n] new(1) phi by (simp add: same_key_def)
    finally have "entry_holds fp ext p (Suc k) ?env (gvn_entry_of (gvn_hash_node ?n) ?n)"
      using new k v unfolding entry_holds_def by (intro exI [of _ k]) (simp add: set_dst_def gvn_entry_of_def)
    then show ?thesis using old ts new(3) by (auto simp: table_holds_def)
  qed (use old ts in simp_all)
qed

lemma gvn_linear_lockstep:
  assumes pre: "ssa_form p" "defs_before_uses p" "list_all gvn_node_ok p" and g: "gvn_linear gvn_clear p 0 = (q, m)"
  shows "lockstep fp ext p q (\<lambda>k env. table_holds fp ext p k env (gvn_table_at p k))"
  unfolding lockstep_def Let_def
proof (intro conjI allI impI)
  show "length q = length p" using gvn_linear_nth [OF g] by simp
next
  fix k assume k: "k < length p"
  let ?n = "p ! k" and ?t = "gvn_table_at p k" and ?I = "\<lambda>k env. table_holds fp ext p k env (gvn_table_at p k)"
  obtain t' n' b where s: "gvn_step ?t ?n = (t', n', b)" by (cases "gvn_step ?t ?n") auto
  have qk: "q ! k = n'" using gvn_linear_nth [OF g] k s by (simp add: gvn_table_at_def)
  have ok: "gvn_node_ok ?n" using pre(3) k by (simp add: list_all_length)
  show "if is_value_op (nd_op ?n)
         then is_value_op (nd_op (q ! k)) \<and> nd_dst (q ! k) = nd_dst ?n \<and>
              (\<forall>env tr v. ?I k env \<longrightarrow> node_value fp ext ?n env tr = Some v \<longrightarrow>
                 node_value fp ext (q ! k) env tr = Some v \<and> ?I (Suc k) (set_dst (nd_dst ?n) v env))
         else q ! k = ?n \<and> (\<forall>env w. ?I k env \<longrightarrow>
                 ?I (Suc k) (if nd_op ?n = IR_CALL then set_dst (nd_dst ?n) (C64 w) env else env))"
  proof (cases "is_value_op (nd_op ?n)")
    case True
    have rewritten: "is_value_op (nd_op n') \<and> nd_dst n' = nd_dst ?n \<and> node_value fp ext n' env tr = Some v"
      if I: "?I k env" "node_value fp ext ?n env tr = Some v" for env tr v
      using s
    proof (cases rule: gvn_step_cases)
      case (dup sl e)
      obtain i w where i: "i < k" "i < length p" "is_pure_op (nd_op (p ! i))" "e = gvn_entry_of (ge_hash e) (p ! i)"
        "env (nd_dst (p ! i)) = Some w" "node_value fp ext (p ! i) env [] = Some w"
        using I(1) dup(3) unfolding table_holds_def entry_holds_def by blast
      have oki: "gvn_node_ok (p ! i)" using pre(3) i(2) by (simp add: list_all_length)
      have names: "node_names_ok (p ! i)" using oki by (simp add: gvn_node_ok_def)
      have e: "ge_dst e = nd_dst (p ! i)" "ge_op e = nd_op (p ! i)" "ge_type e = nd_type (p ! i)"
        "ge_src1 e = nd_src1 (p ! i)" "ge_src2 e = nd_src2 (p ! i)" "ge_imm e = nd_imm (p ! i)"
        using gvn_entry_id [OF names, of "ge_hash e"] i(4) by (metis gvn_entry.select_convs)+
      have key: "same_key (p ! i) ?n" using dup(4) e by (simp add: gvn_keys_match_def same_key_def split: if_splits)
      have "node_value fp ext (p ! i) env [] = node_value fp ext ?n env tr"
        using key dup(1) ok oki i(3) by (intro pure_node_value) (auto simp: gvn_node_ok_def)
      then have "v = w" using i(6) I(2) by simp
      moreover have "c_copy IR_NAME_MAX (ge_dst e) = nd_dst (p ! i)"
        using names e(1) by (simp add: c_copy_id node_names_ok_def)
      ultimately show ?thesis
        using dup(6) i(5) by (simp add: gvn_rewrite_def node_value_def is_value_op_def is_effect_def)
    qed (use I True in simp_all)
    moreover have "is_value_op (nd_op n') \<and> nd_dst n' = nd_dst ?n"
      using s by (cases rule: gvn_step_cases) (use True in \<open>simp_all add: gvn_rewrite_def is_value_op_def is_effect_def\<close>)
    ultimately show ?thesis using True qk table_holds_step [OF pre k] by auto
  next
    case False
    have n': "n' = ?n"
      using s by (cases rule: gvn_step_cases) (use False pure_value_op in auto)
    have "?I (Suc k) (if nd_op ?n = IR_CALL then set_dst (nd_dst ?n) (C64 w) env else env)" if I: "?I k env" for env w
    proof -
      let ?env = "if nd_op ?n = IR_CALL then set_dst (nd_dst ?n) (C64 w) env else env"
      have "entry_holds fp ext p (Suc k) ?env e" if "entry_holds fp ext p k env e" for e
        using entry_holds_step [OF pre k _ that] entry_holds_mono [OF that]
        by (auto simp: is_def_def set_dst_def)
      then have "table_holds fp ext p (Suc k) ?env ?t" using I by (auto simp: table_holds_def)
      moreover have "gvn_table_at p (Suc k) = ?t \<or> gvn_table_at p (Suc k) = gvn_clear"
        unfolding gvn_table_at_Suc [OF k] s fst_conv
        using s by (cases rule: gvn_step_cases) (use False pure_value_op in auto)
      ultimately show ?thesis by (auto simp: table_holds_def gvn_clear_def)
    qed
    then show ?thesis using False qk n' by auto
  qed
next
  fix k j env assume k: "k < length p" "nd_op (p ! k) = IR_LABEL"
  then show "table_holds fp ext p (Suc k) env (gvn_table_at p (Suc k))"
    by (simp add: gvn_table_at_Suc gvn_step_def table_holds_def gvn_clear_def)
qed

lemma gvn_linear_result:
  assumes "gvn_linear gvn_clear p 0 = (q, m)" "gvn_pre p env" "ir_result fp ext p env tr"
  shows "ir_result fp ext q env tr"
proof (rule lockstep_result)
  show "lockstep fp ext p q (\<lambda>k env. table_holds fp ext p k env (gvn_table_at p k))"
    using gvn_linear_lockstep [OF _ _ _ assms(1)] assms(2) by (simp add: gvn_pre_def)
  show "table_holds fp ext p 0 env (gvn_table_at p 0)" by (simp add: table_holds_def gvn_table_at_def gvn_clear_def)
  show "ir_result fp ext p env tr" by (rule assms(3))
qed

definition gvn_linear_pass :: "'s ir_pass_fn" where
  "gvn_linear_pass s fn = (case ir_pass_gvn None fn of (fn', r) \<Rightarrow> Some (s, fn', r))"

lemma gvn_pass_run:
  assumes "gvn_linear_pass s fn = Some (s', fn', r)"
  obtains q m where "gvn_linear gvn_clear (fn_nodes fn) 0 = (q, m)" "s' = s" "fn' = fn\<lparr> fn_nodes := q \<rparr>"
    "nodes_before r = count_nodes fn" "nodes_after r = count_nodes fn" "length q = length (fn_nodes fn)"
  using assms gvn_linear_nth
  by (cases "gvn_linear gvn_clear (fn_nodes fn) 0") (fastforce simp: gvn_linear_pass_def ir_pass_gvn_def empty_result_def)

interpretation gvn: ir_pass gvn_linear_pass fp gvn_pre for fp
proof unfold_locales
  fix s :: 's and s' fn fn' r assume a: "gvn_linear_pass s fn = Some (s', fn', r)"
  show "count_ok fn'" if "count_ok fn"
    using a by (rule gvn_pass_run) (use that in \<open>simp add: count_ok_def\<close>)
  show "nodes_before r = count_nodes fn \<and> nodes_after r = count_nodes fn'"
    using a by (rule gvn_pass_run) (simp add: count_nodes_length)
  show "fn_name fn' = fn_name fn \<and> fn_ret_type fn' = fn_ret_type fn \<and> fn_num_params fn' = fn_num_params fn"
    using a by (rule gvn_pass_run) simp
  show "ir_result fp ext (fn_nodes fn') env tr"
    if "gvn_pre (fn_nodes fn) env" "ir_result fp ext (fn_nodes fn) env tr" for ext env tr
    using a by (rule gvn_pass_run) (use that gvn_linear_result in auto)
qed

subsection \<open>The scoped table\<close>

definition scope_inv :: "gvn_state \<Rightarrow> bool" where
  "scope_inv st \<longleftrightarrow> distinct (gs_stack st) \<and> set (gs_stack st) \<subseteq> {..<GVN_TABLE_SIZE}
     \<and> (\<forall>s \<in> set (gs_stack st). gs_table st s \<noteq> None)"

text \<open>The stack never overflows: it holds distinct occupied slots, at most half its capacity.\<close>

lemma scope_room: "scope_inv st \<Longrightarrow> length (gs_stack st) < GVN_SCOPE_MAX"
proof -
  assume i: "scope_inv st"
  have "length (gs_stack st) = card (set (gs_stack st))" using i by (simp add: scope_inv_def distinct_card)
  also have "\<dots> \<le> card {..<GVN_TABLE_SIZE}" using i by (intro card_mono) (auto simp: scope_inv_def)
  finally show ?thesis by (simp add: GVN_TABLE_SIZE_def GVN_SCOPE_MAX_def)
qed

definition grows :: "gvn_state \<Rightarrow> gvn_state \<Rightarrow> bool" where
  "grows st st' \<longleftrightarrow> (\<exists>new. gs_stack st' = new @ gs_stack st \<and> (\<forall>s \<in> set new. gs_table st s = None)
     \<and> (\<forall>s. s \<notin> set new \<longrightarrow> gs_table st' s = gs_table st s)) \<and> scope_inv st' \<and> gs_marks st' = gs_marks st"

lemma grows_refl: "scope_inv st \<Longrightarrow> grows st st"
  by (simp add: grows_def)

lemma grows_trans:
  assumes "grows a b" "grows b c"
  shows "grows a c"
proof -
  obtain x where x: "gs_stack b = x @ gs_stack a" "\<forall>s \<in> set x. gs_table a s = None"
    "\<forall>s. s \<notin> set x \<longrightarrow> gs_table b s = gs_table a s" using assms(1) by (auto simp: grows_def)
  obtain y where y: "gs_stack c = y @ gs_stack b" "\<forall>s \<in> set y. gs_table b s = None"
    "\<forall>s. s \<notin> set y \<longrightarrow> gs_table c s = gs_table b s" using assms(2) by (auto simp: grows_def)
  have "gs_table a s = None" if "s \<in> set y" for s using that x y by (cases "s \<in> set x") auto
  then show ?thesis
    using x y assms by (auto simp: grows_def intro!: exI [of _ "y @ x"])
qed

lemma gvn_visit_grows:
  assumes "scope_inv st"
  shows "grows st (gvn_visit st k)"
proof -
  let ?n = "gs_nodes st ! k"
  have put: "grows st (st\<lparr> gs_table := (gs_table st)(s \<mapsto> e), gs_stack := s # gs_stack st \<rparr>)"
    if "gs_table st s = None" "s < GVN_TABLE_SIZE" for s e
    using that assms by (auto simp: grows_def scope_inv_def intro!: exI [of _ "[s]"])
  have same: "grows st (st\<lparr> gs_nodes := x, gs_modified := y \<rparr>)" for x y
    using assms by (simp add: grows_def scope_inv_def)
  show ?thesis
  proof (cases "gvn_probe_from (gs_table st) (gvn_hash_node ?n) ?n")
    case (Inserted s)
    then have "gs_table st s = None" "s < GVN_TABLE_SIZE"
      using gvn_probe_inserted unfolding gvn_probe_from_def by blast+
    then show ?thesis
      using Inserted put scope_room [OF assms] grows_refl [OF assms]
      by (simp add: gvn_visit_def Let_def gvn_lookup_or_insert_scoped_def)
  qed (use same grows_refl [OF assms] in \<open>simp_all add: gvn_visit_def Let_def gvn_lookup_or_insert_scoped_def\<close>)
qed

lemma visits_grow: "scope_inv st \<Longrightarrow> grows st (foldl gvn_visit st ks)"
proof (induction ks arbitrary: st)
  case Nil
  then show ?case by (simp add: grows_refl)
next
  case (Cons k ks)
  have g: "grows st (gvn_visit st k)" by (rule gvn_visit_grows [OF Cons.prems])
  then have "scope_inv (gvn_visit st k)" by (simp add: grows_def)
  then show ?case using Cons.IH grows_trans [OF g] by simp
qed

lemma pop_to_restores:
  "pop_to (length old) t (new @ old) = ((\<lambda>s. if s \<in> set new then None else t s), old)"
proof (induction new arbitrary: t)
  case Nil
  then show ?case by (cases old) auto
next
  case (Cons s new)
  then show ?case by (auto simp: fun_eq_iff)
qed

fun walk_ids :: "nat \<Rightarrow> dom_cfg \<Rightarrow> nat \<Rightarrow> nat list" where
  "walk_ids 0 cfg bid = []"
| "walk_ids (Suc fuel) cfg bid = bid # concat (map (walk_ids fuel cfg) (bb_children (cfg_blocks cfg ! bid)))"

text \<open>No block is met again below itself.\<close>

fun no_revisit :: "nat \<Rightarrow> dom_cfg \<Rightarrow> nat \<Rightarrow> bool" where
  "no_revisit 0 cfg bid = True"
| "no_revisit (Suc fuel) cfg bid \<longleftrightarrow>
     list_all (\<lambda>c. bid \<notin> set (walk_ids fuel cfg c) \<and> no_revisit fuel cfg c) (bb_children (cfg_blocks cfg ! bid))"

definition scope_same :: "gvn_state \<Rightarrow> gvn_state \<Rightarrow> nat set \<Rightarrow> bool" where
  "scope_same st st' X \<longleftrightarrow> gs_table st' = gs_table st \<and> gs_stack st' = gs_stack st
     \<and> (\<forall>b. b \<notin> X \<longrightarrow> gs_marks st' b = gs_marks st b)"

lemma scope_same_inv: "scope_same st st' X \<Longrightarrow> scope_inv st \<Longrightarrow> scope_inv st'"
  by (simp add: scope_same_def scope_inv_def)

lemma walk_children_same:
  assumes IH: "\<And>st c. c \<in> set cs \<Longrightarrow> scope_inv st \<Longrightarrow> scope_same st (W st c) (set (V c))"
  shows "scope_inv st \<Longrightarrow> scope_same st (foldl W st cs) (set (concat (map V cs)))"
  using IH
proof (induction cs arbitrary: st)
  case Nil
  then show ?case by (simp add: scope_same_def)
next
  case (Cons c cs)
  have 1: "scope_same st (W st c) (set (V c))" using Cons.prems by simp
  then have "scope_inv (W st c)" using scope_same_inv Cons.prems(1) by blast
  then have "scope_same (W st c) (foldl W (W st c) cs) (set (concat (map V cs)))"
    using Cons.IH Cons.prems(2) by simp
  then show ?case using 1 by (simp add: scope_same_def)
qed

lemma gvn_walk_same:
  "no_revisit fuel cfg bid \<Longrightarrow> scope_inv st \<Longrightarrow>
   scope_same st (gvn_walk_domtree fuel cfg st bid) (set (walk_ids fuel cfg bid))"
proof (induction fuel arbitrary: bid st)
  case 0
  then show ?case by (simp add: scope_same_def)
next
  case (Suc fuel)
  let ?cs = "bb_children (cfg_blocks cfg ! bid)" and ?X = "set (concat (map (walk_ids fuel cfg) (bb_children (cfg_blocks cfg ! bid))))"
  define s1 where "s1 = gvn_scope_push st bid"
  define s2 where "s2 = gvn_process_block cfg s1 bid"
  define s3 where "s3 = foldl (gvn_walk_domtree fuel cfg) s2 ?cs"
  have i1: "scope_inv s1" using Suc.prems(2) by (simp add: s1_def gvn_scope_push_def scope_inv_def)
  have g: "grows s1 s2" unfolding s2_def gvn_process_block_def Let_def by (rule visits_grow [OF i1])
  obtain new where new: "gs_stack s2 = new @ gs_stack st" "\<forall>s \<in> set new. gs_table st s = None"
    "\<forall>s. s \<notin> set new \<longrightarrow> gs_table s2 s = gs_table st s"
    using g by (auto simp: grows_def s1_def gvn_scope_push_def)
  have nr: "bid \<notin> set (walk_ids fuel cfg c)" "no_revisit fuel cfg c" if "c \<in> set ?cs" for c
    using Suc.prems(1) that by (auto simp: list_all_iff)
  have s: "scope_same s2 s3 ?X"
    unfolding s3_def using Suc.IH nr(2) g by (intro walk_children_same) (auto simp: grows_def)
  have mark: "gs_marks s3 bid = length (gs_stack st)"
    using s nr(1) g by (auto simp: scope_same_def grows_def s1_def gvn_scope_push_def)
  have "pop_to (gs_marks s3 bid) (gs_table s3) (gs_stack s3) = (gs_table st, gs_stack st)"
    using s new unfolding mark by (auto simp: scope_same_def pop_to_restores fun_eq_iff)
  then have "scope_same s3 (gvn_scope_pop s3 bid) {} \<or> True" "gs_table (gvn_scope_pop s3 bid) = gs_table st"
    "gs_stack (gvn_scope_pop s3 bid) = gs_stack st" "gs_marks (gvn_scope_pop s3 bid) = gs_marks s3"
    by (simp_all add: gvn_scope_pop_def)
  moreover have "gs_marks s3 b = gs_marks st b" if "b \<notin> insert bid ?X" for b
    using s g that by (auto simp: scope_same_def grows_def s1_def gvn_scope_push_def)
  ultimately show ?case
    by (simp add: scope_same_def s1_def s2_def s3_def)
qed

subsection \<open>Properties\<close>


definition gvn_example :: ir_func where
  "gvn_example = (ir_empty_func 0)\<lparr> fn_nodes := [mk_const ''a'' 6, mk_bin IR_MUL IR_TY_I64 ''b'' ''a'' ''a'',
     mk_bin IR_MUL IR_TY_I64 ''c'' ''a'' ''a'', mk_ret ''c''], fn_node_count := 4 \<rparr>"


text \<open>The scope discipline of the dominator walk: on a tree that meets no block twice on one path the
  walk leaves the table and the scope stack as it found them, so that nothing learnt in one subtree is
  visible in another; the stack, of capacity 8192, never overflows.\<close>

lemma gvn_walk_restores_table:
  assumes "no_revisit fuel cfg bid" "scope_inv st"
  shows "gs_table (gvn_walk_domtree fuel cfg st bid) = gs_table st
    \<and> gs_stack (gvn_walk_domtree fuel cfg st bid) = gs_stack st
    \<and> length (gs_stack st) < GVN_SCOPE_MAX"
  using gvn_walk_same [OF assms] scope_room [OF assms(2)] by (simp add: scope_same_def)

definition gvn_start :: "ir_node list \<Rightarrow> gvn_state" where
  "gvn_start p = \<lparr> gs_table = gvn_clear, gs_stack = [], gs_marks = (\<lambda>_. 0), gs_nodes = p, gs_modified = 0 \<rparr>"

lemma gvn_walk_restores_table_witness:
  "gs_stack (gvn_walk_domtree 1 (the (dom_build_cfg (fn_nodes gvn_example))) (gvn_start (fn_nodes gvn_example)) 0) = []"
proof -
  have n: "no_revisit 1 (the (dom_build_cfg (fn_nodes gvn_example))) 0" by code_simp
  have s: "scope_inv (gvn_start (fn_nodes gvn_example))" by (simp add: scope_inv_def gvn_start_def)
  show ?thesis using gvn_walk_restores_table [OF n s] by (simp add: gvn_start_def)
qed

text \<open>The table's key leaves out the security tag, which distinguishes signed from unsigned wide
  division: the quotient of 2^256 - 8 by 2 taken unsigned is reused for the signed quotient.\<close>

definition mk_wide :: "cstr \<Rightarrow> uint256 \<Rightarrow> ir_node" where
  "mk_wide d v = ir_node_alloc\<lparr> nd_op := IR_CONST, nd_type := IR_TY_I64, nd_dst := d, nd_imm := limb0 v,
     nd_imm256 := v, nd_tag := IR_TAG_TRUNCATED_WIDE_CONST \<rparr>"

definition sdiv_example :: ir_func where
  "sdiv_example = (ir_empty_func 0)\<lparr> fn_nodes := [mk_wide ''a'' (UInt256 (- 8) (- 1) (- 1) (- 1)),
     mk_wide ''b'' (UInt256 2 0 0 0), mk_bin IR_DIV IR_TY_I64 ''c'' ''a'' ''b'',
     (mk_bin IR_DIV IR_TY_I64 ''d'' ''a'' ''b'')\<lparr> nd_tag := IR_TAG_EVM_SDIV \<rparr>, mk_ret ''d''],
     fn_node_count := 5 \<rparr>"

definition ret_wide :: "uint256 \<Rightarrow> event" where
  "ret_wide v = ((IR_RET, IR_TY_VOID, [], [], 0, None), [C256 v])"

definition neg8 :: uint256 where "neg8 = UInt256 (- 8) (- 1) (- 1) (- 1)"
definition two256 :: uint256 where "two256 = UInt256 2 0 0 0"

lemma wide_values: "uval neg8 = 2 ^ 256 - 8" "uval two256 = 2"
  by (simp_all add: neg8_def two256_def uval_UInt256 unsigned_minus_1_eq_mask mask_eq_exp_minus_1)

lemma wide_quotients:
  "bin256 IR_TAG_EVM_SDIV IR_DIV neg8 two256 = Some (C256 (UInt256 (- 4) (- 1) (- 1) (- 1)))"
  "bin256 0 IR_DIV neg8 two256 = Some (C256 (UInt256 (- 4) (- 1) (- 1) 0x7FFFFFFFFFFFFFFF))"
  by (simp_all add: bin256_def wide_values ir_tag_defs sval256_def signed_of_def u256_of_nat_def)

text \<open>The program, with the fourth node given.\<close>

definition sdiv_nodes :: "ir_node \<Rightarrow> ir_node list" where
  "sdiv_nodes n = [mk_wide ''a'' neg8, mk_wide ''b'' two256, mk_bin IR_DIV IR_TY_I64 ''c'' ''a'' ''b'', n, mk_ret ''d'']"

lemma sdiv_run:
  assumes "is_value_op (nd_op n)" "nd_dst n = ''d''"
    "node_value fp0 ext0 n [''a'' \<mapsto> C256 neg8, ''b'' \<mapsto> C256 two256,
       ''c'' \<mapsto> C256 (UInt256 (- 4) (- 1) (- 1) 0x7FFFFFFFFFFFFFFF)] [] = Some (C256 v)"
  shows "ir_result fp0 ext0 (sdiv_nodes n) Map.empty [ret_wide v]"
proof -
  let ?e1 = "[''a'' \<mapsto> C256 neg8]" and ?e2 = "[''a'' \<mapsto> C256 neg8, ''b'' \<mapsto> C256 two256]"
  let ?q = "C256 (UInt256 (- 4) (- 1) (- 1) 0x7FFFFFFFFFFFFFFF)"
  let ?s = "ir_steps fp0 ext0 (sdiv_nodes n)"
  have vals: "node_value fp0 ext0 (mk_wide ''a'' neg8) Map.empty [] = Some (C256 neg8)"
    "node_value fp0 ext0 (mk_wide ''b'' two256) ?e1 [] = Some (C256 two256)"
    by (simp_all add: node_value_def mk_wide_def ir_node_alloc_def const_value_def ir_tag_defs)
  have quot: "node_value fp0 ext0 (mk_bin IR_DIV IR_TY_I64 ''c'' ''a'' ''b'') ?e2 [] = Some ?q"
    using wide_quotients(2)
    by (simp add: node_value_def mk_bin_def ir_node_alloc_def operand_names_def read_all_def is_bin_op_def ir_tag_defs)
  have shape: "is_value_op (nd_op (mk_wide d v))" "is_value_op (nd_op (mk_bin IR_DIV ty d a b))"
    "nd_dst (mk_wide d v) = d" "nd_dst (mk_bin IR_DIV ty d a b) = d" for d v ty a b
    by (simp_all add: mk_wide_def mk_bin_def ir_node_alloc_def is_value_op_def is_effect_def)
  have "?s (Run (sdiv_nodes n) Map.empty []) (Run (drop 1 (sdiv_nodes n)) ?e1 [])"
    by (intro ir_steps_one) (simp add: sdiv_nodes_def next_value shape vals set_dst_def)
  moreover have "?s (Run (drop 1 (sdiv_nodes n)) ?e1 []) (Run (drop 2 (sdiv_nodes n)) ?e2 [])"
    by (intro ir_steps_one) (simp add: sdiv_nodes_def next_value shape vals set_dst_def)
  moreover have "?s (Run (drop 2 (sdiv_nodes n)) ?e2 []) (Run [n, mk_ret ''d''] (?e2(''c'' \<mapsto> ?q)) [])"
    by (intro ir_steps_one) (simp add: sdiv_nodes_def next_value shape quot set_dst_def)
  moreover have "?s (Run [n, mk_ret ''d''] (?e2(''c'' \<mapsto> ?q)) []) (Run [mk_ret ''d''] (?e2(''c'' \<mapsto> ?q, ''d'' \<mapsto> C256 v)) [])"
    using assms by (intro ir_steps_one) (simp add: next_value set_dst_def)
  moreover have "?s (Run [mk_ret ''d''] (?e2(''c'' \<mapsto> ?q, ''d'' \<mapsto> C256 v)) []) (Done [ret_wide v])"
    by (intro ir_steps_one)
       (simp add: next_ret mk_ret_def ir_node_alloc_def read_all_def operand_names_def ret_wide_def nsig_def)
  ultimately show ?thesis unfolding ir_result_def using ir_steps_trans by blast
qed

lemma sdiv_example_nodes:
  "fn_nodes sdiv_example = sdiv_nodes ((mk_bin IR_DIV IR_TY_I64 ''d'' ''a'' ''b'')\<lparr> nd_tag := IR_TAG_EVM_SDIV \<rparr>)"
  "fn_nodes (fst (ir_pass_gvn None sdiv_example)) =
     sdiv_nodes ((mk_bin IR_COPY IR_TY_I64 ''d'' ''c'' [])\<lparr> nd_tag := IR_TAG_EVM_SDIV \<rparr>)"
  by code_simp+

lemma gvn_merges_signed_division:
  "ir_result fp0 ext0 (fn_nodes sdiv_example) Map.empty [ret_wide (UInt256 (- 4) (- 1) (- 1) (- 1))]
   \<and> ir_result fp0 ext0 (fn_nodes (fst (ir_pass_gvn None sdiv_example))) Map.empty
       [ret_wide (UInt256 (- 4) (- 1) (- 1) 0x7FFFFFFFFFFFFFFF)]"
  unfolding sdiv_example_nodes
proof (intro conjI sdiv_run)
  show "node_value fp0 ext0 ((mk_bin IR_DIV IR_TY_I64 ''d'' ''a'' ''b'')\<lparr> nd_tag := IR_TAG_EVM_SDIV \<rparr>)
     [''a'' \<mapsto> C256 neg8, ''b'' \<mapsto> C256 two256, ''c'' \<mapsto> C256 (UInt256 (- 4) (- 1) (- 1) 0x7FFFFFFFFFFFFFFF)] []
     = Some (C256 (UInt256 (- 4) (- 1) (- 1) (- 1)))"
    using wide_quotients(1)
    by (simp add: node_value_def mk_bin_def ir_node_alloc_def operand_names_def read_all_def is_bin_op_def ir_tag_defs)
qed (simp_all add: mk_bin_def ir_node_alloc_def is_value_op_def is_effect_def node_value_def)

end
