(* ===== verification/EvmBytes.thy ===== *)
theory EvmBytes
  imports U256
begin

text \<open>
  The 256-bit arithmetic of the bytecode lifter (\<^verbatim>\<open>evm_lifter.c\<close>, lines 29 to 651): a number is
  the 32 bytes of an \<^verbatim>\<open>evm_u256_t\<close>, most significant first. The lifter folds EVM instructions on
  constants with these operations. Addition, subtraction and multiplication go through the limbs
  of theory \<open>U256\<close>; comparison, shifts, byte selection, sign extension, division,
  exponentiation and the modular operations work on the bytes. \<open>bval\<close> reads the number.

  This theory holds the representation, the operations that reduce to the limbs, the tests and the
  bit access, with the value of each; division, modular arithmetic and exponentiation follow in
  \<open>EvmDiv\<close>, shifts and byte selection in \<open>EvmShift\<close>, the hash in \<open>Keccak\<close>.
\<close>

subsection \<open>Byte arrays\<close>

type_synonym evm_u256 = "u8 list"

definition bytes_ok :: "evm_u256 \<Rightarrow> bool" where
  "bytes_ok a \<longleftrightarrow> length a = 32"

definition zero32 :: evm_u256 where
  "zero32 = replicate 32 0"

definition bval :: "u8 list \<Rightarrow> nat" where
  "bval bs = foldl (\<lambda>v b. v * 256 + unat b) 0 bs"

definition to_physics :: "evm_u256 \<Rightarrow> uint256" where
  "to_physics a = foldl (\<lambda>p i. set_limb p i
       (foldl (\<lambda>l j. l OR push_bit (j * 8) (ucast (a ! (31 - (i * 8 + j))))) 0 [0..<8]))
     u256_zero [0..<4]"

definition from_physics :: "evm_u256 \<Rightarrow> uint256 \<Rightarrow> evm_u256" where
  "from_physics dst p = foldl (\<lambda>d i. foldl (\<lambda>d j.
       d[31 - (i * 8 + j) := ucast (drop_bit (j * 8) (limb p i) AND 0xFF)]) d [0..<8])
     dst [0..<4]"

subsection \<open>Tests and comparison\<close>

definition lift_u256_is_zero :: "evm_u256 \<Rightarrow> bool" where
  "lift_u256_is_zero a \<longleftrightarrow> list_all (\<lambda>i. a ! i = 0) [0..<32]"

definition evm_u256_eq :: "evm_u256 \<Rightarrow> evm_u256 \<Rightarrow> bool" where
  "evm_u256_eq a b \<longleftrightarrow> list_all (\<lambda>i. a ! i = b ! i) [0..<32]"

fun cmp_at :: "evm_u256 \<Rightarrow> evm_u256 \<Rightarrow> nat list \<Rightarrow> int" where
  "cmp_at a b [] = 0"
| "cmp_at a b (i # is) = (if b ! i < a ! i then 1 else if a ! i < b ! i then -1 else cmp_at a b is)"

definition evm_u256_cmp :: "evm_u256 \<Rightarrow> evm_u256 \<Rightarrow> int" where
  "evm_u256_cmp a b = cmp_at a b [0..<32]"

definition evm_u256_is_negative :: "evm_u256 \<Rightarrow> bool" where
  "evm_u256_is_negative a \<longleftrightarrow> a ! 0 AND 0x80 \<noteq> 0"

definition evm_u256_cmp_signed :: "evm_u256 \<Rightarrow> evm_u256 \<Rightarrow> int" where
  "evm_u256_cmp_signed a b =
     (let a_neg = evm_u256_is_negative a; b_neg = evm_u256_is_negative b
      in if a_neg \<and> \<not> b_neg then -1
         else if \<not> a_neg \<and> b_neg then 1
         else evm_u256_cmp a b)"

subsection \<open>Ring operations and bitwise operations\<close>

text \<open>Every byte of the destination is written, so its earlier content does not matter; the flag
  is the carry the code computes from the top limbs alone.\<close>

definition lift_u256_add :: "evm_u256 \<Rightarrow> evm_u256 \<Rightarrow> evm_u256 \<times> bool" where
  "lift_u256_add a b =
     (let pa = to_physics a; pb = to_physics b; pr = evm_u256_add pa pb
      in (from_physics zero32 pr, limb3 pr < limb3 pa))"

definition lift_u256_sub :: "evm_u256 \<Rightarrow> evm_u256 \<Rightarrow> evm_u256" where
  "lift_u256_sub a b = from_physics zero32 (evm_u256_sub (to_physics a) (to_physics b))"

definition lift_u256_mul :: "evm_u256 \<Rightarrow> evm_u256 \<Rightarrow> evm_u256" where
  "lift_u256_mul a b = from_physics zero32 (evm_u256_mul (to_physics a) (to_physics b))"

definition evm_u256_and :: "evm_u256 \<Rightarrow> evm_u256 \<Rightarrow> evm_u256" where
  "evm_u256_and a b = map (\<lambda>i. a ! i AND b ! i) [0..<32]"

definition evm_u256_or :: "evm_u256 \<Rightarrow> evm_u256 \<Rightarrow> evm_u256" where
  "evm_u256_or a b = map (\<lambda>i. a ! i OR b ! i) [0..<32]"

definition evm_u256_xor :: "evm_u256 \<Rightarrow> evm_u256 \<Rightarrow> evm_u256" where
  "evm_u256_xor a b = map (\<lambda>i. a ! i XOR b ! i) [0..<32]"

definition evm_u256_not :: "evm_u256 \<Rightarrow> evm_u256" where
  "evm_u256_not a = map (\<lambda>i. NOT (a ! i)) [0..<32]"

definition evm_u256_shl1 :: "evm_u256 \<Rightarrow> evm_u256" where
  "evm_u256_shl1 a = fst (foldl (\<lambda>(a, carry) i.
       (a[i := push_bit 1 (a ! i) OR carry], drop_bit 7 (a ! i) AND 1)) (a, 0) (rev [0..<32]))"

definition evm_u256_get_bit :: "evm_u256 \<Rightarrow> nat \<Rightarrow> bool" where
  "evm_u256_get_bit a bit_idx \<longleftrightarrow> drop_bit (bit_idx mod 8) (a ! (31 - bit_idx div 8)) AND 1 \<noteq> 0"

definition evm_u256_set_bit :: "evm_u256 \<Rightarrow> nat \<Rightarrow> evm_u256" where
  "evm_u256_set_bit a bit_idx =
     (let byte_idx = 31 - bit_idx div 8
      in a[byte_idx := a ! byte_idx OR push_bit (bit_idx mod 8) 1])"

definition one32 :: evm_u256 where
  "one32 = zero32[31 := 1]"

definition evm_u256_negate :: "evm_u256 \<Rightarrow> evm_u256" where
  "evm_u256_negate a = fst (lift_u256_add (map (\<lambda>i. NOT (a ! i)) [0..<32]) one32)"

subsection \<open>The number of a byte array and its bits\<close>

lemma bval_snoc [simp]: "bval (bs @ [b]) = bval bs * 256 + unat b"
  by (simp add: bval_def)

lemma bval_Nil [simp]: "bval [] = 0"
  by (simp add: bval_def)

lemma bit_horner:
  "bit (v * 2 ^ LENGTH('a) + unat (b :: 'a::len word)) k
   \<longleftrightarrow> (if k < LENGTH('a) then bit b k else bit v (k - LENGTH('a)))"
proof -
  have "push_bit LENGTH('a) v AND unat b = 0"
    by (rule bit_eqI) (auto simp: bit_simps dest: bit_imp_le_length)
  then have "v * 2 ^ LENGTH('a) + unat b = push_bit LENGTH('a) v OR unat b"
    by (simp add: disjunctive_add_eq_or push_bit_eq_mult)
  then show ?thesis
    by (auto simp: bit_simps not_less dest: bit_imp_le_length)
qed

lemma bit_snoc_byte:
  "bit (v * 256 + unat (b :: u8)) k \<longleftrightarrow> (if k < 8 then bit b k else bit v (k - 8))"
  using bit_horner [of v b k] by simp

lemma bit_bval:
  "bit (bval bs) k \<longleftrightarrow> k < 8 * length bs \<and> bit (bs ! (length bs - 1 - k div 8)) (k mod 8)"
proof (induction bs arbitrary: k rule: rev_induct)
  case (snoc b bs)
  show ?case
  proof (cases "k < 8")
    case True
    then show ?thesis by (simp add: bit_snoc_byte)
  next
    case False
    have d: "k div 8 = Suc ((k - 8) div 8)" "k mod 8 = (k - 8) mod 8"
      using False by (auto simp: le_div_geq le_mod_geq)
    show ?thesis
      using False by (simp add: bit_snoc_byte snoc.IH d nth_append) (auto simp: less_diff_conv2)
  qed
qed simp

lemma bval_bound: "bval bs < 256 ^ length bs"
proof (induction bs rule: rev_induct)
  case (snoc b bs)
  have "unat b < 256" by (rule unat_lt_8)
  moreover have "(bval bs + 1) * 256 \<le> 256 ^ length bs * 256"
    using snoc.IH by (intro mult_right_mono) simp_all
  ultimately show ?case by simp
qed simp

lemma bytes_bound: "bytes_ok a \<Longrightarrow> bval a < M256"
  using bval_bound [of a] by (simp add: bytes_ok_def M256_def)

lemma bval_bit_iff:
  "bytes_ok a \<Longrightarrow> bit (bval a) k \<longleftrightarrow> k < 256 \<and> bit (a ! (31 - k div 8)) (k mod 8)"
  by (simp add: bit_bval bytes_ok_def)

lemma bytes_eqI:
  assumes "bytes_ok a" "bytes_ok b" "bval a = bval b"
  shows "a = b"
proof (rule nth_equalityI)
  show "length a = length b" using assms by (simp add: bytes_ok_def)
  fix i assume i: "i < length a"
  show "a ! i = b ! i"
  proof (rule bit_word_eqI)
    fix j assume j: "j < LENGTH(8)"
    let ?k = "8 * (31 - i) + j"
    have i32: "i < 32" using i assms(1) by (simp add: bytes_ok_def)
    have k: "?k < 256" "31 - ?k div 8 = i" "?k mod 8 = j" using i32 j by auto
    show "bit (a ! i) j = bit (b ! i) j"
      using bval_bit_iff [OF assms(1), of ?k] bval_bit_iff [OF assms(2), of ?k] assms(3) k by simp
  qed
qed

lemma zero32_ok [simp]: "bytes_ok zero32" by (simp add: bytes_ok_def zero32_def)
lemma one32_ok [simp]: "bytes_ok one32" by (simp add: bytes_ok_def one32_def zero32_def)

lemma zero32_nth: "i < 32 \<Longrightarrow> zero32 ! i = 0" by (simp add: zero32_def)

lemma bval_zero32 [simp]: "bval zero32 = 0"
  by (rule bit_eqI) (simp add: bval_bit_iff zero32_nth)

lemma bval_update_31:
  assumes "bytes_ok a"
  shows "bval (a[31 := b]) = bval a - unat (a ! 31) + unat b"
proof -
  have "length a = Suc 31" using assms by (simp add: bytes_ok_def)
  then obtain c x where a: "a = c @ [x]" "length c = 31" by (metis length_Suc_conv_rev)
  then show ?thesis by (simp add: list_update_append nth_append)
qed

lemma bval_one32 [simp]: "bval one32 = 1"
  by (simp add: one32_def bval_update_31 zero32_nth)

lemma uval_bit_iff: "bit (uval p) k \<longleftrightarrow> k < 256 \<and> bit (limb p (k div 64)) (k mod 64)"
proof -
  obtain a b c d where p: "p = UInt256 a b c d" by (cases p)
  have u: "uval p = ((unat d * 2 ^ 64 + unat c) * 2 ^ 64 + unat b) * 2 ^ 64 + unat a"
    by (simp add: p uval_def algebra_simps)
  have h: "bit (v * 2 ^ 64 + unat (w :: u64)) j \<longleftrightarrow> (if j < 64 then bit w j else bit v (j - 64))"
    for v w j using bit_horner [of v w j] by simp
  have d: "bit (unat d) j \<longleftrightarrow> j < 64 \<and> bit d j" for j
    by (auto simp: bit_simps dest: bit_imp_le_length)
  have n: "bit (uval p) k \<longleftrightarrow> (if k < 64 then bit a k else if k - 64 < 64 then bit b (k - 64)
      else if k - 64 - 64 < 64 then bit c (k - 64 - 64)
      else k - 64 - 64 - 64 < 64 \<and> bit d (k - 64 - 64 - 64))"
    unfolding u h d ..
  consider "k < 64" | "64 \<le> k" "k < 128" | "128 \<le> k" "k < 192" | "192 \<le> k" "k < 256" | "256 \<le> k"
    by linarith
  then show ?thesis
  proof cases
    case 1
    then show ?thesis unfolding n by (simp add: p)
  next
    case 2
    then have "k div 64 = 1" "k mod 64 = k - 64" "k - 64 < 64" by (simp_all add: le_div_geq le_mod_geq)
    then show ?thesis using 2 unfolding n by (simp add: p)
  next
    case 3
    then have "k div 64 = 2" "k mod 64 = k - 64 - 64" "k - 64 - 64 < 64" "\<not> k - 64 < 64" by (simp_all add: le_div_geq le_mod_geq)
    then show ?thesis using 3 unfolding n by (simp add: p)
  next
    case 4
    then have "k div 64 = 3" "k mod 64 = k - 64 - 64 - 64" "k - 64 - 64 - 64 < 64" "\<not> k - 64 < 64"
      "\<not> k - 64 - 64 < 64" by (simp_all add: le_div_geq le_mod_geq)
    then show ?thesis using 4 unfolding n by (simp add: p)
  next
    case 5
    then have "\<not> k < 64" "\<not> k - 64 < 64" "\<not> k - 64 - 64 < 64" "\<not> k - 64 - 64 - 64 < 64" by simp_all
    then show ?thesis unfolding n using 5 by simp
  qed
qed

lemma div_mod_64:
  fixes k :: nat
  shows "k div 64 * 8 + k mod 64 div 8 = k div 8 \<and> k mod 64 mod 8 = k mod 8
    \<and> k div 8 mod 8 * 8 + k mod 8 = k mod 64 \<and> k div 8 div 8 = k div 64"
proof -
  have "k div 8 div 8 = k div 64" by (simp add: div_mult2_eq [symmetric])
  moreover have "k mod 64 mod 8 = k mod 8" by (simp add: mod_mod_cancel)
  moreover have "k mod 64 = 8 * (k div 8 mod 8) + k mod 8" using mod_mult2_eq [of k 8 8] by simp
  ultimately show ?thesis using div_mult_mod_eq [of "k div 8" 8] by simp
qed

text \<open>The bytes of a limb, least significant first, gathered by the inner loop.\<close>

lemma gather_bit:
  assumes "n \<le> 8"
  shows "bit (foldl (\<lambda>l j. l OR push_bit (j * 8) (ucast (f j :: u8))) (0 :: u64) [0..<n]) k
         \<longleftrightarrow> k < 8 * n \<and> bit (f (k div 8)) (k mod 8)"
  using assms
proof (induction n)
  case (Suc n)
  have IH: "bit (foldl (\<lambda>l j. l OR push_bit (j * 8) (ucast (f j :: u8))) (0 :: u64) [0..<n]) k
        \<longleftrightarrow> k < 8 * n \<and> bit (f (k div 8)) (k mod 8)"
    using Suc by simp
  have new: "bit (push_bit (n * 8) (ucast (f n)) :: u64) k \<longleftrightarrow> k div 8 = n \<and> bit (f n) (k mod 8)"
  proof (cases "k div 8 = n")
    case True
    then have "8 * n \<le> k" "k - 8 * n = k mod 8" "k < 64" "k mod 8 < 64"
      using Suc.prems div_mult_mod_eq [of k 8] by (auto simp: minus_mod_eq_mult_div [symmetric])
    then show ?thesis using True by (simp add: bit_simps mult.commute)
  next
    case False
    have "\<not> bit (f n) (k - 8 * n)" if "8 * n \<le> k"
    proof
      assume "bit (f n) (k - 8 * n)"
      then have "k - 8 * n < 8" using bit_imp_le_length by fastforce
      then show False using False that by auto
    qed
    then show ?thesis using False by (auto simp: bit_simps mult.commute)
  qed
  have "k < 8 * Suc n \<longleftrightarrow> k < 8 * n \<or> k div 8 = n" by auto
  then show ?case unfolding foldl_upt_Suc bit_or_iff IH new by auto
qed simp

lemma limb_to_physics:
  "i < 4 \<Longrightarrow> limb (to_physics a) i
     = foldl (\<lambda>l j. l OR push_bit (j * 8) (ucast (a ! (31 - (i * 8 + j))))) 0 [0..<8]"
proof -
  assume "i < 4"
  have e: "to_physics a = UInt256
     (foldl (\<lambda>l j. l OR push_bit (j * 8) (ucast (a ! (31 - (0 * 8 + j))))) 0 [0..<8])
     (foldl (\<lambda>l j. l OR push_bit (j * 8) (ucast (a ! (31 - (1 * 8 + j))))) 0 [0..<8])
     (foldl (\<lambda>l j. l OR push_bit (j * 8) (ucast (a ! (31 - (2 * 8 + j))))) 0 [0..<8])
     (foldl (\<lambda>l j. l OR push_bit (j * 8) (ucast (a ! (31 - (3 * 8 + j))))) 0 [0..<8])"
    unfolding to_physics_def upt4 u256_zero_def by simp
  from \<open>i < 4\<close> consider "i = 0" | "i = 1" | "i = 2" | "i = 3" by linarith
  then show ?thesis by cases (simp_all add: e del: upt_Suc)
qed

lemma uval_to_physics:
  assumes "bytes_ok a"
  shows "uval (to_physics a) = bval a"
proof (rule bit_eqI)
  fix k :: nat
  show "bit (uval (to_physics a)) k = bit (bval a) k"
  proof (cases "k < 256")
    case True
    then have i: "k div 64 < 4" by auto
    have e: "k div 64 * 8 + k mod 64 div 8 = k div 8" "k mod 64 mod 8 = k mod 8" "k mod 64 < 64"
      using div_mod_64 [of k] by simp_all
    show ?thesis
      unfolding uval_bit_iff bval_bit_iff [OF assms] limb_to_physics [OF i] gather_bit [OF order_refl]
      using True e by simp
  qed (simp add: uval_bit_iff bval_bit_iff [OF assms])
qed

text \<open>Scattering the limbs back over the bytes.\<close>

lemma scatter_limb:
  assumes "length d = 32" "i < 4" "n \<le> 8"
  shows "length (foldl (\<lambda>d j. d[31 - (i * 8 + j) := f j]) d [0..<n]) = 32
     \<and> (\<forall>x < 32. foldl (\<lambda>d j. d[31 - (i * 8 + j) := f j]) d [0..<n] ! x
          = (if i * 8 \<le> 31 - x \<and> 31 - x < i * 8 + n then f (31 - x - i * 8) else d ! x))"
  using assms(3)
proof (induction n)
  case 0
  then show ?case using assms by auto
next
  case (Suc n)
  let ?d = "foldl (\<lambda>d j. d[31 - (i * 8 + j) := f j]) d [0..<n]"
  have IH: "length ?d = 32"
    "\<And>x. x < 32 \<Longrightarrow> ?d ! x = (if i * 8 \<le> 31 - x \<and> 31 - x < i * 8 + n then f (31 - x - i * 8) else d ! x)"
    using Suc by auto
  have b: "i * 8 + n < 32" using assms(2) Suc.prems by auto
  show ?case
    unfolding foldl_upt_Suc
  proof (intro conjI allI impI)
    show "length (?d[31 - (i * 8 + n) := f n]) = 32" using IH(1) by simp
    fix x :: nat assume x: "x < 32"
    show "?d[31 - (i * 8 + n) := f n] ! x
          = (if i * 8 \<le> 31 - x \<and> 31 - x < i * 8 + Suc n then f (31 - x - i * 8) else d ! x)"
    proof (cases "31 - (i * 8 + n) = x")
      case True
      then have "31 - x = i * 8 + n" using b by auto
      then show ?thesis using True IH(1) x by simp
    next
      case False
      then have "31 - x \<noteq> i * 8 + n" using b x by auto
      then show ?thesis using False IH x by auto
    qed
  qed
qed

lemma from_physics_nth:
  assumes "length d = 32"
  shows "length (from_physics d p) = 32
    \<and> (\<forall>x < 32. from_physics d p ! x
         = ucast (drop_bit ((31 - x) mod 8 * 8) (limb p ((31 - x) div 8)) AND 0xFF))"
proof -
  let ?b = "\<lambda>i j. ucast (drop_bit (j * 8) (limb p i) AND 0xFF) :: u8"
  let ?F = "\<lambda>d i. foldl (\<lambda>d j. d[31 - (i * 8 + j) := ?b i j]) d [0..<8]"
  have "length (foldl ?F d [0..<n]) = 32 \<and> (\<forall>x < 32. foldl ?F d [0..<n] ! x
     = (if 31 - x < 8 * n then ?b ((31 - x) div 8) ((31 - x) mod 8) else d ! x))" if "n \<le> 4" for n
    using that
  proof (induction n)
    case (Suc n)
    let ?d = "foldl ?F d [0..<n]"
    have IH: "length ?d = 32"
      "\<And>x. x < 32 \<Longrightarrow> ?d ! x = (if 31 - x < 8 * n then ?b ((31 - x) div 8) ((31 - x) mod 8) else d ! x)"
      using Suc by auto
    have n4: "n < 4" using Suc.prems by simp
    have S: "length (?F ?d n) = 32"
      "\<And>x. x < 32 \<Longrightarrow> ?F ?d n ! x = (if n * 8 \<le> 31 - x \<and> 31 - x < n * 8 + 8
          then ?b n (31 - x - n * 8) else ?d ! x)"
      using scatter_limb [OF IH(1) n4 order_refl, where f = "?b n"] by blast+
    show ?case
      unfolding foldl_upt_Suc
    proof (intro conjI allI impI)
      fix x :: nat assume x: "x < 32"
      show "?F ?d n ! x = (if 31 - x < 8 * Suc n then ?b ((31 - x) div 8) ((31 - x) mod 8) else d ! x)"
      proof (cases "n * 8 \<le> 31 - x \<and> 31 - x < n * 8 + 8")
        case True
        then have "(31 - x) div 8 = n" by auto
        moreover have "31 - x - n * 8 = (31 - x) mod 8"
          using calculation by (simp add: minus_div_mult_eq_mod [symmetric])
        ultimately show ?thesis using True S(2) [OF x] by simp
      next
        case False
        then have "31 - x < 8 * Suc n \<longleftrightarrow> 31 - x < 8 * n" by auto
        then show ?thesis using False S(2) [OF x] IH(2) [OF x] by (simp del: One_nat_def)
      qed
    qed (rule S(1))
  qed (use assms in auto)
  from this [of 4] show ?thesis unfolding from_physics_def by auto
qed

lemma from_physics_ok: "bytes_ok d \<Longrightarrow> bytes_ok (from_physics d p)"
  using from_physics_nth by (simp add: bytes_ok_def)

lemma bval_from_physics:
  assumes "bytes_ok d"
  shows "bval (from_physics d p) = uval p"
proof (rule bit_eqI)
  fix k :: nat
  have l: "length d = 32" using assms by (simp add: bytes_ok_def)
  show "bit (bval (from_physics d p)) k = bit (uval p) k"
  proof (cases "k < 256")
    case True
    then have x: "31 - (31 - k div 8) = k div 8" "31 - k div 8 < 32" by auto
    have m: "k div 8 mod 8 * 8 + k mod 8 = k mod 64" "k div 8 div 8 = k div 64" "k mod 8 < 8"
      using div_mod_64 [of k] by simp_all
    have m7: "k mod 8 < 64" using m(3) by simp
    have e: "(0xFF :: u64) = mask 8" by (simp add: mask_eq_exp_minus_1)
    have nth: "from_physics d p ! (31 - k div 8)
        = ucast (drop_bit (k div 8 mod 8 * 8) (limb p (k div 8 div 8)) AND mask 8)"
      using from_physics_nth [OF l, of p] x unfolding e by simp
    show ?thesis
      unfolding bval_bit_iff [OF from_physics_ok [OF assms]] uval_bit_iff nth
      using True m m7 by (simp add: bit_simps)
  qed (simp add: uval_bit_iff bval_bit_iff [OF from_physics_ok [OF assms]])
qed


subsection \<open>The ring operations are exact\<close>

lemma lift_add_ok [simp]: "bytes_ok (fst (lift_u256_add a b))"
  by (simp add: lift_u256_add_def Let_def from_physics_ok)

lemma lift_sub_ok [simp]: "bytes_ok (lift_u256_sub a b)"
  by (simp add: lift_u256_sub_def from_physics_ok)

lemma lift_mul_ok [simp]: "bytes_ok (lift_u256_mul a b)"
  by (simp add: lift_u256_mul_def from_physics_ok)

lemma bval_add:
  "bytes_ok a \<Longrightarrow> bytes_ok b \<Longrightarrow> bval (fst (lift_u256_add a b)) = (bval a + bval b) mod M256"
  by (simp add: lift_u256_add_def Let_def bval_from_physics limbs.add_val uval_to_physics)

lemma bval_sub:
  "bytes_ok a \<Longrightarrow> bytes_ok b \<Longrightarrow> bval (lift_u256_sub a b) = (M256 + bval a - bval b) mod M256"
  by (simp add: lift_u256_sub_def bval_from_physics limbs.sub_val uval_to_physics)

lemma bval_mul:
  "bytes_ok a \<Longrightarrow> bytes_ok b \<Longrightarrow> bval (lift_u256_mul a b) = (bval a * bval b) mod M256"
  by (simp add: lift_u256_mul_def bval_from_physics limbs.mul_val uval_to_physics)

interpretation bytes: arith256 bytes_ok bval zero32 "\<lambda>a b. fst (lift_u256_add a b)" lift_u256_sub
  lift_u256_mul
  by unfold_locales (auto simp: bytes_bound bval_add bval_sub bval_mul intro: bytes_eqI)

lemma bval_sub_exact:
  assumes "bytes_ok a" "bytes_ok b" "bval b \<le> bval a"
  shows "bval (lift_u256_sub a b) = bval a - bval b"
proof -
  have "M256 + bval a - bval b = M256 + (bval a - bval b)" using assms(3) by simp
  moreover have "bval a - bval b < M256" using bytes_bound [OF assms(1)] by simp
  ultimately show ?thesis
    unfolding bval_sub [OF assms(1,2)] by (simp only: mod_add_self1 mod_less)
qed

subsection \<open>Complement\<close>

lemma unat_not_byte: "unat (NOT (b :: u8)) = 255 - unat b"
proof -
  have "NOT b = 255 - b" by (simp add: not_eq_complement)
  moreover have "b \<le> 255" using unat_lt_8 [of b] by (simp add: word_le_nat_alt)
  ultimately show ?thesis by (simp add: unat_sub)
qed

lemma bval_not: "bval (map NOT bs) + bval bs + 1 = 256 ^ length bs"
proof (induction bs rule: rev_induct)
  case (snoc b bs)
  have "bval (map NOT (bs @ [b])) + bval (bs @ [b]) + 1 = (bval (map NOT bs) + bval bs + 1) * 256"
    using unat_lt_8 [of b] by (simp add: unat_not_byte)
  then show ?case using snoc.IH by simp
qed simp

lemma map_nth_32: "bytes_ok a \<Longrightarrow> map (\<lambda>i. f (a ! i)) [0..<32] = map f a"
  by (rule nth_equalityI) (simp_all add: bytes_ok_def)

lemma bval_not_ok: "bytes_ok a \<Longrightarrow> bval (map NOT a) = M256 - 1 - bval a"
  using bval_not [of a] by (simp add: bytes_ok_def M256_def)

subsection \<open>The tests compare the numbers\<close>

lemma bval_Cons: "bval (x # xs) = unat x * 256 ^ length xs + bval xs"
  by (induction xs rule: rev_induct) (simp_all flip: append_Cons add: algebra_simps, simp add: bval_def)

lemma bval_drop: "k < length a \<Longrightarrow> bval (drop k a) = unat (a ! k) * 256 ^ (length a - Suc k) + bval (drop (Suc k) a)"
  by (subst Cons_nth_drop_Suc [symmetric]) (simp_all add: bval_Cons)

lemma cmp_digit:
  assumes "x < y" "u < (M :: nat)"
  shows "x * M + u < y * M + v"
proof -
  have "(x + 1) * M \<le> y * M" using assms(1) by (intro mult_right_mono) simp_all
  then show ?thesis using assms(2) by (simp add: algebra_simps)
qed

lemma cmp_at_sgn:
  assumes "bytes_ok a" "bytes_ok b" "k \<le> 32"
  shows "cmp_at a b [k..<32] = sgn (int (bval (drop k a)) - int (bval (drop k b)))"
  using assms(3)
proof (induction rule: inc_induct)
  case base
  then show ?case using assms by (simp add: bytes_ok_def)
next
  case (step k)
  have l: "length a = 32" "length b = 32" using assms by (simp_all add: bytes_ok_def)
  have u: "[k..<32] = k # [Suc k..<32]" using step.hyps by (simp add: upt_conv_Cons)
  let ?M = "256 ^ (31 - k) :: nat"
  have da: "bval (drop k a) = unat (a ! k) * ?M + bval (drop (Suc k) a)"
    and db: "bval (drop k b) = unat (b ! k) * ?M + bval (drop (Suc k) b)"
    using bval_drop [of k a] bval_drop [of k b] step.hyps l by simp_all
  have ba: "bval (drop (Suc k) a) < ?M" and bb: "bval (drop (Suc k) b) < ?M"
    using bval_bound [of "drop (Suc k) a"] bval_bound [of "drop (Suc k) b"] l by simp_all
  show ?case
  proof (cases "a ! k" "b ! k" rule: linorder_cases)
    case less
    then have "unat (a ! k) < unat (b ! k)" by (simp add: word_less_nat_alt)
    from cmp_digit [OF this ba, of "bval (drop (Suc k) b)"] show ?thesis
      using less unfolding u da [symmetric] db [symmetric] by simp
  next
    case equal
    then show ?thesis unfolding u by (simp add: step.IH da db)
  next
    case greater
    then have "unat (b ! k) < unat (a ! k)" by (simp add: word_less_nat_alt)
    from cmp_digit [OF this bb, of "bval (drop (Suc k) a)"] show ?thesis
      using greater unfolding u da [symmetric] db [symmetric] by simp
  qed
qed

lemma cmp_sgn: "bytes_ok a \<Longrightarrow> bytes_ok b \<Longrightarrow> evm_u256_cmp a b = sgn (int (bval a) - int (bval b))"
  using cmp_at_sgn [of a b 0] by (simp add: evm_u256_cmp_def)

lemma cmp_ge: "bytes_ok a \<Longrightarrow> bytes_ok b \<Longrightarrow> 0 \<le> evm_u256_cmp a b \<longleftrightarrow> bval b \<le> bval a"
  by (simp add: cmp_sgn sgn_if)

lemma is_zero_iff: "bytes_ok a \<Longrightarrow> lift_u256_is_zero a \<longleftrightarrow> bval a = 0"
proof
  assume a: "bytes_ok a" "lift_u256_is_zero a"
  have "a = zero32"
    using a by (intro nth_equalityI) (auto simp: bytes_ok_def lift_u256_is_zero_def list_all_iff zero32_def)
  then show "bval a = 0" by simp
next
  assume "bytes_ok a" "bval a = 0"
  then have "a = zero32" using bytes_eqI [of a zero32] by simp
  then show "lift_u256_is_zero a" by (simp add: lift_u256_is_zero_def list_all_iff zero32_nth)
qed

lemma eq_iff: "bytes_ok a \<Longrightarrow> bytes_ok b \<Longrightarrow> evm_u256_eq a b \<longleftrightarrow> bval a = bval b"
proof
  assume a: "bytes_ok a" "bytes_ok b" "evm_u256_eq a b"
  have "a = b"
    using a by (intro nth_equalityI) (auto simp: bytes_ok_def evm_u256_eq_def list_all_iff)
  then show "bval a = bval b" by simp
next
  assume "bytes_ok a" "bytes_ok b" "bval a = bval b"
  then have "a = b" by (rule bytes_eqI)
  then show "evm_u256_eq a b" by (simp add: evm_u256_eq_def list_all_iff)
qed

lemma top_bit: "v < M256 \<Longrightarrow> bit v 255 \<longleftrightarrow> 2 ^ 255 \<le> v"
proof -
  assume v: "v < M256"
  then have "v div 2 ^ 255 < 2" unfolding M256_half by (simp add: less_mult_imp_div_less)
  moreover have "odd d \<longleftrightarrow> d \<noteq> 0" if "d < 2" for d :: nat
    using that by (auto simp: less_2_cases_iff)
  ultimately have "odd (v div 2 ^ 255) \<longleftrightarrow> v div 2 ^ 255 \<noteq> 0" by blast
  then show ?thesis by (simp add: bit_iff_odd div_eq_0_iff not_less)
qed

lemma is_negative_bit: "bytes_ok a \<Longrightarrow> evm_u256_is_negative a \<longleftrightarrow> bit (bval a) 255"
proof -
  assume a: "bytes_ok a"
  have e: "(0x80 :: u8) = 2 ^ 7" by simp
  have "a ! 0 AND 0x80 \<noteq> 0 \<longleftrightarrow> bit (a ! 0) 7"
    unfolding e and_exp_eq_0_iff_not_bit by simp
  then show ?thesis by (simp add: evm_u256_is_negative_def bval_bit_iff [OF a])
qed

lemma is_negative_iff: "bytes_ok a \<Longrightarrow> evm_u256_is_negative a \<longleftrightarrow> 2 ^ 255 \<le> bval a"
  by (simp only: is_negative_bit top_bit bytes_bound)

lemma is_negative_sval: "bytes_ok a \<Longrightarrow> evm_u256_is_negative a \<longleftrightarrow> sval256 (bval a) < 0"
  using bytes_bound [of a] by (simp add: is_negative_iff sval256_def signed_of_def M256_def)

lemma cmp_signed_sgn:
  assumes "bytes_ok a" "bytes_ok b"
  shows "evm_u256_cmp_signed a b = sgn (sval256 (bval a) - sval256 (bval b))"
proof -
  have "bval a < 2 * 2 ^ 255" "bval b < 2 * 2 ^ 255"
    using bytes_bound assms by (simp_all add: M256_def)
  then show ?thesis
    using assms unfolding evm_u256_cmp_signed_def Let_def
    by (auto simp: is_negative_iff cmp_sgn sval256_def signed_of_def not_le)
qed


subsection \<open>Single bits and the shift by one\<close>

lemma low_bit_test: "drop_bit j (x :: 'a::len word) AND 1 \<noteq> 0 \<longleftrightarrow> bit x j"
  by (simp add: bit_iff_odd_drop_bit and_one_eq mod2_eq_if)

lemma get_bit_iff: "bytes_ok a \<Longrightarrow> i < 256 \<Longrightarrow> evm_u256_get_bit a i \<longleftrightarrow> bit (bval a) i"
  by (simp only: evm_u256_get_bit_def bval_bit_iff low_bit_test simp_thms)

lemma set_bit_ok: "bytes_ok a \<Longrightarrow> bytes_ok (evm_u256_set_bit a i)"
  by (simp add: bytes_ok_def evm_u256_set_bit_def Let_def)

lemma bval_set_bit:
  assumes "bytes_ok a" "i < 256"
  shows "bval (evm_u256_set_bit a i) = bval a OR 2 ^ i"
proof (rule bit_eqI)
  fix k :: nat
  have i: "31 - i div 8 < length a" "i div 8 < 32" using assms by (auto simp: bytes_ok_def)
  show "bit (bval (evm_u256_set_bit a i)) k = bit (bval a OR 2 ^ i) k"
  proof (cases "k < 256")
    case True
    then have k: "k div 8 < 32" by auto
    have m: "k mod 8 < 8" by simp
    have "k = i \<longleftrightarrow> k div 8 = i div 8 \<and> k mod 8 = i mod 8"
      by (metis div_mult_mod_eq)
    moreover have "31 - i div 8 = 31 - k div 8 \<longleftrightarrow> k div 8 = i div 8" using k i(2) by auto
    ultimately show ?thesis
      using True i m unfolding bval_bit_iff [OF set_bit_ok [OF assms(1)]] bit_or_iff bval_bit_iff [OF assms(1)]
      by (auto simp: evm_u256_set_bit_def Let_def nth_list_update bit_simps)
  qed (use assms in \<open>auto simp: bval_bit_iff [OF set_bit_ok [OF assms(1)]] bval_bit_iff [OF assms(1)] bit_simps\<close>)
qed

lemma set_fresh_bit: "\<not> bit (v :: nat) i \<Longrightarrow> v OR 2 ^ i = v + 2 ^ i"
  by (rule disjunctive_add_eq_or [symmetric]) (simp add: and_exp_eq_0_iff_not_bit)

lemma rev_upt_32: "rev [0..<32] = map (\<lambda>j. 31 - j) [0..<32]"
  by (simp add: upt_rec)

lemma shl1_nth:
  assumes "bytes_ok a"
  shows "bytes_ok (evm_u256_shl1 a) \<and> (\<forall>x < 32. evm_u256_shl1 a ! x
     = push_bit 1 (a ! x) OR (if x < 31 then drop_bit 7 (a ! Suc x) AND 1 else 0))"
proof -
  let ?f = "\<lambda>(d, c) i. (d[i := push_bit 1 (d ! i) OR c], drop_bit 7 (d ! i) AND 1 :: u8)"
  let ?P = "\<lambda>m (d, c). length d = 32 \<and> c = (if m = 0 then 0 else drop_bit 7 (a ! (32 - m)) AND 1)
     \<and> (\<forall>x < 32. d ! x = (if 32 - m \<le> x
          then push_bit 1 (a ! x) OR (if x < 31 then drop_bit 7 (a ! Suc x) AND 1 else 0) else a ! x))"
  have l: "length a = 32" using assms by (simp add: bytes_ok_def)
  have "?P 32 (foldl (\<lambda>t j. ?f t (31 - j)) (a, 0) [0..<32])"
  proof (rule foldl_upt_invariant [where P = ?P])
    show "?P 0 (a, 0)" using l by simp
    fix j :: nat and t
    assume j: "j < 32" and P: "?P j t"
    obtain d c where t: "t = (d, c)" by (cases t)
    let ?x = "31 - j"
    have P': "length d = 32" "c = (if j = 0 then 0 else drop_bit 7 (a ! (32 - j)) AND 1)"
      "\<And>x. x < 32 \<Longrightarrow> d ! x = (if 32 - j \<le> x
          then push_bit 1 (a ! x) OR (if x < 31 then drop_bit 7 (a ! Suc x) AND 1 else 0) else a ! x)"
      using P unfolding t by auto
    have x: "?x < 32" "\<not> 32 - j \<le> ?x" "32 - Suc j = ?x" "Suc ?x = 32 - j" using j by auto
    have dx: "d ! ?x = a ! ?x" using P'(3) [OF x(1)] x(2) by simp
    have cc: "c = (if ?x < 31 then drop_bit 7 (a ! Suc ?x) AND 1 else 0)"
      unfolding P'(2) x(4) using j by simp
    show "?P (Suc j) (?f t (31 - j))"
      unfolding t prod.case
    proof (intro conjI allI impI)
      fix y :: nat assume y: "y < 32"
      show "d[?x := push_bit 1 (d ! ?x) OR c] ! y = (if 32 - Suc j \<le> y
          then push_bit 1 (a ! y) OR (if y < 31 then drop_bit 7 (a ! Suc y) AND 1 else 0) else a ! y)"
      proof (cases "y = ?x")
        case True
        show ?thesis unfolding x(3) dx cc using P'(1) x(1) True by simp
      next
        case False
        then have "32 - Suc j \<le> y \<longleftrightarrow> 32 - j \<le> y" using j by auto
        then show ?thesis using False P'(3) [OF y] by simp
      qed
    qed (use P' dx x in simp_all)
  qed
  then show ?thesis
    unfolding evm_u256_shl1_def rev_upt_32 foldl_map bytes_ok_def
    by (simp add: case_prod_beta)
qed

lemma bit_dbl8: "bit ((w :: u8) * 2) j \<longleftrightarrow> 0 < j \<and> j < 8 \<and> bit w (j - 1)"
  using bit_double_iff [of w j] by (auto simp: mult.commute)

lemma bval_shl1:
  assumes "bytes_ok a"
  shows "bval (evm_u256_shl1 a) = (2 * bval a) mod M256"
proof -
  note S = shl1_nth [OF assms]
  have "bval (evm_u256_shl1 a) = take_bit 256 (push_bit 1 (bval a))"
  proof (rule bit_eqI)
    fix k :: nat
    show "bit (bval (evm_u256_shl1 a)) k = bit (take_bit 256 (push_bit 1 (bval a))) k"
    proof (cases "k < 256")
      case True
      then have x: "31 - k div 8 < 32" "k div 8 < 32" by auto
      have n: "evm_u256_shl1 a ! (31 - k div 8) = push_bit 1 (a ! (31 - k div 8))
          OR (if k div 8 \<noteq> 0 then drop_bit 7 (a ! (32 - k div 8)) AND 1 else 0)"
      proof -
        have "k div 8 \<noteq> 0 \<Longrightarrow> Suc (31 - k div 8) = 32 - k div 8 \<and> 31 - k div 8 < 31" using x by auto
        then show ?thesis using S x by (cases "k div 8 = 0") auto
      qed
      show ?thesis
      proof (cases "k mod 8 = 0")
        case z: True
        show ?thesis
        proof (cases "k = 0")
          case True
          then show ?thesis using S n unfolding bval_bit_iff [OF conjunct1 [OF S]] by (simp add: bit_simps bit_0)
        next
          case False
          from z have "8 dvd k" by (simp add: mod_eq_0_iff_dvd)
          then obtain w where w: "k = 8 * w" by (elim dvdE)
          with False obtain p where p: "k = 8 * Suc p" by (cases w) auto
          then have "k - 1 = 8 * p + 7" by simp
          then have "k div 8 \<noteq> 0" "(k - 1) div 8 = k div 8 - 1" "(k - 1) mod 8 = 7" "0 < k"
            unfolding p by simp_all
          moreover have "31 - (k div 8 - 1) = 32 - k div 8" using calculation(1) by simp
          moreover have "k - Suc 0 < 256" using True by simp
          moreover have b0: "\<not> bit (w * 2) 0" for w :: u8 by (simp add: bit_0)
          ultimately show ?thesis
            using True z n unfolding bval_bit_iff [OF conjunct1 [OF S]] bit_take_bit_iff bit_push_bit_iff bval_bit_iff [OF assms]
            by (simp add: bit_simps)
        qed
      next
        case z: False
        obtain t where t: "k mod 8 = Suc t" using z not0_implies_Suc by blast
        have "Suc t < 8" unfolding t [symmetric] by simp
        have k1: "k = 8 * (k div 8) + Suc t" unfolding t [symmetric] by simp
        then have "k - 1 = 8 * (k div 8) + t" by linarith
        then have "(k - 1) div 8 = k div 8" "(k - 1) mod 8 = k mod 8 - 1" "0 < k" "0 < k mod 8"
          using t \<open>Suc t < 8\<close> k1 by simp_all
        moreover have "k - Suc 0 < 256" using True by simp
        moreover have "\<not> bit (drop_bit 7 w AND 1 :: u8) (k mod 8)" for w
          using t by (simp add: bit_simps)
        ultimately show ?thesis
          using True n unfolding bval_bit_iff [OF conjunct1 [OF S]] bit_take_bit_iff bit_push_bit_iff bval_bit_iff [OF assms]
          by (simp add: bit_or_iff bit_dbl8)
      qed
    qed (simp add: bval_bit_iff [OF conjunct1 [OF S]] bit_simps)
  qed
  then show ?thesis by (simp add: take_bit_eq_mod push_bit_eq_mult M256_def mult.commute)
qed

lemma shl1_ok: "bytes_ok a \<Longrightarrow> bytes_ok (evm_u256_shl1 a)"
  using shl1_nth by blast


subsection \<open>The representation as a whole\<close>

lemma bitwise_value:
  assumes "bytes_ok a" "bytes_ok b"
  shows "bval (evm_u256_and a b) = bval a AND bval b" "bval (evm_u256_or a b) = bval a OR bval b"
    "bval (evm_u256_xor a b) = bval a XOR bval b" "bval (evm_u256_not a) = M256 - 1 - bval a"
proof -
  show "bval (evm_u256_and a b) = bval a AND bval b"
    using assms by (intro bit_eqI) (auto simp: evm_u256_and_def bit_bval bit_simps bytes_ok_def)
  show "bval (evm_u256_or a b) = bval a OR bval b"
    using assms by (intro bit_eqI) (auto simp: evm_u256_or_def bit_bval bit_simps bytes_ok_def)
  show "bval (evm_u256_xor a b) = bval a XOR bval b"
    using assms by (intro bit_eqI) (auto simp: evm_u256_xor_def bit_bval bit_simps bytes_ok_def)
  show "bval (evm_u256_not a) = M256 - 1 - bval a"
    unfolding evm_u256_not_def map_nth_32 [OF assms(1)] by (rule bval_not_ok [OF assms(1)])
qed

lemma bval_ff: "bval (replicate n 0xFF) + 1 = 256 ^ n"
  by (induction n) (simp_all add: bval_Cons)

definition ff32 :: evm_u256 where
  "ff32 = replicate 32 0xFF"

lemma ff32_ok [simp]: "bytes_ok ff32" by (simp add: ff32_def bytes_ok_def)

lemma bval_ff32: "bval ff32 = M256 - 1"
proof -
  have "bval ff32 + 1 = M256" unfolding ff32_def bval_ff by (simp add: M256_def)
  then show ?thesis by simp
qed

lemma bval_last_byte: "bytes_ok (zero32[31 := b])" "bval (zero32[31 := b]) = unat b"
  by (simp add: bytes_ok_def zero32_def) (simp add: bval_update_31 zero32_nth)

lemma bval_near_top: "bytes_ok (replicate 31 0xFF @ [b])" "bval (replicate 31 0xFF @ [b]) = M256 - 256 + unat b"
proof -
  show "bytes_ok (replicate 31 0xFF @ [b])" by (simp add: bytes_ok_def)
  have "bval (replicate 31 0xFF) = 256 ^ 31 - 1" using bval_ff [of 31] by simp
  then show "bval (replicate 31 0xFF @ [b]) = M256 - 256 + unat b" by (simp add: M256_def)
qed

lemma sval_top: "v \<le> 2 ^ 255 \<Longrightarrow> 0 < v \<Longrightarrow> sval256 (M256 - v) = - int v"
  unfolding sval256_def signed_of_def M256_half by (simp add: of_nat_diff)

text \<open>The lifter's addition, subtraction and multiplication of byte arrays are arithmetic modulo
  2^256, the bitwise operations are those of the numbers, and the tests decide zero, equality and
  the unsigned and signed order.\<close>

lemma evm_bytes_exact:
  assumes "bytes_ok a" and "bytes_ok b"
  shows "bval (fst (lift_u256_add a b)) = (bval a + bval b) mod M256
    \<and> bval (lift_u256_sub a b) = (M256 + bval a - bval b) mod M256
    \<and> bval (lift_u256_mul a b) = (bval a * bval b) mod M256
    \<and> bval (evm_u256_and a b) = bval a AND bval b
    \<and> bval (evm_u256_or a b) = bval a OR bval b
    \<and> bval (evm_u256_xor a b) = bval a XOR bval b
    \<and> bval (evm_u256_not a) = M256 - 1 - bval a
    \<and> (lift_u256_is_zero a \<longleftrightarrow> bval a = 0) \<and> (evm_u256_eq a b \<longleftrightarrow> bval a = bval b)
    \<and> evm_u256_cmp a b = sgn (int (bval a) - int (bval b))
    \<and> evm_u256_cmp_signed a b = sgn (sval256 (bval a) - sval256 (bval b))"
  by (intro conjI bytes.add_val bytes.sub_val bytes.mul_val bitwise_value [OF assms] is_zero_iff eq_iff cmp_sgn
      cmp_signed_sgn assms)

lemma evm_bytes_exact_witness:
  "bval (fst (lift_u256_add ff32 one32)) = 0 \<and> evm_u256_cmp ff32 one32 = 1
   \<and> evm_u256_cmp_signed ff32 one32 = -1"
  using evm_bytes_exact [of ff32 one32] by (simp add: bval_ff32 sval_top) (simp add: sval256_def signed_of_def M256_def)

end
