(* ===== verification/EvmDiv.thy ===== *)
theory EvmDiv
  imports EvmBytes "HOL-Library.Signed_Division"
begin

text \<open>
  Division, modular arithmetic and exponentiation of the lifter's constant folder
  (\<^verbatim>\<open>evm_u256_div_mod\<close>, \<^verbatim>\<open>evm_u256_sdiv_smod\<close>, \<^verbatim>\<open>evm_u256_addmod\<close>, \<^verbatim>\<open>evm_u256_mulmod\<close> and
  \<^verbatim>\<open>evm_u256_exp\<close> of \<^verbatim>\<open>evm_lifter.c\<close>).

  Division receives pointers, and one caller passes the same object twice, so the division and
  \<open>evm_u256_addmod\<close> are modelled over a store from locations to byte arrays. The lemmas give the
  value of every operation, also where it differs from the EVM's: \<^verbatim>\<open>ADDMOD\<close> of a sum that
  overflows and \<^verbatim>\<open>MULMOD\<close> of a modulus in the last 2^192 numbers.
\<close>

subsection \<open>Division over a store\<close>

definition div_mod_bit :: "'l \<Rightarrow> 'l \<Rightarrow> 'l \<Rightarrow> 'l \<Rightarrow> ('l \<Rightarrow> evm_u256) \<Rightarrow> nat \<Rightarrow> ('l \<Rightarrow> evm_u256)" where
  "div_mod_bit q r a b m i =
     (let m1 = m(r := evm_u256_shl1 (m r));
          m2 = (if evm_u256_get_bit (m1 a) i then m1(r := (m1 r)[31 := m1 r ! 31 OR 1]) else m1)
      in if 0 \<le> evm_u256_cmp (m2 r) (m2 b)
         then let m3 = m2(r := lift_u256_sub (m2 r) (m2 b)) in m3(q := evm_u256_set_bit (m3 q) i)
         else m2)"

definition evm_u256_div_mod ::
    "'l \<Rightarrow> 'l \<Rightarrow> 'l \<Rightarrow> 'l \<Rightarrow> ('l \<Rightarrow> evm_u256) \<Rightarrow> ('l \<Rightarrow> evm_u256)" where
  "evm_u256_div_mod q r a b m0 =
     (let m = m0(q := zero32, r := zero32)
      in if lift_u256_is_zero (m b) then m
         else foldl (div_mod_bit q r a b) m (rev [0..<256]))"

datatype evm_loc = L_q | L_r | L_a | L_b | L_n | L_dst | L_sum | L_r_max | L_max256 | L_one
  | L_carry_mod

definition store4 :: "evm_u256 \<Rightarrow> evm_u256 \<Rightarrow> evm_loc \<Rightarrow> evm_u256" where
  "store4 a b = (\<lambda>_. zero32)(L_a := a, L_b := b)"

text \<open>The quotient and the remainder when the four objects are distinct, as in all calls but one.\<close>

definition div_mod_vals :: "evm_u256 \<Rightarrow> evm_u256 \<Rightarrow> evm_u256 \<times> evm_u256" where
  "div_mod_vals a b = (let m = evm_u256_div_mod L_q L_r L_a L_b (store4 a b) in (m L_q, m L_r))"

definition evm_u256_sdiv_smod :: "evm_u256 \<Rightarrow> evm_u256 \<Rightarrow> evm_u256 \<times> evm_u256" where
  "evm_u256_sdiv_smod a b =
     (if lift_u256_is_zero b then (zero32, zero32)
      else let a_neg = evm_u256_is_negative a; b_neg = evm_u256_is_negative b;
               abs_a = (if a_neg then evm_u256_negate a else a);
               abs_b = (if b_neg then evm_u256_negate b else b);
               (q, r) = div_mod_vals abs_a abs_b
           in (if a_neg \<noteq> b_neg then evm_u256_negate q else q,
               if a_neg then evm_u256_negate r else r))"

subsection \<open>Modular addition and multiplication\<close>

text \<open>The reduction of \<^verbatim>\<open>carry_mod\<close> passes it both as the dividend and as the remainder.\<close>

definition addmod_carry :: "(evm_loc \<Rightarrow> evm_u256) \<Rightarrow> (evm_loc \<Rightarrow> evm_u256)" where
  "addmod_carry m =
     (let m1 = m(L_max256 := replicate 32 0xFF, L_one := one32);
          m2 = evm_u256_div_mod L_q L_r_max L_max256 L_n m1;
          m3 = m2(L_carry_mod := fst (lift_u256_add (m2 L_r_max) (m2 L_one)));
          m4 = evm_u256_div_mod L_q L_carry_mod L_carry_mod L_n m3;
          m5 = m4(L_r := fst (lift_u256_add (m4 L_r) (m4 L_carry_mod)))
      in evm_u256_div_mod L_q L_dst L_r L_n m5)"

definition evm_u256_addmod :: "evm_u256 \<Rightarrow> evm_u256 \<Rightarrow> evm_u256 \<Rightarrow> evm_u256" where
  "evm_u256_addmod a b n =
     (let m0 = (\<lambda>_. zero32)(L_a := a, L_b := b, L_n := n)
      in if lift_u256_is_zero (m0 L_n) then zero32
         else let (s, carry) = lift_u256_add (m0 L_a) (m0 L_b);
                  m1 = m0(L_sum := s);
                  m2 = evm_u256_div_mod L_q L_r L_sum L_n m1
              in if carry then addmod_carry m2 L_dst else m2 L_r)"

definition mulmod_reduce :: "evm_u256 \<Rightarrow> evm_u256 \<times> bool \<Rightarrow> evm_u256" where
  "mulmod_reduce n = (\<lambda>(res, carry).
     if carry \<or> 0 \<le> evm_u256_cmp res n then lift_u256_sub res n else res)"

definition mulmod_bit :: "evm_u256 \<Rightarrow> evm_u256 \<Rightarrow> evm_u256 \<Rightarrow> evm_u256 \<Rightarrow> nat \<Rightarrow> evm_u256" where
  "mulmod_bit a_mod b n res i =
     (let res1 = mulmod_reduce n (lift_u256_add res res)
      in if evm_u256_get_bit b i then mulmod_reduce n (lift_u256_add res1 a_mod) else res1)"

definition evm_u256_mulmod :: "evm_u256 \<Rightarrow> evm_u256 \<Rightarrow> evm_u256 \<Rightarrow> evm_u256" where
  "evm_u256_mulmod a b n =
     (if lift_u256_is_zero n then zero32
      else foldl (mulmod_bit (snd (div_mod_vals a n)) b n) zero32 (rev [0..<256]))"

subsection \<open>Exponentiation\<close>

definition evm_u256_exp :: "evm_u256 \<Rightarrow> evm_u256 \<Rightarrow> evm_u256" where
  "evm_u256_exp base e =
     fst (foldl (\<lambda>(result, b) i.
            (if evm_u256_get_bit e i then lift_u256_mul result b else result, lift_u256_mul b b))
          (one32, base) [0..<256])"

subsection \<open>Long division\<close>

lemma long_division_step:
  fixes A B :: nat
  assumes "0 < B" "R = A div 2 ^ Suc i mod B" "Q = A div 2 ^ Suc i div B"
    and "t = (if bit A i then 1 else 0)"
  shows "A div 2 ^ i = B * (2 * Q) + (2 * R + t)" "2 * R + t < 2 * B"
    "A div 2 ^ i mod B = (if B \<le> 2 * R + t then 2 * R + t - B else 2 * R + t)"
    "A div 2 ^ i div B = (if B \<le> 2 * R + t then 2 * Q + 1 else 2 * Q)"
proof -
  have "A div 2 ^ i = 2 * (A div 2 ^ i div 2) + A div 2 ^ i mod 2" by simp
  moreover have "A div 2 ^ i div 2 = A div 2 ^ Suc i" by (simp add: div_mult2_eq [symmetric] mult.commute)
  moreover have "A div 2 ^ i mod 2 = t" unfolding assms(4) bit_iff_odd by (simp add: mod2_eq_if)
  moreover have "A div 2 ^ Suc i = B * Q + R" unfolding assms by simp
  ultimately show e: "A div 2 ^ i = B * (2 * Q) + (2 * R + t)" by simp
  have "R < B" "t \<le> 1" using assms by simp_all
  then show l: "2 * R + t < 2 * B" by simp
  show "A div 2 ^ i mod B = (if B \<le> 2 * R + t then 2 * R + t - B else 2 * R + t)"
    unfolding e using l by (simp add: mod_once)
  have "(2 * R + t) div B = (if B \<le> 2 * R + t then 1 else 0)"
    using l assms(1) by (simp add: le_div_geq)
  then show "A div 2 ^ i div B = (if B \<le> 2 * R + t then 2 * Q + 1 else 2 * Q)"
    unfolding e using assms(1) by simp
qed

lemma div_pow_less: "A < 2 * (H :: nat) \<Longrightarrow> A div 2 ^ Suc i < H"
proof -
  assume A: "A < 2 * H"
  have "A div 2 ^ Suc i = A div 2 div 2 ^ i" by (simp add: div_mult2_eq)
  also have "\<dots> \<le> A div 2" by (rule div_le_dividend)
  finally show ?thesis using A by simp
qed

lemma or_low_bit: "a[31 := a ! 31 OR 1] = evm_u256_set_bit a 0"
  by (simp add: evm_u256_set_bit_def Let_def)

definition div_inv :: "'l \<Rightarrow> 'l \<Rightarrow> 'l \<Rightarrow> 'l \<Rightarrow> ('l \<Rightarrow> evm_u256) \<Rightarrow> nat \<Rightarrow> ('l \<Rightarrow> evm_u256) \<Rightarrow> bool" where
  "div_inv q r a b m0 i m \<longleftrightarrow> (\<forall>l. l \<noteq> q \<longrightarrow> l \<noteq> r \<longrightarrow> m l = m0 l) \<and> bytes_ok (m q) \<and> bytes_ok (m r)
     \<and> bval (m r) = bval (m0 a) div 2 ^ i mod bval (m0 b)
     \<and> bval (m q) = bval (m0 a) div 2 ^ i div bval (m0 b) * 2 ^ i"

lemma div_mod_bit_inv:
  assumes d: "q \<noteq> r" "a \<noteq> q" "a \<noteq> r" "b \<noteq> q" "b \<noteq> r"
    and ok: "bytes_ok (m0 a)" "bytes_ok (m0 b)" and B: "0 < bval (m0 b)"
    and i: "i < 256" and I: "div_inv q r a b m0 (Suc i) m"
  shows "div_inv q r a b m0 i (div_mod_bit q r a b m i)"
proof -
  let ?A = "bval (m0 a)" and ?B = "bval (m0 b)"
  let ?Q = "?A div 2 ^ Suc i div ?B" and ?R = "?A div 2 ^ Suc i mod ?B"
  let ?t = "if bit ?A i then 1 else 0 :: nat"
  have m: "\<And>l. l \<noteq> q \<Longrightarrow> l \<noteq> r \<Longrightarrow> m l = m0 l" "bytes_ok (m q)" "bytes_ok (m r)"
    "bval (m r) = ?R" "bval (m q) = ?Q * 2 ^ Suc i"
    using I unfolding div_inv_def by auto
  have ma: "m a = m0 a" and mb: "m b = m0 b" using m(1) d by auto
  note step = long_division_step [OF B refl refl refl, of ?A i]
  have "?A div 2 ^ Suc i < 2 ^ 255"
    by (rule div_pow_less) (use bytes_bound [OF ok(1)] in \<open>simp only: M256_half\<close>)
  then have R: "2 * ?R < M256"
    using mod_less_eq_dividend [of "?A div 2 ^ Suc i" ?B] unfolding M256_half by linarith
  define r1 where "r1 = evm_u256_shl1 (m r)"
  define r2 where "r2 = (if bit ?A i then evm_u256_set_bit r1 0 else r1)"
  have r1: "bytes_ok r1" "bval r1 = 2 * ?R" using shl1_ok m(3) bval_shl1 R by (simp_all add: r1_def m(4))
  have r2: "bytes_ok r2" "bval r2 = 2 * ?R + ?t"
    using r1 set_fresh_bit [of "bval r1" 0] by (simp_all add: r2_def set_bit_ok bval_set_bit bit_0)
  have get: "evm_u256_get_bit ((m(r := r1)) a) i \<longleftrightarrow> bit ?A i"
    using d ma ok(1) i by (simp add: get_bit_iff)
  have ge: "0 \<le> evm_u256_cmp r2 (m0 b) \<longleftrightarrow> ?B \<le> 2 * ?R + ?t"
    using r2 ok(2) by (simp add: cmp_ge)
  have step_eq: "div_mod_bit q r a b m i
      = (if ?B \<le> 2 * ?R + ?t
         then m(r := lift_u256_sub r2 (m0 b), q := evm_u256_set_bit (m q) i) else m(r := r2))"
  proof -
    have "(if evm_u256_get_bit ((m(r := r1)) a) i
        then (m(r := r1))(r := ((m(r := r1)) r)[31 := (m(r := r1)) r ! 31 OR 1]) else m(r := r1)) = m(r := r2)"
      unfolding get by (simp add: r2_def or_low_bit)
    then show ?thesis
      unfolding div_mod_bit_def Let_def r1_def [symmetric] using d mb ge by simp
  qed
  have fresh: "\<not> bit (?Q * 2 ^ Suc i) i"
    using bit_push_bit_iff [of "Suc i" ?Q i] by (simp add: push_bit_eq_mult)
  show ?thesis
  proof (cases "?B \<le> 2 * ?R + ?t")
    case True
    have q: "bval (evm_u256_set_bit (m q) i) = ?Q * 2 ^ Suc i + 2 ^ i"
      using bval_set_bit [OF m(2) i] set_fresh_bit [OF fresh] by (simp only: m(5))
    have r: "bval (lift_u256_sub r2 (m0 b)) = 2 * ?R + ?t - ?B"
      using bval_sub_exact [OF r2(1) ok(2)] True by (simp only: r2(2))
    show ?thesis
      unfolding div_inv_def step_eq if_P [OF True]
      using step(3,4) True q r d m(1) set_bit_ok [OF m(2)] by (simp add: algebra_simps)
  next
    case False
    show ?thesis
      unfolding div_inv_def step_eq if_not_P [OF False]
      using step(3,4) False r2 d m by simp
  qed
qed

lemma rev_upt_256: "rev [0..<n] = map (\<lambda>j. n - 1 - j) [0..<n]"
  by (rule nth_equalityI) (simp_all add: rev_nth)

lemma div_mod_spec:
  assumes d: "q \<noteq> r" "a \<noteq> q" "a \<noteq> r" "b \<noteq> q" "b \<noteq> r"
    and ok: "bytes_ok (m0 a)" "bytes_ok (m0 b)"
  defines "m \<equiv> evm_u256_div_mod q r a b m0"
  shows "bval (m q) = bval (m0 a) div bval (m0 b)"
    "bval (m r) = (if bval (m0 b) = 0 then 0 else bval (m0 a) mod bval (m0 b))"
    "bytes_ok (m q)" "bytes_ok (m r)" "\<And>l. l \<noteq> q \<Longrightarrow> l \<noteq> r \<Longrightarrow> m l = m0 l"
proof -
  let ?m = "m0(q := zero32, r := zero32)"
  have z: "lift_u256_is_zero (?m b) \<longleftrightarrow> bval (m0 b) = 0" using d ok by (simp add: is_zero_iff)
  have all: "bval (m q) = bval (m0 a) div bval (m0 b)
    \<and> bval (m r) = (if bval (m0 b) = 0 then 0 else bval (m0 a) mod bval (m0 b))
    \<and> bytes_ok (m q) \<and> bytes_ok (m r) \<and> (\<forall>l. l \<noteq> q \<longrightarrow> l \<noteq> r \<longrightarrow> m l = m0 l)"
  proof (cases "bval (m0 b) = 0")
    case True
    have "m = ?m"
      unfolding m_def evm_u256_div_mod_def Let_def if_P [OF z [THEN iffD2, OF True]] by (rule refl)
    then show ?thesis using True d by simp
  next
    case False
    have m: "m = foldl (\<lambda>t j. div_mod_bit q r a b t (255 - j)) ?m [0..<256]"
      unfolding m_def evm_u256_div_mod_def Let_def if_not_P [OF z [THEN Not_eq_iff [THEN iffD2], THEN iffD2, OF False]]
        rev_upt_256 foldl_map by simp
    have "bval (m0 a) < 2 ^ 256" using bytes_bound [OF ok(1)] by (simp add: M256_def)
    then have "bval (m0 a) div 2 ^ 256 = 0" by (rule div_less)
    then have I0: "div_inv q r a b m0 (256 - 0) ?m"
      unfolding div_inv_def using d by simp
    have "div_inv q r a b m0 (256 - 256) m"
      unfolding m
    proof (rule foldl_upt_invariant [where P = "\<lambda>j. div_inv q r a b m0 (256 - j)", OF I0])
      fix j t assume j: "j < 256" and I: "div_inv q r a b m0 (256 - j) t"
      have "Suc (255 - j) = 256 - j" "256 - Suc j = 255 - j" using j by simp_all
      then show "div_inv q r a b m0 (256 - Suc j) (div_mod_bit q r a b t (255 - j))"
        using div_mod_bit_inv [where m = t and i = "255 - j", OF d ok] False I j by simp
    qed
    then show ?thesis unfolding div_inv_def using False by simp
  qed
  then show "bval (m q) = bval (m0 a) div bval (m0 b)"
    "bval (m r) = (if bval (m0 b) = 0 then 0 else bval (m0 a) mod bval (m0 b))"
    "bytes_ok (m q)" "bytes_ok (m r)" "\<And>l. l \<noteq> q \<Longrightarrow> l \<noteq> r \<Longrightarrow> m l = m0 l"
    by blast+
qed


lemmas bval_facts = bval_add bval_sub bval_mul bval_shl1 bval_zero32 bval_one32

lemma div_mod_vals_spec:
  assumes "bytes_ok a" "bytes_ok b"
  shows "bval (fst (div_mod_vals a b)) = bval a div bval b"
    "bval (snd (div_mod_vals a b)) = (if bval b = 0 then 0 else bval a mod bval b)"
    "bytes_ok (fst (div_mod_vals a b))" "bytes_ok (snd (div_mod_vals a b))"
  using div_mod_spec [of L_q L_r L_a L_b "store4 a b"] assms
  by (simp_all add: div_mod_vals_def store4_def Let_def)

subsection \<open>Negation and signed division\<close>

lemma negate_ok [simp]: "bytes_ok (evm_u256_negate a)"
  by (simp add: evm_u256_negate_def)

lemma bval_negate: "bytes_ok a \<Longrightarrow> bval (evm_u256_negate a) = (M256 - bval a) mod M256"
proof -
  assume a: "bytes_ok a"
  have ok: "bytes_ok (map NOT a)" using a by (simp add: bytes_ok_def)
  have "M256 - 1 - bval a + 1 = M256 - bval a" using bytes_bound [OF a] by simp
  then show ?thesis
    unfolding evm_u256_negate_def map_nth_32 [OF a] bval_add [OF ok one32_ok] bval_not_ok [OF a] by simp
qed

lemma bval_abs:
  assumes "bytes_ok a"
  shows "int (bval (if evm_u256_is_negative a then evm_u256_negate a else a)) = \<bar>sval256 (bval a)\<bar>"
proof -
  have b: "bval a < 2 * 2 ^ 255" using bytes_bound [OF assms] unfolding M256_half .
  show ?thesis
  proof (cases "evm_u256_is_negative a")
    case True
    then have h: "2 ^ 255 \<le> bval a" by (simp only: is_negative_iff [OF assms])
    then have "(M256 - bval a) mod M256 = M256 - bval a" unfolding M256_half by simp
    then show ?thesis
      using True h b bval_negate [OF assms] unfolding sval256_def signed_of_def M256_half
      by (simp add: of_nat_diff)
  next
    case False
    then show ?thesis using is_negative_iff [OF assms] by (simp add: sval256_def signed_of_def)
  qed
qed

lemma sval_of_small: "v < 2 ^ 255 \<Longrightarrow> sval256 v = int v"
  by (simp add: sval256_def signed_of_def)

lemma sval_of_neg: "v \<le> 2 ^ 255 \<Longrightarrow> sval256 ((M256 - v) mod M256) = - int v"
proof -
  assume v: "v \<le> 2 ^ 255"
  show ?thesis
  proof (cases "v = 0")
    case False
    then have "(M256 - v) mod M256 = M256 - v" unfolding M256_half by simp
    then show ?thesis using v False unfolding sval256_def signed_of_def M256_half
      by (simp add: of_nat_diff)
  qed (simp add: sval256_def signed_of_def)
qed

text \<open>Truncating division of the signed values, from the quotient of the magnitudes.\<close>

lemma sdiv_smod_spec:
  assumes ok: "bytes_ok a" "bytes_ok b" and nz: "bval b \<noteq> 0"
  defines "x \<equiv> sval256 (bval a)" and "y \<equiv> sval256 (bval b)"
  shows "\<not> (x = - (2 ^ 255) \<and> y = -1)
      \<Longrightarrow> sval256 (bval (fst (evm_u256_sdiv_smod a b))) = x sdiv y"
    "x = - (2 ^ 255) \<Longrightarrow> y = -1 \<Longrightarrow> fst (evm_u256_sdiv_smod a b) = a"
    "sval256 (bval (snd (evm_u256_sdiv_smod a b))) = x smod y"
proof -
  let ?A = "if evm_u256_is_negative a then evm_u256_negate a else a"
  let ?B = "if evm_u256_is_negative b then evm_u256_negate b else b"
  define q where "q = fst (div_mod_vals ?A ?B)"
  define r where "r = snd (div_mod_vals ?A ?B)"
  have okAB: "bytes_ok ?A" "bytes_ok ?B" using ok by simp_all
  have A: "int (bval ?A) = \<bar>x\<bar>" and B: "int (bval ?B) = \<bar>y\<bar>"
    using bval_abs ok by (simp_all only: x_def y_def)
  have xb: "- (2 ^ 255) \<le> x" "x < 2 ^ 255" using sval256_bounds [OF bytes_bound [OF ok(1)]] by (simp_all add: x_def)
  have y0: "y \<noteq> 0"
    using nz bytes_bound [OF ok(2)] by (auto simp: y_def sval256_def signed_of_def M256_def)
  have na: "evm_u256_is_negative a \<longleftrightarrow> x < 0" and nb: "evm_u256_is_negative b \<longleftrightarrow> y < 0"
    by (simp_all only: x_def y_def is_negative_sval ok)
  have res: "evm_u256_sdiv_smod a b = (if (x < 0) \<noteq> (y < 0) then evm_u256_negate q else q,
      if x < 0 then evm_u256_negate r else r)"
    using nz by (simp add: evm_u256_sdiv_smod_def is_zero_iff [OF ok(2)] Let_def case_prod_beta
        q_def r_def na nb)
  note dm = div_mod_vals_spec [OF okAB]
  have okqr: "bytes_ok q" "bytes_ok r" using dm by (simp_all only: q_def r_def)
  have q: "int (bval q) = \<bar>x\<bar> div \<bar>y\<bar>"
    using dm(1) A B by (simp only: q_def of_nat_div)
  have "bval ?B \<noteq> 0" using B y0 by auto
  then have r: "int (bval r) = \<bar>x\<bar> mod \<bar>y\<bar>"
    using dm(2) A B by (simp only: r_def of_nat_mod if_False)
  have qle: "\<bar>x\<bar> div \<bar>y\<bar> \<le> \<bar>x\<bar>"
    using div_le_dividend [of "nat \<bar>x\<bar>" "nat \<bar>y\<bar>"] by (simp add: nat_div_distrib [symmetric])
  have xa: "\<bar>x\<bar> \<le> 2 ^ 255" using xb by (simp add: abs_le_iff)
  have q255: "bval q \<le> 2 ^ 255"
  proof -
    have "int (bval q) \<le> 2 ^ 255" unfolding q using qle xa by (rule order_trans)
    then show ?thesis by simp
  qed
  have r255: "bval r < 2 ^ 255"
  proof -
    have "\<bar>x\<bar> mod \<bar>y\<bar> < \<bar>y\<bar>" using y0 by simp
    moreover have "\<bar>y\<bar> \<le> 2 ^ 255"
      using sval256_bounds [OF bytes_bound [OF ok(2)]] by (simp add: y_def abs_le_iff)
    ultimately have "int (bval r) < 2 ^ 255" unfolding r by (rule less_le_trans)
    then show ?thesis by simp
  qed
  have sd: "x sdiv y = (if (x < 0) \<noteq> (y < 0) then - (\<bar>x\<bar> div \<bar>y\<bar>) else \<bar>x\<bar> div \<bar>y\<bar>)"
    using y0 by (cases "x = 0") (auto simp: signed_divide_int_def sgn_if)
  have sm: "x smod y = (if x < 0 then - (\<bar>x\<bar> mod \<bar>y\<bar>) else \<bar>x\<bar> mod \<bar>y\<bar>)"
    using y0 by (cases "x = 0") (auto simp: signed_modulo_int_def sgn_if)
  show "sval256 (bval (snd (evm_u256_sdiv_smod a b))) = x smod y"
    unfolding res sm using r r255 bval_negate [OF okqr(2)] sval_of_neg [of "bval r"] sval_of_small [of "bval r"]
    by simp
  {
    assume n: "\<not> (x = - (2 ^ 255) \<and> y = -1)"
    have "bval q < 2 ^ 255" if "(x < 0) = (y < 0)"
    proof -
      have "\<bar>x\<bar> div \<bar>y\<bar> < 2 ^ 255"
      proof (cases "\<bar>x\<bar> = 2 ^ 255")
        case True
        then have "x = - (2 ^ 255)" using xb by auto
        then have "y < 0" "y \<noteq> -1" using that n by auto
        then have "2 \<le> \<bar>y\<bar>" by simp
        then have "\<bar>x\<bar> div \<bar>y\<bar> \<le> 2 ^ 255 div 2" unfolding True by (intro zdiv_mono2) simp_all
        also have "\<dots> < 2 ^ 255" by simp
        finally show ?thesis .
      next
        case False
        then have "\<bar>x\<bar> < 2 ^ 255" using xa by linarith
        with qle show ?thesis by (rule le_less_trans)
      qed
      then have "int (bval q) < 2 ^ 255" unfolding q .
      then show ?thesis by simp
    qed
    then show "sval256 (bval (fst (evm_u256_sdiv_smod a b))) = x sdiv y"
      unfolding res sd using q q255 bval_negate [OF okqr(1)] sval_of_neg [of "bval q"] sval_of_small [of "bval q"]
      by simp
  next
    assume "x = - (2 ^ 255)" "y = -1"
    then have "int (bval q) = 2 ^ 255" using q by simp
    moreover have "bval a = 2 ^ 255"
      using \<open>x = - (2 ^ 255)\<close> bytes_bound [OF ok(1)]
      by (auto simp: x_def sval256_def signed_of_def M256_def split: if_splits)
    ultimately have "int (bval q) = int (bval a)" by simp
    then have "bval q = bval a" by (simp only: of_nat_eq_iff)
    then have "q = a" by (rule bytes_eqI [OF okqr(1) ok(1)])
    then show "fst (evm_u256_sdiv_smod a b) = a"
      unfolding res using \<open>x = - (2 ^ 255)\<close> \<open>y = -1\<close> by simp
  }
qed


subsection \<open>Modular addition\<close>

text \<open>When the remainder is the dividend's own object it is cleared before the dividend is read:
  the division sees a zero dividend.\<close>

lemma div_mod_aliased:
  assumes d: "q \<noteq> c" "n \<noteq> q" "n \<noteq> c" and ok: "bytes_ok (m0 n)" and N: "bval (m0 n) \<noteq> 0"
  shows "evm_u256_div_mod q c c n m0 = m0(q := zero32, c := zero32)"
proof -
  let ?m = "m0(q := zero32, c := zero32)"
  have sz: "evm_u256_shl1 zero32 = zero32"
    by (rule bytes_eqI) (simp_all add: shl1_ok bval_shl1)
  have step: "div_mod_bit q c c n ?m i = ?m" if i: "i < 256" for i
  proof -
    have "\<not> evm_u256_get_bit zero32 i" using i by (simp add: get_bit_iff)
    moreover have "\<not> 0 \<le> evm_u256_cmp zero32 (m0 n)" using ok N by (simp add: cmp_ge)
    ultimately show ?thesis unfolding div_mod_bit_def Let_def using d sz by simp
  qed
  have "foldl (div_mod_bit q c c n) ?m is = ?m" if "list_all (\<lambda>i. i < 256) is" for "is"
    using that by (induction "is") (simp_all add: step del: fun_upd_apply)
  moreover have "list_all (\<lambda>i. i < 256) (rev [0..<256::nat])"
    unfolding list_all_iff by simp
  moreover have "\<not> lift_u256_is_zero (?m n)" using d ok N by (simp add: is_zero_iff)
  ultimately show ?thesis unfolding evm_u256_div_mod_def Let_def by (simp del: upt.simps rev.simps)
qed

lemma addmod_carry_spec:
  assumes "bytes_ok (m L_n)" "bval (m L_n) \<noteq> 0" "bytes_ok (m L_r)"
  shows "bytes_ok (addmod_carry m L_dst) \<and> bval (addmod_carry m L_dst) = bval (m L_r) mod bval (m L_n)"
proof -
  let ?m1 = "m(L_max256 := replicate 32 0xFF, L_one := one32)"
  let ?m2 = "evm_u256_div_mod L_q L_r_max L_max256 L_n ?m1"
  have ok1: "bytes_ok (?m1 L_max256)" "bytes_ok (?m1 L_n)" using assms by (simp_all add: bytes_ok_def)
  have m2: "?m2 L_r = m L_r" "?m2 L_n = m L_n" "?m2 L_one = one32"
    using div_mod_spec(5) [of L_q L_r_max L_max256 L_n ?m1, OF _ _ _ _ _ ok1] by simp_all
  let ?m3 = "?m2(L_carry_mod := fst (lift_u256_add (?m2 L_r_max) (?m2 L_one)))"
  let ?m4 = "evm_u256_div_mod L_q L_carry_mod L_carry_mod L_n ?m3"
  have m4e: "?m4 = ?m3(L_q := zero32, L_carry_mod := zero32)"
    by (rule div_mod_aliased) (use m2 assms in simp_all)
  have m4: "?m4 L_r = m L_r" "?m4 L_n = m L_n" "?m4 L_carry_mod = zero32"
    unfolding m4e using m2 by simp_all
  have s: "fst (lift_u256_add (m L_r) zero32) = m L_r"
    using assms by (intro bytes.add_zero)
  let ?m5 = "?m4(L_r := fst (lift_u256_add (?m4 L_r) (?m4 L_carry_mod)))"
  have m5: "?m5 L_r = m L_r" "?m5 L_n = m L_n" using m4 s by simp_all
  have fin: "addmod_carry m = evm_u256_div_mod L_q L_dst L_r L_n ?m5"
    unfolding addmod_carry_def Let_def ..
  show ?thesis
    unfolding fin using div_mod_spec(2,4) [of L_q L_dst L_r L_n ?m5] m5 assms by simp
qed

lemma addmod_value:
  assumes ok: "bytes_ok a" "bytes_ok b" "bytes_ok n"
  shows "bytes_ok (evm_u256_addmod a b n)
     \<and> bval (evm_u256_addmod a b n) = (if bval n = 0 then 0 else (bval a + bval b) mod M256 mod bval n)"
proof (cases "bval n = 0")
  case True
  then show ?thesis using ok by (simp add: evm_u256_addmod_def Let_def is_zero_iff)
next
  case False
  let ?m0 = "(\<lambda>_. zero32)(L_a := a, L_b := b, L_n := n)"
  define s where "s = fst (lift_u256_add a b)"
  define carry where "carry = snd (lift_u256_add a b)"
  let ?m1 = "?m0(L_sum := s)"
  let ?m2 = "evm_u256_div_mod L_q L_r L_sum L_n ?m1"
  have s: "bytes_ok s" "bval s = (bval a + bval b) mod M256" using ok by (simp_all add: s_def bval_add)
  have m2: "bval (?m2 L_r) = bval s mod bval n" "bytes_ok (?m2 L_r)" "?m2 L_n = n"
  proof -
    have o1: "bytes_ok (?m1 L_sum)" "bytes_ok (?m1 L_n)" using s(1) ok(3) by simp_all
    have d: "L_q \<noteq> L_r" "L_sum \<noteq> L_q" "L_sum \<noteq> L_r" "L_n \<noteq> L_q" "L_n \<noteq> L_r" by simp_all
    show "bval (?m2 L_r) = bval s mod bval n"
      unfolding div_mod_spec(2) [of L_q L_r L_sum L_n ?m1, OF d o1] using False by simp
    show "bytes_ok (?m2 L_r)" by (rule div_mod_spec(4) [of L_q L_r L_sum L_n ?m1, OF d o1])
    show "?m2 L_n = n" unfolding div_mod_spec(5) [of L_q L_r L_sum L_n ?m1, OF d o1 d(4,5)] by simp
  qed
  have res: "evm_u256_addmod a b n = (if carry then addmod_carry ?m2 L_dst else ?m2 L_r)"
  proof -
    have z: "\<not> lift_u256_is_zero (?m0 L_n)" using False ok by (simp add: is_zero_iff)
    have l: "?m0 L_a = a" "?m0 L_b = b" by simp_all
    show ?thesis
      unfolding evm_u256_addmod_def Let_def if_not_P [OF z] case_prod_beta l s_def carry_def by (rule refl)
  qed
  have c: "bytes_ok (addmod_carry ?m2 L_dst) \<and> bval (addmod_carry ?m2 L_dst) = bval s mod bval n"
    using addmod_carry_spec [of ?m2] m2 ok False by simp
  show ?thesis unfolding res using c m2 False s by simp
qed

subsection \<open>Modular multiplication\<close>

lemma limb3_div: "unat (limb3 p) = uval p div 2 ^ 192"
proof -
  obtain a b c d where p: "p = UInt256 a b c d" by (cases p)
  have "uval p = unat d * 2 ^ 192 + (unat a + 2 ^ 64 * unat b + 2 ^ 128 * unat c)"
    by (simp add: p uval_def)
  moreover have "unat a + 2 ^ 64 * unat b + 2 ^ 128 * unat c < 2 ^ 192"
    using unat_lt_64 [of a] unat_lt_64 [of b] unat_lt_64 [of c] by simp
  ultimately show ?thesis by (simp add: p)
qed

lemma rough_carry:
  assumes "A < M" "B \<le> M - W" "B < M" "0 < W" "W \<le> (M :: nat)"
  shows "(A + B) mod M div W < A div W \<longleftrightarrow> M \<le> A + B"
proof (cases "M \<le> A + B")
  case True
  then have e: "(A + B) mod M = A + B - M" using assms by (intro mod_once) simp_all
  have "A + B - M + W \<le> A" using assms True by linarith
  then have "(A + B - M + W) div W \<le> A div W" by (rule div_le_mono)
  moreover have "(A + B - M + W) div W = (A + B - M) div W + 1" using assms(4) by (intro div_add_self2) simp
  ultimately show ?thesis using True unfolding e by simp
next
  case False
  then have "(A + B) mod M = A + B" by simp
  moreover have "A div W \<le> (A + B) div W" by (rule div_le_mono) simp
  ultimately show ?thesis using False by simp
qed

lemma add_flag:
  "bytes_ok a \<Longrightarrow> bytes_ok b
   \<Longrightarrow> snd (lift_u256_add a b) \<longleftrightarrow> (bval a + bval b) mod M256 div 2 ^ 192 < bval a div 2 ^ 192"
  by (simp only: lift_u256_add_def Let_def snd_conv word_less_nat_alt limb3_div limbs.add_val
      uval_to_physics)

lemma add_carry_iff:
  assumes "bytes_ok a" "bytes_ok b" "bval b \<le> M256 - 2 ^ 192"
  shows "snd (lift_u256_add a b) \<longleftrightarrow> M256 \<le> bval a + bval b"
proof -
  have "snd (lift_u256_add a b) \<longleftrightarrow> (bval a + bval b) mod M256 div 2 ^ 192 < bval a div 2 ^ 192"
    by (rule add_flag [OF assms(1,2)])
  also have "\<dots> \<longleftrightarrow> M256 \<le> bval a + bval b"
    by (rule rough_carry) (use assms bytes_bound in \<open>simp_all add: M256_def\<close>)
  finally show ?thesis .
qed

lemma mulmod_reduce_value:
  assumes ok: "bytes_ok x" "bytes_ok y" "bytes_ok n" and lt: "bval x < bval n" "bval y < bval n"
    and N: "bval n \<le> M256 - 2 ^ 192"
  shows "bytes_ok (mulmod_reduce n (lift_u256_add x y))
    \<and> bval (mulmod_reduce n (lift_u256_add x y)) = (bval x + bval y) mod bval n"
proof -
  let ?s = "fst (lift_u256_add x y)"
  have carry: "snd (lift_u256_add x y) \<longleftrightarrow> M256 \<le> bval x + bval y"
    by (rule add_carry_iff [OF ok(1,2)]) (use lt N in simp)
  have s: "bval ?s = (bval x + bval y) mod M256" using ok by (simp add: bval_add)
  have nM: "bval n < M256" by (rule bytes_bound [OF ok(3)])
  consider "M256 \<le> bval x + bval y" | "bval n \<le> bval x + bval y" "bval x + bval y < M256"
    | "bval x + bval y < bval n" using nM by linarith
  then show ?thesis
  proof cases
    case 1
    have "bval ?s = bval x + bval y - M256" unfolding s by (rule mod_once) (use 1 lt nM in simp_all)
    then have "M256 + bval ?s - bval n = bval x + bval y - bval n" using 1 by simp
    moreover have "bval x + bval y - bval n < M256" using lt nM by simp
    moreover have "(bval x + bval y) mod bval n = bval x + bval y - bval n"
      by (rule mod_once) (use 1 lt nM in simp_all)
    ultimately have "bval (lift_u256_sub ?s n) = (bval x + bval y) mod bval n"
      unfolding bval_sub [OF lift_add_ok ok(3)] by simp
    then show ?thesis using 1 carry by (simp add: mulmod_reduce_def case_prod_beta)
  next
    case 2
    then have "bval ?s = bval x + bval y" using s by simp
    moreover have "(bval x + bval y) mod bval n = bval x + bval y - bval n"
      by (rule mod_once) (use 2 lt in simp_all)
    ultimately show ?thesis using 2 carry ok
      by (simp add: mulmod_reduce_def case_prod_beta cmp_ge bval_sub_exact)
  next
    case 3
    then have "bval ?s = bval x + bval y" using s nM by simp
    then show ?thesis using 3 carry ok nM by (simp add: mulmod_reduce_def case_prod_beta cmp_ge)
  qed
qed

lemma mulmod_step_arith:
  fixes B N R :: nat
  shows "(2 * (R * (B div 2 ^ Suc i) mod N) mod N + (if bit B i then R else 0)) mod N
    = R * (B div 2 ^ i) mod N"
proof -
  have e: "B div 2 ^ i = 2 * (B div 2 ^ Suc i) + (if bit B i then 1 else 0)"
    using long_division_step(1) [of 1 0 B i "B div 2 ^ Suc i" "if bit B i then 1 else 0"] by simp
  have k: "(2 * (R * X mod N) mod N + t) mod N = (R * (2 * X) + t) mod N" for X t
    by (simp add: mod_simps ac_simps)
  show ?thesis unfolding k e distrib_left by simp
qed

lemma mulmod_value:
  assumes ok: "bytes_ok a" "bytes_ok b" "bytes_ok n" and N: "bval n \<le> M256 - 2 ^ 192"
  shows "bytes_ok (evm_u256_mulmod a b n)
     \<and> bval (evm_u256_mulmod a b n) = (if bval n = 0 then 0 else bval a * bval b mod bval n)"
proof (cases "bval n = 0")
  case True
  then show ?thesis using ok by (simp add: evm_u256_mulmod_def is_zero_iff)
next
  case False
  let ?am = "snd (div_mod_vals a n)"
  have am: "bytes_ok ?am" "bval ?am = bval a mod bval n" using div_mod_vals_spec ok False by simp_all
  let ?P = "\<lambda>i r. bytes_ok r \<and> bval r = bval a mod bval n * (bval b div 2 ^ i) mod bval n"
  have res: "evm_u256_mulmod a b n = foldl (\<lambda>t j. mulmod_bit ?am b n t (255 - j)) zero32 [0..<256]"
    using False ok unfolding evm_u256_mulmod_def rev_upt_256 foldl_map by (simp add: is_zero_iff)
  have "?P (256 - 256) (evm_u256_mulmod a b n)"
    unfolding res
  proof (rule foldl_upt_invariant [where P = "\<lambda>j. ?P (256 - j)"])
    have "bval b div 2 ^ 256 = 0" using bytes_bound [OF ok(2)] unfolding M256_def by (rule div_less)
    then show "?P (256 - 0) zero32" by simp
  next
    fix j t assume j: "j < 256" and P: "?P (256 - j) t"
    let ?i = "255 - j"
    have i: "256 - j = Suc ?i" "256 - Suc j = ?i" "?i < 256" using j by simp_all
    have t: "bytes_ok t" "bval t = bval a mod bval n * (bval b div 2 ^ Suc ?i) mod bval n"
      using P unfolding i by blast+
    have tn: "bval t < bval n" "bval ?am < bval n" using False unfolding t am by simp_all
    have d: "bytes_ok (mulmod_reduce n (lift_u256_add t t))"
      "bval (mulmod_reduce n (lift_u256_add t t)) = 2 * bval t mod bval n"
      using mulmod_reduce_value [OF t(1) t(1) ok(3) tn(1) tn(1) N] by (simp_all add: mult_2)
    have dn: "bval (mulmod_reduce n (lift_u256_add t t)) < bval n" unfolding d(2) using False by simp
    note e = mulmod_reduce_value [OF d(1) am(1) ok(3) dn tn(2) N]
    have "bytes_ok (mulmod_bit ?am b n t ?i) \<and> bval (mulmod_bit ?am b n t ?i)
        = (2 * bval t mod bval n + (if bit (bval b) ?i then bval ?am else 0)) mod bval n"
      unfolding mulmod_bit_def Let_def get_bit_iff [OF ok(2) i(3)] using d e by simp
    then show "?P (256 - Suc j) (mulmod_bit ?am b n t ?i)"
      unfolding i(2) t(2) am(2) using mulmod_step_arith [of "bval a mod bval n" "bval b" ?i "bval n"] by simp
  qed
  then show ?thesis using False by (simp add: mod_mult_left_eq)
qed

subsection \<open>The value of the exponentiation\<close>

lemma exp_value:
  assumes ok: "bytes_ok a" "bytes_ok e"
  shows "bytes_ok (evm_u256_exp a e) \<and> bval (evm_u256_exp a e) = bval a ^ bval e mod M256"
proof -
  let ?f = "\<lambda>(result, b) i. (if evm_u256_get_bit e i then lift_u256_mul result b else result, lift_u256_mul b b)"
  let ?P = "\<lambda>i (r, b). bytes_ok r \<and> bytes_ok b \<and> bval r = bval a ^ (bval e mod 2 ^ i) mod M256
     \<and> bval b = bval a ^ (2 ^ i) mod M256"
  have "?P 256 (foldl ?f (one32, a) [0..<256])"
  proof (rule foldl_upt_invariant [where P = ?P])
    show "?P 0 (one32, a)" using ok bytes_bound [OF ok(1)] by (simp add: M256_def)
  next
    fix i t assume i: "i < 256" and P: "?P i t"
    obtain r b where t: "t = (r, b)" by (cases t)
    have p: "bytes_ok r" "bytes_ok b" "bval r = bval a ^ (bval e mod 2 ^ i) mod M256"
      "bval b = bval a ^ (2 ^ i) mod M256" using P unfolding t by auto
    have sq: "bval (lift_u256_mul b b) = bval a ^ (2 ^ Suc i) mod M256"
      unfolding bval_mul [OF p(2) p(2)] p(4) by (simp add: mod_simps power_mult power2_eq_square mult.commute [of 2] flip: power_mult_distrib)
    have mm: "bval e mod 2 ^ Suc i = bval e mod 2 ^ i + (if bit (bval e) i then 2 ^ i else 0)"
      using mod_mult2_eq [of "bval e" "2 ^ i" 2] by (simp add: bit_iff_odd mod2_eq_if mult.commute)
    show "?P (Suc i) (?f t i)"
      unfolding t prod.case get_bit_iff [OF ok(2) i] mm
      using p sq by (simp add: bval_mul mod_simps power_add)
  qed
  moreover have "bval e mod 2 ^ 256 = bval e" using bytes_bound [OF ok(2)] unfolding M256_def by (rule mod_less)
  ultimately show ?thesis unfolding evm_u256_exp_def by (simp add: case_prod_beta)
qed


subsection \<open>Properties\<close>

text \<open>C9: \<^verbatim>\<open>evm_u256_div_mod\<close> on distinct objects gives the quotient and the remainder (zero for a zero
  divisor, as the EVM wants), and \<^verbatim>\<open>evm_u256_sdiv_smod\<close> the truncating signed ones; the quotient of
  the least number by -1 is that number again.\<close>

theorem evm_division_exact:
  assumes "bytes_ok a" and "bytes_ok b"
  shows "bval (fst (div_mod_vals a b)) = bval a div bval b
    \<and> bval (snd (div_mod_vals a b)) = (if bval b = 0 then 0 else bval a mod bval b)
    \<and> (if bval b = 0 then evm_u256_sdiv_smod a b = (zero32, zero32)
       else (if sval256 (bval a) = - (2 ^ 255) \<and> sval256 (bval b) = -1
             then fst (evm_u256_sdiv_smod a b) = a
             else sval256 (bval (fst (evm_u256_sdiv_smod a b))) = sval256 (bval a) sdiv sval256 (bval b))
            \<and> sval256 (bval (snd (evm_u256_sdiv_smod a b))) = sval256 (bval a) smod sval256 (bval b))"
proof (cases "bval b = 0")
  case True
  then show ?thesis
    using div_mod_vals_spec [OF assms] by (simp add: evm_u256_sdiv_smod_def is_zero_iff assms)
next
  case False
  then show ?thesis
    using div_mod_vals_spec [OF assms] sdiv_smod_spec [OF assms False] by simp
qed

theorem evm_division_exact_witness:
  "sval256 (bval (fst (evm_u256_sdiv_smod (replicate 31 0xFF @ [0xF9]) (zero32[31 := 2])))) = -3
   \<and> sval256 (bval (snd (evm_u256_sdiv_smod (replicate 31 0xFF @ [0xF9]) (zero32[31 := 2])))) = -1"
proof -
  have "M256 - 256 + 249 = M256 - 7" by (simp add: M256_def)
  then have a: "bytes_ok (replicate 31 0xFF @ [0xF9 :: u8])" "sval256 (bval (replicate 31 0xFF @ [0xF9 :: u8])) = -7"
    using bval_near_top [of "0xF9"] sval_top [of 7] by simp_all
  have b: "bytes_ok (zero32[31 := 2])" "bval (zero32[31 := 2]) = 2" "sval256 2 = 2"
    using bval_last_byte [of 2] sval_of_small [of 2] by simp_all
  have d: "(-7 :: int) sdiv 2 = -3" "(-7 :: int) smod 2 = -1"
    by (simp_all add: signed_divide_int_def signed_modulo_int_def)
  show ?thesis using evm_division_exact [OF a(1) b(1)] unfolding a(2) b(2,3) d by simp
qed

text \<open>\<^verbatim>\<open>evm_u256_addmod\<close> reduces the sum modulo 2^256, because the branch that should add the
  carry divides an object into itself: it is the EVM's \<^verbatim>\<open>ADDMOD\<close> exactly when the sum does not
  overflow or the modulus divides 2^256 (or is zero).\<close>

lemma evm_addmod_exact_iff:
  assumes "bytes_ok a" and "bytes_ok b" and "bytes_ok n"
  shows "bval (evm_u256_addmod a b n) = (if bval n = 0 then 0 else (bval a + bval b) mod bval n)
    \<longleftrightarrow> bval n = 0 \<or> bval a + bval b < M256 \<or> bval n dvd M256"
proof -
  have v: "bval (evm_u256_addmod a b n)
      = (if bval n = 0 then 0 else (bval a + bval b) mod M256 mod bval n)"
    using addmod_value [OF assms] by blast
  have "(s :: nat) mod M mod N = s mod N \<longleftrightarrow> N dvd M" if "M \<le> s" "s < 2 * M" for s M N
  proof -
    have "s mod M = s - M" using that by (intro mod_once)
    moreover have "(s - M) mod N = s mod N \<longleftrightarrow> N dvd s - (s - M)"
      using mod_eq_dvd_iff_nat [of "s - M" s N] by auto
    ultimately show ?thesis using that by simp
  qed
  moreover have "bval a + bval b < 2 * M256"
    using bytes_bound [OF assms(1)] bytes_bound [OF assms(2)] by simp
  ultimately show ?thesis unfolding v by (cases "bval a + bval b < M256") auto
qed

lemma evm_addmod_exact_iff_witness:
  "bval (evm_u256_addmod ff32 one32 (zero32[31 := 7])) \<noteq> (bval ff32 + bval one32) mod 7"
proof -
  have n: "bytes_ok (zero32[31 := 7])" "bval (zero32[31 := 7]) = 7" using bval_last_byte [of 7] by simp_all
  have "\<not> 7 dvd M256" by (simp add: M256_def)
  then show ?thesis
    using evm_addmod_exact_iff [OF ff32_ok one32_ok n(1)] by (simp add: n(2) bval_ff32)
qed

text \<open>C10: \<^verbatim>\<open>evm_u256_mulmod\<close> is exact for every modulus up to 2^256 - 2^192, where its carry test on
  the top limbs is right, and \<^verbatim>\<open>evm_u256_exp\<close> is exponentiation modulo 2^256.\<close>

theorem evm_mulmod_exp_exact:
  assumes "bytes_ok a" and "bytes_ok b" and "bytes_ok n" and "bval n \<le> M256 - 2 ^ 192"
  shows "bval (evm_u256_mulmod a b n) = (if bval n = 0 then 0 else bval a * bval b mod bval n)
    \<and> bval (evm_u256_exp a b) = bval a ^ bval b mod M256"
  using mulmod_value [OF assms] exp_value [OF assms(1,2)] by blast

theorem evm_mulmod_exp_exact_witness:
  "bval (evm_u256_mulmod ff32 (zero32[31 := 3]) (zero32[31 := 7])) = 3
   \<and> bval (evm_u256_exp ff32 (zero32[31 := 3])) = M256 - 1"
proof -
  have n: "bytes_ok (zero32[31 := 7])" "bval (zero32[31 := 7]) = 7" using bval_last_byte [of 7] by simp_all
  have b: "bytes_ok (zero32[31 := 3])" "bval (zero32[31 := 3]) = 3" using bval_last_byte [of 3] by simp_all
  have m: "(M256 - 1) * 3 mod 7 = 3" by (simp add: M256_def)
  have e: "(M256 - 1) ^ 3 mod M256 = M256 - 1"
    unfolding power3_eq_cube by (simp add: M256_def)
  have l: "(7 :: nat) \<le> M256 - 2 ^ 192" by (simp add: M256_def)
  show ?thesis
    using evm_mulmod_exp_exact [OF ff32_ok b(1) n(1)] unfolding n(2) b(2) bval_ff32 m e using l by simp
qed

subsection \<open>A modulus near 2^256\<close>

lemma mulmod_zero_bits:
  assumes "bytes_ok n" "0 < bval n" "bytes_ok b" "list_all (\<lambda>i. i < 256 \<and> \<not> bit (bval b) i) is"
  shows "foldl (mulmod_bit am b n) zero32 is = zero32"
proof -
  have s: "fst (lift_u256_add zero32 zero32) = zero32" "\<not> snd (lift_u256_add zero32 zero32)"
    using bytes.add_zero [OF zero32_ok] by (simp_all add: add_flag)
  have "\<not> 0 \<le> evm_u256_cmp zero32 n" using assms by (simp add: cmp_ge)
  then have "mulmod_reduce n (lift_u256_add zero32 zero32) = zero32"
    using s by (simp add: mulmod_reduce_def case_prod_beta)
  then have step: "mulmod_bit am b n zero32 i = zero32" if "i < 256" "\<not> bit (bval b) i" for i
    using that assms(3) by (simp add: mulmod_bit_def Let_def get_bit_iff)
  show ?thesis using assms(4) by (induction "is") (simp_all add: step)
qed

definition minus2 :: evm_u256 where
  "minus2 = replicate 31 0xFF @ [0xFE]"

lemma minus2: "bytes_ok minus2" "bval minus2 = M256 - 2"
  using bval_near_top [of "0xFE"] by (simp_all add: minus2_def M256_def)

text \<open>For the modulus 2^256 - 1 the carry out of the doubling of 2^256 - 2 is not seen (the top
  limb of the sum equals the operand's), so \<^verbatim>\<open>evm_u256_mulmod\<close> of 2^256 - 2 and 2 is off by one.\<close>

lemma evm_mulmod_wrong:
  "bval (evm_u256_mulmod minus2 (zero32[31 := 2]) ff32) = M256 - 4
   \<and> bval minus2 * bval (zero32[31 := 2]) mod bval ff32 = M256 - 3"
proof -
  let ?b = "zero32[31 := 2 :: u8]"
  have b: "bytes_ok ?b" "bval ?b = 2" using bval_last_byte [of 2] by simp_all
  have bits: "bit (2 :: nat) i \<longleftrightarrow> i = 1" for i using bit_exp_iff [of 1 i] by (cases i) (auto simp: bit_simps)
  have g: "evm_u256_get_bit ?b 1" "\<not> evm_u256_get_bit ?b 0"
    using b by (simp_all only: get_bit_iff bits)
  have N: "bval ff32 = M256 - 1" by (rule bval_ff32)
  have am: "snd (div_mod_vals minus2 ff32) = minus2"
    using div_mod_vals_spec [OF minus2(1) ff32_ok] minus2
    by (intro bytes_eqI) (simp_all add: N M256_def)
  have up: "rev [0..<256] = rev [2..<256] @ [1, 0::nat]"
    by (simp add: upt_conv_Cons flip: upt_rec_numeral)
  have "list_all (\<lambda>i. i < 256 \<and> \<not> bit (bval ?b) i) (rev [2..<256])"
    unfolding b(2) bits list_all_iff by auto
  then have z: "foldl (mulmod_bit minus2 ?b ff32) zero32 (rev [2..<256]) = zero32"
    by (intro mulmod_zero_bits b ff32_ok) (simp_all add: N M256_def)
  have d0: "mulmod_reduce ff32 (lift_u256_add zero32 zero32) = zero32"
    using mulmod_zero_bits [of ff32 ?b "[0]" minus2] b
    by (simp add: N M256_def bits mulmod_bit_def get_bit_iff Let_def)
  have s1: "fst (lift_u256_add zero32 minus2) = minus2" "\<not> snd (lift_u256_add zero32 minus2)"
    using bytes.add_commute [of zero32 minus2] bytes.add_zero [of minus2] minus2 by (simp_all add: add_flag)
  have "\<not> 0 \<le> evm_u256_cmp minus2 ff32" using minus2 by (simp add: cmp_ge N M256_def)
  then have r1: "mulmod_bit minus2 ?b ff32 zero32 1 = minus2"
    unfolding mulmod_bit_def Let_def d0 if_P [OF g(1)] using s1 by (simp add: mulmod_reduce_def case_prod_beta)
  have s2: "bval (fst (lift_u256_add minus2 minus2)) = M256 - 4" "\<not> snd (lift_u256_add minus2 minus2)"
    using minus2 by (simp_all add: bval_add add_flag M256_def)
  then have "\<not> 0 \<le> evm_u256_cmp (fst (lift_u256_add minus2 minus2)) ff32"
    by (simp add: cmp_ge N M256_def)
  then have "mulmod_bit minus2 ?b ff32 minus2 0 = fst (lift_u256_add minus2 minus2)"
    unfolding mulmod_bit_def Let_def if_not_P [OF g(2)] using s2 by (simp add: mulmod_reduce_def case_prod_beta)
  then have "evm_u256_mulmod minus2 ?b ff32 = fst (lift_u256_add minus2 minus2)"
    unfolding evm_u256_mulmod_def am up foldl_append z using r1 by (simp add: is_zero_iff N M256_def)
  then show ?thesis using s2(1) minus2(2) b(2) by (simp add: N M256_def)
qed

end
