(* ===== verification/EvmShift.thy ===== *)
theory EvmShift
  imports EvmBytes
begin

text \<open>
  Byte selection, sign extension, narrowing and the three shifts of the lifter's constant folder
  (\<^verbatim>\<open>evm_u256_to_narrow\<close> to \<^verbatim>\<open>evm_u256_sar_op\<close> of \<^verbatim>\<open>evm_lifter.c\<close>). A shift moves whole
  bytes and then bits within them; the lemmas follow single bits through the byte arithmetic and
  conclude with the value: multiplication, division and floor division by a power of two.
\<close>

subsection \<open>Narrowing, byte selection, sign extension\<close>

definition evm_u256_to_narrow :: "evm_u256 \<Rightarrow> u64" where
  "evm_u256_to_narrow a = foldl (\<lambda>v i. push_bit 8 v OR ucast (a ! i)) 0 [24..<32]"

definition evm_u256_byte_op :: "evm_u256 \<Rightarrow> evm_u256 \<Rightarrow> evm_u256" where
  "evm_u256_byte_op pos v =
     (if list_ex (\<lambda>i. pos ! i \<noteq> 0) [0..<31] then zero32
      else let p = unat (pos ! 31)
           in if 32 \<le> p then zero32 else zero32[31 := v ! p])"

definition evm_u256_signextend_op :: "evm_u256 \<Rightarrow> evm_u256 \<Rightarrow> evm_u256" where
  "evm_u256_signextend_op b x =
     (if list_ex (\<lambda>i. b ! i \<noteq> 0) [0..<31] then x
      else let bval' = unat (b ! 31)
           in if 31 \<le> bval' then x
              else let byte_idx = 31 - bval';
                       sign_bit = drop_bit 7 (x ! byte_idx) AND 1 \<noteq> 0;
                       fill = (if sign_bit then 0xFF else 0x00);
                       filled = map (\<lambda>i. if i < byte_idx then fill else x ! i) [0..<32]
                   in filled[byte_idx := if sign_bit then filled ! byte_idx OR 0x80
                                         else filled ! byte_idx AND 0x7F])"

subsection \<open>Shifts\<close>

definition shl_byte :: "nat \<Rightarrow> nat \<Rightarrow> evm_u256 \<Rightarrow> nat \<Rightarrow> u8" where
  "shl_byte byte_shift bit_shift v i =
     (if i + byte_shift < 32 then
        let w = ucast (v ! (i + byte_shift)) :: u32
        in if bit_shift = 0 then ucast w
           else let hi = ucast (push_bit bit_shift w AND 0xFF) :: u8
                in if i + byte_shift + 1 < 32
                   then hi OR ucast (drop_bit (8 - bit_shift)
                                      (ucast (v ! (i + byte_shift + 1)) :: u32) AND 0xFF)
                   else hi
      else 0)"

definition evm_u256_shl_op :: "evm_u256 \<Rightarrow> evm_u256 \<Rightarrow> evm_u256" where
  "evm_u256_shl_op shift v =
     (if list_ex (\<lambda>i. shift ! i \<noteq> 0) [0..<31] then zero32
      else let s = unat (shift ! 31)
           in map (shl_byte (s div 8) (s mod 8) v) [0..<32])"

text \<open>The right shifts differ in what comes in at the top: zero, or the bytes \<^verbatim>\<open>fill\<close>.\<close>

definition shr_byte :: "nat \<Rightarrow> nat \<Rightarrow> evm_u256 \<Rightarrow> nat \<Rightarrow> u8" where
  "shr_byte byte_shift bit_shift v i =
     (if byte_shift \<le> i then
        let w = ucast (v ! (i - byte_shift)) :: u32
        in if bit_shift = 0 then ucast w
           else let lo = ucast (drop_bit bit_shift w AND 0xFF) :: u8
                in if byte_shift + 1 \<le> i
                   then lo OR ucast (push_bit (8 - bit_shift)
                                      (ucast (v ! (i - byte_shift - 1)) :: u32) AND 0xFF)
                   else lo
      else 0)"

definition evm_u256_shr_op :: "evm_u256 \<Rightarrow> evm_u256 \<Rightarrow> evm_u256" where
  "evm_u256_shr_op shift v =
     (if list_ex (\<lambda>i. shift ! i \<noteq> 0) [0..<31] then zero32
      else let s = unat (shift ! 31)
           in map (shr_byte (s div 8) (s mod 8) v) [0..<32])"

definition sar_byte :: "u8 \<Rightarrow> nat \<Rightarrow> nat \<Rightarrow> evm_u256 \<Rightarrow> nat \<Rightarrow> u8" where
  "sar_byte fill byte_shift bit_shift v i =
     (if byte_shift \<le> i then
        let w = ucast (v ! (i - byte_shift)) :: u32
        in if bit_shift = 0 then ucast w
           else let lo = ucast (drop_bit bit_shift w AND 0xFF) :: u8
                in lo OR ucast (push_bit (8 - bit_shift)
                     (ucast (if byte_shift + 1 \<le> i then v ! (i - byte_shift - 1) else fill) :: u32)
                     AND 0xFF)
      else fill)"

definition evm_u256_sar_op :: "evm_u256 \<Rightarrow> evm_u256 \<Rightarrow> evm_u256" where
  "evm_u256_sar_op shift v =
     (let fill = (if drop_bit 7 (v ! 0) AND 1 \<noteq> 0 then 0xFF else 0x00)
      in if list_ex (\<lambda>i. shift ! i \<noteq> 0) [0..<31] then replicate 32 fill
         else let s = unat (shift ! 31)
              in map (sar_byte fill (s div 8) (s mod 8) v) [0..<32])"


subsection \<open>Byte positions, selection and narrowing\<close>

lemma bit_at:
  assumes "bytes_ok a" "i < 32" "t < 8"
  shows "bit (a ! i) t \<longleftrightarrow> bit (bval a) (8 * (31 - i) + t)"
proof -
  have "8 * (31 - i) + t < 256" "(8 * (31 - i) + t) div 8 = 31 - i" "(8 * (31 - i) + t) mod 8 = t"
    using assms by auto
  then show ?thesis using assms by (simp add: bval_bit_iff)
qed

lemma bit_byte_lt: "bit (b :: u8) t \<Longrightarrow> t < 8"
  using bit_imp_le_length by fastforce

lemma bval_bitI:
  assumes "length r = 32" and "\<And>i t. i < 32 \<Longrightarrow> t < 8 \<Longrightarrow> bit (r ! i) t \<longleftrightarrow> P (8 * (31 - i) + t)"
  shows "bit (bval r) k \<longleftrightarrow> k < 256 \<and> P k"
proof (cases "k < 256")
  case True
  then have i: "31 - k div 8 < 32" "31 - (31 - k div 8) = k div 8" by auto
  show ?thesis
    using True assms(2) [OF i(1), of "k mod 8"] assms(1) by (simp add: bval_bit_iff bytes_ok_def i(2))
qed (use assms(1) in \<open>simp add: bval_bit_iff bytes_ok_def\<close>)

lemma bit_high: "bytes_ok a \<Longrightarrow> 256 \<le> k \<Longrightarrow> \<not> bit (bval a) k"
  by (simp add: bval_bit_iff)

lemma bval_zero_iff: "bval bs = 0 \<longleftrightarrow> list_all (\<lambda>b. b = 0) bs"
  by (induction bs rule: rev_induct) (auto simp: unat_eq_0)

lemma high_bytes:
  assumes "bytes_ok p"
  shows "list_ex (\<lambda>i. p ! i \<noteq> 0) [0..<31] \<longleftrightarrow> 256 \<le> bval p"
    "\<not> 256 \<le> bval p \<Longrightarrow> unat (p ! 31) = bval p"
proof -
  have "length p = Suc 31" using assms by (simp add: bytes_ok_def)
  then obtain c x where p: "p = c @ [x]" "length c = 31" by (metis length_Suc_conv_rev)
  have v: "bval p = bval c * 256 + unat x" by (simp add: p)
  have x: "unat x < 256" by (rule unat_lt_8)
  have z: "bval c = 0 \<longleftrightarrow> \<not> 256 \<le> bval p" unfolding v using x by (cases "bval c = 0") auto
  have "list_ex (\<lambda>i. p ! i \<noteq> 0) [0..<31] \<longleftrightarrow> bval c \<noteq> 0"
    unfolding bval_zero_iff list_ex_iff list_all_iff all_set_conv_all_nth using p by (auto simp: nth_append)
  then show "list_ex (\<lambda>i. p ! i \<noteq> 0) [0..<31] \<longleftrightarrow> 256 \<le> bval p" using z by simp
  show "\<not> 256 \<le> bval p \<Longrightarrow> unat (p ! 31) = bval p"
    using z v p by (simp add: nth_append)
qed

lemma unat_nth:
  assumes "bytes_ok a" "i < 32"
  shows "unat (a ! i) = bval a div 256 ^ (31 - i) mod 256"
proof -
  have "unat (a ! i) = take_bit 8 (drop_bit (8 * (31 - i)) (bval a))"
  proof (rule bit_eqI)
    fix t :: nat
    show "bit (unat (a ! i)) t = bit (take_bit 8 (drop_bit (8 * (31 - i)) (bval a))) t"
    proof (cases "t < 8")
      case True
      then show ?thesis using bit_at [OF assms, of t] by (simp add: bit_simps add.commute)
    next
      case False
      then show ?thesis by (auto simp: bit_simps dest: bit_byte_lt)
    qed
  qed
  moreover have "(256 :: nat) ^ (31 - i) = 2 ^ (8 * (31 - i))" by (simp add: power_mult)
  ultimately show ?thesis by (simp add: take_bit_eq_mod drop_bit_eq_div)
qed

lemma byte_op_value:
  assumes "bytes_ok p" "bytes_ok v"
  shows "bytes_ok (evm_u256_byte_op p v) \<and> bval (evm_u256_byte_op p v)
     = (if bval p < 32 then bval v div 256 ^ (31 - bval p) mod 256 else 0)"
proof (cases "256 \<le> bval p")
  case True
  then show ?thesis using high_bytes(1) [OF assms(1)] by (simp add: evm_u256_byte_op_def)
next
  case False
  then have u: "unat (p ! 31) = bval p" by (rule high_bytes(2) [OF assms(1)])
  have "\<not> list_ex (\<lambda>i. p ! i \<noteq> 0) [0..<31]" using False high_bytes(1) [OF assms(1)] by blast
  then have e: "evm_u256_byte_op p v = (if 32 \<le> bval p then zero32 else zero32[31 := v ! bval p])"
    unfolding evm_u256_byte_op_def Let_def u by (rule if_not_P)
  show ?thesis unfolding e using unat_nth [OF assms(2)] by (simp add: bval_last_byte)
qed

lemma to_narrow_fold:
  "n \<le> 8 \<Longrightarrow> bit (foldl (\<lambda>v i. push_bit 8 v OR ucast ((a :: evm_u256) ! i)) (0 :: u64) [24..<24 + n]) k
     \<longleftrightarrow> k < 8 * n \<and> bit (a ! (23 + n - k div 8)) (k mod 8)"
proof (induction n arbitrary: k)
  case (Suc n)
  have u: "[24..<24 + Suc n] = [24..<24 + n] @ [24 + n]"
    by (simp only: add_Suc_right upt.simps le_add1 if_True)
  show ?case
  proof (cases "k < 8")
    case True
    then show ?thesis unfolding u foldl_append by (simp add: bit_simps)
  next
    case False
    have d: "k div 8 = Suc ((k - 8) div 8)" "k mod 8 = (k - 8) mod 8"
      using False by (auto simp: le_div_geq le_mod_geq)
    have "\<not> bit (ucast (a ! (24 + n)) :: u64) k"
      using False by (auto simp: bit_simps dest: bit_byte_lt)
    then have "bit (foldl (\<lambda>v i. push_bit 8 v OR ucast (a ! i)) (0 :: u64) [24..<24 + Suc n]) k
        \<longleftrightarrow> k < 64 \<and> k - 8 < 8 * n \<and> bit (a ! (23 + n - (k - 8) div 8)) ((k - 8) mod 8)"
      using False Suc unfolding u foldl_append by (auto simp: bit_simps)
    moreover have "k < 64 \<and> k - 8 < 8 * n \<longleftrightarrow> k < 8 * Suc n" using False Suc.prems by auto
    ultimately show ?thesis unfolding d by auto
  qed
qed simp

lemma to_narrow_value: "bytes_ok a \<Longrightarrow> unat (evm_u256_to_narrow a) = bval a mod 2 ^ 64"
proof -
  assume a: "bytes_ok a"
  have "unat (evm_u256_to_narrow a) = take_bit 64 (bval a)"
  proof (rule bit_eqI)
    fix k :: nat
    have "bit (evm_u256_to_narrow a) k \<longleftrightarrow> k < 64 \<and> bit (a ! (31 - k div 8)) (k mod 8)"
      using to_narrow_fold [of 8 a k] by (simp add: evm_u256_to_narrow_def)
    then show "bit (unat (evm_u256_to_narrow a)) k = bit (take_bit 64 (bval a)) k"
      by (auto simp: bit_simps bval_bit_iff [OF a])
  qed
  then show ?thesis by (simp add: take_bit_eq_mod)
qed

subsection \<open>Shifts and sign extension\<close>

lemma sval256_signed: "v < M256 \<Longrightarrow> sval256 v = signed_take_bit 255 (int v)"
proof -
  assume v: "v < M256"
  have b: "bit (int v) 255 \<longleftrightarrow> 2 ^ 255 \<le> v" using top_bit [OF v] by (simp add: bit_of_nat_iff_bit)
  have t: "take_bit 256 (int v) = int v"
    using v by (simp add: take_bit_eq_mod M256_def)
  have "signed_take_bit 255 (int v) = take_bit 256 (int v) - 2 ^ 256 * of_bool (bit (int v) 255)"
    using signed_take_bit_eq_take_bit_minus [of 255 "int v"] by simp
  then show ?thesis unfolding t b sval256_def signed_of_def by simp
qed

lemma bit_sval: "bytes_ok a \<Longrightarrow> bit (sval256 (bval a)) n \<longleftrightarrow> bit (bval a) (min n 255)"
  by (simp add: sval256_signed bytes_bound bit_simps min_def)

lemma byte_hi:
  "bit (ucast (push_bit u (ucast (b :: u8) :: u32) AND 0xFF) :: u8) t \<longleftrightarrow> t < 8 \<and> u \<le> t \<and> bit b (t - u)"
proof -
  have e: "(0xFF :: u32) = mask 8" by (simp add: mask_eq_exp_minus_1)
  show ?thesis unfolding e by (auto simp: bit_simps)
qed

lemma byte_lo:
  "bit (ucast (drop_bit d (ucast (b :: u8) :: u32) AND 0xFF) :: u8) t \<longleftrightarrow> t < 8 \<and> bit b (d + t)"
proof -
  have e: "(0xFF :: u32) = mask 8" by (simp add: mask_eq_exp_minus_1)
  show ?thesis unfolding e by (auto simp: bit_simps dest: bit_byte_lt)
qed

lemma byte_id: "(ucast (ucast (b :: u8) :: u32) :: u8) = b"
  by (rule bit_word_eqI) (simp add: bit_simps)

lemma shl_byte_bit:
  assumes v: "bytes_ok v" and i: "i < 32" and t: "t < 8" and u: "u < 8"
  shows "bit (shl_byte S u v i) t
     \<longleftrightarrow> 8 * S + u \<le> 8 * (31 - i) + t \<and> bit (bval v) (8 * (31 - i) + t - (8 * S + u))"
proof (cases "i + S < 32")
  case False
  then have "\<not> 8 * S + u \<le> 8 * (31 - i) + t" using i t by auto
  then show ?thesis using False by (simp add: shl_byte_def)
next
  case True
  note at = bit_at [OF v True]
  have p: "8 * (31 - (i + S)) = 8 * (31 - i) - 8 * S" "8 * S \<le> 8 * (31 - i)" using True by auto
  have split: "bit (shl_byte S u v i) t \<longleftrightarrow> (if u = 0 then bit (v ! (i + S)) t
      else u \<le> t \<and> bit (v ! (i + S)) (t - u)
        \<or> i + S + 1 < 32 \<and> bit (v ! (i + S + 1)) (8 - u + t))"
    unfolding shl_byte_def Let_def if_P [OF True] using t
    by (simp only: byte_id bit_or_iff byte_hi byte_lo split: if_splits) simp
  consider "u = 0" | "0 < u" "u \<le> t" | "t < u" "i + S + 1 < 32" | "t < u" "i + S = 31"
    using True by linarith
  then show ?thesis
  proof cases
    case 1
    then show ?thesis unfolding split using at [OF t] p by simp
  next
    case 2
    then have e: "8 * (31 - i) + t - (8 * S + u) = 8 * (31 - (i + S)) + (t - u)"
      "8 * S + u \<le> 8 * (31 - i) + t" "t - u < 8" "\<not> bit (v ! (i + S + 1)) (8 - u + t)"
      using p t u by (auto dest: bit_byte_lt)
    show ?thesis unfolding split using 2 e at [OF e(3)] by simp
  next
    case 3
    then have e: "8 * (31 - i) + t - (8 * S + u) = 8 * (31 - (i + S + 1)) + (8 - u + t)"
      "8 * S + u \<le> 8 * (31 - i) + t" "8 - u + t < 8" using p t u by auto
    show ?thesis unfolding split using 3 e bit_at [OF v 3(2) e(3)] by simp
  next
    case 4
    then have "\<not> 8 * S + u \<le> 8 * (31 - i) + t" by auto
    then show ?thesis unfolding split using 4 by simp
  qed
qed

lemma shr_byte_bit:
  assumes v: "bytes_ok v" and i: "i < 32" and t: "t < 8" and u: "u < 8"
  shows "bit (shr_byte S u v i) t \<longleftrightarrow> bit (bval v) (8 * (31 - i) + t + (8 * S + u))"
proof (cases "S \<le> i")
  case False
  then have "256 \<le> 8 * (31 - i) + t + (8 * S + u)" using i by auto
  then show ?thesis using False bit_high [OF v] by (simp add: shr_byte_def)
next
  case True
  have iS: "i - S < 32" using i by simp
  have p: "8 * (31 - (i - S)) = 8 * (31 - i) + 8 * S" using True i by auto
  have at: "j < 8 \<Longrightarrow> bit (v ! (i - S)) j \<longleftrightarrow> bit (bval v) (8 * (31 - i) + 8 * S + j)" for j
    using bit_at [OF v iS, of j] unfolding p .
  have split: "bit (shr_byte S u v i) t \<longleftrightarrow> (if u = 0 then bit (v ! (i - S)) t
      else bit (v ! (i - S)) (u + t) \<or> S + 1 \<le> i \<and> 8 - u \<le> t \<and> bit (v ! (i - S - 1)) (t - (8 - u)))"
    unfolding shr_byte_def Let_def if_P [OF True] using t
    by (simp only: byte_id bit_or_iff byte_hi byte_lo split: if_splits) simp
  consider "u = 0" | "0 < u" "u + t < 8" | "8 \<le> u + t" "S + 1 \<le> i" | "8 \<le> u + t" "i = S"
    using True by linarith
  then show ?thesis
  proof cases
    case 1
    then show ?thesis unfolding split using at [OF t] by (simp add: ac_simps)
  next
    case 2
    then have "\<not> 8 - u \<le> t" by simp
    then show ?thesis unfolding split using 2 at [of "u + t"] by (simp add: ac_simps)
  next
    case 3
    then have e: "8 * (31 - i) + t + (8 * S + u) = 8 * (31 - (i - S - 1)) + (t - (8 - u))"
      "t - (8 - u) < 8" "i - S - 1 < 32" "8 - u \<le> t" "0 < u" "\<not> bit (v ! (i - S)) (u + t)"
      using p t u i by (auto dest: bit_byte_lt)
    show ?thesis unfolding split e(1) using 3 e(4,5,6) bit_at [OF v e(3) e(2)] by simp
  next
    case 4
    then have "256 \<le> 8 * (31 - i) + t + (8 * S + u)" "\<not> bit (v ! (i - S)) (u + t)" "0 < u"
      using i t by (auto dest: bit_byte_lt)
    then show ?thesis unfolding split using 4 bit_high [OF v] by simp
  qed
qed


lemma bit_full_byte: "bit (if b then 0xFF else 0x00 :: u8) j \<longleftrightarrow> j < 8 \<and> b"
proof -
  have e: "(0xFF :: u8) = mask 8" by (simp add: mask_eq_exp_minus_1)
  show ?thesis unfolding e by (auto simp: bit_mask_iff)
qed

text \<open>An arithmetic shift fills with copies of the sign: it is the logical shift except where
  the bits come from above the number.\<close>

lemma sar_byte_shr:
  "\<lbrakk> S + 1 \<le> i \<rbrakk> \<Longrightarrow> sar_byte fill S u v i = shr_byte S u v i"
  by (simp add: sar_byte_def shr_byte_def Let_def)

lemma sar_byte_bit:
  assumes v: "bytes_ok v" and i: "i < 32" and t: "t < 8" and u: "u < 8"
    and fill: "\<And>j. bit fill j \<longleftrightarrow> j < 8 \<and> bit (bval v) 255"
  shows "bit (sar_byte fill S u v i) t \<longleftrightarrow> bit (bval v) (min 255 (8 * (31 - i) + t + (8 * S + u)))"
proof -
  consider "S + 1 \<le> i" | "i < S" | "i = S" by linarith
  then show ?thesis
  proof cases
    case 1
    then have "8 * (31 - i) + t + (8 * S + u) \<le> 255" using i t u by auto
    then show ?thesis unfolding sar_byte_shr [OF 1] shr_byte_bit [OF v i t u] by (simp add: min_def)
  next
    case 2
    then have "255 \<le> 8 * (31 - i) + t + (8 * S + u)" using i by auto
    then show ?thesis using 2 fill t by (simp add: sar_byte_def min_def)
  next
    case 3
    have z: "bit (v ! 0) j \<longleftrightarrow> bit (bval v) (248 + j)" if "j < 8" for j
      using bit_at [OF v, of 0 j] that by simp
    have split: "bit (sar_byte fill S u v i) t \<longleftrightarrow> (if u = 0 then bit (v ! 0) t
      else bit (v ! 0) (u + t) \<or> 8 - u \<le> t \<and> bit fill (t - (8 - u)))"
      unfolding sar_byte_def Let_def using t 3
      by (simp only: byte_id bit_or_iff byte_hi byte_lo split: if_splits) simp
    have e: "8 * (31 - i) + t + (8 * S + u) = 248 + (u + t)" using 3 i by auto
    show ?thesis
    proof (cases "u + t < 8")
      case True
      then have "min 255 (248 + (u + t)) = 248 + (u + t)" by simp
      then show ?thesis unfolding split e using True z [of t] z [of "u + t"] t by auto
    next
      case False
      then have "min 255 (248 + (u + t)) = 255" "0 < u" "8 - u \<le> t" "\<not> bit (v ! 0) (u + t)" "t - (8 - u) < 8"
        using t by (auto dest: bit_byte_lt)
      then show ?thesis unfolding split e using fill by simp
    qed
  qed
qed

lemma shift_split: "8 * (s div 8) + s mod 8 = (s :: nat)" "s mod 8 < 8" for s :: nat
  by simp_all

lemma shl_value:
  assumes "bytes_ok s" "bytes_ok v"
  shows "bytes_ok (evm_u256_shl_op s v) \<and> bval (evm_u256_shl_op s v) = bval v * 2 ^ bval s mod M256"
proof (cases "256 \<le> bval s")
  case True
  then have "(2 :: nat) ^ bval s = M256 * 2 ^ (bval s - 256)"
    using power_add [of "2 :: nat" 256 "bval s - 256"] unfolding M256_def by (simp only: le_add_diff_inverse)
  then have "bval v * 2 ^ bval s mod M256 = 0" by simp
  moreover have "evm_u256_shl_op s v = zero32"
    unfolding evm_u256_shl_op_def using True high_bytes(1) [OF assms(1)] by simp
  ultimately show ?thesis by simp
next
  case False
  have n: "\<not> list_ex (\<lambda>i. s ! i \<noteq> 0) [0..<31]" using False high_bytes(1) [OF assms(1)] by blast
  let ?s = "bval s"
  have e: "evm_u256_shl_op s v = map (shl_byte (?s div 8) (?s mod 8) v) [0..<32]"
    unfolding evm_u256_shl_op_def Let_def if_not_P [OF n] high_bytes(2) [OF assms(1) False] ..
  have b: "bit (evm_u256_shl_op s v ! i) t
      \<longleftrightarrow> ?s \<le> 8 * (31 - i) + t \<and> bit (bval v) (8 * (31 - i) + t - ?s)" if "i < 32" "t < 8" for i t
    using shl_byte_bit [OF assms(2) that shift_split(2), of "?s div 8" ?s] that
    unfolding e shift_split(1) by simp
  have L: "length (evm_u256_shl_op s v) = 32" by (simp add: e)
  have B: "bit (bval (evm_u256_shl_op s v)) k \<longleftrightarrow> k < 256 \<and> ?s \<le> k \<and> bit (bval v) (k - ?s)" for k
    by (rule bval_bitI [OF L]) (rule b)
  have "bval (evm_u256_shl_op s v) = take_bit 256 (push_bit ?s (bval v))"
    by (rule bit_eqI) (simp add: B bit_simps)
  then show ?thesis
    using L by (simp add: take_bit_eq_mod push_bit_eq_mult M256_def bytes_ok_def)
qed

lemma shr_value:
  assumes "bytes_ok s" "bytes_ok v"
  shows "bytes_ok (evm_u256_shr_op s v) \<and> bval (evm_u256_shr_op s v) = bval v div 2 ^ bval s"
proof (cases "256 \<le> bval s")
  case True
  then have "(2 :: nat) ^ 256 \<le> 2 ^ bval s" by (intro power_increasing) simp_all
  then have "bval v div 2 ^ bval s = 0"
    using bytes_bound [OF assms(2)] unfolding M256_def by (intro div_less) (rule less_le_trans)
  moreover have "evm_u256_shr_op s v = zero32"
    unfolding evm_u256_shr_op_def using True high_bytes(1) [OF assms(1)] by simp
  ultimately show ?thesis by simp
next
  case False
  have n: "\<not> list_ex (\<lambda>i. s ! i \<noteq> 0) [0..<31]" using False high_bytes(1) [OF assms(1)] by blast
  let ?s = "bval s"
  have e: "evm_u256_shr_op s v = map (shr_byte (?s div 8) (?s mod 8) v) [0..<32]"
    unfolding evm_u256_shr_op_def Let_def if_not_P [OF n] high_bytes(2) [OF assms(1) False] ..
  have b: "bit (evm_u256_shr_op s v ! i) t \<longleftrightarrow> bit (bval v) (8 * (31 - i) + t + ?s)"
    if "i < 32" "t < 8" for i t
    using shr_byte_bit [OF assms(2) that shift_split(2), of "?s div 8" ?s] that
    unfolding e shift_split(1) by simp
  have L: "length (evm_u256_shr_op s v) = 32" by (simp add: e)
  have B: "bit (bval (evm_u256_shr_op s v)) k \<longleftrightarrow> k < 256 \<and> bit (bval v) (k + ?s)" for k
    by (rule bval_bitI [OF L]) (rule b)
  have "bval (evm_u256_shr_op s v) = drop_bit ?s (bval v)"
  proof (rule bit_eqI)
    fix k
    have "bit (bval v) (k + ?s) \<Longrightarrow> k < 256" using bit_high [OF assms(2), of "k + ?s"] by (cases "k < 256") auto
    then show "bit (bval (evm_u256_shr_op s v)) k = bit (drop_bit ?s (bval v)) k"
      unfolding B bit_drop_bit_eq o_def by (auto simp: add.commute)
  qed
  then show ?thesis by (simp add: drop_bit_eq_div) (simp add: bytes_ok_def e)
qed

lemma sar_value:
  assumes "bytes_ok s" "bytes_ok v"
  shows "bytes_ok (evm_u256_sar_op s v)
    \<and> sval256 (bval (evm_u256_sar_op s v)) = sval256 (bval v) div 2 ^ bval s"
proof -
  let ?s = "bval s"
  define fill :: u8 where "fill = (if drop_bit 7 (v ! 0) AND 1 \<noteq> 0 then 0xFF else 0x00)"
  have z: "bit (v ! 0) 7 \<longleftrightarrow> bit (bval v) 255" using bit_at [OF assms(2), of 0 7] by simp
  have f: "bit fill j \<longleftrightarrow> j < 8 \<and> bit (bval v) 255" for j
    unfolding fill_def low_bit_test z by (rule bit_full_byte)
  have "length (evm_u256_sar_op s v) = 32
    \<and> (\<forall>i < 32. \<forall>t < 8. bit (evm_u256_sar_op s v ! i) t
        \<longleftrightarrow> bit (bval v) (min 255 (8 * (31 - i) + t + ?s)))"
  proof (cases "256 \<le> ?s")
    case True
    then have "evm_u256_sar_op s v = replicate 32 fill"
      unfolding evm_u256_sar_op_def Let_def fill_def [symmetric] using high_bytes(1) [OF assms(1)] by simp
    then show ?thesis using f True by (simp add: min_def)
  next
    case False
    have n: "\<not> list_ex (\<lambda>i. s ! i \<noteq> 0) [0..<31]" using False high_bytes(1) [OF assms(1)] by blast
    have e: "evm_u256_sar_op s v = map (sar_byte fill (?s div 8) (?s mod 8) v) [0..<32]"
      unfolding evm_u256_sar_op_def Let_def fill_def [symmetric] if_not_P [OF n]
        high_bytes(2) [OF assms(1) False] ..
    have "bit (evm_u256_sar_op s v ! i) t \<longleftrightarrow> bit (bval v) (min 255 (8 * (31 - i) + t + ?s))"
      if "i < 32" "t < 8" for i t
      using sar_byte_bit [OF assms(2) that shift_split(2) f, of "?s div 8" ?s] that
      unfolding e shift_split(1) by simp
    then show ?thesis by (simp add: e)
  qed
  then have L: "length (evm_u256_sar_op s v) = 32"
    and b: "\<And>i t. i < 32 \<Longrightarrow> t < 8 \<Longrightarrow> bit (evm_u256_sar_op s v ! i) t
        \<longleftrightarrow> bit (bval v) (min 255 (8 * (31 - i) + t + ?s))" by blast+
  have ok: "bytes_ok (evm_u256_sar_op s v)" using L by (simp add: bytes_ok_def)
  have B: "bit (bval (evm_u256_sar_op s v)) k \<longleftrightarrow> k < 256 \<and> bit (bval v) (min 255 (k + ?s))" for k
    by (rule bval_bitI [OF L]) (rule b)
  have "sval256 (bval (evm_u256_sar_op s v)) = drop_bit ?s (sval256 (bval v))"
  proof (rule bit_eqI)
    fix k
    have "min 255 (min k 255 + ?s) = min (?s + k) 255" "min k 255 < 256" by (simp_all add: min_def)
    then show "bit (sval256 (bval (evm_u256_sar_op s v))) k = bit (drop_bit ?s (sval256 (bval v))) k"
      unfolding bit_drop_bit_eq o_def bit_sval [OF ok] bit_sval [OF assms(2)] B by simp
  qed
  then show ?thesis using ok by (simp add: drop_bit_eq_div)
qed


lemma signextend_value:
  assumes "bytes_ok b" "bytes_ok x"
  shows "bytes_ok (evm_u256_signextend_op b x) \<and> sval256 (bval (evm_u256_signextend_op b x))
    = signed_take_bit (min 255 (8 * bval b + 7)) (int (bval x))"
proof (cases "bval b < 31")
  case False
  then have "min 255 (8 * bval b + 7) = 255" by simp
  moreover have "evm_u256_signextend_op b x = x"
    using False high_bytes [OF assms(1)] unfolding evm_u256_signextend_op_def Let_def
    by (cases "256 \<le> bval b") simp_all
  ultimately show ?thesis using assms by (simp add: sval256_signed bytes_bound)
next
  case True
  let ?B = "bval b"
  let ?j = "31 - ?B"
  have n: "\<not> 256 \<le> ?B" "\<not> 31 \<le> ?B" using True by simp_all
  have l: "\<not> list_ex (\<lambda>i. b ! i \<noteq> 0) [0..<31]" using n(1) high_bytes(1) [OF assms(1)] by blast
  have j: "?j < 32" "8 * (31 - ?j) + 7 = 8 * ?B + 7" using True by simp_all
  define sb where "sb \<longleftrightarrow> bit (bval x) (8 * ?B + 7)"
  have s7: "drop_bit 7 (x ! ?j) AND 1 \<noteq> 0 \<longleftrightarrow> sb"
    unfolding low_bit_test sb_def using bit_at [OF assms(2) j(1), of 7] j(2) by simp
  define fill :: u8 where "fill = (if sb then 0xFF else 0x00)"
  define filled where "filled = map (\<lambda>i. if i < ?j then fill else x ! i) [0..<32]"
  have fj: "filled ! ?j = x ! ?j" unfolding filled_def using j(1) by simp
  have r: "evm_u256_signextend_op b x
      = filled[?j := if sb then x ! ?j OR 0x80 else x ! ?j AND 0x7F]"
    unfolding evm_u256_signextend_op_def Let_def if_not_P [OF l] high_bytes(2) [OF assms(1) n(1)]
      if_not_P [OF n(2)] s7 fill_def [symmetric] filled_def [symmetric] fj ..
  have last: "(if sb then x ! ?j OR 0x80 else x ! ?j AND 0x7F) = x ! ?j"
  proof (rule bit_word_eqI)
    fix t assume "t < LENGTH(8)"
    have e8: "(0x80 :: u8) = 2 ^ 7" by simp
    have e7: "(0x7F :: u8) = mask 7" by (simp add: mask_eq_exp_minus_1)
    have b8: "bit (0x80 :: u8) t \<longleftrightarrow> t = 7" unfolding e8 bit_exp_iff by auto
    have b7: "bit (0x7F :: u8) t \<longleftrightarrow> t < 7" unfolding e7 bit_mask_iff by auto
    have "bit (x ! ?j) 7 \<longleftrightarrow> sb" using s7 unfolding low_bit_test .
    then show "bit (if sb then x ! ?j OR 0x80 else x ! ?j AND 0x7F) t = bit (x ! ?j) t"
    proof (cases sb)
      case True
      have "bit (x ! ?j OR 0x80) t \<longleftrightarrow> bit (x ! ?j) t \<or> t = 7" unfolding bit_or_iff b8 ..
      then show ?thesis using True \<open>bit (x ! ?j) 7 \<longleftrightarrow> sb\<close> by auto
    next
      case False
      have "bit (x ! ?j AND 0x7F) t \<longleftrightarrow> bit (x ! ?j) t \<and> t < 7" unfolding bit_and_iff b7 ..
      moreover have "t < 7 \<or> t = 7" using \<open>t < LENGTH(8)\<close> by auto
      ultimately show ?thesis using False \<open>bit (x ! ?j) 7 \<longleftrightarrow> sb\<close> by auto
    qed
  qed
  have r': "evm_u256_signextend_op b x = filled"
    unfolding r last unfolding fj [symmetric] by (rule list_update_id)
  have bitf: "bit (filled ! i) t \<longleftrightarrow> bit (bval x) (min (8 * ?B + 7) (8 * (31 - i) + t))"
    if "i < 32" "t < 8" for i t
  proof (cases "i < ?j")
    case True
    then have "8 * ?B + 7 \<le> 8 * (31 - i) + t" by auto
    then show ?thesis using True that(2) unfolding filled_def
      by (simp add: that(1) fill_def bit_full_byte sb_def min_def)
  next
    case False
    then have "8 * (31 - i) + t \<le> 8 * ?B + 7" using that by auto
    then show ?thesis using False that bit_at [OF assms(2) that] unfolding filled_def
      by (auto simp: min_def)
  qed
  have L: "length filled = 32" by (simp add: filled_def)
  have B: "bit (bval filled) k \<longleftrightarrow> k < 256 \<and> bit (bval x) (min (8 * ?B + 7) k)" for k
    by (rule bval_bitI [OF L]) (rule bitf)
  have ok: "bytes_ok filled" using L by (simp add: bytes_ok_def)
  have "sval256 (bval filled) = signed_take_bit (8 * ?B + 7) (int (bval x))"
  proof (rule bit_eqI)
    fix k
    have "min k 255 < 256" "min (8 * ?B + 7) (min k 255) = min k (8 * ?B + 7)" using True by auto
    then show "bit (sval256 (bval filled)) k = bit (signed_take_bit (8 * ?B + 7) (int (bval x))) k"
      unfolding bit_sval [OF ok] B by (simp add: bit_simps min_def)
  qed
  moreover have "min 255 (8 * ?B + 7) = 8 * ?B + 7" using True by simp
  ultimately show ?thesis using ok unfolding r' by simp
qed

subsection \<open>Properties\<close>

text \<open>C11: the shifts of the lifter multiply by, divide by, and floor-divide the signed value by the
  power of two of the whole 256-bit shift amount.\<close>

theorem evm_shifts_exact:
  assumes "bytes_ok s" and "bytes_ok v"
  shows "bval (evm_u256_shl_op s v) = bval v * 2 ^ bval s mod M256
    \<and> bval (evm_u256_shr_op s v) = bval v div 2 ^ bval s
    \<and> sval256 (bval (evm_u256_sar_op s v)) = sval256 (bval v) div 2 ^ bval s"
  using shl_value [OF assms] shr_value [OF assms] sar_value [OF assms] by blast

lemma unat_F8: "unat (0xF8 :: u8) = 248" by simp

theorem evm_shifts_exact_witness:
  "sval256 (bval (evm_u256_sar_op one32 (replicate 31 0xFF @ [0xF8]))) = -4
   \<and> bval (evm_u256_shl_op one32 (replicate 31 0xFF @ [0xF8])) = M256 - 16"
proof -
  define v where "v = replicate 31 0xFF @ [0xF8 :: u8]"
  have "M256 - 256 + 248 = M256 - 8" by (simp add: M256_def)
  then have v: "bytes_ok v" "bval v = M256 - 8"
    unfolding v_def using bval_near_top [of "0xF8"] by (simp_all only: unat_F8)
  have s: "sval256 (M256 - 8) = -8" using sval_top [of 8] by simp
  have m: "(M256 - 8) * 2 mod M256 = M256 - 16" by (simp add: M256_def)
  show ?thesis
    unfolding v_def [symmetric] using evm_shifts_exact [OF one32_ok v(1)] s m by (simp add: v(2))
qed

text \<open>\<^verbatim>\<open>SIGNEXTEND\<close> copies the sign bit of the chosen byte upwards (and is the identity from byte 31
  on), \<^verbatim>\<open>BYTE\<close> selects from the most significant end and gives zero out of range, and narrowing
  keeps the low 64 bits.\<close>

lemma evm_bytes_select_exact:
  assumes "bytes_ok b" and "bytes_ok x"
  shows "sval256 (bval (evm_u256_signextend_op b x))
      = signed_take_bit (min 255 (8 * bval b + 7)) (int (bval x))
    \<and> bval (evm_u256_byte_op b x) = (if bval b < 32 then bval x div 256 ^ (31 - bval b) mod 256 else 0)
    \<and> unat (evm_u256_to_narrow x) = bval x mod 2 ^ 64"
  using signextend_value [OF assms] byte_op_value [OF assms] to_narrow_value [OF assms(2)] by blast

lemma evm_bytes_select_exact_witness:
  "sval256 (bval (evm_u256_signextend_op zero32 (zero32[31 := 0xFE]))) = -2
   \<and> bval (evm_u256_byte_op (zero32[31 := 31]) (zero32[31 := 0xFE])) = 254"
proof -
  have x: "bytes_ok (zero32[31 := 0xFE])" "bval (zero32[31 := 0xFE]) = 254"
    using bval_last_byte [of "0xFE"] by simp_all
  have p: "bytes_ok (zero32[31 := 31])" "bval (zero32[31 := 31]) = 31" using bval_last_byte [of 31] by simp_all
  have "signed_take_bit 7 (254 :: int) = -2" by (simp add: signed_take_bit_eq_take_bit_minus)
  then show ?thesis
    using evm_bytes_select_exact [OF zero32_ok x(1)] evm_bytes_select_exact [OF p(1) x(1)]
    by (simp add: x(2) p(2))
qed

end
