(* ===== verification/Keccak.thy ===== *)
theory Keccak
  imports EvmBytes
begin

text \<open>
  The hash of the lifter's constant folder: \<^verbatim>\<open>keccakf\<close> and \<^verbatim>\<open>evm_keccak256\<close> of
  \<^verbatim>\<open>evm_lifter.c\<close>, in-place loops over the 25 lanes with three constant tables. The reference below
  is the permutation of FIPS 202 on lanes addressed by two coordinates, with the rotation offsets
  and round constants computed the way the standard defines them, and the sponge on the padded
  message.
\<close>

subsection \<open>KECCAK-256\<close>

definition keccakf_rndc :: "u64 list" where
  "keccakf_rndc = [
    0x0000000000000001, 0x0000000000008082, 0x800000000000808a,
    0x8000000080008000, 0x000000000000808b, 0x0000000080000001,
    0x8000000080008081, 0x8000000000008009, 0x000000000000008a,
    0x0000000000000088, 0x0000000080008009, 0x000000008000000a,
    0x000000008000808b, 0x800000000000008b, 0x8000000000008089,
    0x8000000000008003, 0x8000000000008002, 0x8000000000000080,
    0x000000000000800a, 0x800000008000000a, 0x8000000080008081,
    0x8000000000008080, 0x0000000080000001, 0x8000000080008008]"

definition keccakf_rotc :: "nat list" where
  "keccakf_rotc = [1, 3, 6, 10, 15, 21, 28, 36, 45, 55, 2, 14, 27, 41, 56, 8, 25, 43, 62, 18, 39, 61, 20, 44]"

definition keccakf_piln :: "nat list" where
  "keccakf_piln = [10, 7, 11, 17, 18, 3, 5, 16, 8, 21, 24, 4, 15, 23, 19, 13, 12, 2, 20, 14, 22, 9, 6, 1]"

definition ROTL64 :: "u64 \<Rightarrow> nat \<Rightarrow> u64" where
  "ROTL64 x y = push_bit y x OR drop_bit (64 - y) x"

definition keccak_theta :: "u64 list \<Rightarrow> u64 list" where
  "keccak_theta st =
     (let bc = map (\<lambda>i. st ! i XOR st ! (i + 5) XOR st ! (i + 10) XOR st ! (i + 15) XOR st ! (i + 20)) [0..<5]
      in foldl (\<lambda>st i. let t = bc ! ((i + 4) mod 5) XOR ROTL64 (bc ! ((i + 1) mod 5)) 1
                       in foldl (\<lambda>st j. st[j + i := st ! (j + i) XOR t]) st [0, 5, 10, 15, 20])
           st [0..<5])"

definition keccak_rho_pi :: "u64 list \<Rightarrow> u64 list" where
  "keccak_rho_pi st = fst (foldl (\<lambda>(st, t) i. let j = keccakf_piln ! i
       in (st[j := ROTL64 t (keccakf_rotc ! i)], st ! j)) (st, st ! 1) [0..<24])"

definition keccak_chi :: "u64 list \<Rightarrow> u64 list" where
  "keccak_chi st = foldl (\<lambda>st j. let bc = map (\<lambda>i. st ! (j + i)) [0..<5]
       in foldl (\<lambda>st i. st[j + i := st ! (j + i) XOR (NOT (bc ! ((i + 1) mod 5)) AND bc ! ((i + 2) mod 5))])
            st [0..<5]) st [0, 5, 10, 15, 20]"

definition keccak_round :: "u64 list \<Rightarrow> nat \<Rightarrow> u64 list" where
  "keccak_round st r = (let st = keccak_chi (keccak_rho_pi (keccak_theta st))
     in st[0 := st ! 0 XOR keccakf_rndc ! r])"

definition keccakf :: "u64 list \<Rightarrow> u64 list" where
  "keccakf st = foldl keccak_round st [0..<24]"

definition xor_byte :: "u64 list \<Rightarrow> nat \<Rightarrow> u64 \<Rightarrow> u64 list" where
  "xor_byte st i b = st[i div 8 := st ! (i div 8) XOR push_bit (8 * (i mod 8)) b]"

definition xor_bytes :: "u64 list \<Rightarrow> u8 list \<Rightarrow> nat \<Rightarrow> u64 list" where
  "xor_bytes st d n = foldl (\<lambda>st i. xor_byte st i (ucast (d ! i))) st [0..<n]"

function keccak_absorb :: "u64 list \<Rightarrow> u8 list \<Rightarrow> u64 list \<times> u8 list" where
  "keccak_absorb st d = (if 136 \<le> length d
     then keccak_absorb (keccakf (xor_bytes st d 136)) (drop 136 d) else (st, d))"
  by pat_completeness auto
termination by (relation "measure (\<lambda>(st, d). length d)") auto

definition evm_keccak256 :: "u8 list \<Rightarrow> evm_u256" where
  "evm_keccak256 data =
     (let (st, d) = keccak_absorb (replicate 25 0) data;
          st = xor_bytes st d (length d);
          st = xor_byte st (length d) 1;
          st = xor_byte st (136 - 1) 0x80;
          st = keccakf st
      in map (\<lambda>i. ucast (drop_bit (8 * (i mod 8)) (st ! (i div 8)) AND 0xFF)) [0..<32])"

subsection \<open>The permutation of FIPS 202\<close>

type_synonym lanes = "nat \<Rightarrow> nat \<Rightarrow> u64"

definition spec_theta :: "lanes \<Rightarrow> lanes" where
  "spec_theta A = (let C = (\<lambda>x. A x 0 XOR A x 1 XOR A x 2 XOR A x 3 XOR A x 4);
                       D = (\<lambda>x. C ((x + 4) mod 5) XOR word_rotl 1 (C ((x + 1) mod 5)))
                   in (\<lambda>x y. A x y XOR D x))"

text \<open>The offset of the lane reached after \<open>t\<close> steps of the walk (x, y) to (y, 2x + 3y) from (1, 0)
  is the triangular number (t + 1)(t + 2) / 2.\<close>

fun rho_walk :: "nat \<Rightarrow> nat \<times> nat" where
  "rho_walk 0 = (1, 0)"
| "rho_walk (Suc t) = (case rho_walk t of (x, y) \<Rightarrow> (y, (2 * x + 3 * y) mod 5))"

definition rho_offset :: "nat \<Rightarrow> nat \<Rightarrow> nat" where
  "rho_offset x y = (case find (\<lambda>t. rho_walk t = (x, y)) [0..<24] of
     Some t \<Rightarrow> (t + 1) * (t + 2) div 2 mod 64 | None \<Rightarrow> 0)"

definition spec_rho :: "lanes \<Rightarrow> lanes" where
  "spec_rho A = (\<lambda>x y. word_rotl (rho_offset x y) (A x y))"

definition spec_pi :: "lanes \<Rightarrow> lanes" where
  "spec_pi A = (\<lambda>x y. A ((x + 3 * y) mod 5) x)"

definition spec_chi :: "lanes \<Rightarrow> lanes" where
  "spec_chi A = (\<lambda>x y. A x y XOR (NOT (A ((x + 1) mod 5) y) AND A ((x + 2) mod 5) y))"

text \<open>The round constants come from the shift register of x^8 + x^6 + x^5 + x^4 + 1.\<close>

fun rc_regs :: "nat \<Rightarrow> u8 \<Rightarrow> u8 list" where
  "rc_regs 0 r = []"
| "rc_regs (Suc n) r = r # rc_regs n (push_bit 1 r XOR (if bit r 7 then 0x71 else 0))"

definition spec_rc :: "nat \<Rightarrow> u64" where
  "spec_rc r = foldl (\<lambda>c j. if bit (rc_regs 168 1 ! (j + 7 * r)) 0 then Bit_Operations.set_bit (2 ^ j - 1) c else c)
     0 [0..<7]"

definition spec_round :: "lanes \<Rightarrow> nat \<Rightarrow> lanes" where
  "spec_round A r = (let B = spec_chi (spec_pi (spec_rho (spec_theta A)))
     in (\<lambda>x y. if x = 0 \<and> y = 0 then B 0 0 XOR spec_rc r else B x y))"

definition spec_keccakf :: "lanes \<Rightarrow> lanes" where
  "spec_keccakf A = foldl spec_round A [0..<24]"

definition lanes_of :: "u64 list \<Rightarrow> lanes" where
  "lanes_of st = (\<lambda>x y. st ! (x + 5 * y))"

definition same_lanes :: "lanes \<Rightarrow> lanes \<Rightarrow> bool" where
  "same_lanes A B \<longleftrightarrow> (\<forall>x < 5. \<forall>y < 5. A x y = B x y)"

subsection \<open>The in-place round is the round of the standard\<close>

lemma keccak_upts: "[0..<5] = [0, 1, 2, 3, 4::nat]"
  "[0..<24] = [0, 1, 2, 3, 4, 5, 6, 7, 8, 9, 10, 11, 12, 13, 14, 15, 16, 17, 18, 19, 20, 21, 22, 23::nat]"
  by (simp_all add: upt_rec)

lemma ROTL64_rotl: "0 < n \<Longrightarrow> n < 64 \<Longrightarrow> ROTL64 x n = word_rotl n x"
proof (rule bit_word_eqI)
  fix k assume n: "0 < n" "n < 64" and "k < LENGTH(64)"
  then have k: "k < 64" by simp
  have m: "(k + (64 - n)) mod 64 = (if n \<le> k then k - n else k + (64 - n))"
  proof (cases "n \<le> k")
    case True
    then have "k + (64 - n) = (k - n) + 64" using n by simp
    then show ?thesis using True n k by (simp only: mod_add_self2 if_True) simp
  qed (use n k in simp)
  have w: "bit (word_rotl n x) k \<longleftrightarrow> bit x ((k + (64 - n)) mod 64)"
    using n k by (simp only: bit_word_rotl_iff mod_less size_word.rep_eq len_num0 len_num1 len_bit0 len_bit1) simp
  have r: "bit (ROTL64 x n) k \<longleftrightarrow> n \<le> k \<and> bit x (k - n) \<or> bit x (64 - n + k)"
    using k by (simp add: ROTL64_def bit_or_iff bit_push_bit_iff bit_drop_bit_eq)
  show "bit (ROTL64 x n) k = bit (word_rotl n x) k"
  proof (cases "n \<le> k")
    case True
    then have "\<not> bit x (64 - n + k)" using n by (auto dest: bit_imp_le_length)
    then show ?thesis unfolding w m r using True by simp
  next
    case False
    then show ?thesis unfolding w m r by (simp add: add.commute)
  qed
qed

lemma theta_list:
  "keccak_theta [a0, a1, a2, a3, a4, a5, a6, a7, a8, a9, a10, a11, a12, a13, a14, a15, a16, a17, a18, a19,
     a20, a21, a22, a23, a24] =
   (let c0 = a0 XOR a5 XOR a10 XOR a15 XOR a20; c1 = a1 XOR a6 XOR a11 XOR a16 XOR a21;
        c2 = a2 XOR a7 XOR a12 XOR a17 XOR a22; c3 = a3 XOR a8 XOR a13 XOR a18 XOR a23;
        c4 = a4 XOR a9 XOR a14 XOR a19 XOR a24;
        d0 = c4 XOR ROTL64 c1 1; d1 = c0 XOR ROTL64 c2 1; d2 = c1 XOR ROTL64 c3 1;
        d3 = c2 XOR ROTL64 c4 1; d4 = c3 XOR ROTL64 c0 1
    in [a0 XOR d0, a1 XOR d1, a2 XOR d2, a3 XOR d3, a4 XOR d4,
        a5 XOR d0, a6 XOR d1, a7 XOR d2, a8 XOR d3, a9 XOR d4,
        a10 XOR d0, a11 XOR d1, a12 XOR d2, a13 XOR d3, a14 XOR d4,
        a15 XOR d0, a16 XOR d1, a17 XOR d2, a18 XOR d3, a19 XOR d4,
        a20 XOR d0, a21 XOR d1, a22 XOR d2, a23 XOR d3, a24 XOR d4])"
  unfolding keccak_theta_def keccak_upts by (simp add: Let_def)

lemma nats5: "x < 5 \<Longrightarrow> x = 0 \<or> x = 1 \<or> x = 2 \<or> x = 3 \<or> x = (4::nat)"
  by auto

lemma list25:
  assumes "length xs = 25"
  obtains a0 a1 a2 a3 a4 a5 a6 a7 a8 a9 a10 a11 a12 a13 a14 a15 a16 a17 a18 a19 a20 a21 a22 a23 a24
  where "xs = [a0, a1, a2, a3, a4, a5, a6, a7, a8, a9, a10, a11, a12, a13, a14, a15, a16, a17, a18, a19,
     a20, a21, a22, a23, a24]"
  using assms by (auto simp: length_Suc_conv numeral_eq_Suc)

lemma theta_lanes:
  assumes "length st = 25"
  shows "length (keccak_theta st) = 25 \<and> same_lanes (lanes_of (keccak_theta st)) (spec_theta (lanes_of st))"
proof -
  obtain a0 a1 a2 a3 a4 a5 a6 a7 a8 a9 a10 a11 a12 a13 a14 a15 a16 a17 a18 a19 a20 a21 a22 a23 a24
    where st: "st = [a0, a1, a2, a3, a4, a5, a6, a7, a8, a9, a10, a11, a12, a13, a14, a15, a16, a17, a18,
      a19, a20, a21, a22, a23, a24]" by (rule list25 [OF assms])
  have r: "ROTL64 x (Suc 0) = word_rotl (Suc 0) x" for x by (simp add: ROTL64_rotl)
  show ?thesis
    unfolding st theta_list same_lanes_def
    by (auto simp: Let_def lanes_of_def spec_theta_def r xor.assoc dest!: nats5)
qed

lemma chi_lanes:
  assumes "length st = 25"
  shows "length (keccak_chi st) = 25 \<and> same_lanes (lanes_of (keccak_chi st)) (spec_chi (lanes_of st))"
proof -
  obtain a0 a1 a2 a3 a4 a5 a6 a7 a8 a9 a10 a11 a12 a13 a14 a15 a16 a17 a18 a19 a20 a21 a22 a23 a24
    where st: "st = [a0, a1, a2, a3, a4, a5, a6, a7, a8, a9, a10, a11, a12, a13, a14, a15, a16, a17, a18,
      a19, a20, a21, a22, a23, a24]" by (rule list25 [OF assms])
  have c: "keccak_chi st = map (\<lambda>i. lanes_of st (i mod 5) (i div 5) XOR
       (NOT (lanes_of st ((i mod 5 + 1) mod 5) (i div 5)) AND lanes_of st ((i mod 5 + 2) mod 5) (i div 5))) [0..<25]"
    unfolding st keccak_chi_def keccak_upts by (simp add: Let_def lanes_of_def upt_rec)
  show ?thesis unfolding c same_lanes_def by (auto simp: lanes_of_def spec_chi_def dest!: nats5)
qed

lemma rho_offsets:
  "rho_offset 0 0 = 0 \<and> rho_offset 1 0 = 1 \<and> rho_offset 2 0 = 62 \<and> rho_offset 3 0 = 28 \<and> rho_offset 4 0 = 27
   \<and> rho_offset 0 1 = 36 \<and> rho_offset 1 1 = 44 \<and> rho_offset 2 1 = 6 \<and> rho_offset 3 1 = 55 \<and> rho_offset 4 1 = 20
   \<and> rho_offset 0 2 = 3 \<and> rho_offset 1 2 = 10 \<and> rho_offset 2 2 = 43 \<and> rho_offset 3 2 = 25 \<and> rho_offset 4 2 = 39
   \<and> rho_offset 0 3 = 41 \<and> rho_offset 1 3 = 45 \<and> rho_offset 2 3 = 15 \<and> rho_offset 3 3 = 21 \<and> rho_offset 4 3 = 8
   \<and> rho_offset 0 4 = 18 \<and> rho_offset 1 4 = 2 \<and> rho_offset 2 4 = 61 \<and> rho_offset 3 4 = 56 \<and> rho_offset 4 4 = 14"
  by code_simp

lemma rho_pi_list:
  "keccak_rho_pi [a0, a1, a2, a3, a4, a5, a6, a7, a8, a9, a10, a11, a12, a13, a14, a15, a16, a17, a18, a19,
     a20, a21, a22, a23, a24] =
   [a0, ROTL64 a6 44, ROTL64 a12 43, ROTL64 a18 21, ROTL64 a24 14,
    ROTL64 a3 28, ROTL64 a9 20, ROTL64 a10 3, ROTL64 a16 45, ROTL64 a22 61,
    ROTL64 a1 1, ROTL64 a7 6, ROTL64 a13 25, ROTL64 a19 8, ROTL64 a20 18,
    ROTL64 a4 27, ROTL64 a5 36, ROTL64 a11 10, ROTL64 a17 15, ROTL64 a23 56,
    ROTL64 a2 62, ROTL64 a8 55, ROTL64 a14 39, ROTL64 a15 41, ROTL64 a21 2]"
  unfolding keccak_rho_pi_def keccak_upts keccakf_piln_def keccakf_rotc_def by (simp add: Let_def)

lemma rho_pi_lanes:
  assumes "length st = 25"
  shows "length (keccak_rho_pi st) = 25
    \<and> same_lanes (lanes_of (keccak_rho_pi st)) (spec_pi (spec_rho (lanes_of st)))"
proof -
  obtain a0 a1 a2 a3 a4 a5 a6 a7 a8 a9 a10 a11 a12 a13 a14 a15 a16 a17 a18 a19 a20 a21 a22 a23 a24
    where st: "st = [a0, a1, a2, a3, a4, a5, a6, a7, a8, a9, a10, a11, a12, a13, a14, a15, a16, a17, a18,
      a19, a20, a21, a22, a23, a24]" by (rule list25 [OF assms])
  have o: "word_rotl 0 x = x" for x :: u64 by (rule bit_word_eqI) (simp add: bit_word_rotl_iff)
  note r = rho_offsets [unfolded One_nat_def]
  show ?thesis
    unfolding st rho_pi_list same_lanes_def
    by (auto simp: lanes_of_def spec_rho_def spec_pi_def ROTL64_rotl r o dest!: nats5)
qed

lemma spec_rc_table: "map spec_rc [0..<24] = keccakf_rndc"
  by code_simp

text \<open>The stages depend only on the 25 lanes.\<close>

lemma mod5: "n mod 5 < (5 :: nat)" by simp

lemma spec_round_cong:
  assumes "same_lanes A B"
  shows "same_lanes (spec_theta A) (spec_theta B)" "same_lanes (spec_pi (spec_rho A)) (spec_pi (spec_rho B))"
    "same_lanes (spec_chi A) (spec_chi B)"
  using assms unfolding same_lanes_def
  by (simp_all add: spec_theta_def spec_rho_def spec_pi_def spec_chi_def Let_def)

lemma same_lanes_trans: "same_lanes A B \<Longrightarrow> same_lanes B C \<Longrightarrow> same_lanes A C"
  by (simp add: same_lanes_def)

lemma round_lanes:
  assumes "length st = 25" "r < 24"
  shows "length (keccak_round st r) = 25 \<and> same_lanes (lanes_of (keccak_round st r)) (spec_round (lanes_of st) r)"
proof -
  let ?t = "keccak_theta st" and ?p = "keccak_rho_pi (keccak_theta st)"
  let ?c = "keccak_chi ?p"
  have l: "length ?t = 25" "length ?p = 25" "length ?c = 25"
    using theta_lanes [OF assms(1)] rho_pi_lanes chi_lanes by auto
  have "same_lanes (lanes_of ?p) (spec_pi (spec_rho (spec_theta (lanes_of st))))"
    using same_lanes_trans [OF conjunct2 [OF rho_pi_lanes [OF l(1)]] spec_round_cong(2)] theta_lanes [OF assms(1)]
    by blast
  then have c: "same_lanes (lanes_of ?c) (spec_chi (spec_pi (spec_rho (spec_theta (lanes_of st)))))"
    using same_lanes_trans [OF conjunct2 [OF chi_lanes [OF l(2)]] spec_round_cong(3)] by blast
  have rc: "keccakf_rndc ! r = spec_rc r"
    using assms(2) by (simp flip: spec_rc_table)
  have c0: "?c ! 0 = spec_chi (spec_pi (spec_rho (spec_theta (lanes_of st)))) 0 0"
    using c unfolding same_lanes_def lanes_of_def by force
  have cs: "?c ! (x + 5 * y) = spec_chi (spec_pi (spec_rho (spec_theta (lanes_of st)))) x y"
    if "x < 5" "y < 5" for x y
    using c that unfolding same_lanes_def lanes_of_def by blast
  show ?thesis
    unfolding same_lanes_def keccak_round_def spec_round_def Let_def lanes_of_def [of "list_update _ _ _"] rc
    using l(3) by (auto simp: nth_list_update c0 cs)
qed

lemma spec_rounds_cong:
  "same_lanes A B \<Longrightarrow> same_lanes (spec_round A r) (spec_round B r)"
proof -
  assume s: "same_lanes A B"
  have "same_lanes (spec_chi (spec_pi (spec_rho (spec_theta A)))) (spec_chi (spec_pi (spec_rho (spec_theta B))))"
    by (intro spec_round_cong s)
  then show ?thesis unfolding spec_round_def by (simp add: same_lanes_def Let_def)
qed

lemma keccakf_lanes:
  assumes "length st = 25"
  shows "length (keccakf st) = 25 \<and> same_lanes (lanes_of (keccakf st)) (spec_keccakf (lanes_of st))"
proof -
  have "length (foldl keccak_round st [0..<n]) = 25
    \<and> same_lanes (lanes_of (foldl keccak_round st [0..<n])) (foldl spec_round (lanes_of st) [0..<n])"
    if "n \<le> 24" for n
    using that
  proof (induction n)
    case (Suc n)
    let ?s = "foldl keccak_round st [0..<n]"
    have IH: "length ?s = 25" "same_lanes (lanes_of ?s) (foldl spec_round (lanes_of st) [0..<n])"
      using Suc by auto
    have n: "n < 24" using Suc.prems by simp
    show ?case
      unfolding foldl_upt_Suc
      using round_lanes [OF IH(1) n] same_lanes_trans [OF _ spec_rounds_cong [OF IH(2)]] by blast
  qed (simp add: assms same_lanes_def)
  from this [of 24] show ?thesis unfolding keccakf_def spec_keccakf_def by blast
qed

subsection \<open>The sponge\<close>

definition pad256 :: "u8 list \<Rightarrow> u8 list" where
  "pad256 m = (let n = 135 - length m mod 136
     in if n = 0 then m @ [0x81] else m @ 0x01 # replicate (n - 1) 0 @ [0x80])"

definition blocks_of :: "u8 list \<Rightarrow> u8 list list" where
  "blocks_of m = map (\<lambda>k. take 136 (drop (136 * k) m)) [0..<length m div 136]"

definition sponge :: "u64 list \<Rightarrow> u8 list list \<Rightarrow> u64 list" where
  "sponge st bs = foldl (\<lambda>st b. keccakf (xor_bytes st b 136)) st bs"

definition squeeze256 :: "u64 list \<Rightarrow> u8 list" where
  "squeeze256 st = map (\<lambda>i. ucast (drop_bit (8 * (i mod 8)) (st ! (i div 8)))) [0..<32]"

lemma xor_bytes_cong:
  "(\<And>i. i < n \<Longrightarrow> d ! i = e ! i) \<Longrightarrow> xor_bytes st d n = xor_bytes st e n"
  unfolding xor_bytes_def by (rule foldl_cong) simp_all

lemma xor_bytes_Suc: "xor_bytes st d (Suc n) = xor_byte (xor_bytes st d n) n (ucast (d ! n))"
  by (simp add: xor_bytes_def)

lemma xor_byte_zero [simp]: "xor_byte st i 0 = st"
  by (simp add: xor_byte_def)

lemma xor_byte_twice: "i div 8 < length st \<Longrightarrow> xor_byte (xor_byte st i a) i b = xor_byte st i (a XOR b)"
  by (simp add: xor_byte_def push_bit_xor xor.assoc)

lemma length_xor_bytes [simp]: "length (xor_bytes st d n) = length st"
  by (induction n) (simp_all add: xor_bytes_Suc xor_byte_def, simp add: xor_bytes_def)

lemma xor_bytes_zeros:
  assumes "m \<le> n" and "\<And>i. m \<le> i \<Longrightarrow> i < n \<Longrightarrow> d ! i = 0"
  shows "xor_bytes st d n = xor_bytes st d m"
  using assms by (induction n rule: dec_induct) (simp_all add: xor_bytes_Suc)

lemma pad_length: "136 dvd length (pad256 m)"
proof -
  have "length (pad256 m) = length m - length m mod 136 + 136"
    using mod_less_divisor [of 136 "length m"] mod_le_divisor [of 136 "length m"]
    by (auto simp: pad256_def Let_def)
  then show ?thesis by (simp add: minus_mod_eq_mult_div)
qed

lemma pad_last_block:
  assumes "length d < 136" "length st = 25"
  shows "length (pad256 d) = 136"
    "xor_bytes st (pad256 d) 136 = xor_byte (xor_byte (xor_bytes st d (length d)) (length d) 1) 135 0x80"
proof -
  let ?n = "length d"
  have pre: "xor_bytes st (pad256 d) ?n = xor_bytes st d ?n"
    by (rule xor_bytes_cong) (simp add: pad256_def Let_def nth_append)
  show l: "length (pad256 d) = 136" using assms(1) by (simp add: pad256_def Let_def)
  have S: "136 = Suc 135" by simp
  show "xor_bytes st (pad256 d) 136 = xor_byte (xor_byte (xor_bytes st d ?n) ?n 1) 135 0x80"
  proof (cases "?n = 135")
    case True
    then have p: "pad256 d ! 135 = 0x81" by (simp add: pad256_def nth_append)
    have "(ucast (0x81 :: u8) :: u64) = 1 XOR 0x80" by simp
    then show ?thesis
      unfolding S xor_bytes_Suc p using pre True assms(2) by (simp add: xor_byte_twice)
  next
    case False
    then have n: "?n < 135" using assms(1) by simp
    then have p: "pad256 d = d @ 0x01 # replicate (134 - ?n) 0 @ [0x80]"
      using False by (simp add: pad256_def Let_def)
    have p1: "pad256 d ! ?n = 1" and p2: "pad256 d ! 135 = 0x80"
      and p0: "\<And>i. Suc ?n \<le> i \<Longrightarrow> i < 135 \<Longrightarrow> pad256 d ! i = 0"
      unfolding p using n by (auto simp: nth_append nth_Cons')
    have z: "xor_bytes st (pad256 d) 135 = xor_bytes st (pad256 d) (Suc ?n)"
      by (rule xor_bytes_zeros) (use n p0 in auto)
    show ?thesis unfolding S xor_bytes_Suc p2 z p1 pre by simp
  qed
qed

lemma pad_step: "136 \<le> length d \<Longrightarrow> pad256 d = take 136 d @ pad256 (drop 136 d)"
  by (simp add: pad256_def Let_def le_mod_geq)

lemma blocks_step:
  assumes "length x = 136"
  shows "blocks_of (x @ y) = x # blocks_of y"
proof -
  have "length (x @ y) div 136 = Suc (length y div 136)" using assms by simp
  moreover have "map (\<lambda>k. take 136 (drop (136 * k) (x @ y))) [0..<Suc n]
      = x # map (\<lambda>k. take 136 (drop (136 * k) y)) [0..<n]" for n
    unfolding upt_conv_Cons [OF zero_less_Suc] map_Suc_upt [symmetric] using assms by simp
  ultimately show ?thesis unfolding blocks_of_def by simp
qed

lemma absorb_sponge:
  assumes "length st = 25"
  shows "(case keccak_absorb st d of (st', d') \<Rightarrow>
      keccakf (xor_byte (xor_byte (xor_bytes st' d' (length d')) (length d') 1) 135 0x80))
    = sponge st (blocks_of (pad256 d))"
  using assms
proof (induction st d rule: keccak_absorb.induct)
  case (1 st d)
  show ?case
  proof (cases "136 \<le> length d")
    case True
    let ?st = "keccakf (xor_bytes st d 136)"
    have l: "length ?st = 25" using keccakf_lanes 1(2) by simp
    have x: "xor_bytes st (take 136 d) 136 = xor_bytes st d 136" by (rule xor_bytes_cong) simp
    have "blocks_of (pad256 d) = take 136 d # blocks_of (pad256 (drop 136 d))"
      unfolding pad_step [OF True] using True by (intro blocks_step) simp
    then have "sponge st (blocks_of (pad256 d)) = sponge ?st (blocks_of (pad256 (drop 136 d)))"
      by (simp add: sponge_def x)
    then show ?thesis using True 1(1) [OF True l] by (subst keccak_absorb.simps) simp
  next
    case False
    then have s: "length d < 136" by simp
    note p = pad_last_block [OF s 1(2)]
    have "blocks_of (pad256 d) = [pad256 d]"
      using blocks_step [OF p(1), of "[]"] by (simp add: blocks_of_def)
    then have "sponge st (blocks_of (pad256 d)) = keccakf (xor_bytes st (pad256 d) 136)"
      by (simp add: sponge_def)
    then show ?thesis using False p(2) by (subst keccak_absorb.simps) simp
  qed
qed

subsection \<open>Properties\<close>

text \<open>C12: \<^verbatim>\<open>keccakf\<close> with its three tables is the 24-round permutation of FIPS 202, and
  \<^verbatim>\<open>evm_keccak256\<close> is the sponge with rate 136 on the message padded with 0x01 ... 0x80.\<close>

theorem evm_keccak_is_keccak:
  assumes "length st = 25"
  shows "same_lanes (lanes_of (keccakf st)) (spec_keccakf (lanes_of st))
    \<and> evm_keccak256 m = squeeze256 (sponge (replicate 25 0) (blocks_of (pad256 m)))"
proof
  show "same_lanes (lanes_of (keccakf st)) (spec_keccakf (lanes_of st))"
    using keccakf_lanes [OF assms] by blast
  have e: "(0xFF :: u64) = mask 8" by (simp add: mask_eq_exp_minus_1)
  have b: "(ucast (w AND 0xFF) :: u8) = ucast w" for w :: u64
    unfolding e by (rule bit_word_eqI) (simp add: bit_simps)
  have "evm_keccak256 m = squeeze256 (case keccak_absorb (replicate 25 0) m of (st', d') \<Rightarrow>
      keccakf (xor_byte (xor_byte (xor_bytes st' d' (length d')) (length d') 1) 135 0x80))"
    unfolding evm_keccak256_def squeeze256_def Let_def case_prod_beta b by simp
  then show "evm_keccak256 m = squeeze256 (sponge (replicate 25 0) (blocks_of (pad256 m)))"
    using absorb_sponge [of "replicate 25 0" m] by simp
qed

theorem evm_keccak_is_keccak_witness:
  "same_lanes (lanes_of (keccakf (replicate 25 0))) (spec_keccakf (lanes_of (replicate 25 0)))
   \<and> evm_keccak256 [] = squeeze256 (sponge (replicate 25 0) [0x01 # replicate 134 0 @ [0x80]])"
proof -
  have "pad256 [] = 0x01 # replicate 134 0 @ [0x80]" by (simp add: pad256_def)
  then have "blocks_of (pad256 []) = [0x01 # replicate 134 0 @ [0x80]]" by (simp add: blocks_of_def)
  then show ?thesis using evm_keccak_is_keccak [of "replicate 25 0" "[]"] by simp
qed

end
