(* ===== verification/VulnTag.thy ===== *)
theory VulnTag
  imports IR
begin

text \<open>
  The vulnerability tags of \<^verbatim>\<open>ir_vuln_tag.h\<close> and \<^verbatim>\<open>ir_vuln_tag.c\<close>: a bit set on an IR node, the table of
  stable names, the conversions both ways, the bridge from the lifter's older tags, the JSON array
  written into a caller's buffer and the scan of a module. A buffer is the string before its NUL;
  \<^verbatim>\<open>used\<close> is the length of that string. The lemmas show that the writer never leaves the buffer, that
  what it writes is a bracketed list of the table's names, and that it can be read back.
\<close>

subsection \<open>Tags and names\<close>

definition IR_VULN_NONE :: u32 where "IR_VULN_NONE = 0"
definition IR_VULN_UNTRUSTED_CALL :: u32 where "IR_VULN_UNTRUSTED_CALL = 1"
definition IR_VULN_DELEGATE_CALL :: u32 where "IR_VULN_DELEGATE_CALL = 2"
definition IR_VULN_STATIC_CALL :: u32 where "IR_VULN_STATIC_CALL = 4"
definition IR_VULN_STATE_WRITE :: u32 where "IR_VULN_STATE_WRITE = 8"
definition IR_VULN_PRIV_BOUNDARY :: u32 where "IR_VULN_PRIV_BOUNDARY = 16"
definition IR_VULN_UNKNOWN :: u32 where "IR_VULN_UNKNOWN = 32"
definition IR_VULN_SELFDESTRUCT :: u32 where "IR_VULN_SELFDESTRUCT = 64"
definition IR_VULN_CONTRACT_CREATE :: u32 where "IR_VULN_CONTRACT_CREATE = 128"
definition IR_VULN_EXEC_BARRIER :: u32 where "IR_VULN_EXEC_BARRIER = 256"
definition IR_VULN_OOG :: u32 where "IR_VULN_OOG = 512"
definition IR_VULN_ALL_KNOWN :: u32 where "IR_VULN_ALL_KNOWN = 1023"

lemmas vuln_bits = IR_VULN_NONE_def IR_VULN_UNTRUSTED_CALL_def IR_VULN_DELEGATE_CALL_def
  IR_VULN_STATIC_CALL_def IR_VULN_STATE_WRITE_def IR_VULN_PRIV_BOUNDARY_def IR_VULN_UNKNOWN_def
  IR_VULN_SELFDESTRUCT_def IR_VULN_CONTRACT_CREATE_def IR_VULN_EXEC_BARRIER_def IR_VULN_OOG_def
  IR_VULN_ALL_KNOWN_def

definition IR_VULN_TAG_TABLE :: "(u32 \<times> cstr) list" where
  "IR_VULN_TAG_TABLE = [
     (IR_VULN_UNTRUSTED_CALL, ''IR_VULN_UNTRUSTED_CALL''),
     (IR_VULN_DELEGATE_CALL, ''IR_VULN_DELEGATE_CALL''),
     (IR_VULN_STATIC_CALL, ''IR_VULN_STATIC_CALL''),
     (IR_VULN_STATE_WRITE, ''IR_VULN_STATE_WRITE''),
     (IR_VULN_PRIV_BOUNDARY, ''IR_VULN_PRIV_BOUNDARY''),
     (IR_VULN_UNKNOWN, ''IR_VULN_UNKNOWN''),
     (IR_VULN_SELFDESTRUCT, ''IR_VULN_SELFDESTRUCT''),
     (IR_VULN_CONTRACT_CREATE, ''IR_VULN_CONTRACT_CREATE''),
     (IR_VULN_EXEC_BARRIER, ''IR_VULN_EXEC_BARRIER''),
     (IR_VULN_OOG, ''IR_VULN_OOG'')]"

text \<open>A NULL node is \<open>None\<close>.\<close>

definition ir_vuln_tag_set :: "ir_node option \<Rightarrow> u32 \<Rightarrow> ir_node option" where
  "ir_vuln_tag_set n tags = map_option (\<lambda>m. m\<lparr> nd_vuln_tags := nd_vuln_tags m OR tags \<rparr>) n"

definition ir_vuln_tag_has :: "ir_node option \<Rightarrow> u32 \<Rightarrow> bool" where
  "ir_vuln_tag_has n tags = (case n of None \<Rightarrow> False
     | Some m \<Rightarrow> if tags = IR_VULN_NONE then True else nd_vuln_tags m AND tags = tags)"

definition ir_vuln_tag_to_str :: "u32 \<Rightarrow> cstr" where
  "ir_vuln_tag_to_str tag =
     (if tag = IR_VULN_NONE then ''IR_VULN_NONE''
      else if tag AND (tag - 1) \<noteq> 0 then ''IR_VULN_MULTI''
      else case find (\<lambda>e. fst e = tag) IR_VULN_TAG_TABLE of
             Some e \<Rightarrow> snd e | None \<Rightarrow> ''IR_VULN_UNKNOWN'')"

definition ir_vuln_tag_from_str :: "cstr option \<Rightarrow> u32" where
  "ir_vuln_tag_from_str s = (case s of None \<Rightarrow> IR_VULN_UNKNOWN
     | Some t \<Rightarrow>
        if t = [] then IR_VULN_UNKNOWN
        else if t = ''IR_VULN_NONE'' then IR_VULN_NONE
        else case find (\<lambda>e. t = snd e) IR_VULN_TAG_TABLE of
               Some e \<Rightarrow> fst e | None \<Rightarrow> IR_VULN_UNKNOWN)"

definition ir_vuln_tag_unknown_safe :: "u32 \<Rightarrow> u32" where
  "ir_vuln_tag_unknown_safe raw = (if raw AND NOT IR_VULN_ALL_KNOWN \<noteq> 0 then IR_VULN_UNKNOWN else raw)"

definition ir_vuln_map_from_evm_tag :: "int \<Rightarrow> u32" where
  "ir_vuln_map_from_evm_tag t =
     (if t = 0 then IR_VULN_NONE else if t = 1 then IR_VULN_UNTRUSTED_CALL
      else if t = 2 then IR_VULN_STATIC_CALL else if t = 3 then IR_VULN_SELFDESTRUCT
      else if t = 4 then IR_VULN_STATE_WRITE else if t = 5 then IR_VULN_CONTRACT_CREATE
      else if t = 6 then IR_VULN_EXEC_BARRIER else IR_VULN_UNKNOWN)"

subsection \<open>The JSON array\<close>

definition quote :: char where "quote = CHR 0x22"

fun json_loop :: "u32 \<Rightarrow> int \<Rightarrow> (u32 \<times> cstr) list \<Rightarrow> cstr \<Rightarrow> bool \<Rightarrow> cstr" where
  "json_loop bits bufsz [] buf first = buf"
| "json_loop bits bufsz ((b, name) # es) buf first =
     (if bits AND b = 0 then json_loop bits bufsz es buf first
      else let needed = (if first then length name + 2 else length name + 3)
           in if bufsz \<le> int (length buf + needed + 1) then buf
              else json_loop bits bufsz es
                     (buf @ (if first then [] else '','') @ quote # name @ [quote]) False)"

definition json_append :: "int \<Rightarrow> cstr \<Rightarrow> char \<Rightarrow> cstr" where
  "json_append bufsz buf c = (if int (length buf + 1) < bufsz then buf @ [c] else buf)"

text \<open>\<open>None\<close>: the buffer is not written.\<close>

definition ir_vuln_tags_to_json :: "ir_node option \<Rightarrow> int \<Rightarrow> cstr option" where
  "ir_vuln_tags_to_json n bufsz =
     (if bufsz \<le> 0 then None
      else case n of None \<Rightarrow> Some (if 3 \<le> bufsz then ''[]'' else [])
        | Some m \<Rightarrow>
          if nd_vuln_tags m = 0 then Some (if 3 \<le> bufsz then ''[]'' else [])
          else Some (json_append bufsz
                 (json_loop (nd_vuln_tags m) bufsz IR_VULN_TAG_TABLE (json_append bufsz [] (CHR ''['')) True)
                 (CHR '']'')))"

subsection \<open>The scan\<close>

definition scan_node :: "cstr \<Rightarrow> cstr \<times> nat \<times> int \<Rightarrow> ir_node \<Rightarrow> cstr \<times> nat \<times> int" where
  "scan_node fname st n = (case st of (out, idx, cnt) \<Rightarrow>
     if nd_vuln_tags n = 0 then (out, idx + 1, cnt)
     else (out @ ''  func='' @ pad_right 24 fname @ ''  pc='' @ pad_right 4 (decimal idx)
             @ ''  op='' @ pad_right 12 (ir_op_name (op_code (nd_op n)))
             @ ''  vuln_tags='' @ or_empty (ir_vuln_tags_to_json (Some n) 512) @ [CHR 0x0A],
           idx + 1, cnt + 1))"

definition scan_func :: "cstr \<times> int \<Rightarrow> ir_func \<Rightarrow> cstr \<times> int" where
  "scan_func st fn = (case foldl (scan_node (fn_name fn)) (fst st, 0, snd st) (fn_nodes fn) of
     (out, idx, cnt) \<Rightarrow> (out, cnt))"

definition ir_pass_vuln_scan :: "ir_module option \<Rightarrow> cstr \<times> int" where
  "ir_pass_vuln_scan md = (case md of None \<Rightarrow> ([], 0)
     | Some m \<Rightarrow>
        (case foldl scan_func (''=== ir_pass_vuln_scan: module vuln scan ==='' @ [CHR 0x0A], 0) (md_funcs m) of
           (out, cnt) \<Rightarrow>
             (out @ ''=== ir_pass_vuln_scan: '' @ show_int cnt @ '' tagged node(s) found ==='' @ [CHR 0x0A],
              cnt)))"

subsection \<open>Names\<close>

lemma from_to_str:
  "ir_vuln_tag_from_str (Some (ir_vuln_tag_to_str t))
   = (if t = 0 \<or> t \<in> set (map fst IR_VULN_TAG_TABLE) then t else IR_VULN_UNKNOWN)"
proof (cases "t = 0 \<or> t \<in> set (map fst IR_VULN_TAG_TABLE)")
  case True
  then show ?thesis
    by (elim disjE) (auto simp: IR_VULN_TAG_TABLE_def vuln_bits ir_vuln_tag_to_str_def ir_vuln_tag_from_str_def)
next
  case False
  then have "find (\<lambda>e. fst e = t) IR_VULN_TAG_TABLE = None" unfolding find_None_iff by force
  then have "ir_vuln_tag_to_str t = ''IR_VULN_MULTI'' \<or> ir_vuln_tag_to_str t = ''IR_VULN_UNKNOWN''"
    using False by (simp add: ir_vuln_tag_to_str_def vuln_bits(1))
  moreover have "ir_vuln_tag_from_str (Some ''IR_VULN_MULTI'') = IR_VULN_UNKNOWN"
    "ir_vuln_tag_from_str (Some ''IR_VULN_UNKNOWN'') = IR_VULN_UNKNOWN"
    by (simp_all add: ir_vuln_tag_from_str_def IR_VULN_TAG_TABLE_def)
  ultimately show ?thesis using False by auto
qed

subsection \<open>The writer stays in its buffer\<close>

lemma json_append_length: "0 < bufsz \<Longrightarrow> int (length buf) < bufsz \<Longrightarrow> int (length (json_append bufsz buf c)) < bufsz"
  by (simp add: json_append_def)

lemma json_loop_length: "int (length buf) < bufsz \<Longrightarrow> int (length (json_loop bits bufsz es buf first)) < bufsz"
proof (induction bits bufsz es buf first rule: json_loop.induct)
  case (2 bits bufsz b name es buf first)
  show ?case
  proof (cases "bits AND b = 0")
    case False
    let ?needed = "if first then length name + 2 else length name + 3"
    show ?thesis
    proof (cases "bufsz \<le> int (length buf + ?needed + 1)")
      case fits: False
      then have "int (length (buf @ (if first then [] else '','') @ quote # name @ [quote])) < bufsz" by auto
      then show ?thesis using False fits "2.IH"(2) [OF False refl] by (simp add: Let_def)
    qed (use False 2 in \<open>simp add: Let_def\<close>)
  qed (use 2 in simp)
qed simp

lemma json_fits: "ir_vuln_tags_to_json n bufsz = Some s \<Longrightarrow> int (length s) < bufsz"
  by (auto simp: ir_vuln_tags_to_json_def json_append_length json_loop_length split: if_splits option.splits)

subsection \<open>What it writes\<close>

definition tag_names :: "u32 \<Rightarrow> (u32 \<times> cstr) list \<Rightarrow> cstr list" where
  "tag_names bits es = map snd (filter (\<lambda>e. bits AND fst e \<noteq> 0) es)"

fun json_items :: "bool \<Rightarrow> cstr list \<Rightarrow> cstr" where
  "json_items first [] = []"
| "json_items first (nm # nms) = (if first then [] else '','') @ quote # nm @ quote # json_items False nms"

lemma json_loop_exact:
  assumes "int (length buf + length (json_items first (tag_names bits es)) + 1) < bufsz"
  shows "json_loop bits bufsz es buf first = buf @ json_items first (tag_names bits es)"
  using assms
proof (induction bits bufsz es buf first rule: json_loop.induct)
  case (2 bits bufsz b name es buf first)
  show ?case
  proof (cases "bits AND b = 0")
    case False
    let ?needed = "if first then length name + 2 else length name + 3"
    have "\<not> bufsz \<le> int (length buf + ?needed + 1)" using "2.prems" False by (auto simp: tag_names_def)
    then show ?thesis using False "2.IH"(2) [OF False refl] "2.prems"
      by (cases first) (simp_all add: tag_names_def Let_def)
  qed (use 2 in \<open>simp add: tag_names_def\<close>)
qed (simp add: tag_names_def)

text \<open>Some prefix of the names is written whatever the size, and the brackets always match.\<close>

lemma json_loop_prefix:
  assumes "int (length buf + 1) < bufsz"
  shows "\<exists>k. json_loop bits bufsz es buf first = buf @ json_items first (take k (tag_names bits es))
     \<and> int (length (json_loop bits bufsz es buf first) + 1) < bufsz"
  using assms
proof (induction bits bufsz es buf first rule: json_loop.induct)
  case (1 bits bufsz buf first)
  then show ?case by (simp add: tag_names_def)
next
  case (2 bits bufsz b name es buf first)
  show ?case
  proof (cases "bits AND b = 0")
    case True
    then show ?thesis using "2.IH"(1) [OF True "2.prems"] by (simp add: tag_names_def)
  next
    case False
    let ?needed = "if first then length name + 2 else length name + 3"
    let ?buf = "buf @ (if first then [] else '','') @ quote # name @ [quote]"
    have nm: "tag_names bits ((b, name) # es) = name # tag_names bits es" using False by (simp add: tag_names_def)
    show ?thesis
    proof (cases "bufsz \<le> int (length buf + ?needed + 1)")
      case True
      then have "json_loop bits bufsz ((b, name) # es) buf first = buf @ json_items first (take 0 (tag_names bits ((b, name) # es)))"
        using False by (simp add: Let_def)
      then show ?thesis using "2.prems" by (metis append_Nil2 json_items.simps(1) take_0)
    next
      case fits: False
      then have "int (length ?buf + 1) < bufsz" by auto
      from "2.IH"(2) [OF False refl fits this] obtain k where
        k: "json_loop bits bufsz es ?buf False = ?buf @ json_items False (take k (tag_names bits es))"
          "int (length (json_loop bits bufsz es ?buf False) + 1) < bufsz" by blast
      have e: "json_loop bits bufsz ((b, name) # es) buf first = json_loop bits bufsz es ?buf False"
        using False fits by (simp add: Let_def)
      have "?buf @ json_items False (take k (tag_names bits es))
          = buf @ json_items first (take (Suc k) (tag_names bits ((b, name) # es)))"
        unfolding nm by simp
      then show ?thesis using k unfolding e by metis
    qed
  qed
qed

lemma json_shape:
  assumes "ir_vuln_tags_to_json (Some n) bufsz = Some s" "3 \<le> bufsz"
  shows "\<exists>k. s = ''['' @ json_items True (take k (tag_names (nd_vuln_tags n) IR_VULN_TAG_TABLE)) @ '']''"
proof (cases "nd_vuln_tags n = 0")
  case True
  then show ?thesis using assms by (auto simp: ir_vuln_tags_to_json_def intro!: exI [of _ 0])
next
  case False
  have o: "json_append bufsz [] (CHR ''['') = ''[''" using assms(2) by (simp add: json_append_def)
  have "int (length ''['' + 1) < bufsz" using assms(2) by simp
  from json_loop_prefix [OF this, of "nd_vuln_tags n" IR_VULN_TAG_TABLE True] obtain k where
    k: "json_loop (nd_vuln_tags n) bufsz IR_VULN_TAG_TABLE ''['' True
        = ''['' @ json_items True (take k (tag_names (nd_vuln_tags n) IR_VULN_TAG_TABLE))"
      "int (length (json_loop (nd_vuln_tags n) bufsz IR_VULN_TAG_TABLE ''['' True) + 1) < bufsz" by blast
  show ?thesis
    using assms False k by (intro exI [of _ k]) (auto simp: ir_vuln_tags_to_json_def o json_append_def)
qed

subsection \<open>Reading the array back\<close>

fun quoted :: "bool \<Rightarrow> cstr \<Rightarrow> cstr \<Rightarrow> cstr list" where
  "quoted inside acc [] = []"
| "quoted inside acc (c # cs) =
     (if c = quote then (if inside then rev acc # quoted False [] cs else quoted True [] cs)
      else quoted inside (if inside then c # acc else acc) cs)"

definition read_tags :: "cstr \<Rightarrow> u32" where
  "read_tags s = foldr (\<lambda>nm a. ir_vuln_tag_from_str (Some nm) OR a) (quoted False [] s) 0"

lemma quoted_inside: "quote \<notin> set nm \<Longrightarrow> quoted True acc (nm @ quote # r) = (rev acc @ nm) # quoted False [] r"
  by (induction nm arbitrary: acc) auto

lemma quoted_items:
  "\<forall>nm \<in> set nms. quote \<notin> set nm \<Longrightarrow> quoted False [] (json_items first nms @ '']'') = nms"
proof (induction nms arbitrary: first)
  case (Cons nm nms)
  then have "quoted False [] ((quote # nm @ quote # json_items False nms) @ '']'') = nm # nms"
    using quoted_inside [of nm "[]" "json_items False nms @ '']''"] by simp
  then show ?case by (simp add: quote_def)
qed (simp add: quote_def)

lemma table_names_quote_free: "nm \<in> set (map snd IR_VULN_TAG_TABLE) \<Longrightarrow> quote \<notin> set nm"
  by (auto simp: IR_VULN_TAG_TABLE_def quote_def)

lemma tag_names_subset: "set (tag_names bits es) \<subseteq> set (map snd es)"
  by (auto simp: tag_names_def)

lemma json_items_length: "length (json_items first nms) \<le> sum_list (map (\<lambda>nm. length nm + 3) nms)"
  by (induction nms arbitrary: first) (auto intro: le_SucI)

lemma tag_names_sum:
  "sum_list (map (\<lambda>nm. length nm + 3) (tag_names bits es)) \<le> sum_list (map (\<lambda>e. length (snd e) + 3) es)"
  by (induction es) (simp_all add: tag_names_def)

lemma and_single: "(if bits AND 2 ^ k \<noteq> 0 then 2 ^ k else 0) = bits AND (2 ^ k :: 'a::len word)"
  by (rule bit_word_eqI) (auto simp: and_exp_eq_0_iff_not_bit bit_simps)

lemma read_names:
  "foldr (\<lambda>nm a. ir_vuln_tag_from_str (Some nm) OR a) (tag_names bits IR_VULN_TAG_TABLE) 0
   = bits AND IR_VULN_ALL_KNOWN"
proof -
  have f: "foldr (\<lambda>nm a. ir_vuln_tag_from_str (Some nm) OR a) (tag_names bits es) 0
      = foldr (\<lambda>e a. (if bits AND fst e \<noteq> 0 then fst e else 0) OR a) es 0"
    if "\<forall>e \<in> set es. ir_vuln_tag_from_str (Some (snd e)) = fst e" for es
    using that by (induction es) (simp_all add: tag_names_def)
  have t: "\<forall>e \<in> set IR_VULN_TAG_TABLE. ir_vuln_tag_from_str (Some (snd e)) = fst e"
    by (simp add: IR_VULN_TAG_TABLE_def ir_vuln_tag_from_str_def)
  have p: "IR_VULN_TAG_TABLE = map (\<lambda>k. (2 ^ k, snd (IR_VULN_TAG_TABLE ! k))) [0..<10]"
    by (simp add: IR_VULN_TAG_TABLE_def vuln_bits upt_rec)
  have "foldr (\<lambda>e a. (if bits AND fst e \<noteq> 0 then fst e else 0) OR a) IR_VULN_TAG_TABLE 0
      = foldr (\<lambda>k a. (bits AND 2 ^ k) OR a) [0..<10] 0"
    by (subst p) (simp only: foldr_map o_def fst_conv and_single)
  also have "\<dots> = bits AND IR_VULN_ALL_KNOWN"
    unfolding vuln_bits by (simp add: upt_rec bit.conj_disj_distrib flip: bit.conj_disj_distrib)
  finally show ?thesis unfolding f [OF t] .
qed

text \<open>A node whose tags are known is written as a JSON array that fits the buffer (with the closing
  NUL) and from which the tags can be read back, for every buffer of at least 225 bytes, such as the
  512 of the scan; and the conversion of a tag to its name and back is the identity on the known tags
  and \<^verbatim>\<open>IR_VULN_UNKNOWN\<close> otherwise.\<close>

lemma vuln_tags_roundtrip:
  assumes "nd_vuln_tags n AND NOT IR_VULN_ALL_KNOWN = 0" and "225 \<le> bufsz"
  shows "(\<exists>s. ir_vuln_tags_to_json (Some n) bufsz = Some s \<and> int (length s) < bufsz
            \<and> read_tags s = nd_vuln_tags n)
    \<and> ir_vuln_tag_from_str (Some (ir_vuln_tag_to_str t))
      = (if t = 0 \<or> t \<in> set (map fst IR_VULN_TAG_TABLE) then t else IR_VULN_UNKNOWN)"
proof (intro conjI from_to_str)
  let ?bits = "nd_vuln_tags n"
  let ?items = "json_items True (tag_names ?bits IR_VULN_TAG_TABLE)"
  have "length ?items \<le> sum_list (map (\<lambda>nm. length nm + 3) (tag_names ?bits IR_VULN_TAG_TABLE))"
    by (rule json_items_length)
  also have "\<dots> \<le> sum_list (map (\<lambda>e. length (snd e) + 3) IR_VULN_TAG_TABLE)" by (rule tag_names_sum)
  also have "\<dots> = 221" by (simp add: IR_VULN_TAG_TABLE_def)
  finally have len: "length ?items \<le> 221" .
  have o: "json_append bufsz [] (CHR ''['') = ''[''" using assms(2) by (simp add: json_append_def)
  have "json_loop ?bits bufsz IR_VULN_TAG_TABLE ''['' True = ''['' @ ?items"
    by (rule json_loop_exact) (use len assms(2) in simp)
  then have "ir_vuln_tags_to_json (Some n) bufsz = Some (''['' @ ?items @ '']'')"
    using assms(2) len by (auto simp: ir_vuln_tags_to_json_def o json_append_def tag_names_def)
  moreover have "read_tags (''['' @ ?items @ '']'') = ?bits"
  proof -
    have "quoted False [] (''['' @ ?items @ '']'') = tag_names ?bits IR_VULN_TAG_TABLE"
    proof -
      have "\<forall>nm \<in> set (tag_names ?bits IR_VULN_TAG_TABLE). quote \<notin> set nm"
        using table_names_quote_free tag_names_subset by blast
      from quoted_items [OF this, of True] show ?thesis by (simp add: quote_def)
    qed
    moreover have "?bits AND IR_VULN_ALL_KNOWN = ?bits"
      using assms(1) by (metis bit.conj_disj_distrib bit.compl_unique bit.conj_one_right bit.disj_cancel_right bit.disj_zero_right)
    ultimately show ?thesis unfolding read_tags_def by (simp add: read_names)
  qed
  ultimately show "\<exists>s. ir_vuln_tags_to_json (Some n) bufsz = Some s \<and> int (length s) < bufsz \<and> read_tags s = ?bits"
    using len assms(2) by (intro exI [of _ "''['' @ ?items @ '']''"]) simp
qed

lemma vuln_tags_roundtrip_witness:
  "ir_vuln_tags_to_json (Some (ir_node_alloc\<lparr> nd_vuln_tags := 3 \<rparr>)) 512
     = Some (''['' @ quote # ''IR_VULN_UNTRUSTED_CALL'' @ quote # '','' @ quote # ''IR_VULN_DELEGATE_CALL'' @ quote # '']'')
   \<and> read_tags (''['' @ quote # ''IR_VULN_UNTRUSTED_CALL'' @ quote # '','' @ quote # ''IR_VULN_DELEGATE_CALL'' @ quote # '']'') = 3"
proof -
  let ?n = "ir_node_alloc\<lparr> nd_vuln_tags := 3 \<rparr>"
  have "nd_vuln_tags ?n AND NOT IR_VULN_ALL_KNOWN = 0" by code_simp
  from vuln_tags_roundtrip [OF this, of 512 0]
  obtain s where "ir_vuln_tags_to_json (Some ?n) 512 = Some s" "read_tags s = 3" by auto
  moreover have "ir_vuln_tags_to_json (Some ?n) 512
     = Some (''['' @ quote # ''IR_VULN_UNTRUSTED_CALL'' @ quote # '','' @ quote # ''IR_VULN_DELEGATE_CALL'' @ quote # '']'')"
    by code_simp
  ultimately show ?thesis by simp
qed

end
