(* ===== verification/Warden.thy ===== *)
theory Warden
  imports IR VulnTag NameTable Passes
begin

text \<open>
  The taint analysis \<^verbatim>\<open>ir_pass_warden.c\<close>: a growing hash table from register names to taint states, a
  bounded stack of branch contexts, and one forward walk over the nodes that marks sources, carries
  taint through operations and reports it at stores, calls and self-destructs. Within one node every
  lookup precedes the only insertion, so a node's effect is computed from the table before it and
  then applied.

  The probing loops end only at an empty slot or at the name; they are written with the capacity as
  fuel, and the table's invariant (theory \<open>WardenMap\<close>) shows that they end within it.
  Memory allocation is assumed to succeed. The coloured report on stderr is the list of violations;
  its wording is a constructor of \<open>warden_sink\<close>.
\<close>

subsection \<open>Taint states, ordered by their code\<close>

datatype warden_taint = WARDEN_SAFE | WARDEN_TAINTED | WARDEN_CHECKED

fun taint_code :: "warden_taint \<Rightarrow> nat" where
  "taint_code WARDEN_SAFE = 0"
| "taint_code WARDEN_TAINTED = 1"
| "taint_code WARDEN_CHECKED = 2"

lemma taint_code_inj: "taint_code a = taint_code b \<Longrightarrow> a = b"
  by (cases a; cases b) simp_all

instantiation warden_taint :: linorder
begin

definition less_eq_warden_taint :: "warden_taint \<Rightarrow> warden_taint \<Rightarrow> bool" where
  "less_eq_warden_taint a b \<longleftrightarrow> taint_code a \<le> taint_code b"

definition less_warden_taint :: "warden_taint \<Rightarrow> warden_taint \<Rightarrow> bool" where
  "less_warden_taint a b \<longleftrightarrow> taint_code a < taint_code b"

instance
  by standard (auto simp: less_eq_warden_taint_def less_warden_taint_def intro: taint_code_inj)

end

lemma taint_order [simp]:
  "WARDEN_SAFE \<le> t" "t \<le> WARDEN_CHECKED" "WARDEN_SAFE < WARDEN_TAINTED" "WARDEN_TAINTED < WARDEN_CHECKED"
  "WARDEN_SAFE < t \<longleftrightarrow> t \<noteq> WARDEN_SAFE" "\<not> t < WARDEN_SAFE" "\<not> WARDEN_CHECKED < t"
  by (cases t; simp add: less_eq_warden_taint_def less_warden_taint_def)+

subsection \<open>The hash table\<close>

definition WARDEN_INITIAL_CAP :: nat where "WARDEN_INITIAL_CAP = 8192"
definition FNV_OFFSET_BASIS :: u32 where "FNV_OFFSET_BASIS = 2166136261"
definition FNV_PRIME32 :: u32 where "FNV_PRIME32 = 16777619"

record warden_entry =
  we_name :: cstr
  we_state :: warden_taint
  we_lineno :: int
  we_desc :: cstr

definition blank_entry :: warden_entry where
  "blank_entry = \<lparr> we_name = [], we_state = WARDEN_SAFE, we_lineno = 0, we_desc = [] \<rparr>"

text \<open>The capacity is the number of slots; no slots is the NULL pointer of the initial map.\<close>

record warden_map =
  wm_slots :: "warden_entry list"
  wm_count :: nat

definition wmap_hash :: "cstr \<Rightarrow> u32" where
  "wmap_hash s = foldl (\<lambda>h c. (h XOR of_nat (of_char c)) * FNV_PRIME32) FNV_OFFSET_BASIS s"

fun probe :: "(warden_entry \<Rightarrow> bool) \<Rightarrow> nat \<Rightarrow> warden_entry list \<Rightarrow> nat \<Rightarrow> nat option" where
  "probe stop 0 slots slot = None"
| "probe stop (Suc k) slots slot =
     (if stop (slots ! slot) then Some slot else probe stop k slots ((slot + 1) mod length slots))"

definition start_slot :: "warden_entry list \<Rightarrow> cstr \<Rightarrow> nat" where
  "start_slot slots nm = unat (wmap_hash nm) mod length slots"

definition wmap_insert_raw :: "warden_entry list \<Rightarrow> warden_entry \<Rightarrow> warden_entry list" where
  "wmap_insert_raw slots e =
     (case probe (\<lambda>x. we_name x = []) (length slots) slots (start_slot slots (we_name e)) of
        Some slot \<Rightarrow> slots[slot := e] | None \<Rightarrow> slots)"

definition wmap_ensure_cap :: "warden_map \<Rightarrow> warden_map" where
  "wmap_ensure_cap m =
     (let cap = length (wm_slots m)
      in if cap = 0 then \<lparr> wm_slots = replicate WARDEN_INITIAL_CAP blank_entry, wm_count = 0 \<rparr>
         else if cap * 3 \<le> wm_count m * 4
         then m\<lparr> wm_slots := foldl (\<lambda>ns e. if we_name e \<noteq> [] then wmap_insert_raw ns e else ns)
                               (replicate (cap * 2) blank_entry) (wm_slots m) \<rparr>
         else m)"

definition wmap_clear :: "warden_map \<Rightarrow> warden_map" where
  "wmap_clear m = \<lparr> wm_slots = map (\<lambda>_. blank_entry) (wm_slots m), wm_count = 0 \<rparr>"

definition wmap_free :: "warden_map \<Rightarrow> warden_map" where
  "wmap_free m = \<lparr> wm_slots = [], wm_count = 0 \<rparr>"

definition wmap_find :: "warden_map \<Rightarrow> cstr \<Rightarrow> warden_entry option" where
  "wmap_find m nm =
     (if nm = [] \<or> wm_slots m = [] then None
      else case probe (\<lambda>x. we_name x = [] \<or> we_name x = nm) (length (wm_slots m)) (wm_slots m)
                   (start_slot (wm_slots m) nm) of
             Some slot \<Rightarrow> (if we_name (wm_slots m ! slot) = [] then None else Some (wm_slots m ! slot))
           | None \<Rightarrow> None)"

text \<open>Find or create the slot of a name and change its entry.\<close>

definition wmap_update :: "warden_map \<Rightarrow> cstr \<Rightarrow> (warden_entry \<Rightarrow> warden_entry) \<Rightarrow> warden_map" where
  "wmap_update m0 nm f =
     (let m = wmap_ensure_cap m0; slots = wm_slots m
      in case probe (\<lambda>x. we_name x = [] \<or> we_name x = nm) (length slots) slots (start_slot slots nm) of
           None \<Rightarrow> m
         | Some slot \<Rightarrow>
             let e = slots ! slot
             in if we_name e = []
                then \<lparr> wm_slots = slots[slot := f (e\<lparr> we_name := c_copy IR_NAME_MAX nm, we_desc := [] \<rparr>)],
                       wm_count = wm_count m + 1 \<rparr>
                else m\<lparr> wm_slots := slots[slot := f e] \<rparr>)"

definition escalate :: "warden_taint \<Rightarrow> int \<Rightarrow> cstr option \<Rightarrow> warden_entry \<Rightarrow> warden_entry" where
  "escalate st lineno desc e =
     (if we_state e < st
      then e\<lparr> we_state := st, we_lineno := lineno,
              we_desc := (case desc of None \<Rightarrow> we_desc e | Some d \<Rightarrow> c_copy 128 d) \<rparr>
      else e)"

definition wmap_set :: "warden_map \<Rightarrow> cstr \<Rightarrow> warden_taint \<Rightarrow> int \<Rightarrow> cstr option \<Rightarrow> warden_map" where
  "wmap_set m nm st lineno desc = (if nm = [] then m else wmap_update m nm (escalate st lineno desc))"

text \<open>A lookup function stands for the table a node reads.\<close>

type_synonym wlook = "cstr \<Rightarrow> warden_entry option"

definition wmap_get :: "wlook \<Rightarrow> cstr \<Rightarrow> warden_taint" where
  "wmap_get look nm = (case look nm of Some e \<Rightarrow> we_state e | None \<Rightarrow> WARDEN_SAFE)"

subsection \<open>The context stack\<close>

definition MAX_CTX_DEPTH :: nat where "MAX_CTX_DEPTH = 64"

definition ctx_push :: "warden_taint list \<Rightarrow> warden_taint \<Rightarrow> warden_taint list" where
  "ctx_push ctx t = (if length ctx < MAX_CTX_DEPTH then t # ctx else ctx)"

definition ctx_pop :: "warden_taint list \<Rightarrow> warden_taint list" where
  "ctx_pop ctx = tl ctx"

definition ctx_current :: "warden_taint list \<Rightarrow> warden_taint" where
  "ctx_current ctx = (case ctx of [] \<Rightarrow> WARDEN_SAFE | t # _ \<Rightarrow> t)"

subsection \<open>Sources, propagation, sanitisation\<close>

definition IR_TAG_NONE :: int where "IR_TAG_NONE = 0"
definition IR_TAG_UNTRUSTED_EXTERNAL_CALL :: int where "IR_TAG_UNTRUSTED_EXTERNAL_CALL = 1"
definition IR_TAG_SELFDESTRUCT :: int where "IR_TAG_SELFDESTRUCT = 3"
definition IR_TAG_SSTORE :: int where "IR_TAG_SSTORE = 4"

definition is_taint_source :: "ir_node \<Rightarrow> cstr option" where
  "is_taint_source n =
     (if nd_op n = IR_CALL \<and> nd_tag n = IR_TAG_UNTRUSTED_EXTERNAL_CALL
      then Some (c_copy 128 (''CALL/CALLCODE return ['' @ nd_label n @ '']''))
      else if nd_op n = IR_LOAD \<and> nd_tag n = IR_TAG_NONE then Some ''CALLDATALOAD/SLOAD''
      else None)"

definition compute_propagated_taint :: "wlook \<Rightarrow> ir_node \<Rightarrow> warden_taint" where
  "compute_propagated_taint look n =
     (let t1 = (if nd_src1 n \<noteq> [] then wmap_get look (nd_src1 n) else WARDEN_SAFE);
          t2 = (if nd_src2 n \<noteq> [] then wmap_get look (nd_src2 n) else WARDEN_SAFE)
      in if t2 < t1 then t1 else t2)"

definition is_propagating_op :: "ir_op \<Rightarrow> bool" where
  "is_propagating_op op \<longleftrightarrow> op \<in> {IR_ADD, IR_SUB, IR_MUL, IR_DIV, IR_MOD, IR_NEG, IR_AND, IR_OR, IR_XOR,
     IR_NOT, IR_SHL, IR_SHR, IR_CAST, IR_COPY, IR_FADD, IR_FSUB, IR_FMUL, IR_FDIV, IR_ITOF, IR_FTOI}"

definition is_comparison_op :: "ir_op \<Rightarrow> bool" where
  "is_comparison_op op \<longleftrightarrow> op \<in> {IR_EQ, IR_NE, IR_LT, IR_LE, IR_GT, IR_GE}"

definition desc_or :: "warden_entry option \<Rightarrow> cstr \<Rightarrow> cstr option" where
  "desc_or e d = Some (case e of Some x \<Rightarrow> we_desc x | None \<Rightarrow> d)"

text \<open>Phase 2: the state and description a comparison gives its result, if it ends the node.\<close>

definition compare_rule :: "wlook \<Rightarrow> ir_node \<Rightarrow> (warden_taint \<times> cstr option) option" where
  "compare_rule look n =
     (let t1 = wmap_get look (nd_src1 n); t2 = wmap_get look (nd_src2 n)
      in if t1 = WARDEN_TAINTED \<and> t2 = WARDEN_SAFE \<or> t2 = WARDEN_TAINTED \<and> t1 = WARDEN_SAFE
         then Some (WARDEN_CHECKED,
                desc_or (look (if t1 = WARDEN_TAINTED then nd_src1 n else nd_src2 n)) ''comparison-sanitized'')
         else if t1 \<noteq> WARDEN_SAFE \<or> t2 \<noteq> WARDEN_SAFE
         then Some (if t2 < t1 then t1 else t2,
                desc_or (look (if t2 \<le> t1 then nd_src1 n else nd_src2 n)) ''tainted-comparison'')
         else None)"

text \<open>Phases 3 and 4: \<open>None\<close> leaves the table as it is.\<close>

definition propagate_rule :: "wlook \<Rightarrow> ir_node \<Rightarrow> (warden_taint \<times> cstr option) option" where
  "propagate_rule look n =
     (let p = compute_propagated_taint look n
      in if p \<noteq> WARDEN_SAFE
         then Some (p, desc_or (look (if wmap_get look (nd_src1 n) \<noteq> WARDEN_SAFE then nd_src1 n else nd_src2 n))
                         ''propagated'')
         else None)"

definition load_rule :: "wlook \<Rightarrow> ir_node \<Rightarrow> (warden_taint \<times> cstr option) option" where
  "load_rule look n =
     (if wmap_get look (nd_src1 n) \<noteq> WARDEN_SAFE
      then Some (WARDEN_TAINTED, desc_or (look (nd_src1 n)) ''tainted-deref'') else None)"

subsection \<open>Sinks\<close>

datatype warden_sink = SSTORE_implicit | SSTORE_slot | SSTORE_value | SSTORE_checked
  | CALL_implicit | CALL_target | SELFDESTRUCT_implicit | SELFDESTRUCT_beneficiary

record warden_violation =
  wv_lineno :: int
  wv_operand :: cstr
  wv_sink :: warden_sink
  wv_taint :: warden_taint

definition elevate :: "warden_taint \<Rightarrow> warden_taint \<Rightarrow> warden_taint" where
  "elevate ctx_t t = (if t < ctx_t then ctx_t else t)"

definition violation :: "ir_node \<Rightarrow> cstr \<Rightarrow> warden_sink \<Rightarrow> warden_taint \<Rightarrow> warden_violation" where
  "violation n opnd sink t = \<lparr> wv_lineno = nd_lineno n, wv_operand = opnd, wv_sink = sink, wv_taint = t \<rparr>"

definition sstore_sink :: "wlook \<Rightarrow> warden_taint \<Rightarrow> ir_node \<Rightarrow> warden_violation list" where
  "sstore_sink look ctx_t n =
     (let slot_taint = elevate ctx_t (wmap_get look (nd_dst n));
          val_taint = elevate ctx_t (wmap_get look (nd_src1 n))
      in (if slot_taint = WARDEN_TAINTED
          then [violation n (nd_dst n) (if ctx_t \<noteq> WARDEN_SAFE then SSTORE_implicit else SSTORE_slot) slot_taint]
          else [])
       @ (if val_taint = WARDEN_TAINTED
          then [violation n (nd_src1 n) (if ctx_t \<noteq> WARDEN_SAFE then SSTORE_implicit else SSTORE_value) val_taint]
          else [])
       @ (if slot_taint = WARDEN_CHECKED \<or> val_taint = WARDEN_CHECKED
          then [violation n (if slot_taint = WARDEN_CHECKED then nd_dst n else nd_src1 n) SSTORE_checked WARDEN_CHECKED]
          else []))"

definition call_sink :: "wlook \<Rightarrow> warden_taint \<Rightarrow> ir_node \<Rightarrow> warden_violation list" where
  "call_sink look ctx_t n =
     (if nd_op n = IR_CALL \<and> nd_tag n = IR_TAG_UNTRUSTED_EXTERNAL_CALL
      then let target_taint = elevate ctx_t (wmap_get look (nd_label n))
           in if target_taint = WARDEN_TAINTED
              then [violation n (nd_label n) (if ctx_t \<noteq> WARDEN_SAFE then CALL_implicit else CALL_target) target_taint]
              else []
      else [])"

definition selfdestruct_sink :: "wlook \<Rightarrow> warden_taint \<Rightarrow> ir_node \<Rightarrow> warden_violation list" where
  "selfdestruct_sink look ctx_t n =
     (if nd_tag n = IR_TAG_SELFDESTRUCT
      then let dst_taint = elevate ctx_t (wmap_get look (nd_src1 n))
           in if dst_taint \<noteq> WARDEN_SAFE
              then [violation n (nd_src1 n)
                      (if ctx_t \<noteq> WARDEN_SAFE then SELFDESTRUCT_implicit else SELFDESTRUCT_beneficiary) dst_taint]
              else []
      else [])"

subsection \<open>One node, the pass\<close>

definition warden_ctx :: "wlook \<Rightarrow> warden_taint list \<Rightarrow> ir_node \<Rightarrow> warden_taint list" where
  "warden_ctx look ctx0 n =
     (let ctx = (if nd_op n = IR_LABEL then ctx_pop ctx0 else ctx0)
      in if nd_op n = IR_BR_IF \<and> nd_src1 n \<noteq> []
         then let c = wmap_get look (nd_src1 n) in if WARDEN_SAFE < c then ctx_push ctx c else ctx
         else ctx)"

text \<open>What a node asks to be recorded for its destination, and the violations it raises.\<close>

definition warden_effect ::
    "wlook \<Rightarrow> warden_taint \<Rightarrow> ir_node \<Rightarrow> (warden_taint \<times> cstr option) option \<times> warden_violation list" where
  "warden_effect look ctx_t n =
     (if nd_dst n \<noteq> [] \<and> is_taint_source n \<noteq> None then (Some (WARDEN_TAINTED, is_taint_source n), [])
      else if is_comparison_op (nd_op n) \<and> nd_dst n \<noteq> [] \<and> compare_rule look n \<noteq> None
      then (compare_rule look n, [])
      else if is_propagating_op (nd_op n) \<and> nd_dst n \<noteq> [] then (propagate_rule look n, [])
      else if nd_op n = IR_LOAD \<and> nd_dst n \<noteq> [] then (load_rule look n, [])
      else if nd_op n = IR_STORE \<and> nd_tag n = IR_TAG_SSTORE then (None, sstore_sink look ctx_t n)
      else (None, call_sink look ctx_t n @ selfdestruct_sink look ctx_t n))"

record warden_state =
  ws_map :: warden_map
  ws_ctx :: "warden_taint list"
  ws_viol :: "warden_violation list"

definition warden_node :: "warden_state \<Rightarrow> ir_node \<Rightarrow> warden_state" where
  "warden_node st n =
     (let look = wmap_find (ws_map st);
          ctx = warden_ctx look (ws_ctx st) n;
          (req, vs) = warden_effect look (ctx_current ctx) n
      in \<lparr> ws_map = (case req of None \<Rightarrow> ws_map st
                     | Some (t, d) \<Rightarrow> wmap_set (ws_map st) (nd_dst n) t (nd_lineno n) d),
           ws_ctx = ctx, ws_viol = ws_viol st @ vs \<rparr>)"

definition warden_run :: "warden_map \<Rightarrow> ir_node list \<Rightarrow> warden_state" where
  "warden_run m ns = foldl warden_node \<lparr> ws_map = wmap_clear m, ws_ctx = [], ws_viol = [] \<rparr> ns"

definition ir_pass_warden :: "warden_map \<Rightarrow> ir_func \<Rightarrow> warden_map \<times> warden_violation list \<times> ir_pass_result" where
  "ir_pass_warden m fn =
     (if fn_nodes fn = [] then (m, [], empty_result)
      else let st = warden_run m (fn_nodes fn)
           in (wmap_free (ws_map st), ws_viol st,
               empty_result\<lparr> nodes_before := fn_node_count fn, nodes_after := fn_node_count fn,
                              nodes_modified := int (length (ws_viol st)) \<rparr>))"

end
