(* ===== verification/WardenMap.thy ===== *)
theory WardenMap
  imports Warden
begin

text \<open>
  The hash table of the taint analysis is a map: probing ends within the capacity, a lookup finds the
  entry last written for a name, growth keeps all entries. The invariant \<open>wm_inv\<close> is the one of
  open addressing: distinct names, no empty slot between the start slot of a name and its entry, and
  fewer entries than slots.
\<close>

subsection \<open>Cyclic positions\<close>

definition posn :: "warden_entry list \<Rightarrow> cstr \<Rightarrow> nat \<Rightarrow> nat" where
  "posn slots nm d = (start_slot slots nm + d) mod length slots"

lemma posn_less: "slots \<noteq> [] \<Longrightarrow> posn slots nm d < length slots"
  by (simp add: posn_def)

lemma posn_update [simp]: "posn (slots[i := e]) nm d = posn slots nm d"
  by (simp add: posn_def start_slot_def)

lemma posn_onto:
  assumes "s < length slots"
  shows "\<exists>d < length slots. posn slots nm d = s"
proof -
  let ?n = "length slots" and ?a = "start_slot slots nm"
  have "0 < ?n" using assms by linarith
  then have a: "?a < ?n" unfolding start_slot_def by (rule mod_less_divisor)
  let ?d = "if ?a \<le> s then s - ?a else ?n - ?a + s"
  have "posn slots nm ?d = s" using a assms by (auto simp: posn_def)
  moreover have "?d < ?n" using a assms by auto
  ultimately show ?thesis by blast
qed

lemma probe_spec:
  assumes "stop (slots ! posn slots nm d)" "\<forall>i < d. \<not> stop (slots ! posn slots nm i)" "d < k"
  shows "probe stop k slots (posn slots nm 0) = Some (posn slots nm d)"
proof -
  have "probe stop (k - i) slots (posn slots nm i) = Some (posn slots nm d)" if "i \<le> d" for i
    using that
  proof (induction i rule: inc_induct)
    case base
    obtain k' where "k - d = Suc k'" using assms(3) by (cases "k - d") auto
    then show ?case using assms(1) by simp
  next
    case (step i)
    obtain k' where k': "k - i = Suc k'" "k - Suc i = k'" using assms(3) step.hyps by (cases "k - i") auto
    have "(posn slots nm i + 1) mod length slots = posn slots nm (Suc i)"
      by (simp add: posn_def mod_simps)
    then show ?case using step assms(2) k' by simp
  qed
  from this [of 0] show ?thesis by simp
qed

lemma posn_0: "posn slots nm 0 = start_slot slots nm"
  by (simp add: posn_def start_slot_def)

lemma probe_first:
  assumes "s < length slots" "stop (slots ! s)"
  obtains d where "d < length slots" "stop (slots ! posn slots nm d)"
    "\<forall>i < d. \<not> stop (slots ! posn slots nm i)"
    "probe stop (length slots) slots (start_slot slots nm) = Some (posn slots nm d)"
proof -
  let ?P = "\<lambda>d. stop (slots ! posn slots nm d)"
  obtain d0 where d0: "d0 < length slots" "posn slots nm d0 = s" using posn_onto [OF assms(1)] by blast
  let ?d = "LEAST d. ?P d"
  have "?P d0" using d0 assms(2) by simp
  then have d: "?P ?d" "?d \<le> d0" by (rule LeastI, rule Least_le)
  have before: "\<forall>i < ?d. \<not> ?P i" using not_less_Least by blast
  have less: "?d < length slots" using d(2) d0(1) by simp
  show ?thesis
    by (rule that [OF less d(1) before]) (rule probe_spec [OF d(1) before less, unfolded posn_0])
qed

subsection \<open>The invariant\<close>

definition names_of :: "warden_entry list \<Rightarrow> cstr set" where
  "names_of slots = {we_name e | e. e \<in> set slots \<and> we_name e \<noteq> []}"

definition chain_ok :: "warden_entry list \<Rightarrow> bool" where
  "chain_ok slots \<longleftrightarrow> (\<forall>s < length slots. we_name (slots ! s) \<noteq> [] \<longrightarrow>
     (\<exists>d < length slots. posn slots (we_name (slots ! s)) d = s
        \<and> (\<forall>i < d. we_name (slots ! posn slots (we_name (slots ! s)) i) \<noteq> [])))"

definition distinct_names :: "warden_entry list \<Rightarrow> bool" where
  "distinct_names slots \<longleftrightarrow> (\<forall>s < length slots. \<forall>t < length slots.
     we_name (slots ! s) \<noteq> [] \<longrightarrow> we_name (slots ! s) = we_name (slots ! t) \<longrightarrow> s = t)"

definition occupied :: "warden_entry list \<Rightarrow> nat" where
  "occupied slots = length (filter (\<lambda>e. we_name e \<noteq> []) slots)"

text \<open>A slot without a name is all zeros, as \<^verbatim>\<open>calloc\<close> and \<^verbatim>\<open>memset\<close> leave it.\<close>

definition clean :: "warden_entry list \<Rightarrow> bool" where
  "clean slots \<longleftrightarrow> (\<forall>e \<in> set slots. we_name e = [] \<longrightarrow> e = blank_entry)"

definition slots_ok :: "warden_entry list \<Rightarrow> bool" where
  "slots_ok slots \<longleftrightarrow> chain_ok slots \<and> distinct_names slots \<and> occupied slots < length slots \<and> clean slots"

definition wm_inv :: "warden_map \<Rightarrow> bool" where
  "wm_inv m \<longleftrightarrow> wm_slots m = [] \<or>
     (slots_ok (wm_slots m) \<and> wm_count m = occupied (wm_slots m) \<and> 4 \<le> length (wm_slots m))"

lemma empty_slot:
  assumes "occupied slots < length slots"
  obtains s where "s < length slots" "we_name (slots ! s) = []"
proof -
  have "\<exists>e \<in> set slots. we_name e = []"
  proof (rule ccontr)
    assume "\<not> (\<exists>e \<in> set slots. we_name e = [])"
    then have "filter (\<lambda>e. we_name e \<noteq> []) slots = slots" by (intro filter_True) blast
    then show False using assms by (simp add: occupied_def)
  qed
  then obtain e where "e \<in> set slots" "we_name e = []" by blast
  then obtain s where "s < length slots" "slots ! s = e" unfolding in_set_conv_nth by blast
  then show ?thesis using that [of s] \<open>we_name e = []\<close> by simp
qed

definition entry_in :: "warden_entry list \<Rightarrow> cstr \<Rightarrow> warden_entry option" where
  "entry_in slots nm = find (\<lambda>e. we_name e = nm) slots"

lemma entry_in_Some:
  assumes "distinct_names slots" "s < length slots" "we_name (slots ! s) = nm" "nm \<noteq> []"
  shows "entry_in slots nm = Some (slots ! s)"
proof -
  obtain e where e: "entry_in slots nm = Some e"
    using assms by (cases "entry_in slots nm") (auto simp: entry_in_def find_None_iff)
  then obtain t where "t < length slots" "e = slots ! t" "we_name e = nm"
    by (auto simp: entry_in_def find_Some_iff)
  then have "t = s" using assms unfolding distinct_names_def by metis
  then show ?thesis using e \<open>e = slots ! t\<close> by simp
qed

lemma entry_in_None: "entry_in slots nm = None \<longleftrightarrow> (\<forall>s < length slots. we_name (slots ! s) \<noteq> nm)"
  unfolding entry_in_def find_None_iff by (auto simp: in_set_conv_nth)

text \<open>The probe for a name stops at its entry if it has one, and at an empty slot otherwise.\<close>

lemma probe_name:
  assumes ok: "slots_ok slots" and nm: "nm \<noteq> []"
  obtains d where "d < length slots"
    "probe (\<lambda>x. we_name x = [] \<or> we_name x = nm) (length slots) slots (start_slot slots nm) = Some (posn slots nm d)"
    "\<forall>i < d. we_name (slots ! posn slots nm i) \<noteq> [] \<and> we_name (slots ! posn slots nm i) \<noteq> nm"
    "entry_in slots nm = (if we_name (slots ! posn slots nm d) = [] then None else Some (slots ! posn slots nm d))"
proof -
  let ?stop = "\<lambda>x. we_name x = [] \<or> we_name x = nm"
  have ch: "chain_ok slots" and di: "distinct_names slots" and oc: "occupied slots < length slots"
    using ok by (auto simp: slots_ok_def)
  obtain s where s: "s < length slots" "we_name (slots ! s) = []" by (rule empty_slot [OF oc])
  obtain d where d: "d < length slots" "?stop (slots ! posn slots nm d)"
      "\<forall>i < d. \<not> ?stop (slots ! posn slots nm i)"
      "probe ?stop (length slots) slots (start_slot slots nm) = Some (posn slots nm d)"
    using probe_first [where stop = ?stop and slots = slots and s = s and nm = nm] s by blast
  have ne: "slots \<noteq> []" using s by auto
  have p: "posn slots nm d < length slots" by (rule posn_less [OF ne])
  have "entry_in slots nm = (if we_name (slots ! posn slots nm d) = [] then None else Some (slots ! posn slots nm d))"
  proof (cases "we_name (slots ! posn slots nm d) = []")
    case True
    have "we_name (slots ! t) \<noteq> nm" if t: "t < length slots" for t
    proof
      assume e: "we_name (slots ! t) = nm"
      then obtain d' where d': "d' < length slots" "posn slots nm d' = t" "\<forall>i < d'. we_name (slots ! posn slots nm i) \<noteq> []"
        using ch t nm unfolding chain_ok_def by metis
      have "d \<le> d'" using d(3) d' e by (metis not_less)
      moreover have "d' \<le> d" using d'(3) True by (metis not_less)
      ultimately show False using True e d' nm by simp
    qed
    then have "entry_in slots nm = None" by (simp add: entry_in_None)
    then show ?thesis using True by simp
  next
    case False
    then have "we_name (slots ! posn slots nm d) = nm" using d(2) by simp
    then show ?thesis using entry_in_Some [OF di p _ nm] False by simp
  qed
  moreover have "\<forall>i < d. we_name (slots ! posn slots nm i) \<noteq> [] \<and> we_name (slots ! posn slots nm i) \<noteq> nm"
    using d(3) by simp
  ultimately show ?thesis using that [OF d(1) d(4)] by simp
qed

lemma wmap_find_entry:
  assumes "wm_inv m"
  shows "wmap_find m nm = (if nm = [] then None else entry_in (wm_slots m) nm)"
proof (cases "nm = [] \<or> wm_slots m = []")
  case True
  then show ?thesis by (auto simp: wmap_find_def entry_in_def)
next
  case False
  then have ok: "slots_ok (wm_slots m)" and nm: "nm \<noteq> []" using assms by (auto simp: wm_inv_def)
  obtain d where "d < length (wm_slots m)"
    "probe (\<lambda>x. we_name x = [] \<or> we_name x = nm) (length (wm_slots m)) (wm_slots m) (start_slot (wm_slots m) nm)
      = Some (posn (wm_slots m) nm d)"
    "\<forall>i < d. we_name (wm_slots m ! posn (wm_slots m) nm i) \<noteq> [] \<and> we_name (wm_slots m ! posn (wm_slots m) nm i) \<noteq> nm"
    "entry_in (wm_slots m) nm = (if we_name (wm_slots m ! posn (wm_slots m) nm d) = [] then None
       else Some (wm_slots m ! posn (wm_slots m) nm d))"
    by (rule probe_name [OF ok nm])
  then show ?thesis using False by (simp add: wmap_find_def)
qed


subsection \<open>Writing an entry\<close>

lemma distinct_namesD:
  "distinct_names slots \<Longrightarrow> s < length slots \<Longrightarrow> t < length slots \<Longrightarrow> we_name (slots ! s) \<noteq> [] \<Longrightarrow>
   we_name (slots ! s) = we_name (slots ! t) \<Longrightarrow> s = t"
  by (simp add: distinct_names_def)

lemma clean_update: "clean slots \<Longrightarrow> we_name e \<noteq> [] \<Longrightarrow> clean (slots[s := e])"
  unfolding clean_def using set_update_subset_insert by fastforce

lemma occupied_update:
  assumes "s < length slots" "we_name e \<noteq> []"
  shows "occupied (slots[s := e]) = (if we_name (slots ! s) = [] then occupied slots + 1 else occupied slots)"
  using assms unfolding occupied_def
proof (induction slots arbitrary: s)
  case (Cons x xs)
  then show ?case by (cases s) (auto split: if_splits)
qed simp

text \<open>Writing at the slot where the probe for the entry's name stopped keeps the invariants and changes
  the entry of that name only.\<close>

lemma write_ok:
  assumes ch: "chain_ok slots" and di: "distinct_names slots" and d: "d < length slots"
    and before: "\<forall>i < d. we_name (slots ! posn slots nm i) \<noteq> [] \<and> we_name (slots ! posn slots nm i) \<noteq> nm"
    and at: "entry_in slots nm = (if we_name (slots ! posn slots nm d) = [] then None
       else Some (slots ! posn slots nm d))"
    and e: "we_name e = nm" "nm \<noteq> []"
  defines "slots' \<equiv> slots[posn slots nm d := e]"
  shows "chain_ok slots'" "distinct_names slots'"
    "k \<noteq> [] \<Longrightarrow> entry_in slots' k = (if k = nm then Some e else entry_in slots k)"
proof -
  let ?p = "posn slots nm d"
  have ne: "slots \<noteq> []" using d by auto
  have p: "?p < length slots" by (rule posn_less [OF ne])
  have len: "length slots' = length slots" by (simp add: slots'_def)
  have at_p: "slots' ! ?p = e" using p by (simp add: slots'_def)
  have other: "slots' ! s = slots ! s" if "s \<noteq> ?p" for s using that by (simp add: slots'_def)
  have nonempty: "we_name (slots' ! s) \<noteq> []" if "we_name (slots ! s) \<noteq> []" for s
    using that e at_p other by (cases "s = ?p") simp_all
  have name_p: "we_name (slots ! ?p) = [] \<or> we_name (slots ! ?p) = nm"
    using at e(2) by (auto simp: entry_in_def find_Some_iff split: if_splits)
  have only: "s = ?p" if "s < length slots" "we_name (slots ! s) = nm" for s
  proof (cases "we_name (slots ! ?p) = []")
    case True
    then have "entry_in slots nm = None" using at by simp
    then show ?thesis using that by (simp add: entry_in_None)
  next
    case False
    then have "we_name (slots ! ?p) = nm" using name_p by simp
    then show ?thesis using distinct_namesD [OF di that(1) p] that(2) e(2) by simp
  qed
  have ps: "posn slots' k i = posn slots k i" for k i by (simp add: slots'_def)
  show "chain_ok slots'"
    unfolding chain_ok_def len ps
  proof (intro allI impI)
    fix s assume s: "s < length slots" "we_name (slots' ! s) \<noteq> []"
    show "\<exists>j < length slots. posn slots (we_name (slots' ! s)) j = s
        \<and> (\<forall>i < j. we_name (slots' ! posn slots (we_name (slots' ! s)) i) \<noteq> [])"
    proof (cases "s = ?p")
      case True
      have "we_name (slots' ! s) = nm" using True at_p e(1) by simp
      moreover have "\<forall>i < d. we_name (slots' ! posn slots nm i) \<noteq> []" using before nonempty by blast
      ultimately show ?thesis using d True by (intro exI [of _ d]) simp
    next
      case False
      have "we_name (slots ! s) \<noteq> []" using s(2) other [OF False] by simp
      with ch s(1) obtain j where j: "j < length slots" "posn slots (we_name (slots ! s)) j = s"
        "\<forall>i < j. we_name (slots ! posn slots (we_name (slots ! s)) i) \<noteq> []"
        unfolding chain_ok_def by blast
      have "\<forall>i < j. we_name (slots' ! posn slots (we_name (slots ! s)) i) \<noteq> []" using j(3) nonempty by blast
      then show ?thesis unfolding other [OF False] using j(1,2) by blast
    qed
  qed
  show "distinct_names slots'"
    unfolding distinct_names_def len
  proof (intro allI impI)
    fix s t assume st: "s < length slots" "t < length slots" "we_name (slots' ! s) \<noteq> []"
      "we_name (slots' ! s) = we_name (slots' ! t)"
    consider "s = ?p" "t = ?p" | "s = ?p" "t \<noteq> ?p" | "s \<noteq> ?p" "t = ?p" | "s \<noteq> ?p" "t \<noteq> ?p" by blast
    then show "s = t"
    proof cases
      case 2
      then have "we_name (slots ! t) = nm" using st at_p other e by simp
      then show ?thesis using only st 2 by blast
    next
      case 3
      then have "we_name (slots ! s) = nm" using st at_p other e by simp
      then show ?thesis using only st 3 by blast
    next
      case 4
      then show ?thesis using distinct_namesD [OF di st(1,2)] st(3,4) by (simp add: other)
    qed simp
  qed
  then have di': "distinct_names slots'" .
  assume k: "k \<noteq> []"
  show "entry_in slots' k = (if k = nm then Some e else entry_in slots k)"
  proof (cases "k = nm")
    case True
    then show ?thesis using entry_in_Some [OF di' _ _ k, of ?p] p e at_p len by simp
  next
    case False
    show ?thesis
    proof (cases "entry_in slots k")
      case None
      then have "we_name (slots' ! s) \<noteq> k" if "s < length slots" for s
        using that at_p other e False unfolding entry_in_None by (cases "s = ?p") auto
      then have "entry_in slots' k = None" using entry_in_None len by metis
      then show ?thesis using None False by simp
    next
      case (Some x)
      then obtain s where s: "s < length slots" "slots ! s = x" "we_name x = k"
        by (auto simp: entry_in_def find_Some_iff)
      then have "s \<noteq> ?p" using name_p False k by auto
      then show ?thesis using entry_in_Some [OF di' _ _ k, of s] s Some other len False by simp
    qed
  qed
qed

lemma entry_in_empty [simp]: "k \<noteq> [] \<Longrightarrow> entry_in (replicate n blank_entry) k = None"
  by (simp add: entry_in_None blank_entry_def)

lemma slots_ok_blank: "0 < n \<Longrightarrow> slots_ok (replicate n blank_entry)"
  by (simp add: slots_ok_def clean_def chain_ok_def distinct_names_def occupied_def blank_entry_def)

lemma occupied_blank [simp]: "occupied (replicate n blank_entry) = 0"
  by (simp add: occupied_def blank_entry_def)

subsection \<open>Growth\<close>

lemma insert_raw_ok:
  assumes ok: "slots_ok ns" and room: "occupied ns + 1 < length ns" and e: "we_name e \<noteq> []"
    and new: "entry_in ns (we_name e) = None"
  shows "slots_ok (wmap_insert_raw ns e)" "occupied (wmap_insert_raw ns e) = occupied ns + 1"
    "length (wmap_insert_raw ns e) = length ns"
    "k \<noteq> [] \<Longrightarrow> entry_in (wmap_insert_raw ns e) k = (if k = we_name e then Some e else entry_in ns k)"
proof -
  obtain d where d: "d < length ns"
    "probe (\<lambda>x. we_name x = [] \<or> we_name x = we_name e) (length ns) ns (start_slot ns (we_name e)) = Some (posn ns (we_name e) d)"
    "\<forall>i < d. we_name (ns ! posn ns (we_name e) i) \<noteq> [] \<and> we_name (ns ! posn ns (we_name e) i) \<noteq> we_name e"
    "entry_in ns (we_name e) = (if we_name (ns ! posn ns (we_name e) d) = [] then None
       else Some (ns ! posn ns (we_name e) d))"
    by (rule probe_name [OF ok e])
  have free: "we_name (ns ! posn ns (we_name e) d) = []" using d(4) new by (simp split: if_splits)
  have pr: "probe (\<lambda>x. we_name x = []) (length ns) ns (start_slot ns (we_name e)) = Some (posn ns (we_name e) d)"
    using probe_spec [of "\<lambda>x. we_name x = []" ns "we_name e" d "length ns"] free d(1,3) by (simp add: posn_0)
  have ins: "wmap_insert_raw ns e = ns[posn ns (we_name e) d := e]"
    unfolding wmap_insert_raw_def pr by simp
  have p: "posn ns (we_name e) d < length ns" by (rule posn_less) (use d(1) in auto)
  note cd = ok [unfolded slots_ok_def]
  have cl: "clean ns" using cd by simp
  note w = write_ok [OF cd [THEN conjunct1] cd [THEN conjunct2, THEN conjunct1] d(1) d(3) d(4) HOL.refl e]
  show oc: "occupied (wmap_insert_raw ns e) = occupied ns + 1"
    unfolding ins using occupied_update [OF p e] free by simp
  show "length (wmap_insert_raw ns e) = length ns" by (simp add: ins)
  show "slots_ok (wmap_insert_raw ns e)"
    using w(1,2) room oc clean_update [OF cl e] unfolding slots_ok_def ins by simp
  show "k \<noteq> [] \<Longrightarrow> entry_in (wmap_insert_raw ns e) k = (if k = we_name e then Some e else entry_in ns k)"
    unfolding ins by (rule w(3))
qed

lemma entry_in_Cons: "entry_in (x # es) k = (if we_name x = k then Some x else entry_in es k)"
  by (simp add: entry_in_def)

lemma distinct_names_Cons:
  assumes "distinct_names (x # es)"
  shows "distinct_names es" "we_name x \<noteq> [] \<Longrightarrow> entry_in es (we_name x) = None"
proof -
  show "distinct_names es"
    unfolding distinct_names_def
  proof (intro allI impI)
    fix s t assume a: "s < length es" "t < length es" "we_name (es ! s) \<noteq> []" "we_name (es ! s) = we_name (es ! t)"
    then show "s = t" using distinct_namesD [OF assms, of "Suc s" "Suc t"] by simp
  qed
  show "entry_in es (we_name x) = None" if x: "we_name x \<noteq> []"
    unfolding entry_in_None
  proof (intro allI impI)
    fix s assume s: "s < length es"
    show "we_name (es ! s) \<noteq> we_name x"
      using distinct_namesD [OF assms, of 0 "Suc s"] s x by auto
  qed
qed

definition rehash :: "warden_entry list \<Rightarrow> warden_entry list \<Rightarrow> warden_entry list" where
  "rehash = foldl (\<lambda>ns e. if we_name e \<noteq> [] then wmap_insert_raw ns e else ns)"

lemma rehash_ok:
  assumes "slots_ok ns" "occupied ns + occupied es < length ns" "distinct_names es"
    "\<forall>k. k \<noteq> [] \<longrightarrow> entry_in es k = None \<or> entry_in ns k = None"
  shows "slots_ok (rehash ns es) \<and> occupied (rehash ns es) = occupied ns + occupied es \<and>
    length (rehash ns es) = length ns \<and>
    (\<forall>k. k \<noteq> [] \<longrightarrow> entry_in (rehash ns es) k = (case entry_in es k of None \<Rightarrow> entry_in ns k | Some e \<Rightarrow> Some e))"
  using assms
proof (induction es arbitrary: ns)
  case Nil
  then show ?case by (simp add: rehash_def occupied_def entry_in_def)
next
  case (Cons x es)
  note dn = distinct_names_Cons [OF Cons.prems(3)]
  show ?case
  proof (cases "we_name x = []")
    case True
    have step: "rehash ns (x # es) = rehash ns es" using True by (simp add: rehash_def)
    have oc: "occupied (x # es) = occupied es" using True by (simp add: occupied_def)
    have en: "k \<noteq> [] \<Longrightarrow> entry_in (x # es) k = entry_in es k" for k using True by (simp add: entry_in_Cons)
    have "\<forall>k. k \<noteq> [] \<longrightarrow> entry_in es k = None \<or> entry_in ns k = None" using Cons.prems(4) en by metis
    from Cons.IH [OF Cons.prems(1) _ dn(1) this] show ?thesis using Cons.prems(2) by (simp add: step oc en)
  next
    case False
    let ?ns = "wmap_insert_raw ns x"
    have step: "rehash ns (x # es) = rehash ?ns es" using False by (simp add: rehash_def)
    have oc: "occupied (x # es) = occupied es + 1" using False by (simp add: occupied_def)
    have room: "occupied ns + 1 < length ns" if "occupied es \<noteq> 0" using Cons.prems(2) oc that by simp
    have new: "entry_in ns (we_name x) = None"
      using Cons.prems(4) [rule_format, OF False] by (simp add: entry_in_Cons)
    have room: "occupied ns + 1 < length ns" using Cons.prems(2) oc by simp
    note i = insert_raw_ok [OF Cons.prems(1) room False new]
    have dis: "\<forall>k. k \<noteq> [] \<longrightarrow> entry_in es k = None \<or> entry_in ?ns k = None"
    proof (intro allI impI)
      fix k :: cstr assume k: "k \<noteq> []"
      show "entry_in es k = None \<or> entry_in ?ns k = None"
        using Cons.prems(4) [rule_format, OF k] dn(2) [OF False] i(4) [OF k]
        by (cases "k = we_name x") (auto simp: entry_in_Cons)
    qed
    have le: "occupied ?ns + occupied es < length ?ns" using Cons.prems(2) oc i(2,3) by simp
    note ih = Cons.IH [OF i(1) le dn(1) dis]
    have "entry_in (rehash ?ns es) k = (case entry_in (x # es) k of None \<Rightarrow> entry_in ns k | Some e \<Rightarrow> Some e)"
      if k: "k \<noteq> []" for k
      using ih [THEN conjunct2, THEN conjunct2, THEN conjunct2, rule_format, OF k] i(4) [OF k] dn(2) [OF False]
      by (auto simp: entry_in_Cons split: option.splits)
    then show ?thesis using ih i(2,3) by (simp add: step oc)
  qed
qed

lemma ensure_cap_ok:
  assumes "wm_inv m"
  shows "wm_inv (wmap_ensure_cap m)" "wm_slots (wmap_ensure_cap m) \<noteq> []"
    "k \<noteq> [] \<Longrightarrow> entry_in (wm_slots (wmap_ensure_cap m)) k = entry_in (wm_slots m) k"
    "occupied (wm_slots (wmap_ensure_cap m)) + 1 < length (wm_slots (wmap_ensure_cap m))"
proof -
  let ?m = "wmap_ensure_cap m" and ?cap = "length (wm_slots m)"
  have "wm_inv ?m \<and> wm_slots ?m \<noteq> [] \<and> occupied (wm_slots ?m) + 1 < length (wm_slots ?m)
     \<and> (\<forall>k. k \<noteq> [] \<longrightarrow> entry_in (wm_slots ?m) k = entry_in (wm_slots m) k)"
  proof (cases "wm_slots m = []")
    case True
    then have "?m = \<lparr> wm_slots = replicate 8192 blank_entry, wm_count = 0 \<rparr>"
      by (simp add: wmap_ensure_cap_def WARDEN_INITIAL_CAP_def)
    then show ?thesis using True slots_ok_blank [of 8192] by (simp add: wm_inv_def) (simp add: entry_in_def)
  next
    case False
    then have inv: "slots_ok (wm_slots m)" "wm_count m = occupied (wm_slots m)" "4 \<le> ?cap"
      using assms by (auto simp: wm_inv_def)
    then have less: "occupied (wm_slots m) < ?cap" "distinct_names (wm_slots m)" by (auto simp: slots_ok_def)
    show ?thesis
    proof (cases "?cap * 3 \<le> wm_count m * 4")
      case True
      have "0 < ?cap * 2" using inv(3) by linarith
      then have blank: "slots_ok (replicate (?cap * 2) blank_entry)" by (rule slots_ok_blank)
      let ?new = "rehash (replicate (?cap * 2) blank_entry) (wm_slots m)"
      have m: "?m = m\<lparr> wm_slots := ?new \<rparr>" using False True by (simp add: wmap_ensure_cap_def rehash_def)
      have "slots_ok ?new \<and> occupied ?new = occupied (replicate (?cap * 2) blank_entry) + occupied (wm_slots m) \<and>
        length ?new = length (replicate (?cap * 2) blank_entry) \<and>
        (\<forall>k. k \<noteq> [] \<longrightarrow> entry_in ?new k = (case entry_in (wm_slots m) k of
            None \<Rightarrow> entry_in (replicate (?cap * 2) blank_entry) k | Some e \<Rightarrow> Some e))"
        by (rule rehash_ok) (use less inv(3) blank in auto)
      moreover from this have "?new \<noteq> []" using inv(3) by auto
      ultimately show ?thesis using inv less by (simp add: m wm_inv_def split: option.split)
    next
      case nogrow: False
      then have "?m = m" using False by (simp add: wmap_ensure_cap_def)
      then show ?thesis using assms False nogrow inv by simp
    qed
  qed
  then show "wm_inv ?m" "wm_slots ?m \<noteq> []" "occupied (wm_slots ?m) + 1 < length (wm_slots ?m)"
    "k \<noteq> [] \<Longrightarrow> entry_in (wm_slots ?m) k = entry_in (wm_slots m) k"
    by blast+
qed

subsection \<open>Find or create, and set\<close>

lemma wmap_update_ok:
  assumes inv: "wm_inv m" and nm: "nm \<noteq> []" "length nm < IR_NAME_MAX"
    and f: "\<And>e. we_name (f e) = we_name e"
  shows "wm_inv (wmap_update m nm f)"
    "k \<noteq> [] \<Longrightarrow> entry_in (wm_slots (wmap_update m nm f)) k =
       (if k = nm then Some (f (case entry_in (wm_slots m) nm of Some e \<Rightarrow> e | None \<Rightarrow> blank_entry\<lparr> we_name := nm \<rparr>))
        else entry_in (wm_slots m) k)"
proof -
  let ?m = "wmap_ensure_cap m"
  let ?s = "wm_slots ?m"
  note en = ensure_cap_ok [OF inv]
  have parts: "slots_ok ?s" "wm_count ?m = occupied ?s" "4 \<le> length ?s" using en(1,2) by (auto simp: wm_inv_def)
  then have ok: "chain_ok ?s" "distinct_names ?s" "clean ?s" by (auto simp: slots_ok_def)
  obtain d where d: "d < length ?s"
    "probe (\<lambda>x. we_name x = [] \<or> we_name x = nm) (length ?s) ?s (start_slot ?s nm) = Some (posn ?s nm d)"
    "\<forall>i < d. we_name (?s ! posn ?s nm i) \<noteq> [] \<and> we_name (?s ! posn ?s nm i) \<noteq> nm"
    "entry_in ?s nm = (if we_name (?s ! posn ?s nm d) = [] then None else Some (?s ! posn ?s nm d))"
    by (rule probe_name [OF parts(1) nm(1)])
  let ?p = "posn ?s nm d"
  have p: "?p < length ?s" using posn_less en(2) by blast
  let ?old = "case entry_in ?s nm of Some e \<Rightarrow> e | None \<Rightarrow> blank_entry\<lparr> we_name := nm \<rparr>"
  let ?new = "f ?old"
  have name_old: "we_name ?old = nm"
    by (auto simp: entry_in_def find_Some_iff split: option.split)
  have name_new: "we_name ?new = nm" using name_old f by simp
  have ne: "we_name ?new \<noteq> []" using name_new nm(1) by simp
  have upd: "wmap_update m nm f = \<lparr> wm_slots = ?s[?p := ?new],
      wm_count = (if we_name (?s ! ?p) = [] then wm_count ?m + 1 else wm_count ?m) \<rparr>"
  proof (cases "we_name (?s ! ?p) = []")
    case True
    then have "?s ! ?p = blank_entry" using ok(3) p unfolding clean_def by simp
    then show ?thesis unfolding wmap_update_def Let_def d(2)
      using True d(4) by (simp add: c_copy_id nm(2) blank_entry_def)
  next
    case False
    then show ?thesis unfolding wmap_update_def Let_def d(2) using d(4) by simp
  qed
  note w = write_ok [OF ok(1,2) d(1,3,4) name_new nm(1)]
  have oc: "occupied (?s[?p := ?new]) = (if we_name (?s ! ?p) = [] then occupied ?s + 1 else occupied ?s)"
    by (rule occupied_update [OF p ne])
  have "slots_ok (?s[?p := ?new])"
    using w(1,2) oc en(4) clean_update [OF ok(3) ne] unfolding slots_ok_def by simp
  then show "wm_inv (wmap_update m nm f)" using oc parts(2,3) unfolding upd wm_inv_def by simp
  show "k \<noteq> [] \<Longrightarrow> entry_in (wm_slots (wmap_update m nm f)) k =
       (if k = nm then Some (f (case entry_in (wm_slots m) nm of Some e \<Rightarrow> e | None \<Rightarrow> blank_entry\<lparr> we_name := nm \<rparr>))
        else entry_in (wm_slots m) k)"
    using w(3) [of k] en(3) nm(1) unfolding upd by simp
qed

lemma escalate_name [simp]: "we_name (escalate st lineno desc e) = we_name e"
  by (simp add: escalate_def)

lemma wm_inv_clear: "wm_inv m \<Longrightarrow> wm_inv (wmap_clear m)"
proof -
  assume "wm_inv m"
  then consider "wm_slots m = []" | "4 \<le> length (wm_slots m)" by (auto simp: wm_inv_def)
  then show ?thesis
  proof cases
    case 1
    then show ?thesis by (simp add: wm_inv_def wmap_clear_def)
  next
    case 2
    then have "0 < length (wm_slots m)" by linarith
    from slots_ok_blank [OF this] 2 show ?thesis
      by (simp add: wm_inv_def wmap_clear_def map_replicate_const)
  qed
qed

lemma wmap_find_clear: "wm_inv m \<Longrightarrow> wmap_find (wmap_clear m) nm = None"
  by (simp add: wmap_find_entry wm_inv_clear) (simp add: wmap_clear_def map_replicate_const)

text \<open>A name that fits its field.\<close>

definition name_fits :: "cstr \<Rightarrow> bool" where
  "name_fits nm \<longleftrightarrow> nm \<noteq> [] \<and> length nm < IR_NAME_MAX"

lemma wmap_update_inv:
  "wm_inv m \<Longrightarrow> name_fits nm \<Longrightarrow> (\<And>e. we_name (f e) = we_name e) \<Longrightarrow> wm_inv (wmap_update m nm f)"
  unfolding name_fits_def by (rule wmap_update_ok) auto

lemma wmap_find_update:
  assumes "wm_inv m" "name_fits nm" "\<And>e. we_name (f e) = we_name e" "k \<noteq> []"
  shows "wmap_find (wmap_update m nm f) k =
    (if k = nm then Some (f (case wmap_find m nm of Some e \<Rightarrow> e | None \<Rightarrow> blank_entry\<lparr> we_name := nm \<rparr>))
     else wmap_find m k)"
proof -
  have nm: "nm \<noteq> []" "length nm < IR_NAME_MAX" using assms(2) by (auto simp: name_fits_def)
  show ?thesis
    using wmap_update_ok(2) [OF assms(1) nm assms(3,4)]
    by (simp add: wmap_find_entry wmap_update_inv assms nm)
qed

text \<open>As a table of the shared interface: an insertion overwrites the payload, there is always room.\<close>

definition payload :: "warden_entry \<Rightarrow> warden_taint \<times> int \<times> cstr" where
  "payload e = (we_state e, we_lineno e, we_desc e)"

definition wmap_look :: "warden_map \<Rightarrow> cstr \<Rightarrow> (warden_taint \<times> int \<times> cstr) option" where
  "wmap_look m nm = map_option payload (wmap_find m nm)"

definition wmap_put :: "warden_map \<Rightarrow> cstr \<Rightarrow> warden_taint \<times> int \<times> cstr \<Rightarrow> warden_map" where
  "wmap_put m nm v = wmap_update m nm
     (\<lambda>e. e\<lparr> we_state := fst v, we_lineno := fst (snd v), we_desc := snd (snd v) \<rparr>)"

interpretation wmap: name_table wmap_look wmap_put "\<lambda>_ _. True" name_fits wm_inv
proof
  fix m nm k and v :: "warden_taint \<times> int \<times> cstr"
  assume m: "wm_inv m" "name_fits nm"
  show "wm_inv (wmap_put m nm v)" unfolding wmap_put_def by (rule wmap_update_inv [OF m]) simp
  show "wmap_look (wmap_put m nm v) k = (if k = nm \<and> True then Some v else wmap_look m k)" if k: "name_fits k"
    using k unfolding wmap_look_def wmap_put_def name_fits_def
    by (subst wmap_find_update [OF m]) (auto simp: payload_def)
qed simp_all

text \<open>\<^verbatim>\<open>wmap_set\<close> is a read followed by such an insertion.\<close>

definition escalated :: "warden_taint \<Rightarrow> int \<Rightarrow> cstr option \<Rightarrow> (warden_taint \<times> int \<times> cstr) option
    \<Rightarrow> warden_taint \<times> int \<times> cstr" where
  "escalated st lineno desc old =
     (let (s, l, d) = (case old of Some v \<Rightarrow> v | None \<Rightarrow> (WARDEN_SAFE, 0, []))
      in if s < st then (st, lineno, case desc of None \<Rightarrow> d | Some x \<Rightarrow> c_copy 128 x) else (s, l, d))"

lemma wmap_set_inv: "wm_inv m \<Longrightarrow> nm = [] \<or> name_fits nm \<Longrightarrow> wm_inv (wmap_set m nm st lineno desc)"
  unfolding wmap_set_def name_fits_def using wmap_update_inv [of m nm "escalate st lineno desc"]
  by (auto simp: name_fits_def)

lemma wmap_look_set:
  assumes m: "wm_inv m" "name_fits nm" and k: "k \<noteq> []"
  shows "wmap_look (wmap_set m nm st lineno desc) k =
    (if k = nm then Some (escalated st lineno desc (wmap_look m nm)) else wmap_look m k)"
proof -
  have nm: "nm \<noteq> []" using m(2) by (simp add: name_fits_def)
  show ?thesis
    unfolding wmap_set_def wmap_look_def using nm
    by (simp add: wmap_find_update [OF m _ k])
       (auto simp: payload_def escalated_def escalate_def blank_entry_def split: option.split)
qed

end
