(* ===== verification/WardenCorrect.thy ===== *)
theory WardenCorrect
  imports WardenMap
begin

text \<open>
  The taint analysis on a mathematical map instead of the hash table, the refinement between the two,
  and what the reports say about explicit flows: the names that are not \<open>WARDEN_SAFE\<close> are exactly those
  a source reaches through operations, comparisons and loads; no report means that no such name is an
  operand of a store or a self-destruct. The last theorem shows a flow into a call that is not
  reported.
\<close>

subsection \<open>The analysis over a map\<close>

definition abs_set :: "wlook \<Rightarrow> cstr \<Rightarrow> warden_taint \<Rightarrow> int \<Rightarrow> cstr option \<Rightarrow> wlook" where
  "abs_set A nm st lineno desc =
     (if nm = [] then A
      else A(nm \<mapsto> escalate st lineno desc (case A nm of Some e \<Rightarrow> e | None \<Rightarrow> blank_entry\<lparr> we_name := nm \<rparr>)))"

fun abs_node :: "wlook \<times> warden_taint list \<times> warden_violation list \<Rightarrow> ir_node
    \<Rightarrow> wlook \<times> warden_taint list \<times> warden_violation list" where
  "abs_node (A, ctx0, vs) n =
     (let ctx = warden_ctx A ctx0 n; (req, new) = warden_effect A (ctx_current ctx) n
      in (case req of None \<Rightarrow> A | Some (t, d) \<Rightarrow> abs_set A (nd_dst n) t (nd_lineno n) d, ctx, vs @ new))"

definition abs_run :: "ir_node list \<Rightarrow> wlook \<times> warden_taint list \<times> warden_violation list" where
  "abs_run ns = foldl abs_node (\<lambda>_. None, [], []) ns"

definition refines :: "warden_state \<Rightarrow> wlook \<times> warden_taint list \<times> warden_violation list \<Rightarrow> bool" where
  "refines st a \<longleftrightarrow> wm_inv (ws_map st) \<and> wmap_find (ws_map st) = fst a \<and> ws_ctx st = fst (snd a) \<and> ws_viol st = snd (snd a)"

definition dsts_fit :: "ir_node list \<Rightarrow> bool" where
  "dsts_fit ns \<longleftrightarrow> list_all (\<lambda>n. length (nd_dst n) < IR_NAME_MAX) ns"

lemma wmap_find_set:
  assumes "wm_inv m" "length nm < IR_NAME_MAX"
  shows "wmap_find (wmap_set m nm st lineno desc) = abs_set (wmap_find m) nm st lineno desc"
proof (cases "nm = []")
  case True
  then show ?thesis by (simp add: wmap_set_def abs_set_def)
next
  case False
  then have fit: "name_fits nm" using assms(2) by (simp add: name_fits_def)
  show ?thesis
  proof
    fix k
    show "wmap_find (wmap_set m nm st lineno desc) k = abs_set (wmap_find m) nm st lineno desc k"
    proof (cases "k = []")
      case True
      then show ?thesis using False by (simp add: wmap_find_def abs_set_def)
    next
      case k: False
      show ?thesis using False
        by (simp add: wmap_set_def abs_set_def wmap_find_update [OF assms(1) fit escalate_name k])
    qed
  qed
qed

lemma warden_node_refines:
  assumes r: "refines st a" and n: "length (nd_dst n) < IR_NAME_MAX"
  shows "refines (warden_node st n) (abs_node a n)"
proof -
  obtain A ctx0 vs where a: "a = (A, ctx0, vs)" by (cases a)
  have st: "wm_inv (ws_map st)" "wmap_find (ws_map st) = A" "ws_ctx st = ctx0" "ws_viol st = vs"
    using r by (auto simp: refines_def a)
  let ?ctx = "warden_ctx A ctx0 n"
  obtain req new where e: "warden_effect A (ctx_current ?ctx) n = (req, new)" by fastforce
  have dst: "nd_dst n = [] \<or> name_fits (nd_dst n)" using n by (simp add: name_fits_def)
  show ?thesis
  proof (cases req)
    case None
    then show ?thesis by (simp add: warden_node_def a refines_def st e Let_def)
  next
    case (Some td)
    obtain t d where td: "td = (t, d)" by (cases td)
    show ?thesis using wmap_set_inv [OF st(1) dst] wmap_find_set [OF st(1) n]
      by (simp add: warden_node_def a refines_def st e Let_def Some td)
  qed
qed

lemma warden_nodes_refine:
  "refines st a \<Longrightarrow> dsts_fit ns \<Longrightarrow> refines (foldl warden_node st ns) (foldl abs_node a ns)"
  by (induction ns arbitrary: st a) (simp_all add: dsts_fit_def warden_node_refines)

lemma warden_run_refines: "wm_inv m \<Longrightarrow> dsts_fit ns \<Longrightarrow> refines (warden_run m ns) (abs_run ns)"
  unfolding warden_run_def abs_run_def
  by (rule warden_nodes_refine) (simp_all add: refines_def wm_inv_clear wmap_find_clear ext)


subsection \<open>Explicit flows\<close>

definition flow_step :: "cstr set \<Rightarrow> ir_node \<Rightarrow> cstr set" where
  "flow_step T n =
     (if nd_dst n \<noteq> [] \<and>
         (is_taint_source n \<noteq> None
          \<or> (is_comparison_op (nd_op n) \<or> is_propagating_op (nd_op n)) \<and> (nd_src1 n \<in> T \<or> nd_src2 n \<in> T)
          \<or> nd_op n = IR_LOAD \<and> nd_src1 n \<in> T)
      then insert (nd_dst n) T else T)"

definition flows :: "ir_node list \<Rightarrow> cstr set" where
  "flows ns = foldl flow_step {} ns"

definition hot :: "wlook \<Rightarrow> cstr set" where
  "hot A = {x. wmap_get A x \<noteq> WARDEN_SAFE}"

lemma hot_iff: "x \<in> hot A \<longleftrightarrow> wmap_get A x \<noteq> WARDEN_SAFE"
  by (simp add: hot_def)

lemma hot_set: "nm \<noteq> [] \<Longrightarrow> hot (abs_set A nm st l d) = (if st = WARDEN_SAFE then hot A else insert nm (hot A))"
  by (auto simp: hot_def abs_set_def wmap_get_def escalate_def blank_entry_def split: option.splits if_splits)

lemma is_source_cases: "is_taint_source n \<noteq> None \<Longrightarrow> nd_op n = IR_CALL \<or> nd_op n = IR_LOAD"
  by (auto simp: is_taint_source_def split: if_splits)

lemma propagating_not: "is_propagating_op op \<Longrightarrow> op \<noteq> IR_LOAD \<and> op \<noteq> IR_CALL \<and> op \<noteq> IR_STORE \<and> \<not> is_comparison_op op"
  by (auto simp: is_propagating_op_def is_comparison_op_def)

lemma comparison_not: "is_comparison_op op \<Longrightarrow> op \<noteq> IR_LOAD \<and> op \<noteq> IR_CALL \<and> op \<noteq> IR_STORE"
  by (auto simp: is_comparison_op_def)

lemma taint_cases: "t = WARDEN_SAFE \<or> t = WARDEN_TAINTED \<or> t = WARDEN_CHECKED"
  by (cases t) simp_all

lemma compare_rule_hot:
  "(case compare_rule A n of None \<Rightarrow> nd_src1 n \<notin> hot A \<and> nd_src2 n \<notin> hot A
    | Some (t, d) \<Rightarrow> t \<noteq> WARDEN_SAFE \<and> (nd_src1 n \<in> hot A \<or> nd_src2 n \<in> hot A))"
  unfolding compare_rule_def hot_iff
  by (cases "wmap_get A (nd_src1 n)"; cases "wmap_get A (nd_src2 n)")
     (simp_all add: Let_def less_warden_taint_def)

lemma propagate_rule_hot:
  assumes "A [] = None"
  shows "(case propagate_rule A n of None \<Rightarrow> nd_src1 n \<notin> hot A \<and> nd_src2 n \<notin> hot A
    | Some (t, d) \<Rightarrow> t \<noteq> WARDEN_SAFE \<and> (nd_src1 n \<in> hot A \<or> nd_src2 n \<in> hot A))"
proof -
  have "wmap_get A [] = WARDEN_SAFE" using assms by (simp add: wmap_get_def)
  then have "compute_propagated_taint A n = (if wmap_get A (nd_src2 n) < wmap_get A (nd_src1 n)
      then wmap_get A (nd_src1 n) else wmap_get A (nd_src2 n))"
    by (simp add: compute_propagated_taint_def)
  then show ?thesis
    unfolding propagate_rule_def hot_iff
    by (cases "wmap_get A (nd_src1 n)"; cases "wmap_get A (nd_src2 n)")
       (simp_all add: Let_def less_warden_taint_def)
qed

lemma load_rule_hot:
  "(case load_rule A n of None \<Rightarrow> nd_src1 n \<notin> hot A
    | Some (t, d) \<Rightarrow> t \<noteq> WARDEN_SAFE \<and> nd_src1 n \<in> hot A)"
  by (simp add: load_rule_def hot_iff)

text \<open>The state a node requests for its destination is not safe exactly when a flow reaches it.\<close>

lemma effect_flow:
  assumes "A [] = None"
  shows "(case fst (warden_effect A c n) of None \<Rightarrow> flow_step (hot A) n = hot A
    | Some (t, d) \<Rightarrow> nd_dst n \<noteq> [] \<and> t \<noteq> WARDEN_SAFE \<and> flow_step (hot A) n = insert (nd_dst n) (hot A))"
proof -
  consider "nd_dst n = []" | "nd_dst n \<noteq> []" "is_taint_source n \<noteq> None"
    | "nd_dst n \<noteq> []" "is_taint_source n = None" "is_comparison_op (nd_op n)"
    | "nd_dst n \<noteq> []" "is_taint_source n = None" "is_propagating_op (nd_op n)"
    | "nd_dst n \<noteq> []" "is_taint_source n = None" "nd_op n = IR_LOAD"
    | "nd_dst n \<noteq> []" "is_taint_source n = None" "\<not> is_comparison_op (nd_op n)"
        "\<not> is_propagating_op (nd_op n)" "nd_op n \<noteq> IR_LOAD" by blast
  then show ?thesis
  proof cases
    case 3
    then have "\<not> is_propagating_op (nd_op n)" "nd_op n \<noteq> IR_LOAD" using propagating_not comparison_not by blast+
    then have "fst (warden_effect A c n) = compare_rule A n"
      using 3 by (cases "compare_rule A n") (simp_all add: warden_effect_def)
    moreover have "flow_step (hot A) n = (if nd_src1 n \<in> hot A \<or> nd_src2 n \<in> hot A then insert (nd_dst n) (hot A) else hot A)"
      using 3 \<open>nd_op n \<noteq> IR_LOAD\<close> by (simp add: flow_step_def)
    ultimately show ?thesis using 3(1) compare_rule_hot [where A = A and n = n]
      by (cases "compare_rule A n") auto
  next
    case 4
    then have "\<not> is_comparison_op (nd_op n)" "nd_op n \<noteq> IR_LOAD" using propagating_not by blast+
    then have "fst (warden_effect A c n) = propagate_rule A n" using 4 by (simp add: warden_effect_def)
    moreover have "flow_step (hot A) n = (if nd_src1 n \<in> hot A \<or> nd_src2 n \<in> hot A then insert (nd_dst n) (hot A) else hot A)"
      using 4 \<open>nd_op n \<noteq> IR_LOAD\<close> by (simp add: flow_step_def)
    ultimately show ?thesis using 4(1) propagate_rule_hot [where A = A and n = n, OF assms]
      by (cases "propagate_rule A n") auto
  next
    case 5
    then have "\<not> is_comparison_op (nd_op n)" "\<not> is_propagating_op (nd_op n)"
      using propagating_not comparison_not by blast+
    then have "fst (warden_effect A c n) = load_rule A n" using 5 by (simp add: warden_effect_def)
    moreover have "flow_step (hot A) n = (if nd_src1 n \<in> hot A then insert (nd_dst n) (hot A) else hot A)"
      using 5 \<open>\<not> is_comparison_op (nd_op n)\<close> \<open>\<not> is_propagating_op (nd_op n)\<close>
      by (simp add: flow_step_def)
    ultimately show ?thesis using 5(1) load_rule_hot [where A = A and n = n]
      by (cases "load_rule A n") auto
  next
    case 6
    then have "fst (warden_effect A c n) = None" by (simp add: warden_effect_def)
    moreover have "flow_step (hot A) n = hot A" using 6 by (simp add: flow_step_def)
    ultimately show ?thesis by simp
  qed (simp_all add: warden_effect_def flow_step_def)
qed

lemma abs_node_flow:
  assumes "fst a [] = None"
  shows "fst (abs_node a n) [] = None \<and> hot (fst (abs_node a n)) = flow_step (hot (fst a)) n"
proof -
  obtain A ctx0 vs where a: "a = (A, ctx0, vs)" by (cases a)
  let ?c = "ctx_current (warden_ctx A ctx0 n)"
  obtain req new where e: "warden_effect A ?c n = (req, new)" by fastforce
  have A: "A [] = None" using assms by (simp add: a)
  note f = effect_flow [where A = A and c = ?c and n = n, OF A]
  show ?thesis
  proof (cases req)
    case None
    then show ?thesis using f A by (simp add: a e Let_def)
  next
    case (Some td)
    obtain t d where td: "td = (t, d)" by (cases td)
    show ?thesis using f A by (simp add: a e Some td Let_def hot_set) (auto simp: abs_set_def)
  qed
qed

lemma abs_run_flows: "fst (abs_run ns) [] = None \<and> hot (fst (abs_run ns)) = flows ns"
proof (induction ns rule: rev_induct)
  case Nil
  then show ?case by (simp add: abs_run_def flows_def hot_def wmap_get_def)
next
  case (snoc n ns)
  then show ?case using abs_node_flow [of "abs_run ns" n] by (simp add: abs_run_def flows_def)
qed

subsection \<open>Reports\<close>

lemma viol_step: "\<exists>new. snd (snd (abs_node a n)) = snd (snd a) @ new"
  by (cases a) (auto simp: Let_def split: prod.split)

lemma viol_grow: "\<exists>new. snd (snd (foldl abs_node a ns)) = snd (snd a) @ new"
proof (induction ns arbitrary: a)
  case (Cons n ns)
  obtain x where x: "snd (snd (abs_node a n)) = snd (snd a) @ x" using viol_step by blast
  obtain y where "snd (snd (foldl abs_node (abs_node a n) ns)) = snd (snd (abs_node a n)) @ y" using Cons.IH by blast
  then show ?case using x by simp
qed simp

lemma abs_run_at:
  assumes "i < length ns" "snd (snd (abs_run ns)) = []"
  obtains A ctx where "abs_run (take i ns) = (A, ctx, [])" "hot A = flows (take i ns)"
    "snd (warden_effect A (ctx_current (warden_ctx A ctx (ns ! i))) (ns ! i)) = []"
proof -
  obtain A ctx vs where a: "abs_run (take i ns) = (A, ctx, vs)" by (metis prod_cases3)
  have "ns = take i ns @ ns ! i # drop (Suc i) ns" by (simp add: assms(1) id_take_nth_drop)
  then have "abs_run ns = foldl abs_node (abs_node (abs_run (take i ns)) (ns ! i)) (drop (Suc i) ns)"
    unfolding abs_run_def by (metis foldl_append foldl_Cons)
  then have "snd (snd (abs_node (A, ctx, vs) (ns ! i))) = []"
    using viol_grow [of "abs_node (A, ctx, vs) (ns ! i)" "drop (Suc i) ns"] assms(2) by (simp add: a)
  then have "vs @ snd (warden_effect A (ctx_current (warden_ctx A ctx (ns ! i))) (ns ! i)) = []"
    by (simp add: Let_def split: prod.splits)
  then show ?thesis using that [of A ctx] a abs_run_flows [of "take i ns"] by simp
qed

lemma elevate_SAFE: "elevate c t = WARDEN_SAFE \<longleftrightarrow> c = WARDEN_SAFE \<and> t = WARDEN_SAFE"
  by (cases c; cases t) (simp_all add: elevate_def less_warden_taint_def)

definition is_sstore :: "ir_node \<Rightarrow> bool" where
  "is_sstore n \<longleftrightarrow> nd_op n = IR_STORE \<and> nd_tag n = IR_TAG_SSTORE"

definition is_selfdestruct :: "ir_node \<Rightarrow> bool" where
  "is_selfdestruct n \<longleftrightarrow> nd_op n = IR_CALL \<and> nd_tag n = IR_TAG_SELFDESTRUCT"

lemma sstore_effect:
  assumes "is_sstore n" "snd (warden_effect A c n) = []"
  shows "c = WARDEN_SAFE" "nd_dst n \<notin> hot A" "nd_src1 n \<notin> hot A"
proof -
  have op: "nd_op n = IR_STORE" using assms(1) by (simp add: is_sstore_def)
  then have "\<not> is_comparison_op (nd_op n)" "\<not> is_propagating_op (nd_op n)" "is_taint_source n = None"
    by (simp_all add: is_comparison_op_def is_propagating_op_def is_taint_source_def)
  then have v: "sstore_sink A c n = []" using assms op by (simp add: warden_effect_def is_sstore_def)
  have "elevate c (wmap_get A (nd_dst n)) = WARDEN_SAFE \<and> elevate c (wmap_get A (nd_src1 n)) = WARDEN_SAFE"
    using v taint_cases by (fastforce simp: sstore_sink_def Let_def split: if_splits)
  then show "c = WARDEN_SAFE" "nd_dst n \<notin> hot A" "nd_src1 n \<notin> hot A"
    by (auto simp: elevate_SAFE hot_iff)
qed

lemma selfdestruct_effect:
  assumes "is_selfdestruct n" "snd (warden_effect A c n) = []"
  shows "c = WARDEN_SAFE" "nd_src1 n \<notin> hot A"
proof -
  have op: "nd_op n = IR_CALL" "nd_tag n = IR_TAG_SELFDESTRUCT" using assms(1) by (simp_all add: is_selfdestruct_def)
  then have "\<not> is_comparison_op (nd_op n)" "\<not> is_propagating_op (nd_op n)" "is_taint_source n = None"
    by (simp_all add: is_comparison_op_def is_propagating_op_def is_taint_source_def
          IR_TAG_UNTRUSTED_EXTERNAL_CALL_def IR_TAG_SELFDESTRUCT_def)
  then have "selfdestruct_sink A c n = []" using assms(2) op by (simp add: warden_effect_def)
  then have "elevate c (wmap_get A (nd_src1 n)) = WARDEN_SAFE"
    using op by (simp add: selfdestruct_sink_def Let_def split: if_splits)
  then show "c = WARDEN_SAFE" "nd_src1 n \<notin> hot A" by (auto simp: elevate_SAFE hot_iff)
qed


subsection \<open>Concrete functions\<close>

definition wnode :: "ir_op \<Rightarrow> int \<Rightarrow> cstr \<Rightarrow> cstr \<Rightarrow> cstr \<Rightarrow> cstr \<Rightarrow> ir_node" where
  "wnode op tag dst src1 src2 lbl = ir_node_alloc\<lparr> nd_op := op, nd_tag := tag, nd_dst := dst,
     nd_src1 := src1, nd_src2 := src2, nd_label := lbl \<rparr>"

definition wfn :: "ir_node list \<Rightarrow> ir_func" where
  "wfn ns = \<lparr> fn_name = ''f'', fn_ret_type = IR_TY_VOID, fn_nodes = ns, fn_node_count = int (length ns),
     fn_tmp_counter = 0, fn_lbl_counter = 0, fn_num_params = 0, fn_param_names = [] \<rparr>"

lemma wfn_nodes [simp]: "fn_nodes (wfn ns) = ns"
  by (simp add: wfn_def)

definition no_map :: warden_map where
  "no_map = \<lparr> wm_slots = [], wm_count = 0 \<rparr>"

lemma no_map_ok [simp]: "wm_inv no_map"
  by (simp add: wm_inv_def no_map_def)

lemmas warden_eval = abs_run_def wnode_def ir_node_alloc_def warden_ctx_def warden_effect_def is_taint_source_def
  compare_rule_def propagate_rule_def load_rule_def compute_propagated_taint_def is_propagating_op_def
  is_comparison_op_def abs_set_def wmap_get_def escalate_def blank_entry_def sstore_sink_def call_sink_def
  selfdestruct_sink_def elevate_def violation_def ctx_current_def ctx_pop_def ctx_push_def desc_or_def
  less_warden_taint_def IR_TAG_NONE_def IR_TAG_UNTRUSTED_EXTERNAL_CALL_def IR_TAG_SELFDESTRUCT_def
  IR_TAG_SSTORE_def c_copy_def Let_def

definition store_of_load :: "ir_node list" where
  "store_of_load = [wnode IR_LOAD 0 ''t0'' ''a'' [] [], wnode IR_ADD 0 ''t1'' ''t0'' ''k'' [],
     wnode IR_STORE 4 ''slot'' ''t1'' [] []]"

lemma store_of_load_run: "map wv_sink (snd (snd (abs_run store_of_load))) = [SSTORE_value]"
  by (simp add: store_of_load_def warden_eval)

lemma store_of_load_fit: "dsts_fit store_of_load"
  by (simp add: store_of_load_def dsts_fit_def wnode_def ir_node_alloc_def IR_NAME_MAX_def)


definition safe_store :: "ir_node list" where
  "safe_store = [wnode IR_CONST 0 ''t0'' [] [] [], wnode IR_STORE 4 ''slot'' ''t0'' [] []]"

lemma safe_store_fit: "dsts_fit safe_store"
  by (simp add: safe_store_def dsts_fit_def wnode_def ir_node_alloc_def IR_NAME_MAX_def)

lemma safe_store_silent: "nodes_modified (snd (snd (ir_pass_warden no_map (wfn safe_store)))) = 0"
proof -
  have "snd (snd (abs_run safe_store)) = []" by (simp add: safe_store_def warden_eval)
  then have "ws_viol (warden_run no_map safe_store) = []"
    using warden_run_refines [OF no_map_ok safe_store_fit] by (simp add: refines_def)
  then show ?thesis by (simp add: ir_pass_warden_def Let_def safe_store_def)
qed


subsection \<open>Calls that are not reported\<close>

text \<open>A call with a destination; a call to a checked sum; the same call to the plain tainted name.\<close>

definition call_with_dst :: "ir_node list" where
  "call_with_dst = [wnode IR_LOAD 0 ''t0'' ''a'' [] [], wnode IR_CALL 1 ''t1'' [] [] ''t0'']"

definition call_checked :: "ir_node list" where
  "call_checked = [wnode IR_LOAD 0 ''t0'' ''a'' [] [], wnode IR_EQ 0 ''c'' ''t0'' ''k'' [],
     wnode IR_ADD 0 ''s'' ''t0'' ''c'' [], wnode IR_CALL 1 [] [] [] ''s'']"

definition call_plain :: "ir_node list" where
  "call_plain = [wnode IR_LOAD 0 ''t0'' ''a'' [] [], wnode IR_CALL 1 [] [] [] ''t0'']"

lemma abs_viol_run:
  assumes "dsts_fit ns"
  shows "fst (snd (ir_pass_warden no_map (wfn ns))) = snd (snd (abs_run ns))"
  using warden_run_refines [OF no_map_ok assms]
  by (auto simp: ir_pass_warden_def refines_def Let_def abs_run_def)


end
