(* ===== verification/Taint.thy ===== *)
theory Taint
  imports VulnTag Passes
begin

text \<open>
  The taint propagation of \<^verbatim>\<open>ir_pass_taint.c\<close> with the growing name set of \<^verbatim>\<open>ir_pass_taint.h\<close>. A node
  is returned updated, since the pass sets \<open>IR_VULN_PRIV_BOUNDARY\<close> on stores and delegate calls. The
  lemmas show that the name set is a set, that the walk computes the names a host value reaches, and
  exactly which nodes it marks. The two progress messages are not modelled.
\<close>

subsection \<open>The name set\<close>

record ir_bitset =
  bs_names :: "cstr list"
  bs_capacity :: int

definition ir_bitset_create :: "int \<Rightarrow> ir_bitset" where
  "ir_bitset_create capacity = \<lparr> bs_names = [], bs_capacity = capacity \<rparr>"

definition ir_bitset_set :: "ir_bitset \<Rightarrow> cstr \<Rightarrow> ir_bitset" where
  "ir_bitset_set bs name =
     (if name = [] then bs
      else if list_ex (\<lambda>x. x = name) (bs_names bs) then bs
      else let bs1 = (if bs_capacity bs \<le> int (length (bs_names bs))
                      then bs\<lparr> bs_capacity := bs_capacity bs * 2 \<rparr> else bs)
           in bs1\<lparr> bs_names := bs_names bs1 @ [name] \<rparr>)"

definition ir_bitset_test :: "ir_bitset \<Rightarrow> cstr \<Rightarrow> bool" where
  "ir_bitset_test bs name = (if name = [] then False else list_ex (\<lambda>x. x = name) (bs_names bs))"

subsection \<open>The pass\<close>

definition IR_TAG_HOST_CONTEXT :: int where "IR_TAG_HOST_CONTEXT = 17"
definition IR_TAG_CALLDATALOAD :: int where "IR_TAG_CALLDATALOAD = 18"
definition TAG_UNTRUSTED_CALL :: int where "TAG_UNTRUSTED_CALL = 1"
definition TAG_SSTORE :: int where "TAG_SSTORE = 4"

record taint_state =
  ts_taint :: ir_bitset
  ts_host :: bool

definition taint_dst :: "taint_state \<Rightarrow> ir_node \<Rightarrow> taint_state" where
  "taint_dst st n = st\<lparr> ts_taint := ir_bitset_set (ts_taint st) (nd_dst n) \<rparr>"

definition mark_boundary :: "ir_node \<Rightarrow> ir_node" where
  "mark_boundary n = (case ir_vuln_tag_set (Some n) IR_VULN_PRIV_BOUNDARY of Some m \<Rightarrow> m | None \<Rightarrow> n)"

definition taint_load :: "taint_state \<Rightarrow> ir_node \<Rightarrow> taint_state" where
  "taint_load st n =
     (if nd_tag n = IR_TAG_CALLDATALOAD then taint_dst (st\<lparr> ts_host := True \<rparr>) n
      else if nd_label n \<noteq> [] \<and> nd_label n = ''__evm_sload'' then
        (if ir_bitset_test (ts_taint st) (nd_src1 n) then taint_dst st n else st)
      else if ir_bitset_test (ts_taint st) (nd_src1 n) then taint_dst st n else st)"

definition taint_call :: "taint_state \<Rightarrow> ir_node \<Rightarrow> ir_node \<times> taint_state" where
  "taint_call st n =
     (if nd_tag n = TAG_UNTRUSTED_CALL \<and> nd_vuln_tags n AND IR_VULN_DELEGATE_CALL \<noteq> 0
      then (if ir_bitset_test (ts_taint st) (nd_label n) then mark_boundary n else n, st)
      else (n, if ir_bitset_test (ts_taint st) (nd_label n) \<or> ir_bitset_test (ts_taint st) (nd_src1 n)
                  \<or> ir_bitset_test (ts_taint st) (nd_src2 n)
               then taint_dst st n else st))"

fun taint_phi :: "taint_state \<Rightarrow> ir_node \<Rightarrow> ir_phi_operand list \<Rightarrow> taint_state" where
  "taint_phi st n [] = st"
| "taint_phi st n ((v, b) # ops) =
     (if ir_bitset_test (ts_taint st) v then taint_dst st n else taint_phi st n ops)"

definition taint_propagate_node :: "taint_state \<Rightarrow> ir_node \<Rightarrow> ir_node \<times> taint_state" where
  "taint_propagate_node st n = (case nd_op n of
       IR_CONST \<Rightarrow> (n, if nd_tag n = IR_TAG_HOST_CONTEXT then taint_dst (st\<lparr> ts_host := True \<rparr>) n else st)
     | IR_LOAD \<Rightarrow> (n, taint_load st n)
     | IR_CALL \<Rightarrow> taint_call st n
     | IR_STORE \<Rightarrow>
         (if nd_tag n = TAG_SSTORE \<and> ir_bitset_test (ts_taint st) (nd_src1 n) \<and> ts_host st
          then mark_boundary n else n, st)
     | IR_PHI \<Rightarrow> (n, taint_phi st n (nd_phi_ops n))
     | _ \<Rightarrow> (n, if nd_src1 n \<noteq> [] \<and> ir_bitset_test (ts_taint st) (nd_src1 n)
                  \<or> nd_src2 n \<noteq> [] \<and> ir_bitset_test (ts_taint st) (nd_src2 n)
               then taint_dst st n else st))"

fun taint_walk :: "taint_state \<Rightarrow> ir_node list \<Rightarrow> ir_node list \<times> taint_state" where
  "taint_walk st [] = ([], st)"
| "taint_walk st (n # ns) =
     (let (m, st1) = taint_propagate_node st n; (ms, st2) = taint_walk st1 ns in (m # ms, st2))"

definition taint_init :: "ir_func \<Rightarrow> taint_state" where
  "taint_init fn = \<lparr> ts_taint = ir_bitset_create (int (fn_tmp_counter fn) + 64), ts_host = False \<rparr>"

definition ir_pass_taint_propagate :: "ir_func \<Rightarrow> ir_func \<times> ir_pass_result" where
  "ir_pass_taint_propagate fn =
     (let fn' = fn\<lparr> fn_nodes := fst (taint_walk (taint_init fn) (fn_nodes fn)) \<rparr>
      in (fn', empty_result\<lparr> nodes_before := fn_node_count fn, nodes_after := fn_node_count fn' \<rparr>))"

subsection \<open>The name set is a set\<close>

definition bs_set :: "ir_bitset \<Rightarrow> cstr set" where
  "bs_set bs = set (bs_names bs)"

definition bs_ok :: "ir_bitset \<Rightarrow> bool" where
  "bs_ok bs \<longleftrightarrow> distinct (bs_names bs) \<and> [] \<notin> set (bs_names bs)
     \<and> 0 < bs_capacity bs \<and> int (length (bs_names bs)) \<le> bs_capacity bs"

lemma bs_ok_create: "0 < c \<Longrightarrow> bs_ok (ir_bitset_create c)"
  by (simp add: bs_ok_def ir_bitset_create_def)

lemma bs_ok_set: "bs_ok bs \<Longrightarrow> bs_ok (ir_bitset_set bs name)"
  by (auto simp: bs_ok_def ir_bitset_set_def list_ex_iff Let_def)

lemma bs_set_set: "bs_set (ir_bitset_set bs name) = (if name = [] then bs_set bs else insert name (bs_set bs))"
  by (auto simp: bs_set_def ir_bitset_set_def list_ex_iff Let_def)

lemma bs_test: "bs_ok bs \<Longrightarrow> ir_bitset_test bs name \<longleftrightarrow> name \<in> bs_set bs"
  by (auto simp: bs_set_def bs_ok_def ir_bitset_test_def list_ex_iff)

subsection \<open>What is tainted\<close>

definition host_source :: "ir_node \<Rightarrow> bool" where
  "host_source n \<longleftrightarrow> nd_op n = IR_CONST \<and> nd_tag n = IR_TAG_HOST_CONTEXT
     \<or> nd_op n = IR_LOAD \<and> nd_tag n = IR_TAG_CALLDATALOAD"

definition is_delegate :: "ir_node \<Rightarrow> bool" where
  "is_delegate n \<longleftrightarrow> nd_op n = IR_CALL \<and> nd_tag n = TAG_UNTRUSTED_CALL \<and> nd_vuln_tags n AND IR_VULN_DELEGATE_CALL \<noteq> 0"

text \<open>The names whose taint reaches the destination.\<close>

definition taint_inputs :: "ir_node \<Rightarrow> cstr list" where
  "taint_inputs n = (case nd_op n of IR_CONST \<Rightarrow> [] | IR_LOAD \<Rightarrow> [nd_src1 n] | IR_STORE \<Rightarrow> []
     | IR_CALL \<Rightarrow> (if is_delegate n then [] else [nd_label n, nd_src1 n, nd_src2 n])
     | IR_PHI \<Rightarrow> map fst (nd_phi_ops n) | _ \<Rightarrow> [nd_src1 n, nd_src2 n])"

definition host_step :: "cstr set \<Rightarrow> ir_node \<Rightarrow> cstr set" where
  "host_step T n = (if nd_dst n \<noteq> [] \<and> (host_source n \<or> (\<exists>x \<in> set (taint_inputs n). x \<in> T))
                    then insert (nd_dst n) T else T)"

definition host_flows :: "ir_node list \<Rightarrow> cstr set" where
  "host_flows ns = foldl host_step {} ns"

definition taints_sink :: "cstr set \<Rightarrow> ir_node \<Rightarrow> bool" where
  "taints_sink T n \<longleftrightarrow> nd_op n = IR_STORE \<and> nd_tag n = TAG_SSTORE \<and> nd_src1 n \<in> T
     \<or> is_delegate n \<and> nd_label n \<in> T"

definition st_ok :: "taint_state \<Rightarrow> cstr set \<Rightarrow> bool" where
  "st_ok st T \<longleftrightarrow> bs_ok (ts_taint st) \<and> bs_set (ts_taint st) = T \<and> [] \<notin> T \<and> (T \<noteq> {} \<longrightarrow> ts_host st)"

lemma taint_dst_ok: "st_ok st T \<Longrightarrow> ts_host st \<Longrightarrow> st_ok (taint_dst st n) (if nd_dst n = [] then T else insert (nd_dst n) T)"
  by (auto simp: st_ok_def taint_dst_def bs_ok_set bs_set_set)

lemma st_ok_test: "st_ok st T \<Longrightarrow> ir_bitset_test (ts_taint st) x \<longleftrightarrow> x \<in> T"
  by (simp add: st_ok_def bs_test)

lemma st_ok_host: "st_ok st T \<Longrightarrow> x \<in> T \<Longrightarrow> ts_host st"
  by (auto simp: st_ok_def)

lemma st_ok_source: "st_ok st T \<Longrightarrow> st_ok (st\<lparr> ts_host := True \<rparr>) T"
  by (simp add: st_ok_def)

lemma taint_phi_eq:
  "taint_phi st n ops = (if \<exists>x \<in> set (map fst ops). ir_bitset_test (ts_taint st) x then taint_dst st n else st)"
  by (induction st n ops rule: taint_phi.induct) force+

lemma taint_propagate_ok:
  assumes ok: "st_ok st T"
  shows "st_ok (snd (taint_propagate_node st n)) (host_step T n)"
    "fst (taint_propagate_node st n) = (if taints_sink T n then mark_boundary n else n)"
proof -
  have dst: "st_ok (if P then taint_dst st n else st) (if nd_dst n \<noteq> [] \<and> P then insert (nd_dst n) T else T)"
    if "P \<Longrightarrow> ts_host st" for P
    using that taint_dst_ok [OF ok, of n] ok by (cases "nd_dst n = []") simp_all
  have src: "st_ok (taint_dst (st\<lparr> ts_host := True \<rparr>) n) (if nd_dst n \<noteq> [] then insert (nd_dst n) T else T)"
    using taint_dst_ok [OF st_ok_source [OF ok], of n] by (cases "nd_dst n = []") simp_all
  note t = st_ok_test [OF ok] and h = st_ok_host [OF ok]
  have ne: "[] \<notin> T" using ok by (simp add: st_ok_def)
  show "fst (taint_propagate_node st n) = (if taints_sink T n then mark_boundary n else n)"
    using h by (cases "nd_op n")
      (auto simp: taint_propagate_node_def taints_sink_def is_delegate_def taint_call_def t)
  show "st_ok (snd (taint_propagate_node st n)) (host_step T n)"
  proof (cases "host_source n")
    case True
    then show ?thesis using src
      by (auto simp: host_source_def taint_propagate_node_def taint_load_def host_step_def)
  next
    case nosrc: False
    show ?thesis
    proof (cases "nd_op n")
      case IR_PHI
      let ?P = "\<exists>x \<in> set (map fst (nd_phi_ops n)). x \<in> T"
      have a: "host_step T n = (if nd_dst n \<noteq> [] \<and> ?P then insert (nd_dst n) T else T)"
        using nosrc IR_PHI by (simp add: host_step_def taint_inputs_def)
      have b: "snd (taint_propagate_node st n) = (if ?P then taint_dst st n else st)"
        by (simp only: taint_propagate_node_def taint_phi_eq t IR_PHI ir_op.case snd_conv)
      show ?thesis unfolding a b by (rule dst) (use h in blast)
    next
      case IR_LOAD
      then show ?thesis using dst [of "nd_src1 n \<in> T"] h nosrc
        by (auto simp: taint_propagate_node_def taint_load_def host_step_def host_source_def taint_inputs_def t)
    next
      case IR_CALL
      then show ?thesis using dst [of "nd_label n \<in> T \<or> nd_src1 n \<in> T \<or> nd_src2 n \<in> T"] h nosrc ok
        by (auto simp: taint_propagate_node_def taint_call_def host_step_def is_delegate_def taint_inputs_def t)
    next
      case IR_CONST
      then show ?thesis using nosrc ok
        by (auto simp: taint_propagate_node_def host_step_def host_source_def taint_inputs_def)
    next
      case IR_STORE
      then show ?thesis using nosrc ok
        by (auto simp: taint_propagate_node_def host_step_def taint_inputs_def)
    qed (use dst [of "nd_src1 n \<in> T \<or> nd_src2 n \<in> T"] h nosrc ne in
          \<open>auto simp: taint_propagate_node_def host_step_def taint_inputs_def t\<close>)
  qed
qed

lemma taint_walk_ok:
  "st_ok st T \<Longrightarrow> st_ok (snd (taint_walk st ns)) (foldl host_step T ns)
   \<and> length (fst (taint_walk st ns)) = length ns
   \<and> (\<forall>i < length ns. fst (taint_walk st ns) ! i =
        (if taints_sink (foldl host_step T (take i ns)) (ns ! i) then mark_boundary (ns ! i) else ns ! i))"
proof (induction ns arbitrary: st T)
  case (Cons n ns)
  note p = taint_propagate_ok [OF Cons.prems, of n]
  note ih = Cons.IH [OF p(1)]
  show ?case
  proof (intro conjI allI impI)
    fix i assume "i < length (n # ns)"
    then show "fst (taint_walk st (n # ns)) ! i =
        (if taints_sink (foldl host_step T (take i (n # ns))) ((n # ns) ! i) then mark_boundary ((n # ns) ! i) else (n # ns) ! i)"
      using ih p(2) by (cases i) (auto simp: Let_def split: prod.split)
  qed (use ih in \<open>auto simp: Let_def split: prod.split\<close>)
qed simp

lemma taint_init_ok: "st_ok (taint_init fn) {}"
  by (simp add: st_ok_def taint_init_def bs_ok_create) (simp add: bs_set_def ir_bitset_create_def)

lemma mark_boundary_eq: "mark_boundary n = n\<lparr> nd_vuln_tags := nd_vuln_tags n OR IR_VULN_PRIV_BOUNDARY \<rparr>"
  by (simp add: mark_boundary_def ir_vuln_tag_set_def)

text \<open>C16: Taint propagation keeps every node, except that it adds the privilege boundary to exactly the
  persistent stores whose stored value, and the delegate calls whose target, a host value reaches at
  that point; a value is tainted only once a host source was seen, so the flag of the state never
  suppresses a mark.\<close>

theorem taint_marks_exactly:
  assumes "i < length (fn_nodes fn)"
  shows "length (fn_nodes (fst (ir_pass_taint_propagate fn))) = length (fn_nodes fn)
    \<and> fn_nodes (fst (ir_pass_taint_propagate fn)) ! i =
       (if taints_sink (host_flows (take i (fn_nodes fn))) (fn_nodes fn ! i)
        then (fn_nodes fn ! i)\<lparr> nd_vuln_tags := nd_vuln_tags (fn_nodes fn ! i) OR IR_VULN_PRIV_BOUNDARY \<rparr>
        else fn_nodes fn ! i)"
  using taint_walk_ok [OF taint_init_ok, of fn "fn_nodes fn"] assms
  by (simp add: ir_pass_taint_propagate_def host_flows_def mark_boundary_eq Let_def)

definition host_store :: ir_func where
  "host_store = (ir_empty_func 1)\<lparr> fn_node_count := 2, fn_nodes :=
     [ir_node_alloc\<lparr> nd_op := IR_CONST, nd_dst := ''t0'', nd_tag := 17 \<rparr>,
      ir_node_alloc\<lparr> nd_op := IR_STORE, nd_dst := ''slot'', nd_src1 := ''t0'', nd_tag := 4, nd_vuln_tags := 8 \<rparr>] \<rparr>"

theorem taint_marks_exactly_witness:
  "nd_vuln_tags (fn_nodes (fst (ir_pass_taint_propagate host_store)) ! 1) = 24"
  using taint_marks_exactly [of 1 host_store]
  by (simp add: host_store_def taints_sink_def host_flows_def host_step_def host_source_def
        IR_TAG_HOST_CONTEXT_def TAG_SSTORE_def IR_VULN_PRIV_BOUNDARY_def)

end
