(* ===== verification/Healer.thy ===== *)
theory Healer
  imports Taint IRSem
begin

text \<open>
  The healer \<^verbatim>\<open>ir_pass_healer.c\<close>: it inserts an owner check before every node that carries both the
  state-write and the privilege-boundary bit. The lemmas give the resulting list of nodes exactly, show
  on the abstract machine that the check lets only the owner through, and compose the pass with the taint
  propagation that sets the boundary bit.
\<close>

subsection \<open>The pass\<close>

text \<open>The node to insert before is the node at an index; its predecessor is found by walking the list.\<close>

definition ir_emit_before :: "ir_func \<Rightarrow> nat \<Rightarrow> ir_op \<Rightarrow> ir_type \<Rightarrow> cstr \<Rightarrow> cstr \<Rightarrow> cstr \<Rightarrow> cstr \<Rightarrow> u64 \<Rightarrow> int \<Rightarrow> ir_func" where
  "ir_emit_before fn i op ty dst src1 src2 lbl imm lineno =
     (let new_node = ir_node_alloc\<lparr> nd_op := op, nd_type := ty, nd_dst := c_copy IR_NAME_MAX dst,
            nd_src1 := c_copy IR_NAME_MAX src1, nd_src2 := c_copy IR_NAME_MAX src2,
            nd_label := c_copy IR_LABEL_MAX lbl, nd_imm := imm, nd_lineno := lineno \<rparr>
      in fn\<lparr> fn_nodes := take i (fn_nodes fn) @ new_node # drop i (fn_nodes fn),
             fn_node_count := fn_node_count fn + 1 \<rparr>)"

definition bleeding :: "ir_node \<Rightarrow> bool" where
  "bleeding n \<longleftrightarrow> nd_vuln_tags n AND IR_VULN_STATE_WRITE \<noteq> 0 \<and> nd_vuln_tags n AND IR_VULN_PRIV_BOUNDARY \<noteq> 0"

definition set_barrier :: "ir_func \<Rightarrow> nat \<Rightarrow> ir_func" where
  "set_barrier fn i = fn\<lparr> fn_nodes := (fn_nodes fn)[i := (fn_nodes fn ! i)
     \<lparr> nd_vuln_tags := nd_vuln_tags (fn_nodes fn ! i) OR IR_VULN_EXEC_BARRIER \<rparr>] \<rparr>"

text \<open>The insertions at the node with index \<open>i\<close>; each one moves it one place on.\<close>

definition insert_guard :: "ir_func \<Rightarrow> nat \<Rightarrow> ir_func" where
  "insert_guard fn i =
     (let lineno = nd_lineno (fn_nodes fn ! i);
          (fn, owner_vreg) = ir_fresh_tmp fn;
          (fn, caller_vreg) = ir_fresh_tmp fn;
          (fn, cmp_vreg) = ir_fresh_tmp fn;
          (fn, not_vreg) = ir_fresh_tmp fn;
          (fn, zero_slot) = ir_fresh_tmp fn;
          fn = ir_emit_before fn i IR_CONST IR_TY_I64 zero_slot [] [] [] 0 lineno;
          fn = ir_emit_before fn (i + 1) IR_LOAD IR_TY_I64 owner_vreg zero_slot [] [] 0 lineno;
          fn = ir_emit_before fn (i + 2) IR_CALL IR_TY_I64 caller_vreg [] [] ''evm_caller'' 0 lineno;
          fn = ir_emit_before fn (i + 3) IR_EQ IR_TY_I64 cmp_vreg caller_vreg owner_vreg [] 0 lineno;
          (fn, continue_label) = ir_fresh_label fn;
          fn = ir_emit_before fn (i + 4) IR_BR_IF IR_TY_VOID [] cmp_vreg [] continue_label 0 lineno;
          fn = set_barrier fn (i + 4);
          fn = ir_emit_before fn (i + 5) IR_RET IR_TY_VOID [] ''0'' [] [] 0 lineno
      in ir_emit_before fn (i + 6) IR_LABEL IR_TY_VOID [] [] [] continue_label 0 lineno)"

definition heal_step :: "ir_func \<times> nat \<times> int \<Rightarrow> ir_node \<Rightarrow> ir_func \<times> nat \<times> int" where
  "heal_step st n = (case st of (fn, i, healed) \<Rightarrow>
     if bleeding n then (insert_guard fn i, i + 8, healed + 1) else (fn, i + 1, healed))"

text \<open>The nodes inserted lie before the current one, so the walk visits the original nodes.\<close>

definition ir_pass_auto_heal :: "ir_func \<Rightarrow> ir_func \<times> ir_pass_result" where
  "ir_pass_auto_heal fn =
     (let (fn', i, healed) = foldl heal_step (fn, 0, 0) (fn_nodes fn)
      in (fn', empty_result\<lparr> nodes_before := fn_node_count fn, nodes_after := fn_node_count fn',
                 nodes_modified := healed, pass_changed := healed > 0 \<rparr>))"

subsection \<open>The healed list\<close>

definition tmp_name :: "nat \<Rightarrow> cstr" where "tmp_name k = ''t'' @ decimal k"
definition lbl_name :: "nat \<Rightarrow> cstr" where "lbl_name l = ''.L'' @ decimal l"

text \<open>The guard whose first fresh temporary is number \<open>k\<close> and whose label is number \<open>l\<close>.\<close>

definition guard_node :: "ir_op \<Rightarrow> ir_type \<Rightarrow> int \<Rightarrow> ir_node" where
  "guard_node op ty lineno = ir_node_alloc\<lparr> nd_op := op, nd_type := ty, nd_lineno := lineno \<rparr>"

definition guard :: "nat \<Rightarrow> nat \<Rightarrow> int \<Rightarrow> ir_node list" where
  "guard k l ln =
     [(guard_node IR_CONST IR_TY_I64 ln)\<lparr> nd_dst := tmp_name (k + 4) \<rparr>,
      (guard_node IR_LOAD IR_TY_I64 ln)\<lparr> nd_dst := tmp_name k, nd_src1 := tmp_name (k + 4) \<rparr>,
      (guard_node IR_CALL IR_TY_I64 ln)\<lparr> nd_dst := tmp_name (k + 1), nd_label := ''evm_caller'' \<rparr>,
      (guard_node IR_EQ IR_TY_I64 ln)\<lparr> nd_dst := tmp_name (k + 2), nd_src1 := tmp_name (k + 1), nd_src2 := tmp_name k \<rparr>,
      (guard_node IR_BR_IF IR_TY_VOID ln)\<lparr> nd_src1 := tmp_name (k + 2), nd_label := lbl_name l, nd_vuln_tags := IR_VULN_EXEC_BARRIER \<rparr>,
      (guard_node IR_RET IR_TY_VOID ln)\<lparr> nd_src1 := ''0'' \<rparr>,
      (guard_node IR_LABEL IR_TY_VOID ln)\<lparr> nd_label := lbl_name l \<rparr>]"

fun healed_nodes :: "ir_node list \<Rightarrow> nat \<Rightarrow> nat \<Rightarrow> ir_node list" where
  "healed_nodes [] k l = []"
| "healed_nodes (n # ns) k l =
     (if bleeding n then guard k l (nd_lineno n) @ n # healed_nodes ns (k + 5) (l + 1)
      else n # healed_nodes ns k l)"

definition wounds :: "ir_node list \<Rightarrow> nat" where
  "wounds ns = length (filter bleeding ns)"

text \<open>Counters that fit 32 bits keep every generated name inside its field.\<close>

lemma name_fit: "k < 10 ^ 10 \<Longrightarrow> length (tmp_name k) < IR_NAME_MAX" "l < 10 ^ 10 \<Longrightarrow> length (lbl_name l) < IR_LABEL_MAX"
  using decimal_length [of k 10] decimal_length [of l 10]
  by (simp_all add: tmp_name_def lbl_name_def IR_NAME_MAX_def IR_LABEL_MAX_def)

lemma tmp_name_inj [simp]: "tmp_name i = tmp_name j \<longleftrightarrow> i = j"
  by (auto simp: tmp_name_def dest: decimal_inj)

lemma lbl_name_inj [simp]: "lbl_name i = lbl_name j \<longleftrightarrow> i = j"
  by (auto simp: lbl_name_def dest: decimal_inj)

lemma tmp_name_ne [simp]: "tmp_name i \<noteq> []" "tmp_name i \<noteq> ''0''" "''0'' \<noteq> tmp_name i"
  by (simp_all add: tmp_name_def)

lemma emit_before_at:
  "i = length pre \<Longrightarrow> fn_nodes fn = pre @ post \<Longrightarrow>
   ir_emit_before fn i op ty dst src1 src2 lbl imm lineno =
     fn\<lparr> fn_nodes := pre @ ir_node_alloc\<lparr> nd_op := op, nd_type := ty, nd_dst := c_copy IR_NAME_MAX dst,
            nd_src1 := c_copy IR_NAME_MAX src1, nd_src2 := c_copy IR_NAME_MAX src2,
            nd_label := c_copy IR_LABEL_MAX lbl, nd_imm := imm, nd_lineno := lineno \<rparr> # post,
        fn_node_count := fn_node_count fn + 1 \<rparr>"
  by (simp add: ir_emit_before_def Let_def)

lemma insert_guard_at:
  assumes i: "i = length pre" and fn: "fn_nodes fn = pre @ n # post"
    and fit: "fn_tmp_counter fn + 5 < 10 ^ 10" "fn_lbl_counter fn + 1 < 10 ^ 10"
  shows "insert_guard fn i = fn\<lparr> fn_nodes := pre @ guard (fn_tmp_counter fn) (fn_lbl_counter fn) (nd_lineno n) @ n # post,
     fn_node_count := fn_node_count fn + 7, fn_tmp_counter := fn_tmp_counter fn + 5,
     fn_lbl_counter := fn_lbl_counter fn + 1 \<rparr>"
proof -
  have at: "fn_nodes fn ! i = n" using i fn by simp
  let ?k = "fn_tmp_counter fn" and ?l = "fn_lbl_counter fn"
  have t: "c_copy IR_NAME_MAX (tmp_name j) = tmp_name j" if "j < ?k + 5" for j
    using that fit(1) name_fit(1) [of j] by (simp add: c_copy_id)
  have l: "c_copy IR_LABEL_MAX (lbl_name ?l) = lbl_name ?l" using fit(2) name_fit(2) [of ?l] by (simp add: c_copy_id)
  have z: "c_copy IR_NAME_MAX ''0'' = ''0''" "c_copy IR_LABEL_MAX ''evm_caller'' = ''evm_caller''"
    by (simp_all add: c_copy_def IR_NAME_MAX_def IR_LABEL_MAX_def)
  have four: "j + 4 = Suc (Suc (Suc (Suc j)))" for j by simp
  show ?thesis
    unfolding insert_guard_def Let_def at ir_fresh_tmp_def ir_fresh_label_def prod.case
    using i fn t [unfolded tmp_name_def] l [unfolded lbl_name_def]
    by (cases fn) (simp add: ir_emit_before_def Let_def z set_barrier_def nth_append guard_def guard_node_def
          tmp_name_def lbl_name_def list_update_append ir_node_alloc_def four)
qed

text \<open>The walk, started at any position.\<close>

definition counters_fit :: "ir_func \<Rightarrow> nat \<Rightarrow> bool" where
  "counters_fit fn w \<longleftrightarrow> fn_tmp_counter fn + 5 * w < 2 ^ 31 \<and> fn_lbl_counter fn + w < 2 ^ 31"

lemma heal_walk:
  assumes "fn_nodes fn = pre @ ns" "i = length pre" "counters_fit fn (wounds ns)"
  shows "foldl heal_step (fn, i, h) ns =
    (fn\<lparr> fn_nodes := pre @ healed_nodes ns (fn_tmp_counter fn) (fn_lbl_counter fn),
         fn_node_count := fn_node_count fn + 7 * int (wounds ns),
         fn_tmp_counter := fn_tmp_counter fn + 5 * wounds ns,
         fn_lbl_counter := fn_lbl_counter fn + wounds ns \<rparr>,
     length pre + length (healed_nodes ns (fn_tmp_counter fn) (fn_lbl_counter fn)), h + int (wounds ns))"
  using assms
proof (induction ns arbitrary: fn pre i h)
  case Nil
  then show ?case by (simp add: wounds_def)
next
  case (Cons n ns)
  let ?k = "fn_tmp_counter fn" and ?l = "fn_lbl_counter fn"
  show ?case
  proof (cases "bleeding n")
    case True
    have w: "wounds (n # ns) = wounds ns + 1" using True by (simp add: wounds_def)
    have fit: "?k + 5 < 10 ^ 10" "?l + 1 < 10 ^ 10" using Cons.prems(3) by (simp_all add: counters_fit_def w)
    let ?fn = "insert_guard fn i"
    have fn: "?fn = fn\<lparr> fn_nodes := (pre @ guard ?k ?l (nd_lineno n) @ [n]) @ ns,
      fn_node_count := fn_node_count fn + 7, fn_tmp_counter := ?k + 5, fn_lbl_counter := ?l + 1 \<rparr>"
      using insert_guard_at [OF Cons.prems(2,1) fit] by simp
    have 1: "fn_nodes ?fn = (pre @ guard ?k ?l (nd_lineno n) @ [n]) @ ns" by (simp add: fn)
    have 2: "i + 8 = length (pre @ guard ?k ?l (nd_lineno n) @ [n])" using Cons.prems(2) by (simp add: guard_def)
    have 3: "counters_fit ?fn (wounds ns)" using Cons.prems(3) by (simp add: counters_fit_def w fn)
    have step: "foldl heal_step (fn, i, h) (n # ns) = foldl heal_step (?fn, i + 8, h + 1) ns"
      using True by (simp add: heal_step_def)
    show ?thesis unfolding step Cons.IH [OF 1 2 3, of "h + 1"] using True w
      by (simp add: fn guard_def algebra_simps)
  next
    case False
    have w: "wounds (n # ns) = wounds ns" using False by (simp add: wounds_def)
    have step: "foldl heal_step (fn, i, h) (n # ns) = foldl heal_step (fn, i + 1, h) ns"
      using False by (simp add: heal_step_def)
    have 1: "fn_nodes fn = (pre @ [n]) @ ns" using Cons.prems(1) by simp
    have 2: "i + 1 = length (pre @ [n])" using Cons.prems(2) by simp
    have 3: "counters_fit fn (wounds ns)" using Cons.prems(3) by (simp add: w)
    show ?thesis unfolding step Cons.IH [OF 1 2 3, of h] using False w by simp
  qed
qed

lemma heal_nodes:
  assumes "counters_fit fn (wounds (fn_nodes fn))"
  shows "fn_nodes (fst (ir_pass_auto_heal fn)) = healed_nodes (fn_nodes fn) (fn_tmp_counter fn) (fn_lbl_counter fn)"
    "fn_node_count (fst (ir_pass_auto_heal fn)) = fn_node_count fn + 7 * int (wounds (fn_nodes fn))"
    "nodes_modified (snd (ir_pass_auto_heal fn)) = int (wounds (fn_nodes fn))"
  using heal_walk [of fn "[]" "fn_nodes fn" 0 0] assms
  by (simp_all add: ir_pass_auto_heal_def)

lemma healed_length: "length (healed_nodes ns k l) = length ns + 7 * wounds ns"
  by (induction ns arbitrary: k l) (auto simp: wounds_def guard_def)

lemma healed_subseq: "subseq ns (healed_nodes ns k l)"
  by (induction ns arbitrary: k l) (auto intro: list_emb_append2)

lemma healed_split:
  "healed_nodes (pre @ ns) k l = healed_nodes pre k l @ healed_nodes ns (k + 5 * wounds pre) (l + wounds pre)"
  by (induction pre arbitrary: k l) (auto simp: wounds_def algebra_simps)

lemma healed_no_wounds: "wounds ns = 0 \<Longrightarrow> healed_nodes ns k l = ns"
  by (induction ns) (auto simp: wounds_def)

text \<open>The healer keeps every node in order and inserts, directly before each node that writes state
  across a privilege boundary, the seven nodes of the owner check with fresh names; the node counter stays
  the number of nodes, the pass reports the number of checks, and a function without such a node is
  returned unchanged.\<close>

lemma heal_inserts_guards:
  assumes "counters_fit fn (wounds (fn_nodes fn))" and "count_ok fn"
  shows "fn_nodes (fst (ir_pass_auto_heal fn)) = healed_nodes (fn_nodes fn) (fn_tmp_counter fn) (fn_lbl_counter fn)
    \<and> subseq (fn_nodes fn) (fn_nodes (fst (ir_pass_auto_heal fn)))
    \<and> count_ok (fst (ir_pass_auto_heal fn))
    \<and> nodes_modified (snd (ir_pass_auto_heal fn)) = int (wounds (fn_nodes fn))
    \<and> (wounds (fn_nodes fn) = 0 \<longrightarrow> fn_nodes (fst (ir_pass_auto_heal fn)) = fn_nodes fn)"
  using assms(2) by (simp add: heal_nodes [OF assms(1)] healed_subseq healed_no_wounds count_ok_def healed_length)

subsection \<open>The check lets only the owner through\<close>

definition lacks_label :: "ir_node list \<Rightarrow> cstr \<Rightarrow> bool" where
  "lacks_label ns lb \<longleftrightarrow> list_all (\<lambda>m. \<not> (nd_op m = IR_LABEL \<and> nd_label m = lb)) ns"

definition labels_fresh :: "ir_func \<Rightarrow> bool" where
  "labels_fresh fn \<longleftrightarrow> (\<forall>j. fn_lbl_counter fn \<le> j \<longrightarrow> lacks_label (fn_nodes fn) (lbl_name j))"

lemma find_label_skip: "lacks_label xs lb \<Longrightarrow> find_label (xs @ ys) lb = find_label ys lb"
  by (induction xs) (auto simp: lacks_label_def)

lemma lacks_label_healed:
  assumes "l + wounds ns \<le> j"
  shows "lacks_label ns (lbl_name j) \<Longrightarrow> lacks_label (healed_nodes ns k l) (lbl_name j)"
  using assms
  by (induction ns arbitrary: k l) (auto simp: lacks_label_def wounds_def guard_def guard_node_def ir_node_alloc_def)

lemma find_label_guard:
  "lacks_label pre (lbl_name l) \<Longrightarrow> find_label (pre @ guard k l ln @ n # rest) (lbl_name l) = Some (n # rest)"
  by (simp add: find_label_skip guard_def guard_node_def ir_node_alloc_def)

text \<open>The answers of the outside: the word at address 0, and the caller.\<close>

definition owner_of :: "ext \<Rightarrow> event list \<Rightarrow> u64" where
  "owner_of ext tr = ext (IR_LOAD, IR_TY_I64, [], [], 0, None) [C64 0] tr"

definition caller_ev :: event where
  "caller_ev = ((IR_CALL, IR_TY_I64, ''evm_caller'', [], 0, None), [])"

definition caller_of :: "ext \<Rightarrow> event list \<Rightarrow> u64" where
  "caller_of ext tr = ext (fst caller_ev) [] tr"

definition guard_env :: "ext \<Rightarrow> event list \<Rightarrow> nat \<Rightarrow> env \<Rightarrow> env" where
  "guard_env ext tr k env = env(tmp_name (k + 4) \<mapsto> C64 0, tmp_name k \<mapsto> C64 (owner_of ext tr),
     tmp_name (k + 1) \<mapsto> C64 (caller_of ext tr),
     tmp_name (k + 2) \<mapsto> C64 (bool64 (caller_of ext tr = owner_of ext tr)))"

lemmas guard_ops = guard_node_def ir_node_alloc_def is_effect_def is_value_op_def node_value_def const_value_def
  operand_names_def read_all_def is_bin_op_def is_256_tag_def ir_tag_defs outside_def is_pure_op_def nsig_def
  set_dst_def bin64_def owner_of_def caller_of_def caller_ev_def

lemma guard_runs:
  assumes "find_label prog (lbl_name l) = Some (n # rest)"
  shows "ir_iter fp ext prog 5 (Run (guard k l ln @ n # rest) env tr) =
     Some (Run (if caller_of ext tr = owner_of ext tr then n # rest else drop 5 (guard k l ln) @ n # rest)
             (guard_env ext tr k env) (tr @ [caller_ev]))"
proof -
  have five: "(5::nat) = Suc (Suc (Suc (Suc (Suc 0))))" by simp
  show ?thesis
    unfolding five guard_def
    by (simp add: next_value next_effect next_br_if guard_ops assms truth_def bool64_def guard_env_def)
qed

lemma guard_stops:
  assumes "env ''0'' = Some z"
  shows "ir_next fp ext prog (Run (drop 5 (guard k l ln) @ n # rest) (guard_env ext tr k env) t) =
     Some (Done (t @ [((IR_RET, IR_TY_VOID, [], [], 0, None), [z])]))"
  using assms by (simp add: guard_def next_ret guard_ops guard_env_def)


subsection \<open>Taint propagation, then healing\<close>

lemma healed_guarded:
  assumes "i < length ns" "bleeding (ns ! i)"
  shows "\<exists>before rest k l. healed_nodes ns k0 l0 = before @ guard k l (nd_lineno (ns ! i)) @ ns ! i # rest"
proof -
  have "ns = take i ns @ ns ! i # drop (Suc i) ns" using assms(1) by (simp add: id_take_nth_drop)
  then have "healed_nodes ns k0 l0 = healed_nodes (take i ns) k0 l0
      @ guard (k0 + 5 * wounds (take i ns)) (l0 + wounds (take i ns)) (nd_lineno (ns ! i))
      @ ns ! i # healed_nodes (drop (Suc i) ns) (k0 + 5 * wounds (take i ns) + 5) (l0 + wounds (take i ns) + 1)"
    using healed_split [of "take i ns" "ns ! i # drop (Suc i) ns" k0 l0] assms(2) by simp
  then show ?thesis by blast
qed

lemma bleeding_marked:
  "nd_vuln_tags n AND IR_VULN_STATE_WRITE \<noteq> 0 \<Longrightarrow> bleeding (n\<lparr> nd_vuln_tags := nd_vuln_tags n OR IR_VULN_PRIV_BOUNDARY \<rparr>)"
proof -
  assume a: "nd_vuln_tags n AND IR_VULN_STATE_WRITE \<noteq> 0"
  have "(t OR IR_VULN_PRIV_BOUNDARY) AND IR_VULN_STATE_WRITE = t AND IR_VULN_STATE_WRITE" for t
    by (simp add: bit.conj_disj_distrib2 vuln_bits)
  moreover have "(t OR IR_VULN_PRIV_BOUNDARY) AND IR_VULN_PRIV_BOUNDARY = IR_VULN_PRIV_BOUNDARY" for t
    by (intro bit_eqI) (auto simp: bit_simps)
  ultimately show ?thesis using a by (simp add: bleeding_def) (simp add: vuln_bits)
qed

lemma wounds_le: "wounds ns \<le> length ns"
  by (simp add: wounds_def)

text \<open>C18: After taint propagation and healing, every persistent store that writes state and whose stored
  value a host source reaches stands directly behind an owner check, otherwise unchanged.\<close>

theorem taint_then_heal_guards:
  assumes "i < length (fn_nodes fn)" and "nd_op (fn_nodes fn ! i) = IR_STORE" and "nd_tag (fn_nodes fn ! i) = TAG_SSTORE"
    and "nd_vuln_tags (fn_nodes fn ! i) AND IR_VULN_STATE_WRITE \<noteq> 0"
    and "nd_src1 (fn_nodes fn ! i) \<in> host_flows (take i (fn_nodes fn))"
    and "counters_fit fn (length (fn_nodes fn))"
  shows "\<exists>before rest k l.
    fn_nodes (fst (ir_pass_auto_heal (fst (ir_pass_taint_propagate fn)))) =
      before @ guard k l (nd_lineno (fn_nodes fn ! i))
      @ mark_boundary (fn_nodes fn ! i) # rest"
proof -
  let ?fn = "fst (ir_pass_taint_propagate fn)"
  note w = taint_walk_ok [OF taint_init_ok, of fn "fn_nodes fn"]
  have len: "length (fn_nodes ?fn) = length (fn_nodes fn)"
    using w by (simp add: ir_pass_taint_propagate_def Let_def)
  have "taints_sink (foldl host_step {} (take i (fn_nodes fn))) (fn_nodes fn ! i)"
    using assms(2,3,5) by (simp add: taints_sink_def host_flows_def)
  then have at: "fn_nodes ?fn ! i = mark_boundary (fn_nodes fn ! i)"
    using w assms(1) by (simp add: ir_pass_taint_propagate_def Let_def)
  have bl: "bleeding (fn_nodes ?fn ! i)" unfolding at mark_boundary_eq by (rule bleeding_marked [OF assms(4)])
  have "counters_fit ?fn (wounds (fn_nodes ?fn))"
    using assms(6) wounds_le [of "fn_nodes ?fn"] len
    by (auto simp: counters_fit_def ir_pass_taint_propagate_def Let_def)
  from heal_nodes(1) [OF this] show ?thesis
    using healed_guarded [of i "fn_nodes ?fn" "fn_tmp_counter ?fn" "fn_lbl_counter ?fn"] assms(1) len bl at
    by (simp add: mark_boundary_eq)
qed

subsection \<open>Concrete functions\<close>

definition wounded :: ir_node where
  "wounded = ir_node_alloc\<lparr> nd_op := IR_STORE, nd_dst := ''slot'', nd_src1 := ''t0'', nd_tag := 4, nd_vuln_tags := 24 \<rparr>"

lemma wounded_bleeds: "bleeding wounded"
  by (simp add: wounded_def bleeding_def vuln_bits)

definition wounded_fn :: ir_func where
  "wounded_fn = (ir_empty_func 1)\<lparr> fn_node_count := 1, fn_nodes := [wounded] \<rparr>"

lemma wounded_fn_simps [simp]: "fn_nodes wounded_fn = [wounded]" "fn_tmp_counter wounded_fn = 1"
  "fn_lbl_counter wounded_fn = 0" "fn_node_count wounded_fn = 1"
  by (simp_all add: wounded_fn_def ir_empty_func_def)

lemma wounded_wounds: "wounds [wounded] = 1"
  by (simp add: wounds_def wounded_bleeds)

lemma wounded_fit: "counters_fit wounded_fn (wounds (fn_nodes wounded_fn))"
  by (simp add: counters_fit_def wounded_wounds)

lemma heal_inserts_guards_witness:
  "nodes_modified (snd (ir_pass_auto_heal wounded_fn)) = 1
   \<and> fn_nodes (fst (ir_pass_auto_heal wounded_fn)) = guard 1 0 0 @ [wounded]"
  using heal_inserts_guards [OF wounded_fit] wounded_bleeds
  by (simp add: count_ok_def wounded_wounds) (simp add: wounded_def ir_node_alloc_def)


theorem taint_then_heal_guards_witness:
  "\<exists>before rest k l. fn_nodes (fst (ir_pass_auto_heal (fst (ir_pass_taint_propagate host_store)))) =
      before @ guard k l 0 @ mark_boundary (fn_nodes host_store ! 1) # rest"
  using taint_then_heal_guards [of 1 host_store]
  by (simp add: host_store_def host_flows_def host_step_def host_source_def IR_TAG_HOST_CONTEXT_def TAG_SSTORE_def
        vuln_bits counters_fit_def ir_empty_func_def ir_node_alloc_def)

end
