(* ===== verification/RegAlloc.thy ===== *)
theory RegAlloc
  imports IR
begin

text \<open>
  The register allocator \<^verbatim>\<open>regalloc.h\<close>, \<^verbatim>\<open>regalloc.c\<close>: live intervals of the temporaries, an interference
  graph, copy coalescing, simplification onto a stack and selection of colours. A pointer to an interval
  is its index. The arrays that \<^verbatim>\<open>chaitin_briggs\<close> allocates with one entry per interval are functions of
  the index, starting from the value that \<^verbatim>\<open>calloc\<close> and the loops give them; \<^verbatim>\<open>-1\<close> for no index is \<open>None\<close>.
  Chasing an alias and simplifying are loops with the number of intervals, resp. of nodes left, as fuel.
  Allocation is assumed to succeed.
\<close>

subsection \<open>Registers\<close>

datatype phys_reg = PREG_NONE | PREG_RBX | PREG_R12 | PREG_R13 | PREG_R14 | PREG_R15 | PREG_R10 | PREG_R11
  | PREG_XMM0 | PREG_XMM1 | PREG_XMM2 | PREG_XMM3 | PREG_XMM4 | PREG_XMM5 | PREG_XMM6 | PREG_XMM7

fun preg_code :: "phys_reg \<Rightarrow> int" where
  "preg_code PREG_NONE = -1"
| "preg_code PREG_RBX = 0" | "preg_code PREG_R12 = 1" | "preg_code PREG_R13 = 2" | "preg_code PREG_R14 = 3"
| "preg_code PREG_R15 = 4" | "preg_code PREG_R10 = 5" | "preg_code PREG_R11 = 6"
| "preg_code PREG_XMM0 = 7" | "preg_code PREG_XMM1 = 8" | "preg_code PREG_XMM2 = 9" | "preg_code PREG_XMM3 = 10"
| "preg_code PREG_XMM4 = 11" | "preg_code PREG_XMM5 = 12" | "preg_code PREG_XMM6 = 13" | "preg_code PREG_XMM7 = 14"

definition PREG_COUNT :: int where "PREG_COUNT = 15"

definition preg_names :: "cstr list" where
  "preg_names = [''rbx'', ''r12'', ''r13'', ''r14'', ''r15'', ''r10'', ''r11'',
     ''xmm0'', ''xmm1'', ''xmm2'', ''xmm3'', ''xmm4'', ''xmm5'', ''xmm6'', ''xmm7'']"

definition preg_name :: "int \<Rightarrow> cstr" where
  "preg_name r = (if r < 0 \<or> PREG_COUNT \<le> r then ''???'' else preg_names ! nat r)"

definition preg_callee_saved :: "int \<Rightarrow> bool" where
  "preg_callee_saved r \<longleftrightarrow> preg_code PREG_RBX \<le> r \<and> r \<le> preg_code PREG_R15"

definition gpr_colors :: "phys_reg list" where
  "gpr_colors = [PREG_RBX, PREG_R12, PREG_R13, PREG_R14, PREG_R15, PREG_R10, PREG_R11]"

definition xmm_colors :: "phys_reg list" where
  "xmm_colors = [PREG_XMM0, PREG_XMM1, PREG_XMM2, PREG_XMM3, PREG_XMM4, PREG_XMM5, PREG_XMM6, PREG_XMM7]"

subsection \<open>Intervals\<close>

definition RA_NAME_MAX :: nat where "RA_NAME_MAX = 64"

record live_interval =
  iv_name :: cstr
  iv_start :: int
  iv_end :: int
  iv_assigned :: phys_reg
  iv_float :: bool

record reg_allocator =
  ra_intervals :: "live_interval list"
  ra_cap :: int
  ra_used :: "bool list"

definition ra_create :: reg_allocator where
  "ra_create = \<lparr> ra_intervals = [], ra_cap = 0, ra_used = replicate 15 False \<rparr>"

definition is_digit :: "char \<Rightarrow> bool" where
  "is_digit c \<longleftrightarrow> 48 \<le> (of_char c :: nat) \<and> (of_char c :: nat) \<le> 57"

fun is_temp :: "cstr \<Rightarrow> bool" where
  "is_temp (a # b # c # _) \<longleftrightarrow> a = CHR ''%'' \<and> b = CHR ''t'' \<and> is_digit c"
| "is_temp _ \<longleftrightarrow> False"

fun find_from :: "live_interval list \<Rightarrow> cstr \<Rightarrow> nat \<Rightarrow> nat option" where
  "find_from [] name i = None"
| "find_from (iv # ivs) name i = (if iv_name iv = name then Some i else find_from ivs name (i + 1))"

definition find_interval :: "reg_allocator \<Rightarrow> cstr \<Rightarrow> nat option" where
  "find_interval ra name = find_from (ra_intervals ra) name 0"

definition get_or_create :: "reg_allocator \<Rightarrow> cstr \<Rightarrow> int \<Rightarrow> reg_allocator \<times> nat" where
  "get_or_create ra name pos = (case find_interval ra name of
       Some i \<Rightarrow> (ra, i)
     | None \<Rightarrow>
        (let n = length (ra_intervals ra);
             ra1 = (if ra_cap ra \<le> int n then ra\<lparr> ra_cap := (if ra_cap ra \<noteq> 0 then ra_cap ra * 2 else 64) \<rparr> else ra)
         in (ra1\<lparr> ra_intervals := ra_intervals ra1 @
               [\<lparr> iv_name = c_copy RA_NAME_MAX name, iv_start = pos, iv_end = pos, iv_assigned = PREG_NONE, iv_float = False \<rparr>] \<rparr>, n)))"

definition upd_interval :: "reg_allocator \<Rightarrow> nat \<Rightarrow> (live_interval \<Rightarrow> live_interval) \<Rightarrow> reg_allocator" where
  "upd_interval ra i f = ra\<lparr> ra_intervals := (ra_intervals ra)[i := f (ra_intervals ra ! i)] \<rparr>"

definition extend_end :: "int \<Rightarrow> live_interval \<Rightarrow> live_interval" where
  "extend_end pos iv = (if iv_end iv < pos then iv\<lparr> iv_end := pos \<rparr> else iv)"

definition touch :: "reg_allocator \<Rightarrow> cstr \<Rightarrow> int \<Rightarrow> bool \<Rightarrow> reg_allocator" where
  "touch ra name pos fl =
     (if is_temp name
      then let (ra1, i) = get_or_create ra name pos
           in upd_interval ra1 i (\<lambda>iv. extend_end pos (if fl then iv\<lparr> iv_float := True \<rparr> else iv))
      else ra)"

definition build_node :: "reg_allocator \<times> int \<Rightarrow> ir_node \<Rightarrow> reg_allocator \<times> int" where
  "build_node st n = (case st of (ra, pos) \<Rightarrow>
     let ra = touch ra (nd_dst n) pos (nd_type n = IR_TY_F32 \<or> nd_type n = IR_TY_F64);
         ra = touch ra (nd_src1 n) pos False;
         ra = touch ra (nd_src2 n) pos False
     in (ra, pos + 1))"

fun strcmp :: "cstr \<Rightarrow> cstr \<Rightarrow> int" where
  "strcmp [] [] = 0"
| "strcmp [] (b # bs) = - int (of_char b)"
| "strcmp (a # as) [] = int (of_char a)"
| "strcmp (a # as) (b # bs) = (if a = b then strcmp as bs else int (of_char a) - int (of_char b))"

definition iv_cmp_start :: "live_interval \<Rightarrow> live_interval \<Rightarrow> int" where
  "iv_cmp_start a b = (if iv_start a \<noteq> iv_start b then iv_start a - iv_start b else strcmp (iv_name a) (iv_name b))"

text \<open>\<^verbatim>\<open>qsort\<close> with a comparison that distinguishes all elements has one result.\<close>

fun insert_iv :: "live_interval \<Rightarrow> live_interval list \<Rightarrow> live_interval list" where
  "insert_iv x [] = [x]"
| "insert_iv x (y # ys) = (if iv_cmp_start x y \<le> 0 then x # y # ys else y # insert_iv x ys)"

definition sort_ivs :: "live_interval list \<Rightarrow> live_interval list" where
  "sort_ivs ivs = foldr insert_iv ivs []"

definition build_intervals :: "reg_allocator \<Rightarrow> ir_func \<Rightarrow> reg_allocator" where
  "build_intervals ra fn =
     (let ra1 = fst (foldl build_node (ra, 0) (fn_nodes fn)) in ra1\<lparr> ra_intervals := sort_ivs (ra_intervals ra1) \<rparr>)"

subsection \<open>The interference graph\<close>

record graph =
  g_adj :: "nat \<Rightarrow> nat \<Rightarrow> bool"
  g_degree :: "nat \<Rightarrow> int"
  g_removed :: "nat \<Rightarrow> bool"
  g_alias :: "nat \<Rightarrow> nat"

definition graph0 :: graph where
  "graph0 = \<lparr> g_adj = (\<lambda>_ _. False), g_degree = (\<lambda>_. 0), g_removed = (\<lambda>_. False), g_alias = (\<lambda>i. i) \<rparr>"

definition add_edge :: "graph \<Rightarrow> nat \<Rightarrow> nat \<Rightarrow> graph" where
  "add_edge g i j = g\<lparr>
     g_adj := (let a = (g_adj g)(i := (g_adj g i)(j := True)) in a(j := (a j)(i := True))),
     g_degree := (let d = (g_degree g)(i := g_degree g i + 1) in d(j := d j + 1)) \<rparr>"

definition overlap :: "live_interval \<Rightarrow> live_interval \<Rightarrow> bool" where
  "overlap a b \<longleftrightarrow> iv_start a \<le> iv_end b \<and> iv_start b \<le> iv_end a"

definition edge_step :: "live_interval list \<Rightarrow> nat \<Rightarrow> graph \<Rightarrow> nat \<Rightarrow> graph" where
  "edge_step ivs i g j =
     (if iv_float (ivs ! i) \<noteq> iv_float (ivs ! j) then g
      else if overlap (ivs ! i) (ivs ! j) then add_edge g i j else g)"

definition populate :: "live_interval list \<Rightarrow> graph" where
  "populate ivs = foldl (\<lambda>g i. foldl (edge_step ivs i) g [i + 1 ..< length ivs]) graph0 [0 ..< length ivs]"

subsection \<open>Coalescing\<close>

definition last_named :: "live_interval list \<Rightarrow> cstr \<Rightarrow> nat option" where
  "last_named ivs name = foldl (\<lambda>u i. if iv_name (ivs ! i) = name then Some i else u) None [0 ..< length ivs]"

fun root :: "nat \<Rightarrow> (nat \<Rightarrow> nat) \<Rightarrow> nat \<Rightarrow> nat" where
  "root 0 alias u = u"
| "root (Suc k) alias u = (if alias u \<noteq> u then root k alias (alias u) else u)"

definition merge_edge :: "nat \<Rightarrow> nat \<Rightarrow> graph \<Rightarrow> nat \<Rightarrow> graph" where
  "merge_edge u v g i = (if g_adj g v i \<and> \<not> g_adj g u i \<and> u \<noteq> i then add_edge g u i else g)"

definition merge :: "nat \<Rightarrow> graph \<Rightarrow> nat \<Rightarrow> nat \<Rightarrow> graph" where
  "merge N g u v =
     (let g1 = foldl (merge_edge u v) (g\<lparr> g_alias := (g_alias g)(v := u) \<rparr>) [0 ..< N]
      in g1\<lparr> g_removed := (g_removed g1)(v := True) \<rparr>)"

definition coalesce_node :: "live_interval list \<Rightarrow> graph \<Rightarrow> ir_node \<Rightarrow> graph" where
  "coalesce_node ivs g n =
     (if nd_op n = IR_COPY \<and> is_temp (nd_dst n) \<and> is_temp (nd_src1 n)
      then (case (last_named ivs (nd_dst n), last_named ivs (nd_src1 n)) of
          (Some u0, Some v0) \<Rightarrow>
            (let u = root (length ivs) (g_alias g) u0; v = root (length ivs) (g_alias g) v0
             in if u \<noteq> v \<and> iv_float (ivs ! u) = iv_float (ivs ! v) \<and> \<not> g_adj g u v
                then merge (length ivs) g u v else g)
        | _ \<Rightarrow> g)
      else g)"

definition coalesce :: "live_interval list \<Rightarrow> graph \<Rightarrow> ir_node list \<Rightarrow> graph" where
  "coalesce ivs g ns = foldl (coalesce_node ivs) g ns"

subsection \<open>Simplify and spill\<close>

definition num_colors :: "live_interval \<Rightarrow> nat" where
  "num_colors iv = (if iv_float iv then 8 else 7)"

definition pick_low :: "live_interval list \<Rightarrow> graph \<Rightarrow> nat option" where
  "pick_low ivs g = foldl (\<lambda>target i.
     if g_removed g i then target
     else if g_degree g i < int (num_colors (ivs ! i))
     then (case target of None \<Rightarrow> Some i
           | Some t \<Rightarrow> if strcmp (iv_name (ivs ! i)) (iv_name (ivs ! t)) < 0 then Some i else target)
     else target) None [0 ..< length ivs]"

definition spill_step :: "live_interval list \<Rightarrow> graph \<Rightarrow> int \<times> int \<times> nat option \<Rightarrow> nat \<Rightarrow> int \<times> int \<times> nat option" where
  "spill_step ivs g st i = (case st of (max_num, max_den, target) \<Rightarrow>
     if g_removed g i then st
     else let num = g_degree g i; den = iv_end (ivs ! i) - iv_start (ivs ! i) + 1
          in if max_num = -1 \<or> max_num * den < num * max_den then (num, den, Some i)
             else if num * max_den = max_num * den
             then (case target of None \<Rightarrow> (num, den, Some i)
                   | Some t \<Rightarrow> if strcmp (iv_name (ivs ! i)) (iv_name (ivs ! t)) < 0 then (num, den, Some i) else st)
             else st)"

definition pick_spill :: "live_interval list \<Rightarrow> graph \<Rightarrow> nat option" where
  "pick_spill ivs g = snd (snd (foldl (spill_step ivs g) (-1, 1, None) [0 ..< length ivs]))"

definition remove_node :: "nat \<Rightarrow> graph \<Rightarrow> nat \<Rightarrow> graph" where
  "remove_node N g target =
     (let g1 = g\<lparr> g_removed := (g_removed g)(target := True) \<rparr>
      in foldl (\<lambda>g j. if \<not> g_removed g j \<and> g_adj g target j
                      then g\<lparr> g_degree := (g_degree g)(j := g_degree g j - 1) \<rparr> else g) g1 [0 ..< N])"

text \<open>The head of the stack is its top; \<open>None\<close> for the target cannot happen while nodes are left.\<close>

fun simplify :: "live_interval list \<Rightarrow> nat \<Rightarrow> graph \<Rightarrow> nat list \<Rightarrow> nat list" where
  "simplify ivs 0 g stack = stack"
| "simplify ivs (Suc nodes_left) g stack =
     (case (case pick_low ivs g of None \<Rightarrow> pick_spill ivs g | t \<Rightarrow> t) of
        None \<Rightarrow> stack
      | Some target \<Rightarrow> simplify ivs nodes_left (remove_node (length ivs) g target) (target # stack))"

subsection \<open>Colours\<close>

definition used_colors :: "nat \<Rightarrow> graph \<Rightarrow> (nat \<Rightarrow> bool) \<Rightarrow> (nat \<Rightarrow> nat option) \<Rightarrow> nat \<Rightarrow> u32" where
  "used_colors N g selected color target = foldl (\<lambda>used j.
     if selected j \<and> g_adj g target j
     then (case color (g_alias g j) of None \<Rightarrow> used | Some c \<Rightarrow> used OR push_bit c 1) else used) 0 [0 ..< N]"

fun select :: "live_interval list \<Rightarrow> graph \<Rightarrow> nat list \<Rightarrow> (nat \<Rightarrow> bool) \<Rightarrow> (nat \<Rightarrow> nat option) \<Rightarrow> (nat \<Rightarrow> nat option)" where
  "select ivs g [] selected color = color"
| "select ivs g (target # stack) selected color =
     (let used = used_colors (length ivs) g selected color target;
          c = find (\<lambda>i. used AND push_bit i 1 = 0) [0 ..< num_colors (ivs ! target)]
      in select ivs g stack (selected(target := True)) (color(target := c)))"

definition assign_one :: "graph \<Rightarrow> (nat \<Rightarrow> nat option) \<Rightarrow> reg_allocator \<Rightarrow> nat \<Rightarrow> reg_allocator" where
  "assign_one g color ra i =
     (case color (root (length (ra_intervals ra)) (g_alias g) i) of
        Some c \<Rightarrow>
          (let preg = (if iv_float (ra_intervals ra ! i) then xmm_colors ! c else gpr_colors ! c);
               ra1 = upd_interval ra i (\<lambda>iv. iv\<lparr> iv_assigned := preg \<rparr>)
           in ra1\<lparr> ra_used := (ra_used ra1)[nat (preg_code preg) := True] \<rparr>)
      | None \<Rightarrow> upd_interval ra i (\<lambda>iv. iv\<lparr> iv_assigned := PREG_NONE \<rparr>))"

definition chaitin_briggs :: "reg_allocator \<Rightarrow> ir_func \<Rightarrow> reg_allocator" where
  "chaitin_briggs ra fn =
     (let ivs = ra_intervals ra; N = length ivs
      in if N \<le> 0 then ra
         else let g = coalesce ivs (populate ivs) (fn_nodes fn);
                  nodes_left = length (filter (\<lambda>i. \<not> g_removed g i) [0 ..< N]);
                  stack = simplify ivs nodes_left g [];
                  color = select ivs g stack (\<lambda>_. False) (\<lambda>_. None)
              in foldl (assign_one g color) ra [0 ..< N])"

definition ra_run :: "reg_allocator \<Rightarrow> ir_func \<Rightarrow> reg_allocator" where
  "ra_run ra fn =
     (let ra1 = build_intervals ra fn in if 0 < length (ra_intervals ra1) then chaitin_briggs ra1 fn else ra1)"

definition ra_get :: "reg_allocator \<Rightarrow> cstr \<Rightarrow> phys_reg" where
  "ra_get ra name =
     (if \<not> is_temp name then PREG_NONE
      else case find (\<lambda>iv. iv_name iv = name) (ra_intervals ra) of Some iv \<Rightarrow> iv_assigned iv | None \<Rightarrow> PREG_NONE)"

definition ra_any_callee_saved_used :: "reg_allocator \<Rightarrow> bool" where
  "ra_any_callee_saved_used ra = list_ex (\<lambda>r. ra_used ra ! r \<and> preg_callee_saved (int r)) [0 ..< 15]"

end
