(* ===== verification/RegAllocCorrect.thy ===== *)
theory RegAllocCorrect
  imports RegAlloc "HOL-Library.Multiset"
begin

text \<open>
  What the register allocator promises: two temporaries that are live at the same node never share a
  register. The parts are the live intervals of the mentions, the interference graph as the overlap
  relation, the fact that no copy is coalesced, and the colouring.
\<close>

subsection \<open>Mentions and liveness\<close>

definition mentions :: "ir_node list \<Rightarrow> (cstr \<times> int) set" where
  "mentions ns = {(t, int q) | t q. q < length ns \<and> is_temp t \<and> t \<in> {nd_dst (ns ! q), nd_src1 (ns ! q), nd_src2 (ns ! q)}}"

definition live_at :: "ir_node list \<Rightarrow> cstr \<Rightarrow> int \<Rightarrow> bool" where
  "live_at ns t p \<longleftrightarrow> (\<exists>q r. (t, q) \<in> mentions ns \<and> (t, r) \<in> mentions ns \<and> q \<le> p \<and> p \<le> r)"

definition covers :: "live_interval \<Rightarrow> int \<Rightarrow> bool" where
  "covers iv p \<longleftrightarrow> iv_start iv \<le> p \<and> p \<le> iv_end iv"

definition ivs_ok :: "live_interval list \<Rightarrow> (cstr \<times> int) set \<Rightarrow> bool" where
  "ivs_ok ivs M \<longleftrightarrow> distinct (map iv_name ivs)
     \<and> (\<forall>iv \<in> set ivs. is_temp (iv_name iv) \<and> (iv_name iv, iv_start iv) \<in> M \<and> (iv_name iv, iv_end iv) \<in> M)
     \<and> (\<forall>(t, q) \<in> M. \<exists>iv \<in> set ivs. iv_name iv = t \<and> covers iv q)"

lemma ivs_ok_D:
  assumes "ivs_ok ivs M"
  shows "distinct (map iv_name ivs)" "iv \<in> set ivs \<Longrightarrow> is_temp (iv_name iv)"
    "iv \<in> set ivs \<Longrightarrow> (iv_name iv, iv_start iv) \<in> M" "iv \<in> set ivs \<Longrightarrow> (iv_name iv, iv_end iv) \<in> M"
    "(t, q) \<in> M \<Longrightarrow> \<exists>iv \<in> set ivs. iv_name iv = t \<and> covers iv q"
  using assms unfolding ivs_ok_def by auto

lemma find_from_Some: "find_from ivs name i = Some j \<Longrightarrow> i \<le> j \<and> j < i + length ivs \<and> iv_name (ivs ! (j - i)) = name"
proof (induction ivs name i rule: find_from.induct)
  case (2 iv ivs name i)
  then show ?case by (cases "iv_name iv = name") (auto simp: nth_Cons' Suc_diff_le)
qed simp

lemma find_from_None: "find_from ivs name i = None \<longleftrightarrow> name \<notin> iv_name ` set ivs"
  by (induction ivs name i rule: find_from.induct) auto

lemma find_interval_Some: "find_interval ra name = Some j \<Longrightarrow> j < length (ra_intervals ra) \<and> iv_name (ra_intervals ra ! j) = name"
  unfolding find_interval_def by (drule find_from_Some) simp

lemma ivs_ok_update:
  assumes ok: "ivs_ok ivs M" and i: "i < length ivs" "iv_name (ivs ! i) = t" and late: "\<forall>(s, q) \<in> M. q \<le> pos"
    and x: "x = extend_end pos (if fl then (ivs ! i)\<lparr> iv_float := True \<rparr> else ivs ! i)"
  shows "ivs_ok (ivs[i := x]) (insert (t, pos) M)"
proof -
  note D = ivs_ok_D [OF ok]
  have mem: "ivs ! i \<in> set ivs" using i(1) by simp
  have name: "iv_name x = t" and start: "iv_start x = iv_start (ivs ! i)"
    using i(2) by (simp_all add: x extend_end_def)
  have fin: "iv_end x = pos" using late D(4) [OF mem] by (auto simp: x extend_end_def)
  have st: "iv_start (ivs ! i) \<le> pos" using late D(3) [OF mem] by auto
  have names: "map iv_name (ivs[i := x]) = map iv_name ivs"
    using i name by (simp add: map_update) (metis i(2) list_update_id map_update nth_map)
  show ?thesis
    unfolding ivs_ok_def names
  proof (intro conjI ballI)
    fix iv assume "iv \<in> set (ivs[i := x])"
    then consider "iv = x" | "iv \<in> set ivs" using set_update_subset_insert by fast
    then have "is_temp (iv_name iv) \<and> (iv_name iv, iv_start iv) \<in> insert (t, pos) M \<and> (iv_name iv, iv_end iv) \<in> insert (t, pos) M"
    proof cases
      case 1
      then show ?thesis using D(2) [OF mem] D(3) [OF mem] i(2) by (simp add: name start fin)
    next
      case 2
      then show ?thesis using D(2,3,4) by simp
    qed
    then show "is_temp (iv_name iv)" "(iv_name iv, iv_start iv) \<in> insert (t, pos) M" "(iv_name iv, iv_end iv) \<in> insert (t, pos) M"
      by simp_all
  next
    fix m assume m: "m \<in> insert (t, pos) M"
    obtain s q where sq: "m = (s, q)" by (cases m)
    have x_in: "x \<in> set (ivs[i := x])" using i(1) by (simp add: set_update_memI)
    show "case m of (s, q) \<Rightarrow> \<exists>iv \<in> set (ivs[i := x]). iv_name iv = s \<and> covers iv q"
    proof (cases "m = (t, pos)")
      case True
      then show ?thesis using x_in name start st fin by (auto simp: covers_def)
    next
      case False
      then have sM: "(s, q) \<in> M" using m sq by blast
      then obtain iv where iv: "iv \<in> set ivs" "iv_name iv = s" "covers iv q" using D(5) by blast
      then obtain k where k: "k < length ivs" "ivs ! k = iv" by (auto simp: in_set_conv_nth)
      show ?thesis
      proof (cases "k = i")
        case True
        have "q \<le> pos" using sM late by auto
        then have "covers x q" using iv(3) k True start fin by (simp add: covers_def)
        then show ?thesis using x_in name i(2) iv(2) k True sq by auto
      next
        case k': False
        have "iv \<in> set (ivs[i := x])" using k k' by (auto simp: in_set_conv_nth intro: exI [of _ k])
        then show ?thesis using iv sq by auto
      qed
    qed
  qed (rule D(1))
qed

lemma ivs_ok_new:
  assumes ok: "ivs_ok ivs M" and t: "is_temp t" "t \<notin> iv_name ` set ivs"
    and x: "iv_name x = t" "iv_start x = pos" "iv_end x = pos"
  shows "ivs_ok (ivs @ [x]) (insert (t, pos) M)"
  using ok t x unfolding ivs_ok_def by (auto simp: covers_def)

lemma touch_ok:
  assumes ok: "ivs_ok (ra_intervals ra) M" and late: "\<forall>(s, q) \<in> M. q \<le> pos" and fit: "length t < 64"
  shows "ivs_ok (ra_intervals (touch ra t pos fl)) (if is_temp t then insert (t, pos) M else M)"
proof (cases "is_temp t")
  case False
  then show ?thesis using ok by (simp add: touch_def)
next
  case tmp: True
  show ?thesis
  proof (cases "find_interval ra t")
    case (Some i)
    then show ?thesis
      using ivs_ok_update [OF ok _ _ late HOL.refl, of i t fl] find_interval_Some [OF Some] tmp
      by (simp add: touch_def get_or_create_def upd_interval_def)
  next
    case None
    then have new: "t \<notin> iv_name ` set (ra_intervals ra)"
      unfolding find_interval_def by (simp add: find_from_None)
    let ?x = "\<lparr> iv_name = t, iv_start = pos, iv_end = pos, iv_assigned = PREG_NONE, iv_float = fl \<rparr>"
    have "ra_intervals (touch ra t pos fl) = ra_intervals ra @ [?x]"
      using None tmp fit
      by (auto simp: touch_def get_or_create_def upd_interval_def Let_def c_copy_id RA_NAME_MAX_def extend_end_def)
    then show ?thesis using ivs_ok_new [OF ok tmp new, of ?x pos] tmp by simp
  qed
qed

definition names_fit :: "ir_node list \<Rightarrow> bool" where
  "names_fit ns \<longleftrightarrow> list_all (\<lambda>n. length (nd_dst n) < 64 \<and> length (nd_src1 n) < 64 \<and> length (nd_src2 n) < 64) ns"

lemma mentions_iff: "(t, p) \<in> mentions ns \<longleftrightarrow>
    (\<exists>q < length ns. p = int q \<and> is_temp t \<and> t \<in> {nd_dst (ns ! q), nd_src1 (ns ! q), nd_src2 (ns ! q)})"
  unfolding mentions_def by blast

lemma mentions_snoc:
  "mentions (ns @ [n]) = mentions ns \<union> {(t, int (length ns)) | t. is_temp t \<and> t \<in> {nd_dst n, nd_src1 n, nd_src2 n}}"
proof (rule set_eqI)
  fix x :: "cstr \<times> int"
  obtain t p where x: "x = (t, p)" by (cases x)
  have "(\<exists>q < length (ns @ [n]). p = int q \<and> is_temp t \<and> t \<in> {nd_dst ((ns @ [n]) ! q), nd_src1 ((ns @ [n]) ! q), nd_src2 ((ns @ [n]) ! q)})
    \<longleftrightarrow> (\<exists>q < length ns. p = int q \<and> is_temp t \<and> t \<in> {nd_dst (ns ! q), nd_src1 (ns ! q), nd_src2 (ns ! q)})
      \<or> p = int (length ns) \<and> is_temp t \<and> t \<in> {nd_dst n, nd_src1 n, nd_src2 n}"
    by (simp add: Ex_less_Suc nth_append cong: conj_cong) blast
  then show "x \<in> mentions (ns @ [n]) \<longleftrightarrow> x \<in> mentions ns \<union> {(t, int (length ns)) | t. is_temp t \<and> t \<in> {nd_dst n, nd_src1 n, nd_src2 n}}"
    unfolding x Un_iff mentions_iff by simp
qed

lemma mentions_late: "(s, q) \<in> mentions ns \<Longrightarrow> q < int (length ns)"
  by (auto simp: mentions_def)

lemma build_nodes_ok:
  "names_fit ns \<Longrightarrow> snd (foldl build_node (ra_create, 0) ns) = int (length ns)
   \<and> ivs_ok (ra_intervals (fst (foldl build_node (ra_create, 0) ns))) (mentions ns)"
proof (induction ns rule: rev_induct)
  case Nil
  then show ?case by (simp add: ra_create_def ivs_ok_def mentions_def)
next
  case (snoc n ns)
  then have ih: "snd (foldl build_node (ra_create, 0) ns) = int (length ns)"
    "ivs_ok (ra_intervals (fst (foldl build_node (ra_create, 0) ns))) (mentions ns)"
    and fit: "length (nd_dst n) < 64" "length (nd_src1 n) < 64" "length (nd_src2 n) < 64"
    by (auto simp: names_fit_def)
  obtain ra where ra: "foldl build_node (ra_create, 0) ns = (ra, int (length ns))"
    using ih(1) by (metis prod.collapse)
  let ?p = "int (length ns)"
  let ?ins = "\<lambda>t M. if is_temp t then insert (t, ?p) M else M"
  have late: "\<forall>(s, q) \<in> mentions ns. q \<le> ?p" using mentions_late by fastforce
  have l: "\<forall>(s, q) \<in> ?ins t M. q \<le> ?p" if "\<forall>(s, q) \<in> M. q \<le> ?p" for t M using that by auto
  have ok0: "ivs_ok (ra_intervals ra) (mentions ns)" using ih(2) ra by simp
  note ok1 = touch_ok [OF ok0 late fit(1)]
  note ok2 = touch_ok [OF ok1 l [OF late] fit(2)]
  note ok3 = touch_ok [OF ok2 l [OF l [OF late]] fit(3)]
  have m: "?ins (nd_src2 n) (?ins (nd_src1 n) (?ins (nd_dst n) (mentions ns))) = mentions (ns @ [n])"
    unfolding mentions_snoc by auto
  have e: "foldl build_node (ra_create, 0) (ns @ [n]) = build_node (ra, ?p) n" by (simp add: ra)
  have b: "build_node (ra, ?p) n = (touch (touch (touch ra (nd_dst n) ?p (nd_type n = IR_TY_F32 \<or> nd_type n = IR_TY_F64))
      (nd_src1 n) ?p False) (nd_src2 n) ?p False, ?p + 1)" by (simp add: build_node_def Let_def)
  show ?case unfolding e b using ok3 by (simp add: m)
qed

lemma mset_sort: "mset (sort_ivs ivs) = mset ivs"
proof -
  have "mset (insert_iv x ys) = mset (x # ys)" for x ys by (induction x ys rule: insert_iv.induct) auto
  then show ?thesis unfolding sort_ivs_def by (induction ivs) simp_all
qed

lemma ivs_ok_mset:
  assumes "mset ivs' = mset ivs" "ivs_ok ivs M"
  shows "ivs_ok ivs' M"
proof -
  have "set ivs' = set ivs" using assms(1) by (rule mset_eq_setD)
  moreover have "mset (map iv_name ivs') = mset (map iv_name ivs)" using assms(1) by simp
  then have "distinct (map iv_name ivs') = distinct (map iv_name ivs)" by (rule mset_eq_imp_distinct_iff)
  ultimately show ?thesis using assms(2) by (simp add: ivs_ok_def)
qed

lemma build_intervals_ok:
  "names_fit (fn_nodes fn) \<Longrightarrow> ivs_ok (ra_intervals (build_intervals ra_create fn)) (mentions (fn_nodes fn))"
  using build_nodes_ok [of "fn_nodes fn"] by (auto simp: build_intervals_def Let_def intro: ivs_ok_mset [OF mset_sort])

subsection \<open>The graph is the overlap relation\<close>

definition interferes :: "live_interval list \<Rightarrow> nat \<Rightarrow> nat \<Rightarrow> bool" where
  "interferes ivs a b \<longleftrightarrow> a < length ivs \<and> b < length ivs \<and> a \<noteq> b
     \<and> iv_float (ivs ! a) = iv_float (ivs ! b) \<and> overlap (ivs ! a) (ivs ! b)"

lemma interferes_sym: "interferes ivs a b \<longleftrightarrow> interferes ivs b a"
  by (auto simp: interferes_def overlap_def)

definition nbrs :: "nat \<Rightarrow> graph \<Rightarrow> nat \<Rightarrow> nat set" where
  "nbrs N g a = {b. b < N \<and> \<not> g_removed g b \<and> g_adj g a b}"

text \<open>Edges symmetric and in range, degrees of the nodes left count their neighbours left.\<close>

definition graph_ok :: "nat \<Rightarrow> graph \<Rightarrow> bool" where
  "graph_ok N g \<longleftrightarrow> (\<forall>a b. g_adj g a b \<longrightarrow> g_adj g b a \<and> a \<noteq> b \<and> a < N)
     \<and> (\<forall>a < N. \<not> g_removed g a \<longrightarrow> g_degree g a = int (card (nbrs N g a)))"

lemma add_edge_adj: "i \<noteq> j \<Longrightarrow> g_adj (add_edge g i j) a b \<longleftrightarrow> g_adj g a b \<or> a = i \<and> b = j \<or> a = j \<and> b = i"
  by (auto simp: add_edge_def Let_def)

lemma add_edge_same [simp]: "g_removed (add_edge g i j) = g_removed g" "g_alias (add_edge g i j) = g_alias g"
  by (simp_all add: add_edge_def)

lemma finite_nbrs [simp]: "finite (nbrs N g a)"
  unfolding nbrs_def by (rule finite_subset [of _ "{..<N}"]) auto

lemma add_edge_ok:
  assumes ok: "graph_ok N g" and ij: "i \<noteq> j" "i < N" "j < N" "\<not> g_adj g i j" and left: "\<forall>a. \<not> g_removed g a"
  shows "graph_ok N (add_edge g i j)"
proof -
  have adj: "g_adj g a b \<Longrightarrow> g_adj g b a \<and> a \<noteq> b \<and> a < N" for a b using ok unfolding graph_ok_def by blast
  have deg: "a < N \<Longrightarrow> g_degree g a = int (card (nbrs N g a))" for a using ok left unfolding graph_ok_def by blast
  have ji: "\<not> g_adj g j i" using adj ij(4) by blast
  have n: "nbrs N (add_edge g i j) a = (if a = i then insert j (nbrs N g i) else if a = j then insert i (nbrs N g j) else nbrs N g a)" for a
    using ij left unfolding nbrs_def by (auto simp: add_edge_adj)
  have "j \<notin> nbrs N g i" "i \<notin> nbrs N g j" using ij(4) ji by (simp_all add: nbrs_def)
  then have "a < N \<Longrightarrow> g_degree (add_edge g i j) a = int (card (nbrs N (add_edge g i j) a))" for a
    using ij(1) deg unfolding n by (simp add: add_edge_def Let_def)
  moreover have "g_adj (add_edge g i j) a b \<Longrightarrow> g_adj (add_edge g i j) b a \<and> a \<noteq> b \<and> a < N" for a b
    using adj ij(1,2,3) unfolding add_edge_adj [OF ij(1)] by blast
  ultimately show ?thesis unfolding graph_ok_def by blast
qed

lemma foldl_from_invariant:
  assumes "P m s" and "\<And>i t. m \<le> i \<Longrightarrow> i < n \<Longrightarrow> P i t \<Longrightarrow> P (Suc i) (f t i)" and "m \<le> n"
  shows "P n (foldl f s [m..<n])"
  using assms(3,2)
proof (induction n rule: dec_induct)
  case base
  then show ?case using assms(1) by simp
next
  case (step n)
  then show ?case by simp
qed

text \<open>After the pairs before \<open>(i, j)\<close> the edges are the interferences among them.\<close>

definition edges_upto :: "live_interval list \<Rightarrow> nat \<Rightarrow> nat \<Rightarrow> graph \<Rightarrow> bool" where
  "edges_upto ivs i j g \<longleftrightarrow> graph_ok (length ivs) g \<and> (\<forall>a. \<not> g_removed g a) \<and> g_alias g = (\<lambda>k. k)
     \<and> (\<forall>a b. g_adj g a b \<longleftrightarrow> interferes ivs a b \<and> (min a b < i \<or> min a b = i \<and> max a b < j))"

lemma edge_step_upto:
  assumes "edges_upto ivs i j g" "i < j" "j < length ivs"
  shows "edges_upto ivs i (Suc j) (edge_step ivs i g j)"
proof -
  have adj: "g_adj g a b \<longleftrightarrow> interferes ivs a b \<and> (min a b < i \<or> min a b = i \<and> max a b < j)" for a b
    using assms(1) unfolding edges_upto_def by blast
  have new: "min a b = i \<and> max a b = j \<longleftrightarrow> a = i \<and> b = j \<or> a = j \<and> b = i" for a b
    using assms(2) by (auto simp: min_def max_def)
  have no: "\<not> g_adj g i j" using assms(2) by (simp add: adj)
  have upto: "min a b < i \<or> min a b = i \<and> max a b < Suc j \<longleftrightarrow>
      (min a b < i \<or> min a b = i \<and> max a b < j) \<or> (a = i \<and> b = j \<or> a = j \<and> b = i)" for a b
    unfolding new [symmetric] less_Suc_eq by blast
  show ?thesis
  proof (cases "interferes ivs i j")
    case True
    then have step: "edge_step ivs i g j = add_edge g i j" by (simp add: edge_step_def interferes_def)
    have "g_adj (add_edge g i j) a b \<longleftrightarrow> interferes ivs a b \<and> (min a b < i \<or> min a b = i \<and> max a b < Suc j)" for a b
      using True interferes_sym [of ivs i j] assms(2) unfolding upto
      by (subst add_edge_adj) (auto simp: adj)
    moreover have "graph_ok (length ivs) (add_edge g i j)"
      by (rule add_edge_ok) (use assms no in \<open>auto simp: edges_upto_def\<close>)
    ultimately show ?thesis using assms(1) unfolding step edges_upto_def by simp
  next
    case False
    then have step: "edge_step ivs i g j = g" using assms(2,3) by (auto simp: edge_step_def interferes_def)
    have "interferes ivs a b \<and> (min a b < i \<or> min a b = i \<and> max a b < Suc j) \<longleftrightarrow>
        interferes ivs a b \<and> (min a b < i \<or> min a b = i \<and> max a b < j)" for a b
      using False interferes_sym [of ivs i j] unfolding upto by blast
    then show ?thesis using assms(1) unfolding step edges_upto_def by blast
  qed
qed

lemma populate_ok:
  "graph_ok (length ivs) (populate ivs)" "\<not> g_removed (populate ivs) a" "g_alias (populate ivs) = (\<lambda>k. k)"
  "g_adj (populate ivs) a b \<longleftrightarrow> interferes ivs a b"
proof -
  let ?N = "length ivs"
  have "edges_upto ivs ?N (?N + 1) (populate ivs)"
    unfolding populate_def
  proof (rule foldl_upt_invariant [where P = "\<lambda>i. edges_upto ivs i (i + 1)"])
    have "nbrs ?N graph0 a = {}" for a by (simp add: nbrs_def graph0_def)
    then show "edges_upto ivs 0 (0 + 1) graph0"
      by (auto simp: edges_upto_def graph_ok_def graph0_def interferes_def)
  next
    fix i g assume i: "i < ?N" "edges_upto ivs i (i + 1) g"
    have "edges_upto ivs i ?N (foldl (edge_step ivs i) g [i + 1..<?N])"
      by (rule foldl_from_invariant [where P = "edges_upto ivs i", OF i(2)])
         (use i(1) in \<open>auto intro: edge_step_upto\<close>)
    then show "edges_upto ivs (Suc i) (Suc i + 1) (foldl (edge_step ivs i) g [i + 1..<?N])"
      unfolding edges_upto_def by (auto simp: interferes_def min_def max_def split: if_splits)
  qed
  then show "graph_ok (length ivs) (populate ivs)" "\<not> g_removed (populate ivs) a" "g_alias (populate ivs) = (\<lambda>k. k)"
    "g_adj (populate ivs) a b \<longleftrightarrow> interferes ivs a b"
    unfolding edges_upto_def by (auto simp: interferes_def)
qed

subsection \<open>No copy is coalesced\<close>

text \<open>The intervals of both sides of a copy contain the copy's position, so they interfere.\<close>

lemma last_named_Some:
  assumes "last_named ivs name = Some i"
  shows "i < length ivs \<and> iv_name (ivs ! i) = name"
proof -
  have "(case foldl (\<lambda>u i. if iv_name (ivs ! i) = name then Some i else u) None [0..<k] of
      None \<Rightarrow> True | Some i \<Rightarrow> i < k \<and> iv_name (ivs ! i) = name)" for k
    by (induction k) (auto split: option.splits)
  from this [of "length ivs"] show ?thesis using assms by (simp add: last_named_def)
qed

lemma root_id: "root k (\<lambda>i. i) u = u"
  by (cases k) simp_all

lemma ivs_ok_at:
  assumes ok: "ivs_ok ivs M" and i: "i < length ivs" and m: "(iv_name (ivs ! i), q) \<in> M"
  shows "covers (ivs ! i) q"
proof -
  obtain iv where iv: "iv \<in> set ivs" "iv_name iv = iv_name (ivs ! i)" "covers iv q"
    using ivs_ok_D(5) [OF ok m] by blast
  then obtain k where k: "k < length ivs" "ivs ! k = iv" by (auto simp: in_set_conv_nth)
  have "map iv_name ivs ! k = map iv_name ivs ! i" using k i iv(2) by simp
  then have "k = i" using nth_eq_iff_index_eq [OF ivs_ok_D(1) [OF ok]] k(1) i by simp
  then show ?thesis using k iv(3) by simp
qed

lemma covers_overlap: "covers a p \<Longrightarrow> covers b p \<Longrightarrow> overlap a b"
  by (auto simp: covers_def overlap_def)

lemma coalesce_node_id:
  assumes ok: "ivs_ok ivs (mentions ns)" and n: "n \<in> set ns"
  shows "coalesce_node ivs (populate ivs) n = populate ivs"
proof (cases "nd_op n = IR_COPY \<and> is_temp (nd_dst n) \<and> is_temp (nd_src1 n)")
  case False
  then show ?thesis by (simp only: coalesce_node_def if_False)
next
  case copy: True
  obtain q where q: "q < length ns" "ns ! q = n" using n by (auto simp: in_set_conv_nth)
  have m: "(nd_dst n, int q) \<in> mentions ns" "(nd_src1 n, int q) \<in> mentions ns"
    using copy q unfolding mentions_iff by auto
  show ?thesis
  proof (cases "last_named ivs (nd_dst n)")
    case None
    then show ?thesis by (simp add: coalesce_node_def)
  next
    case u: (Some u)
    show ?thesis
    proof (cases "last_named ivs (nd_src1 n)")
      case None
      then show ?thesis by (simp add: coalesce_node_def split: option.split)
    next
      case v: (Some v)
      have iu: "u < length ivs" "iv_name (ivs ! u) = nd_dst n" using last_named_Some [OF u] by auto
      have iv: "v < length ivs" "iv_name (ivs ! v) = nd_src1 n" using last_named_Some [OF v] by auto
      have "overlap (ivs ! u) (ivs ! v)"
        using ivs_ok_at [OF ok iu(1)] ivs_ok_at [OF ok iv(1)] m iu(2) iv(2) by (intro covers_overlap) auto
      then have "\<not> (u \<noteq> v \<and> iv_float (ivs ! u) = iv_float (ivs ! v) \<and> \<not> g_adj (populate ivs) u v)"
        using iu(1) iv(1) by (auto simp: populate_ok(4) interferes_def)
      then show ?thesis using copy u v by (simp add: coalesce_node_def populate_ok(3) root_id Let_def del: de_Morgan_conj)
    qed
  qed
qed

lemma coalesce_id: "ivs_ok ivs (mentions ns) \<Longrightarrow> coalesce ivs (populate ivs) ns = populate ivs"
proof -
  assume ok: "ivs_ok ivs (mentions ns)"
  have "set ms \<subseteq> set ns \<Longrightarrow> foldl (coalesce_node ivs) (populate ivs) ms = populate ivs" for ms
    by (induction ms) (simp_all add: coalesce_node_id [OF ok])
  then show ?thesis by (simp add: coalesce_def)
qed

subsection \<open>Colours\<close>

definition proper :: "live_interval list \<Rightarrow> graph \<Rightarrow> (nat \<Rightarrow> bool) \<Rightarrow> (nat \<Rightarrow> nat option) \<Rightarrow> bool" where
  "proper ivs g selected color \<longleftrightarrow>
     (\<forall>i j c. selected i \<longrightarrow> selected j \<longrightarrow> g_adj g i j \<longrightarrow> color i = Some c \<longrightarrow> color j \<noteq> Some c)
     \<and> (\<forall>i c. color i = Some c \<longrightarrow> selected i \<and> c < num_colors (ivs ! i))"

lemma num_colors_le: "num_colors iv \<le> 8"
  by (simp add: num_colors_def)

lemma used_colors_bit:
  assumes "g_alias g = (\<lambda>k. k)" "\<And>j c. color j = Some c \<Longrightarrow> c < 8"
  shows "bit (used_colors N g selected color target) c \<longleftrightarrow>
    (\<exists>j < N. selected j \<and> g_adj g target j \<and> color j = Some c)"
  unfolding used_colors_def
proof (induction N)
  case (Suc N)
  have "bit (push_bit d 1 :: u32) c \<longleftrightarrow> c = d" if "d < 8" for d
    using that by (auto simp: bit_simps)
  then show ?case using Suc assms
    by (auto simp: bit_or_iff less_Suc_eq split: option.splits)
qed simp

lemma find_SomeD: "find P xs = Some x \<Longrightarrow> P x \<and> x \<in> set xs"
  by (auto simp: find_Some_iff in_set_conv_nth)

lemma free_color: "(u :: u32) AND push_bit c 1 = 0 \<longleftrightarrow> \<not> bit u c" if "c < 8"
proof -
  have "bit (u AND push_bit c 1) k \<longleftrightarrow> k = c \<and> bit u c" for k
    using that by (auto simp: bit_simps)
  then show ?thesis using that unfolding bit_eq_iff [of "u AND push_bit c 1"] by simp
qed

lemma select_step:
  assumes pr: "proper ivs g selected color" and al: "g_alias g = (\<lambda>k. k)" and ok: "graph_ok (length ivs) g"
    and t: "target < length ivs"
    and c: "c = find (\<lambda>i. used_colors (length ivs) g selected color target AND push_bit i 1 = 0) [0 ..< num_colors (ivs ! target)]"
  shows "proper ivs g (selected(target := True)) (color(target := c))"
proof -
  have adj: "g_adj g a b \<Longrightarrow> g_adj g b a \<and> a \<noteq> b \<and> a < length ivs" for a b using ok unfolding graph_ok_def by blast
  have lt: "color j = Some c \<Longrightarrow> c < 8" for j c
    using pr num_colors_le [of "ivs ! j"] unfolding proper_def by fastforce
  have sel: "color j = Some c \<Longrightarrow> selected j" for j c using pr unfolding proper_def by blast
  have new: "d < num_colors (ivs ! target) \<and> (\<forall>j. selected j \<longrightarrow> g_adj g target j \<longrightarrow> color j \<noteq> Some d)" if "c = Some d" for d
  proof -
    have d: "d < num_colors (ivs ! target)" "used_colors (length ivs) g selected color target AND push_bit d 1 = 0"
      using find_SomeD [OF that [unfolded c]] by (simp_all only: set_upt atLeastLessThan_iff)
    then have "d < 8" using num_colors_le [of "ivs ! target"] by simp
    then have "\<not> bit (used_colors (length ivs) g selected color target) d" using d(2) free_color by blast
    then have "\<not> (\<exists>j < length ivs. selected j \<and> g_adj g target j \<and> color j = Some d)"
      using used_colors_bit [where g = g and color = color and N = "length ivs" and selected = selected and target = target and c = d, OF al]
        lt by blast
    then show ?thesis using d(1) adj by blast
  qed
  show ?thesis
    unfolding proper_def
  proof (intro conjI allI impI)
    fix i j d assume a: "(selected(target := True)) i" "(selected(target := True)) j" "g_adj g i j" "(color(target := c)) i = Some d"
    have ne: "i \<noteq> j" using adj a(3) by blast
    consider "i = target" "j \<noteq> target" | "i \<noteq> target" "j = target" | "i \<noteq> target" "j \<noteq> target" using ne by blast
    then show "(color(target := c)) j \<noteq> Some d"
    proof cases
      case 1
      then show ?thesis using new [of d] a by simp
    next
      case 2
      have "c \<noteq> Some d"
      proof
        assume "c = Some d"
        then have "color i \<noteq> Some d" using new adj [OF a(3)] 2 a(1) by auto
        then show False using a(4) 2 by simp
      qed
      then show ?thesis using 2 by simp
    next
      case 3
      then have "selected i" "selected j" "color i = Some d" using a by simp_all
      then have "color j \<noteq> Some d" using pr a(3) unfolding proper_def by blast
      then show ?thesis using 3 by simp
    qed
  next
    fix i d assume "(color(target := c)) i = Some d"
    then have "i = target \<and> c = Some d \<or> i \<noteq> target \<and> color i = Some d" by (simp split: if_splits)
    moreover have "color i = Some d \<Longrightarrow> selected i \<and> d < num_colors (ivs ! i)"
      using pr unfolding proper_def by blast
    ultimately show "(selected(target := True)) i" "d < num_colors (ivs ! i)" using new [of d] by auto
  qed
qed

lemma select_proper:
  assumes "g_alias g = (\<lambda>k. k)" "graph_ok (length ivs) g"
  shows "proper ivs g selected color \<Longrightarrow> list_all (\<lambda>t. t < length ivs) stack \<Longrightarrow>
    \<exists>sel. proper ivs g sel (select ivs g stack selected color)"
proof (induction stack arbitrary: selected color)
  case (Cons t stack)
  have t: "t < length ivs" "list_all (\<lambda>t. t < length ivs) stack" using Cons.prems(2) by simp_all
  show ?case
    unfolding select.simps Let_def
    by (rule Cons.IH [OF select_step [OF Cons.prems(1) assms t(1) HOL.refl] t(2)])
qed auto

subsection \<open>The targets\<close>

lemma pick_low_Some:
  assumes "pick_low ivs g = Some t"
  shows "t < length ivs \<and> \<not> g_removed g t \<and> g_degree g t < int (num_colors (ivs ! t))"
proof -
  have "(case foldl (\<lambda>target i.
     if g_removed g i then target
     else if g_degree g i < int (num_colors (ivs ! i))
     then (case target of None \<Rightarrow> Some i
           | Some t \<Rightarrow> if strcmp (iv_name (ivs ! i)) (iv_name (ivs ! t)) < 0 then Some i else target)
     else target) None [0 ..< k] of None \<Rightarrow> True
     | Some t \<Rightarrow> t < k \<and> \<not> g_removed g t \<and> g_degree g t < int (num_colors (ivs ! t)))" for k
    by (induction k) (auto split: option.splits if_splits)
  from this [of "length ivs"] show ?thesis using assms by (simp add: pick_low_def)
qed

lemma pick_low_None:
  assumes "pick_low ivs g = None" "t < length ivs" "\<not> g_removed g t"
  shows "int (num_colors (ivs ! t)) \<le> g_degree g t"
proof -
  have "foldl (\<lambda>target i.
     if g_removed g i then target
     else if g_degree g i < int (num_colors (ivs ! i))
     then (case target of None \<Rightarrow> Some i
           | Some t \<Rightarrow> if strcmp (iv_name (ivs ! i)) (iv_name (ivs ! t)) < 0 then Some i else target)
     else target) None [0 ..< k] = None \<Longrightarrow> t < k \<Longrightarrow> int (num_colors (ivs ! t)) \<le> g_degree g t" for k
    by (induction k) (use assms(3) in \<open>auto simp: less_Suc_eq split: option.splits if_splits\<close>)
  from this [of "length ivs"] show ?thesis using assms by (simp add: pick_low_def)
qed

lemma pick_spill_Some:
  assumes "pick_spill ivs g = Some t"
  shows "t < length ivs \<and> \<not> g_removed g t"
proof -
  have "(case snd (snd (foldl (spill_step ivs g) (-1, 1, None) [0 ..< k])) of None \<Rightarrow> True
     | Some t \<Rightarrow> t < k \<and> \<not> g_removed g t)" for k
    by (induction k) (auto simp: spill_step_def Let_def split: option.splits if_splits prod.splits)
  from this [of "length ivs"] show ?thesis using assms by (simp add: pick_spill_def)
qed

lemma pick_spill_None:
  assumes "pick_spill ivs g = None" "t < length ivs"
  shows "g_removed g t"
proof -
  have "snd (snd (foldl (spill_step ivs g) (-1, 1, None) [0 ..< k])) = None \<Longrightarrow>
    fst (foldl (spill_step ivs g) (-1, 1, None) [0 ..< k]) = -1 \<and> (\<forall>t < k. g_removed g t)" for k
    by (induction k) (auto simp: spill_step_def Let_def less_Suc_eq split: option.splits if_splits prod.splits)
  from this [of "length ivs"] show ?thesis using assms by (simp add: pick_spill_def)
qed

definition pick :: "live_interval list \<Rightarrow> graph \<Rightarrow> nat option" where
  "pick ivs g = (case pick_low ivs g of None \<Rightarrow> pick_spill ivs g | t \<Rightarrow> t)"

lemma simplify_Suc:
  "simplify ivs (Suc k) g stack = (case pick ivs g of None \<Rightarrow> stack
     | Some target \<Rightarrow> simplify ivs k (remove_node (length ivs) g target) (target # stack))"
  by (simp add: pick_def)

lemma pick_Some: "pick ivs g = Some t \<Longrightarrow> t < length ivs \<and> \<not> g_removed g t"
  unfolding pick_def using pick_low_Some [of ivs g] pick_spill_Some [of ivs g] by (auto split: option.splits)

lemma simplify_range:
  "list_all (\<lambda>t. t < length ivs) stack \<Longrightarrow> list_all (\<lambda>t. t < length ivs) (simplify ivs k g stack)"
proof (induction k arbitrary: g stack)
  case (Suc k)
  then show ?case unfolding simplify_Suc using pick_Some by (auto split: option.splits)
qed simp

subsection \<open>Registers of the intervals\<close>

definition reg_of :: "bool \<Rightarrow> nat option \<Rightarrow> phys_reg" where
  "reg_of fl c = (case c of None \<Rightarrow> PREG_NONE | Some k \<Rightarrow> if fl then xmm_colors ! k else gpr_colors ! k)"

lemma reg_of_inj:
  assumes "c < num_colors iv" "d < num_colors iv'" "reg_of (iv_float iv) (Some c) = reg_of (iv_float iv') (Some d)"
  shows "iv_float iv = iv_float iv' \<and> c = d"
proof -
  have s: "\<exists>i < n. k = i \<Longrightarrow> k < (n :: nat)" for k n by blast
  have "c \<in> {0,1,2,3,4,5,6,7}" "d \<in> {0,1,2,3,4,5,6,7}"
    using assms(1,2) num_colors_le [of iv] num_colors_le [of iv'] by (auto simp: less_Suc_eq numeral_eq_Suc)
  then show ?thesis using assms
    by (cases "iv_float iv"; cases "iv_float iv'")
       (auto simp: reg_of_def gpr_colors_def xmm_colors_def num_colors_def)
qed

lemma reg_of_code:
  assumes "c < num_colors iv"
  shows "reg_of (iv_float iv) (Some c) \<noteq> PREG_NONE \<and> 0 \<le> preg_code (reg_of (iv_float iv) (Some c))
    \<and> preg_code (reg_of (iv_float iv) (Some c)) < 15"
proof -
  have "c \<in> {0,1,2,3,4,5,6,7}"
    using assms num_colors_le [of iv] by (auto simp: less_Suc_eq numeral_eq_Suc)
  then show ?thesis using assms
    by (cases "iv_float iv") (auto simp: reg_of_def gpr_colors_def xmm_colors_def num_colors_def)
qed

lemma assign_ok:
  assumes al: "g_alias g = (\<lambda>k. k)" and N: "N = length (ra_intervals ra)" and k: "k \<le> N"
    and col: "\<And>i c. color i = Some c \<Longrightarrow> c < num_colors (ra_intervals ra ! i)" and len: "length (ra_used ra) = 15"
  shows "let ra' = foldl (assign_one g color) ra [0..<k] in
     length (ra_intervals ra') = N \<and> length (ra_used ra') = 15
     \<and> (\<forall>i < N. ra_intervals ra' ! i = (if i < k
          then (ra_intervals ra ! i)\<lparr> iv_assigned := reg_of (iv_float (ra_intervals ra ! i)) (color i) \<rparr>
          else ra_intervals ra ! i))
     \<and> (\<forall>i < k. color i \<noteq> None \<longrightarrow> ra_used ra' ! nat (preg_code (reg_of (iv_float (ra_intervals ra ! i)) (color i))))"
  using k
proof (induction k)
  case 0
  then show ?case by (simp add: N len)
next
  case (Suc k)
  let ?ra = "foldl (assign_one g color) ra [0..<k]"
  have ih: "length (ra_intervals ?ra) = N" "length (ra_used ?ra) = 15"
    "\<And>i. i < N \<Longrightarrow> ra_intervals ?ra ! i = (if i < k
          then (ra_intervals ra ! i)\<lparr> iv_assigned := reg_of (iv_float (ra_intervals ra ! i)) (color i) \<rparr>
          else ra_intervals ra ! i)"
    "\<And>i. i < k \<Longrightarrow> color i \<noteq> None \<Longrightarrow> ra_used ?ra ! nat (preg_code (reg_of (iv_float (ra_intervals ra ! i)) (color i)))"
    using Suc by (simp_all add: Let_def)
  have kN: "k < N" using Suc.prems by simp
  have at: "ra_intervals ?ra ! k = ra_intervals ra ! k" using ih(3) [OF kN] by simp
  let ?r = "reg_of (iv_float (ra_intervals ra ! k)) (color k)"
  have one: "assign_one g color ?ra k = ?ra\<lparr>
      ra_intervals := (ra_intervals ?ra)[k := (ra_intervals ra ! k)\<lparr> iv_assigned := ?r \<rparr>],
      ra_used := (if color k = None then ra_used ?ra else (ra_used ?ra)[nat (preg_code ?r) := True]) \<rparr>"
    by (cases "color k") (simp_all add: assign_one_def al root_id at reg_of_def upd_interval_def Let_def)
  have code: "color k \<noteq> None \<Longrightarrow> nat (preg_code ?r) < 15"
    using col [of k] reg_of_code [of _ "ra_intervals ra ! k"] by force
  have step: "foldl (assign_one g color) ra [0..<Suc k] = assign_one g color ?ra k" by simp
  show ?case
    unfolding step Let_def
  proof (intro conjI allI impI)
    show "length (ra_intervals (assign_one g color ?ra k)) = N" "length (ra_used (assign_one g color ?ra k)) = 15"
      by (simp_all add: one ih(1,2))
  next
    fix i assume i: "i < N"
    show "ra_intervals (assign_one g color ?ra k) ! i = (if i < Suc k
          then (ra_intervals ra ! i)\<lparr> iv_assigned := reg_of (iv_float (ra_intervals ra ! i)) (color i) \<rparr>
          else ra_intervals ra ! i)"
    proof (cases "i = k")
      case True
      then show ?thesis using i by (simp add: one ih(1))
    next
      case False
      then show ?thesis using ih(3) [OF i] by (simp add: one less_Suc_eq)
    qed
  next
    fix i assume i: "i < Suc k" "color i \<noteq> None"
    show "ra_used (assign_one g color ?ra k) ! nat (preg_code (reg_of (iv_float (ra_intervals ra ! i)) (color i)))"
    proof (cases "i = k")
      case True
      then have "color k \<noteq> None" using i(2) by simp
      then show ?thesis using code ih(2) unfolding True by (simp add: one if_not_P)
    next
      case False
      then have "ra_used ?ra ! nat (preg_code (reg_of (iv_float (ra_intervals ra ! i)) (color i)))" using ih(4) i by simp
      then show ?thesis using code ih(2)
        by (cases "color k"; cases "nat (preg_code (reg_of (iv_float (ra_intervals ra ! i)) (color i))) = nat (preg_code ?r)")
           (simp_all add: one)
    qed
  qed
qed

subsection \<open>The allocation\<close>

definition ra_stack :: "live_interval list \<Rightarrow> nat list" where
  "ra_stack ivs = simplify ivs (length ivs) (populate ivs) []"

definition ra_color :: "live_interval list \<Rightarrow> nat \<Rightarrow> nat option" where
  "ra_color ivs = select ivs (populate ivs) (ra_stack ivs) (\<lambda>_. False) (\<lambda>_. None)"

lemma ra_color_proper: "\<exists>sel. proper ivs (populate ivs) sel (ra_color ivs)"
  unfolding ra_color_def ra_stack_def
  by (rule select_proper) (simp_all add: populate_ok simplify_range ext proper_def)

lemma ra_color_less: "ra_color ivs i = Some c \<Longrightarrow> c < num_colors (ivs ! i)"
  using ra_color_proper [of ivs] unfolding proper_def by blast

lemma ra_color_differs:
  "interferes ivs i j \<Longrightarrow> ra_color ivs i = Some c \<Longrightarrow> ra_color ivs j \<noteq> Some c"
proof
  assume a: "interferes ivs i j" "ra_color ivs i = Some c" "ra_color ivs j = Some c"
  obtain sel where p: "proper ivs (populate ivs) sel (ra_color ivs)" using ra_color_proper by blast
  then have "sel i" "sel j" using a(2,3) unfolding proper_def by blast+
  moreover have "g_adj (populate ivs) i j" using a(1) by (simp add: populate_ok)
  ultimately show False using p a(2,3) unfolding proper_def by blast
qed

lemma chaitin_briggs_eq:
  assumes "ivs_ok (ra_intervals ra) (mentions (fn_nodes fn))"
  shows "chaitin_briggs ra fn =
     (if ra_intervals ra = [] then ra
      else foldl (assign_one (populate (ra_intervals ra)) (ra_color (ra_intervals ra))) ra [0 ..< length (ra_intervals ra)])"
  by (simp add: chaitin_briggs_def coalesce_id [OF assms] populate_ok(2) ra_color_def ra_stack_def Let_def)

text \<open>What a run leaves: the built intervals with their registers.\<close>

lemma ra_run_intervals:
  assumes fit: "names_fit (fn_nodes fn)"
  defines "ivs \<equiv> ra_intervals (build_intervals ra_create fn)"
  shows "ra_intervals (ra_run ra_create fn) =
      map (\<lambda>i. (ivs ! i)\<lparr> iv_assigned := reg_of (iv_float (ivs ! i)) (ra_color ivs i) \<rparr>) [0..<length ivs]
    \<and> (\<forall>i < length ivs. ra_color ivs i \<noteq> None \<longrightarrow>
         ra_used (ra_run ra_create fn) ! nat (preg_code (reg_of (iv_float (ivs ! i)) (ra_color ivs i))))"
proof (cases "ivs = []")
  case True
  then show ?thesis by (simp add: ra_run_def Let_def ivs_def)
next
  case False
  let ?ra = "build_intervals ra_create fn"
  let ?out = "foldl (assign_one (populate ivs) (ra_color ivs)) ?ra [0..<length ivs]"
  have ok: "ivs_ok ivs (mentions (fn_nodes fn))" unfolding ivs_def by (rule build_intervals_ok [OF fit])
  have run: "ra_run ra_create fn = ?out"
    using False chaitin_briggs_eq [of ?ra fn] ok by (simp add: ra_run_def Let_def ivs_def)
  have used: "length (ra_used (touch ra t pos fl)) = length (ra_used ra)" for ra t pos fl
    by (auto simp: touch_def get_or_create_def upd_interval_def Let_def split: option.splits prod.splits)
  have one: "length (ra_used (fst (build_node st n))) = length (ra_used (fst st))" for st n
    by (cases st) (simp add: build_node_def Let_def used)
  have "length (ra_used (fst (foldl build_node st ns))) = length (ra_used (fst st))" for st ns
    by (induction ns arbitrary: st) (simp_all add: one)
  then have "length (ra_used (fst (foldl build_node (ra_create, 0) ns))) = 15" for ns
    by (simp add: ra_create_def)
  then have len: "length (ra_used ?ra) = 15" by (simp add: build_intervals_def Let_def)
  have al: "g_alias (populate ivs) = (\<lambda>k. k)" by (rule populate_ok(3))
  have N: "length ivs = length (ra_intervals ?ra)" by (simp add: ivs_def)
  have col: "\<And>i c. ra_color ivs i = Some c \<Longrightarrow> c < num_colors (ra_intervals ?ra ! i)"
    using ra_color_less [of ivs] by (simp add: ivs_def)
  note a = assign_ok [where k = "length ivs" and color = "ra_color ivs", OF al N le_refl col len, unfolded Let_def]
  have ivs: "ra_intervals ?ra = ivs" by (simp add: ivs_def)
  have "ra_intervals ?out = map (\<lambda>i. (ivs ! i)\<lparr> iv_assigned := reg_of (iv_float (ivs ! i)) (ra_color ivs i) \<rparr>) [0..<length ivs]"
    by (rule nth_equalityI) (use a in \<open>simp_all add: ivs\<close>)
  then show ?thesis using a by (simp add: run ivs)
qed

text \<open>The query finds the register of a temporary's interval.\<close>

lemma ra_get_interval:
  assumes fit: "names_fit (fn_nodes fn)" and m: "(t, p) \<in> mentions (fn_nodes fn)"
  defines "ivs \<equiv> ra_intervals (build_intervals ra_create fn)"
  obtains i where "i < length ivs" "iv_name (ivs ! i) = t"
    "ra_get (ra_run ra_create fn) t = reg_of (iv_float (ivs ! i)) (ra_color ivs i)"
    "\<forall>q. live_at (fn_nodes fn) t q \<longrightarrow> covers (ivs ! i) q"
proof -
  have ok: "ivs_ok ivs (mentions (fn_nodes fn))" unfolding ivs_def by (rule build_intervals_ok [OF fit])
  obtain iv where "iv \<in> set ivs" "iv_name iv = t" using ivs_ok_D(5) [OF ok m] by blast
  then obtain i where i: "i < length ivs" "iv_name (ivs ! i) = t" by (auto simp: in_set_conv_nth)
  have tmp: "is_temp t" using m by (auto simp: mentions_def)
  let ?out = "ra_intervals (ra_run ra_create fn)"
  have out: "?out = map (\<lambda>i. (ivs ! i)\<lparr> iv_assigned := reg_of (iv_float (ivs ! i)) (ra_color ivs i) \<rparr>) [0..<length ivs]"
    unfolding ivs_def using ra_run_intervals [OF fit] by blast
  have uniq: "j = i" if "j < length ivs" "iv_name (ivs ! j) = t" for j
    using nth_eq_iff_index_eq [OF ivs_ok_D(1) [OF ok], of j i] that i by simp
  have "find (\<lambda>iv. iv_name iv = t) ?out = Some (?out ! i)"
    unfolding find_Some_iff
  proof (intro exI [of _ i] conjI allI impI)
    fix j assume "j < i"
    then show "iv_name (?out ! j) \<noteq> t" using uniq [of j] i(1) by (auto simp: out)
  qed (use i in \<open>simp_all add: out\<close>)
  then have get: "ra_get (ra_run ra_create fn) t = reg_of (iv_float (ivs ! i)) (ra_color ivs i)"
    using tmp i(1) by (simp add: ra_get_def out)
  have cov: "covers (ivs ! i) q" if live: "live_at (fn_nodes fn) t q" for q
  proof -
    obtain a b where ab: "(t, a) \<in> mentions (fn_nodes fn)" "(t, b) \<in> mentions (fn_nodes fn)" "a \<le> q" "q \<le> b"
      using live unfolding live_at_def by blast
    have "covers (ivs ! i) a" "covers (ivs ! i) b" using ivs_ok_at [OF ok i(1)] ab(1,2) i(2) by auto
    then show ?thesis using ab(3,4) by (simp add: covers_def)
  qed
  show ?thesis by (rule that [OF i get]) (use cov in blast)
qed


subsection \<open>A concrete function\<close>

definition ra_node :: "ir_op \<Rightarrow> cstr \<Rightarrow> cstr \<Rightarrow> cstr \<Rightarrow> ir_node" where
  "ra_node op dst src1 src2 = ir_node_alloc\<lparr> nd_op := op, nd_type := IR_TY_I64, nd_dst := dst, nd_src1 := src1, nd_src2 := src2 \<rparr>"

definition ra_demo :: ir_func where
  "ra_demo = (ir_empty_func 0)\<lparr> fn_nodes :=
     [ra_node IR_CONST ''%t0'' [] [], ra_node IR_CONST ''%t1'' [] [], ra_node IR_ADD ''%t2'' ''%t0'' ''%t1''] \<rparr>"

lemma ra_demo_nodes: "fn_nodes ra_demo =
    [ra_node IR_CONST ''%t0'' [] [], ra_node IR_CONST ''%t1'' [] [], ra_node IR_ADD ''%t2'' ''%t0'' ''%t1'']"
  by (simp add: ra_demo_def)

lemma ra_demo_fit: "names_fit (fn_nodes ra_demo)"
  by (simp add: ra_demo_nodes names_fit_def ra_node_def ir_node_alloc_def)

lemma ra_demo_mentions: "mentions (fn_nodes ra_demo) = {(''%t0'', 0), (''%t1'', 1), (''%t2'', 2), (''%t0'', 2), (''%t1'', 2)}"
proof -
  have nil: "mentions [] = {}" by (simp add: mentions_def)
  have split: "[a, b, c] = (([] @ [a]) @ [b]) @ [c]" for a b c :: ir_node by simp
  show ?thesis unfolding ra_demo_nodes split mentions_snoc nil
    by (auto simp: ra_node_def ir_node_alloc_def is_digit_def)
qed

lemma ra_demo_live: "live_at (fn_nodes ra_demo) ''%t0'' 1" "live_at (fn_nodes ra_demo) ''%t1'' 1"
  unfolding live_at_def ra_demo_mentions
  by (rule exI [of _ 0], rule exI [of _ 2], simp) (rule exI [of _ 1], rule exI [of _ 2], simp)

lemma ra_demo_assigned: "ra_get (ra_run ra_create ra_demo) ''%t0'' \<noteq> PREG_NONE"
  by code_simp


end
