(* ===== verification/RegAllocSpill.thy ===== *)
theory RegAllocSpill
  imports RegAllocCorrect
begin

text \<open>
  When registers suffice, nothing is spilled: if at most seven temporaries are live at every node, every
  temporary gets a register. Among any intervals the one that ends first has only neighbours that cover
  its end, so simplification always finds a node of low degree, and selection always finds a free colour.
\<close>

subsection \<open>Removing a node\<close>

lemma remove_node_eq:
  "remove_node N g t = g\<lparr> g_removed := (g_removed g)(t := True),
     g_degree := (\<lambda>j. if j < N \<and> j \<noteq> t \<and> \<not> g_removed g j \<and> g_adj g t j then g_degree g j - 1 else g_degree g j) \<rparr>"
proof -
  let ?g = "g\<lparr> g_removed := (g_removed g)(t := True) \<rparr>"
  define D where "D k = (\<lambda>j. if j < k \<and> j \<noteq> t \<and> \<not> g_removed g j \<and> g_adj g t j then g_degree g j - 1 else g_degree g j)" for k
  have Suc: "D (Suc k) = (if k \<noteq> t \<and> \<not> g_removed g k \<and> g_adj g t k then (D k)(k := D k k - 1) else D k)" for k
    by (rule ext) (auto simp: D_def less_Suc_eq)
  have "D 0 = g_degree g" by (rule ext) (simp add: D_def)
  then have "foldl (\<lambda>g j. if \<not> g_removed g j \<and> g_adj g t j then g\<lparr> g_degree := (g_degree g)(j := g_degree g j - 1) \<rparr> else g) ?g [0 ..< k]
     = ?g\<lparr> g_degree := D k \<rparr>" for k
    by (induction k) (simp_all add: Suc)
  from this [of N] show ?thesis by (simp add: remove_node_def Let_def D_def)
qed

lemma remove_node_ok:
  assumes ok: "graph_ok N g" and t: "t < N" "\<not> g_removed g t"
  shows "graph_ok N (remove_node N g t)"
proof -
  let ?g = "remove_node N g t"
  have adj: "g_adj g a b \<Longrightarrow> g_adj g b a \<and> a \<noteq> b \<and> a < N" for a b using ok unfolding graph_ok_def by blast
  have deg: "a < N \<Longrightarrow> \<not> g_removed g a \<Longrightarrow> g_degree g a = int (card (nbrs N g a))" for a
    using ok unfolding graph_ok_def by blast
  have "g_degree ?g a = int (card (nbrs N ?g a))" if a: "a < N" "\<not> g_removed ?g a" for a
  proof -
    have ra: "\<not> g_removed g a" "a \<noteq> t" using a(2) by (simp_all add: remove_node_eq split: if_splits)
    have n: "nbrs N ?g a = nbrs N g a - {t}" by (auto simp: nbrs_def remove_node_eq)
    have mem: "t \<in> nbrs N g a \<longleftrightarrow> g_adj g t a" using adj t by (auto simp: nbrs_def)
    show ?thesis
    proof (cases "g_adj g t a")
      case True
      then have "0 < card (nbrs N g a)" using mem by (auto simp: card_gt_0_iff)
      moreover have "g_degree ?g a = g_degree g a - 1" using True a(1) ra by (simp add: remove_node_eq)
      ultimately show ?thesis unfolding n using True mem deg [OF a(1) ra(1)]
        by (simp add: card_Diff_singleton of_nat_diff)
    next
      case False
      moreover have "g_degree ?g a = g_degree g a" using False by (simp add: remove_node_eq)
      ultimately show ?thesis unfolding n using mem deg [OF a(1) ra(1)] by simp
    qed
  qed
  moreover have "g_adj ?g a b \<Longrightarrow> g_adj ?g b a \<and> a \<noteq> b \<and> a < N" for a b
    using adj by (simp add: remove_node_eq)
  ultimately show ?thesis unfolding graph_ok_def by blast
qed

subsection \<open>Simplification never spills\<close>

definition left :: "nat \<Rightarrow> graph \<Rightarrow> nat set" where
  "left N g = {i. i < N \<and> \<not> g_removed g i}"

lemma finite_left [simp]: "finite (left N g)"
  unfolding left_def by simp

lemma left_remove: "left N (remove_node N g t) = left N g - {t}"
  by (auto simp: left_def remove_node_eq)

definition pressure_ok :: "live_interval list \<Rightarrow> bool" where
  "pressure_ok ivs \<longleftrightarrow> (\<forall>p. card {i. i < length ivs \<and> covers (ivs ! i) p} \<le> 7)"

lemma low_degree:
  assumes pr: "pressure_ok ivs" and wf: "\<forall>iv \<in> set ivs. iv_start iv \<le> iv_end iv" and S: "S \<subseteq> {..<length ivs}" "S \<noteq> {}"
  shows "\<exists>i \<in> S. card {b \<in> S. interferes ivs i b} < 7"
proof -
  have fin: "finite S" using S(1) finite_subset by blast
  obtain i where i: "i \<in> S" "\<forall>j \<in> S. iv_end (ivs ! i) \<le> iv_end (ivs ! j)"
    using ex_min_if_finite [of "(\<lambda>i. iv_end (ivs ! i)) ` S"] fin S(2) by (auto simp: not_less)
  let ?p = "iv_end (ivs ! i)" and ?B = "{b \<in> S. interferes ivs i b}"
  let ?C = "{k. k < length ivs \<and> covers (ivs ! k) ?p}"
  have "covers (ivs ! i) ?p" using wf S(1) i(1) by (auto simp: covers_def)
  then have "insert i ?B \<subseteq> ?C"
    using S(1) i by (auto simp: interferes_def overlap_def covers_def)
  then have "card (insert i ?B) \<le> card ?C" by (intro card_mono) simp_all
  moreover have "card (insert i ?B) = Suc (card ?B)" using fin by (intro card_insert_disjoint) (simp_all add: interferes_def)
  moreover have "card ?C \<le> 7" using pr by (simp add: pressure_ok_def)
  ultimately have "card ?B < 7" by linarith
  then show ?thesis using i(1) by blast
qed

text \<open>In the stack, a node has fewer neighbours among the nodes above it than there are colours.\<close>

fun low_stack :: "live_interval list \<Rightarrow> nat set \<Rightarrow> nat list \<Rightarrow> bool" where
  "low_stack ivs up [] \<longleftrightarrow> True"
| "low_stack ivs up (t # ts) \<longleftrightarrow> card {b \<in> up. interferes ivs t b} < num_colors (ivs ! t) \<and> low_stack ivs (insert t up) ts"

lemma low_stack_append:
  "low_stack ivs up (xs @ ys) \<longleftrightarrow> low_stack ivs up xs \<and> low_stack ivs (up \<union> set xs) ys"
  by (induction xs arbitrary: up) simp_all

lemma pick_low_degree:
  assumes pr: "pressure_ok ivs" and wf: "\<forall>iv \<in> set ivs. iv_start iv \<le> iv_end iv"
    and ok: "graph_ok (length ivs) g" and adj: "\<forall>a b. g_adj g a b \<longleftrightarrow> interferes ivs a b"
    and ne: "left (length ivs) g \<noteq> {}"
  obtains t where "pick ivs g = Some t" "t \<in> left (length ivs) g" "card {b \<in> left (length ivs) g. interferes ivs t b} < num_colors (ivs ! t)"
proof -
  let ?L = "left (length ivs) g"
  have nb: "nbrs (length ivs) g i = {b \<in> ?L. interferes ivs i b}" for i
    by (auto simp: nbrs_def left_def adj)
  have deg: "i \<in> ?L \<Longrightarrow> g_degree g i = int (card {b \<in> ?L. interferes ivs i b})" for i
    using ok unfolding nb [symmetric] by (simp add: graph_ok_def left_def)
  have "?L \<subseteq> {..<length ivs}" by (auto simp: left_def)
  then obtain i where i: "i \<in> ?L" "card {b \<in> ?L. interferes ivs i b} < 7" using low_degree [OF pr wf _ ne] by blast
  have "pick_low ivs g \<noteq> None"
  proof
    assume "pick_low ivs g = None"
    then have "int (num_colors (ivs ! i)) \<le> g_degree g i" using i(1) by (intro pick_low_None) (auto simp: left_def)
    then show False using i deg by (simp add: num_colors_def split: if_splits)
  qed
  then obtain t where t: "pick_low ivs g = Some t" by blast
  have tl: "t \<in> ?L" "g_degree g t < int (num_colors (ivs ! t))" using pick_low_Some [OF t] by (auto simp: left_def)
  show ?thesis
  proof (rule that [of t])
    show "pick ivs g = Some t" using t by (simp add: pick_def)
    show "t \<in> ?L" by (rule tl(1))
    show "card {b \<in> ?L. interferes ivs t b} < num_colors (ivs ! t)" using tl(2) deg [OF tl(1)] by simp
  qed
qed

lemma simplify_low:
  assumes pr: "pressure_ok ivs" and wf: "\<forall>iv \<in> set ivs. iv_start iv \<le> iv_end iv"
  shows "graph_ok (length ivs) g \<Longrightarrow> \<forall>a b. g_adj g a b \<longleftrightarrow> interferes ivs a b \<Longrightarrow> card (left (length ivs) g) = k \<Longrightarrow>
    \<exists>new. simplify ivs k g stack = new @ stack \<and> set new = left (length ivs) g \<and> low_stack ivs {} new"
proof (induction k arbitrary: g stack)
  case 0
  then show ?case by simp
next
  case (Suc k)
  let ?N = "length ivs"
  have ne: "left ?N g \<noteq> {}" using Suc.prems(3) by auto
  obtain t where t: "pick ivs g = Some t" "t \<in> left ?N g" "card {b \<in> left ?N g. interferes ivs t b} < num_colors (ivs ! t)"
    by (rule pick_low_degree [OF pr wf Suc.prems(1,2) ne])
  let ?g = "remove_node ?N g t"
  have 1: "graph_ok ?N ?g" by (rule remove_node_ok [OF Suc.prems(1)]) (use t(2) in \<open>simp_all add: left_def\<close>)
  have 2: "\<forall>a b. g_adj ?g a b \<longleftrightarrow> interferes ivs a b" using Suc.prems(2) by (simp add: remove_node_eq)
  have 3: "card (left ?N ?g) = k" using Suc.prems(3) t(2) by (simp add: left_remove)
  obtain new where new: "simplify ivs k ?g (t # stack) = new @ t # stack" "set new = left ?N ?g" "low_stack ivs {} new"
    using Suc.IH [OF 1 2 3] by blast
  have "card {b \<in> set new. interferes ivs t b} \<le> card {b \<in> left ?N g. interferes ivs t b}"
    by (rule card_mono) (auto simp: new(2) left_remove)
  then have "low_stack ivs {} (new @ [t])" using new(3) t(3) by (simp add: low_stack_append)
  moreover have "set (new @ [t]) = left ?N g" using t(2) by (auto simp: new(2) left_remove)
  moreover have "simplify ivs (Suc k) g stack = (new @ [t]) @ stack" unfolding simplify_Suc t(1) by (simp add: new(1))
  ultimately show ?case by blast
qed

subsection \<open>Selection finds a colour\<close>

lemma find_free:
  assumes al: "g_alias g = (\<lambda>k. k)" and adj: "\<forall>a b. g_adj g a b \<longleftrightarrow> interferes ivs a b"
    and lt: "\<forall>j c. color j = Some c \<longrightarrow> c < 8" and up: "finite up"
    and few: "card {b \<in> up. interferes ivs t b} < num_colors (ivs ! t)"
  shows "find (\<lambda>i. used_colors (length ivs) g (\<lambda>j. j \<in> up) color t AND push_bit i 1 = 0) [0 ..< num_colors (ivs ! t)] \<noteq> None"
proof
  let ?K = "num_colors (ivs ! t)" and ?u = "used_colors (length ivs) g (\<lambda>j. j \<in> up) color t"
  assume none: "find (\<lambda>i. ?u AND push_bit i 1 = 0) [0 ..< ?K] = None"
  let ?B = "{b \<in> up. interferes ivs t b}"
  have "{..<?K} \<subseteq> (\<lambda>j. the (color j)) ` ?B"
  proof
    fix c assume c: "c \<in> {..<?K}"
    then have c8: "c < 8" using num_colors_le [of "ivs ! t"] by simp
    have "?u AND push_bit c 1 \<noteq> 0" using none c unfolding find_None_iff by (simp only: set_upt atLeastLessThan_iff lessThan_iff) blast
    then have "bit ?u c" using free_color [OF c8] by blast
    then have "\<exists>j < length ivs. j \<in> up \<and> g_adj g t j \<and> color j = Some c"
      using used_colors_bit [where g = g and color = color and N = "length ivs" and selected = "\<lambda>j. j \<in> up" and target = t and c = c, OF al] lt by blast
    then obtain j where "j \<in> ?B" "color j = Some c" using adj by blast
    then show "c \<in> (\<lambda>j. the (color j)) ` ?B" by (intro image_eqI [of _ _ j]) simp_all
  qed
  then have "card {..<?K} \<le> card ((\<lambda>j. the (color j)) ` ?B)" using up by (intro card_mono) simp_all
  also have "\<dots> \<le> card ?B" using up by (intro card_image_le) simp
  finally show False using few by simp
qed

lemma select_total:
  assumes al: "g_alias g = (\<lambda>k. k)" and adj: "\<forall>a b. g_adj g a b \<longleftrightarrow> interferes ivs a b"
  shows "\<forall>j c. color j = Some c \<longrightarrow> c < 8 \<Longrightarrow> \<forall>j \<in> up. color j \<noteq> None \<Longrightarrow> finite up \<Longrightarrow> low_stack ivs up stack \<Longrightarrow>
    \<forall>j \<in> up \<union> set stack. select ivs g stack (\<lambda>j. j \<in> up) color j \<noteq> None"
proof (induction stack arbitrary: up color)
  case Nil
  then show ?case by simp
next
  case (Cons t stack)
  let ?c = "find (\<lambda>i. used_colors (length ivs) g (\<lambda>j. j \<in> up) color t AND push_bit i 1 = 0) [0 ..< num_colors (ivs ! t)]"
  have few: "card {b \<in> up. interferes ivs t b} < num_colors (ivs ! t)" "low_stack ivs (insert t up) stack"
    using Cons.prems(4) by simp_all
  have some: "?c \<noteq> None" by (rule find_free [OF al adj Cons.prems(1,3) few(1)])
  have c8: "d < 8" if "?c = Some d" for d
    using find_SomeD [OF that] num_colors_le [of "ivs ! t"] by (simp only: set_upt atLeastLessThan_iff) linarith
  have "\<forall>j c. (color(t := ?c)) j = Some c \<longrightarrow> c < 8" using Cons.prems(1) c8 by (simp only: fun_upd_apply split: if_splits) blast
  moreover have "\<forall>j \<in> insert t up. (color(t := ?c)) j \<noteq> None" using Cons.prems(2) some by (simp only: fun_upd_apply split: if_splits) blast
  moreover have "finite (insert t up)" using Cons.prems(3) by simp
  ultimately have "\<forall>j \<in> insert t up \<union> set stack. select ivs g stack (\<lambda>j. j \<in> insert t up) (color(t := ?c)) j \<noteq> None"
    using few(2) by (rule Cons.IH)
  moreover have "(\<lambda>j. j \<in> insert t up) = (\<lambda>j. j \<in> up)(t := True)" by (simp add: fun_eq_iff)
  ultimately show ?case unfolding select.simps Let_def by simp
qed

subsection \<open>Every temporary gets a register\<close>

definition low_pressure :: "ir_node list \<Rightarrow> bool" where
  "low_pressure ns \<longleftrightarrow> (\<forall>p < length ns. card {t. live_at ns t (int p)} \<le> 7)"

lemma live_finite: "finite {t. live_at ns t p}"
proof (rule finite_subset)
  show "{t. live_at ns t p} \<subseteq> (\<Union>n \<in> set ns. {nd_dst n, nd_src1 n, nd_src2 n})"
  proof
    fix t assume "t \<in> {t. live_at ns t p}"
    then obtain q where q: "q < length ns" "t \<in> {nd_dst (ns ! q), nd_src1 (ns ! q), nd_src2 (ns ! q)}"
      unfolding live_at_def mentions_iff by blast
    show "t \<in> (\<Union>n \<in> set ns. {nd_dst n, nd_src1 n, nd_src2 n})" using nth_mem [OF q(1)] q(2) by blast
  qed
qed simp

lemma live_range: "live_at ns t p \<Longrightarrow> 0 \<le> p \<and> p < int (length ns)"
  by (auto simp: live_at_def mentions_iff)

lemma ivs_wf:
  assumes ok: "ivs_ok ivs M" and iv: "iv \<in> set ivs"
  shows "iv_start iv \<le> iv_end iv"
proof -
  obtain i where i: "i < length ivs" "ivs ! i = iv" using iv by (auto simp: in_set_conv_nth)
  have "covers (ivs ! i) (iv_start iv)" "covers (ivs ! i) (iv_end iv)"
    using ivs_ok_at [OF ok i(1)] ivs_ok_D(3,4) [OF ok iv] i(2) by auto
  then show ?thesis by (simp add: covers_def i(2))
qed

lemma pressure_from_live:
  assumes ok: "ivs_ok ivs (mentions ns)" and low: "low_pressure ns"
  shows "pressure_ok ivs"
  unfolding pressure_ok_def
proof
  fix p
  let ?I = "{i. i < length ivs \<and> covers (ivs ! i) p}"
  have live: "live_at ns (iv_name (ivs ! i)) p" if "i \<in> ?I" for i
    using that ivs_ok_D(3,4) [OF ok, of "ivs ! i"] by (auto simp: live_at_def covers_def)
  have inj: "inj_on (\<lambda>i. iv_name (ivs ! i)) ?I"
    using nth_eq_iff_index_eq [OF ivs_ok_D(1) [OF ok]] by (intro inj_onI) simp
  show "card ?I \<le> 7"
  proof (cases "?I = {}")
    case False
    then obtain i where "i \<in> ?I" by blast
    then have "0 \<le> p" "p < int (length ns)" using live_range live by blast+
    then have "card {t. live_at ns t p} \<le> 7" using low [unfolded low_pressure_def, rule_format, of "nat p"] by simp
    moreover have "card ?I \<le> card {t. live_at ns t p}"
      using inj live live_finite by (intro card_inj_on_le [of "\<lambda>i. iv_name (ivs ! i)"]) auto
    ultimately show ?thesis by simp
  next
    case True
    show ?thesis unfolding True by (simp only: card.empty zero_le)
  qed
qed

lemma ra_color_total:
  assumes pr: "pressure_ok ivs" and wf: "\<forall>iv \<in> set ivs. iv_start iv \<le> iv_end iv" and i: "i < length ivs"
  shows "ra_color ivs i \<noteq> None"
proof -
  have l: "left (length ivs) (populate ivs) = {..<length ivs}" by (auto simp: left_def populate_ok(2))
  obtain new where new: "ra_stack ivs = new" "set new = {..<length ivs}" "low_stack ivs {} new"
    using simplify_low [OF pr wf populate_ok(1), of "length ivs" "[]"] by (auto simp: ra_stack_def populate_ok(4) l)
  have "\<forall>j \<in> {} \<union> set new. select ivs (populate ivs) new (\<lambda>j. j \<in> {}) (\<lambda>_. None) j \<noteq> None"
    by (rule select_total) (simp_all add: populate_ok new(3))
  then show ?thesis using i new(1,2) by (simp add: ra_color_def)
qed


subsection \<open>The concrete function\<close>

lemma ra_demo_low: "low_pressure (fn_nodes ra_demo)"
  unfolding low_pressure_def
proof (intro allI impI)
  fix p
  have "{t. live_at (fn_nodes ra_demo) t (int p)} \<subseteq> {''%t0'', ''%t1'', ''%t2''}"
    unfolding live_at_def ra_demo_mentions by auto
  then have "card {t. live_at (fn_nodes ra_demo) t (int p)} \<le> card {''%t0'', ''%t1'', ''%t2''}"
    by (rule card_mono [rotated]) simp
  then show "card {t. live_at (fn_nodes ra_demo) t (int p)} \<le> 7" by simp
qed


end
