(* ===== verification/SymCfg.thy ===== *)
theory SymCfg
  imports ConstFold
begin

text \<open>
  The resolver of symbolic jumps, \<^verbatim>\<open>ir_symbolic_cfg.c\<close>: the table of label offsets, the bounded
  backward evaluation \<^verbatim>\<open>resolve_target\<close>, the two kinds of ghost jumps the lifter leaves behind and the
  pass that rewrites them. The recursion is over the depth counter, which stops at 32; signed
  division of the least number by -1 kills the process and is the result \<open>SymTrap\<close>. The reports on
  stderr are left out.
\<close>

subsection \<open>strtol and the label table\<close>

definition is_digit :: "char \<Rightarrow> bool" where
  "is_digit c \<longleftrightarrow> 48 \<le> (of_char c :: nat) \<and> (of_char c :: nat) \<le> 57"

definition is_space :: "char \<Rightarrow> bool" where
  "is_space c \<longleftrightarrow> (of_char c :: nat) = 32 \<or> (9 \<le> (of_char c :: nat) \<and> (of_char c :: nat) \<le> 13)"

definition digits_val :: "cstr \<Rightarrow> int" where
  "digits_val s = foldl (\<lambda>a c. 10 * a + (of_char c - 48)) 0 (takeWhile is_digit s)"

text \<open>\<^verbatim>\<open>strtol(s, NULL, 10)\<close>: white space, a sign, digits; an overflow saturates.\<close>

definition clamp_long :: "int \<Rightarrow> u64" where
  "clamp_long v = word_of_int (max (- (2 ^ 63)) (min (2 ^ 63 - 1) v))"

definition strtol10 :: "cstr \<Rightarrow> u64" where
  "strtol10 s = (case dropWhile is_space s of
       [] \<Rightarrow> 0
     | c # cs \<Rightarrow> if c = CHR ''-'' then clamp_long (- digits_val cs)
                 else if c = CHR ''+'' then clamp_long (digits_val cs)
                 else clamp_long (digits_val (c # cs)))"

definition SYMCFG_LABEL_MAX :: nat where "SYMCFG_LABEL_MAX = 8192"

definition label_table_clear :: "u64 list" where "label_table_clear = []"

definition label_table_add :: "u64 list \<Rightarrow> u64 \<Rightarrow> u64 list" where
  "label_table_add t off = (if length t \<ge> SYMCFG_LABEL_MAX then t else t @ [off])"

fun label_table_has :: "u64 list \<Rightarrow> u64 \<Rightarrow> bool" where
  "label_table_has [] off = False"
| "label_table_has (x # t) off = (if x = off then True else label_table_has t off)"

definition label_table_build :: "ir_func \<Rightarrow> u64 list" where
  "label_table_build fn =
     foldl (\<lambda>t n. if nd_op n = IR_LABEL \<and> take 7 (nd_label n) = ''.L_evm_''
                  then label_table_add t (strtol10 (drop 7 (nd_label n))) else t)
       label_table_clear (fn_nodes fn)"

subsection \<open>The recursive evaluator\<close>

definition MAX_SYMBOLIC_DEPTH :: nat where "MAX_SYMBOLIC_DEPTH = 32"

datatype symcfg_res = SymUnresolved | SymResolved u64 | SymDepthExceeded | SymTrap

definition is_sym_op :: "ir_op \<Rightarrow> bool" where
  "is_sym_op op \<longleftrightarrow> op \<in> {IR_ADD, IR_SUB, IR_MUL, IR_AND, IR_OR, IR_XOR, IR_SHL, IR_SHR, IR_DIV, IR_MOD}"

definition sym_div :: "u64 option \<Rightarrow> u64 \<Rightarrow> symcfg_res" where
  "sym_div q v2 = (if v2 \<noteq> 0 then (case q of None \<Rightarrow> SymTrap | Some r \<Rightarrow> SymResolved r) else SymResolved 0)"

definition sym_eval :: "ir_op \<Rightarrow> u64 \<Rightarrow> u64 \<Rightarrow> symcfg_res" where
  "sym_eval op v1 v2 = (case op of
       IR_ADD \<Rightarrow> SymResolved (v1 + v2)
     | IR_SUB \<Rightarrow> SymResolved (v1 - v2)
     | IR_MUL \<Rightarrow> SymResolved (v1 * v2)
     | IR_AND \<Rightarrow> SymResolved (v1 AND v2)
     | IR_OR \<Rightarrow> SymResolved (v1 OR v2)
     | IR_XOR \<Rightarrow> SymResolved (v1 XOR v2)
     | IR_SHL \<Rightarrow> SymResolved (if 0 \<le>s v2 \<and> v2 <s 64 then push_bit (unat v2) v1 else 0)
     | IR_SHR \<Rightarrow> SymResolved (if 0 \<le>s v2 \<and> v2 <s 64 then drop_bit (unat v2) v1 else 0)
     | IR_DIV \<Rightarrow> sym_div (c_sdiv v1 v2) v2
     | IR_MOD \<Rightarrow> sym_div (c_smod v1 v2) v2
     | _ \<Rightarrow> SymUnresolved)"

function resolve_target :: "ir_func \<Rightarrow> nat \<Rightarrow> cstr \<Rightarrow> nat \<Rightarrow> symcfg_res" where
  "resolve_target fn before vreg depth =
     (if depth \<ge> MAX_SYMBOLIC_DEPTH then SymDepthExceeded
      else if vreg = [] then SymUnresolved
      else case ir_find_def fn (Some before) (Some vreg) of
          None \<Rightarrow> SymUnresolved
        | Some i \<Rightarrow>
           (let d = fn_nodes fn ! i in
            if nd_op d = IR_CONST then SymResolved (nd_imm d)
            else if nd_op d = IR_COPY then resolve_target fn i (nd_src1 d) (depth + 1)
            else if is_sym_op (nd_op d) then
              (case resolve_target fn i (nd_src1 d) (depth + 1) of
                 SymResolved v1 \<Rightarrow>
                   (case resolve_target fn i (nd_src2 d) (depth + 1) of
                      SymResolved v2 \<Rightarrow> sym_eval (nd_op d) v1 v2
                    | s2 \<Rightarrow> s2)
               | s1 \<Rightarrow> s1)
            else SymUnresolved))"
  by pat_completeness auto
termination
  by (relation "measure (\<lambda>(_, _, _, d). MAX_SYMBOLIC_DEPTH - d)") auto

declare resolve_target.simps [simp del]

subsection \<open>Ghost jumps\<close>

definition IR_TAG_EVM_BARRIER :: int where "IR_TAG_EVM_BARRIER = 6"

definition is_ghost_jump :: "ir_node \<Rightarrow> bool" where
  "is_ghost_jump n \<longleftrightarrow> nd_op n = IR_NOP \<and> nd_tag n = IR_TAG_NONE \<and> nd_src1 n \<noteq> [] \<and> nd_dst n = []"

definition is_ghost_jumpi :: "ir_node \<Rightarrow> bool" where
  "is_ghost_jumpi n \<longleftrightarrow> nd_op n = IR_BR_IF \<and> nd_label n \<noteq> [] \<and> hd (nd_label n) \<noteq> CHR ''.''
     \<and> nd_src1 n \<noteq> []"

definition evm_label :: "u64 \<Rightarrow> cstr" where
  "evm_label v = ''.L_evm_'' @ show_int (sint v)"

subsection \<open>The pass\<close>

definition set_nth_node :: "ir_func \<Rightarrow> nat \<Rightarrow> ir_node \<Rightarrow> ir_func" where
  "set_nth_node fn i n = fn\<lparr> fn_nodes := (fn_nodes fn)[i := n] \<rparr>"

definition jump_to :: "ir_node \<Rightarrow> u64 \<Rightarrow> ir_node" where
  "jump_to n v = n\<lparr> nd_op := IR_BR, nd_type := IR_TY_VOID, nd_label := c_copy IR_LABEL_MAX (evm_label v),
                   nd_src1 := [] \<rparr>"

definition symcfg_jump :: "u64 list \<Rightarrow> ir_node \<Rightarrow> symcfg_res \<Rightarrow> (ir_node \<times> bool) option" where
  "symcfg_jump tab n st = (case st of
       SymTrap \<Rightarrow> None
     | SymResolved v \<Rightarrow>
         (if label_table_has tab v then Some (jump_to n v, True)
          else Some (n\<lparr> nd_tag := IR_TAG_EVM_BARRIER \<rparr>, False))
     | _ \<Rightarrow> Some (n\<lparr> nd_tag := IR_TAG_EVM_BARRIER \<rparr>, False))"

definition drop_branch :: "ir_node \<Rightarrow> ir_node" where
  "drop_branch n = n\<lparr> nd_op := IR_NOP, nd_tag := IR_TAG_EVM_BARRIER, nd_label := [] \<rparr>"

definition symcfg_jumpi :: "u64 list \<Rightarrow> ir_node \<Rightarrow> symcfg_res \<Rightarrow> (ir_node \<times> bool) option" where
  "symcfg_jumpi tab n st = (case st of
       SymTrap \<Rightarrow> None
     | SymResolved v \<Rightarrow>
         (if label_table_has tab v
          then Some (n\<lparr> nd_label := c_copy IR_LABEL_MAX (evm_label v) \<rparr>, True)
          else Some (drop_branch n, False))
     | _ \<Rightarrow> Some (drop_branch n, False))"

text \<open>One round of the loop at position \<open>i\<close>; the pair counts the ghosts and the resolved ones.\<close>

definition symcfg_at :: "u64 list \<Rightarrow> nat \<Rightarrow> ir_func \<times> int \<times> int \<Rightarrow> (ir_func \<times> int \<times> int) option" where
  "symcfg_at tab i s =
     (let (fn, ghosts, resolved) = s; n = fn_nodes fn ! i;
          out = (\<lambda>r. map_option (\<lambda>(n', ok). (set_nth_node fn i n', ghosts + 1, resolved + (if ok then 1 else 0))) r)
      in if is_ghost_jump n then out (symcfg_jump tab n (resolve_target fn i (nd_src1 n) 0))
         else if is_ghost_jumpi n then
           out (symcfg_jumpi tab n (resolve_target fn i (c_copy IR_LABEL_MAX (nd_label n)) 0))
         else Some s)"

fun symcfg_loop :: "u64 list \<Rightarrow> nat \<Rightarrow> nat \<Rightarrow> ir_func \<times> int \<times> int \<Rightarrow> (ir_func \<times> int \<times> int) option" where
  "symcfg_loop tab i 0 s = Some s"
| "symcfg_loop tab i (Suc k) s =
     (case symcfg_at tab i s of None \<Rightarrow> None | Some s' \<Rightarrow> symcfg_loop tab (Suc i) k s')"

definition ir_pass_symbolic_cfg :: "ir_func \<Rightarrow> (ir_func \<times> ir_pass_result) option" where
  "ir_pass_symbolic_cfg fn =
     (if fn_nodes fn = [] then Some (fn, empty_result)
      else case symcfg_loop (label_table_build fn) 0 (length (fn_nodes fn)) (fn, 0, 0) of
          None \<Rightarrow> None
        | Some (fn', ghosts, resolved) \<Rightarrow>
            Some (fn', empty_result\<lparr> nodes_before := fn_node_count fn, nodes_after := fn_node_count fn',
                                    nodes_modified := resolved, pass_changed := resolved > 0 \<rparr>))"

subsection \<open>What the pass does to each node\<close>

definition is_ghost :: "ir_node \<Rightarrow> bool" where
  "is_ghost n \<longleftrightarrow> is_ghost_jump n \<or> is_ghost_jumpi n"

definition symcfg_node :: "u64 list \<Rightarrow> ir_func \<Rightarrow> nat \<Rightarrow> (ir_node \<times> bool) option" where
  "symcfg_node tab fn k =
     (let n = fn_nodes fn ! k in
      if is_ghost_jump n then symcfg_jump tab n (resolve_target fn k (nd_src1 n) 0)
      else if is_ghost_jumpi n then symcfg_jumpi tab n (resolve_target fn k (c_copy IR_LABEL_MAX (nd_label n)) 0)
      else Some (n, False))"

text \<open>The evaluation at a definition.\<close>

definition eval_def :: "ir_func \<Rightarrow> nat \<Rightarrow> nat \<Rightarrow> symcfg_res" where
  "eval_def fn i depth =
     (let d = fn_nodes fn ! i in
      if nd_op d = IR_CONST then SymResolved (nd_imm d)
      else if nd_op d = IR_COPY then resolve_target fn i (nd_src1 d) (depth + 1)
      else if is_sym_op (nd_op d) then
        (case resolve_target fn i (nd_src1 d) (depth + 1) of
           SymResolved v1 \<Rightarrow> (case resolve_target fn i (nd_src2 d) (depth + 1) of
                                SymResolved v2 \<Rightarrow> sym_eval (nd_op d) v1 v2 | s2 \<Rightarrow> s2)
         | s1 \<Rightarrow> s1)
      else SymUnresolved)"

lemma resolve_target_eval:
  "resolve_target fn before vreg depth =
     (if depth \<ge> MAX_SYMBOLIC_DEPTH then SymDepthExceeded
      else if vreg = [] then SymUnresolved
      else case ir_find_def fn (Some before) (Some vreg) of
          None \<Rightarrow> SymUnresolved | Some i \<Rightarrow> eval_def fn i depth)"
  unfolding eval_def_def by (rule resolve_target.simps)

lemma eval_def_resolved:
  assumes "eval_def fn i depth = SymResolved v"
  obtains (const) "nd_op (fn_nodes fn ! i) = IR_CONST" "v = nd_imm (fn_nodes fn ! i)"
    | (copy) "nd_op (fn_nodes fn ! i) = IR_COPY"
        "resolve_target fn i (nd_src1 (fn_nodes fn ! i)) (depth + 1) = SymResolved v"
    | (bin) v1 v2 where "is_sym_op (nd_op (fn_nodes fn ! i))"
        "resolve_target fn i (nd_src1 (fn_nodes fn ! i)) (depth + 1) = SymResolved v1"
        "resolve_target fn i (nd_src2 (fn_nodes fn ! i)) (depth + 1) = SymResolved v2"
        "sym_eval (nd_op (fn_nodes fn ! i)) v1 v2 = SymResolved v"
  using assms by (auto simp: eval_def_def Let_def split: if_splits symcfg_res.splits)

lemma resolve_target_resolved:
  assumes "resolve_target fn before vreg depth = SymResolved v"
  obtains i where "vreg \<noteq> []" "ir_find_def fn (Some before) (Some vreg) = Some i" "eval_def fn i depth = SymResolved v"
  using assms by (subst (asm) resolve_target_eval) (auto split: if_splits option.splits)

text \<open>Rewriting a ghost does not change what later evaluations see.\<close>

definition sym_same :: "ir_node \<Rightarrow> ir_node \<Rightarrow> bool" where
  "sym_same n n' \<longleftrightarrow> n' = n \<or> (nd_dst n' = nd_dst n \<and>
     nd_op n \<notin> {IR_CONST, IR_COPY} \<and> \<not> is_sym_op (nd_op n) \<and>
     nd_op n' \<notin> {IR_CONST, IR_COPY} \<and> \<not> is_sym_op (nd_op n'))"

lemma find_def_dsts:
  assumes "map nd_dst (fn_nodes g) = map nd_dst (fn_nodes fn)"
  shows "ir_find_def g e v = ir_find_def fn e v"
proof -
  have len: "length (fn_nodes g) = length (fn_nodes fn)" using assms map_eq_imp_length_eq by blast
  have d: "nd_dst (fn_nodes g ! i) = nd_dst (fn_nodes fn ! i)" if "i < length (fn_nodes fn)" for i
    using assms that len by (metis nth_map)
  have "foldl (\<lambda>d i. if nd_dst (fn_nodes g ! i) \<noteq> [] \<and> nd_dst (fn_nodes g ! i) = x then Some i else d) a [0..<m]
      = foldl (\<lambda>d i. if nd_dst (fn_nodes fn ! i) \<noteq> [] \<and> nd_dst (fn_nodes fn ! i) = x then Some i else d) a [0..<m]"
    if "m \<le> length (fn_nodes fn)" for m x a
    using that by (intro foldl_cong) (auto simp: d)
  then show ?thesis by (simp add: ir_find_def_def len split: option.splits list.splits)
qed

lemma find_def_at:
  assumes "ir_find_def fn (Some b) (Some x) = Some i" "x \<noteq> []"
  shows "i < b" "i < length (fn_nodes fn)" "nd_dst (fn_nodes fn ! i) = x"
proof -
  define e where "e = min b (length (fn_nodes fn))"
  obtain c cs where x: "x = c # cs" using assms(2) by (cases x) simp_all
  have "last_def (fn_nodes fn) e x (Some i)"
    using last_def_foldl [OF assms(2), of "fn_nodes fn" e] assms(1) by (simp add: ir_find_def_def x e_def)
  then show "i < b" "i < length (fn_nodes fn)" "nd_dst (fn_nodes fn ! i) = x"
    by (simp_all add: last_def_def e_def)
qed

lemma eval_def_same:
  assumes "sym_same (fn_nodes fn ! i) (fn_nodes g ! i)"
    and "\<And>x. resolve_target g i x (d + 1) = resolve_target fn i x (d + 1)"
  shows "eval_def g i d = eval_def fn i d"
  using assms(1) unfolding sym_same_def
proof
  assume e: "fn_nodes g ! i = fn_nodes fn ! i"
  show ?thesis unfolding eval_def_def Let_def e assms(2) by (rule HOL.refl)
qed (simp add: eval_def_def Let_def)

lemma resolve_same:
  assumes "list_all2 sym_same (fn_nodes fn) (fn_nodes g)"
  shows "resolve_target g b x d = resolve_target fn b x d"
proof (induction "MAX_SYMBOLIC_DEPTH - d" arbitrary: b x d rule: less_induct)
  case less
  have "map nd_dst (fn_nodes g) = map nd_dst (fn_nodes fn)"
    using assms by (induction rule: list_all2_induct) (auto simp: sym_same_def)
  note fd = find_def_dsts [OF this]
  have ev: "eval_def g i d = eval_def fn i d"
    if "d < MAX_SYMBOLIC_DEPTH" "i < length (fn_nodes fn)" for i
    using assms that less by (intro eval_def_same) (auto simp: list_all2_conv_all_nth)
  show ?case
    unfolding resolve_target_eval [of g] resolve_target_eval [of fn] fd
    using ev find_def_at [of fn b x] by (auto split: option.splits)
qed

lemma ghost_not_sym: "is_ghost n \<Longrightarrow> nd_op n = IR_NOP \<or> nd_op n = IR_BR_IF"
  by (auto simp: is_ghost_def is_ghost_jump_def is_ghost_jumpi_def)

lemma symcfg_jump_cases:
  assumes "symcfg_jump tab n st = Some (n', ok)"
  obtains (good) v where "st = SymResolved v" "label_table_has tab v" "ok" "n' = jump_to n v"
    | (bad) "\<not> ok" "n' = n\<lparr> nd_tag := IR_TAG_EVM_BARRIER \<rparr>"
  using assms by (auto simp: symcfg_jump_def split: symcfg_res.splits if_splits)

lemma symcfg_jumpi_cases:
  assumes "symcfg_jumpi tab n st = Some (n', ok)"
  obtains (good) v where "st = SymResolved v" "label_table_has tab v" "ok"
        "n' = n\<lparr> nd_label := c_copy IR_LABEL_MAX (evm_label v) \<rparr>"
    | (bad) "\<not> ok" "n' = drop_branch n"
  using assms by (auto simp: symcfg_jumpi_def split: symcfg_res.splits if_splits)

lemma symcfg_node_same:
  assumes "symcfg_node tab fn k = Some (n', ok)"
  shows "sym_same (fn_nodes fn ! k) n'"
  using assms
  by (auto simp: symcfg_node_def Let_def sym_same_def is_sym_op_def is_ghost_jump_def is_ghost_jumpi_def
      jump_to_def drop_branch_def elim!: symcfg_jump_cases symcfg_jumpi_cases split: if_splits)

text \<open>The loop computes the per-node rewriting of the original function.\<close>

definition symcfg_upto :: "u64 list \<Rightarrow> ir_func \<Rightarrow> nat \<Rightarrow> ir_func \<times> int \<times> int \<Rightarrow> bool" where
  "symcfg_upto tab fn i s \<longleftrightarrow> (case s of (g, gh, rs) \<Rightarrow>
     g = fn\<lparr> fn_nodes := fn_nodes g \<rparr> \<and> length (fn_nodes g) = length (fn_nodes fn)
     \<and> (\<forall>j < i. \<exists>ok. symcfg_node tab fn j = Some (fn_nodes g ! j, ok))
     \<and> (\<forall>j. i \<le> j \<longrightarrow> j < length (fn_nodes fn) \<longrightarrow> fn_nodes g ! j = fn_nodes fn ! j)
     \<and> gh = int (card {j. j < i \<and> is_ghost (fn_nodes fn ! j)})
     \<and> rs = int (card {j. j < i \<and> (\<exists>n'. symcfg_node tab fn j = Some (n', True))}))"

lemma card_less_Suc_if:
  "card {j. j < Suc i \<and> P j} = card {j. j < i \<and> P j} + (if P i then 1 else 0)"
proof -
  have "{j. j < Suc i \<and> P j} = (if P i then insert i {j. j < i \<and> P j} else {j. j < i \<and> P j})"
    by (auto simp: less_Suc_eq)
  then show ?thesis by simp
qed

lemma symcfg_at_upto:
  assumes up: "symcfg_upto tab fn i s" and at: "symcfg_at tab i s = Some s'" and i: "i < length (fn_nodes fn)"
  shows "symcfg_upto tab fn (Suc i) s'"
proof -
  obtain g gh rs where s: "s = (g, gh, rs)" by (cases s) auto
  have u: "g = fn\<lparr> fn_nodes := fn_nodes g \<rparr>" "length (fn_nodes g) = length (fn_nodes fn)"
    "\<forall>j < i. \<exists>ok. symcfg_node tab fn j = Some (fn_nodes g ! j, ok)"
    "\<forall>j. i \<le> j \<longrightarrow> j < length (fn_nodes fn) \<longrightarrow> fn_nodes g ! j = fn_nodes fn ! j"
    "gh = int (card {j. j < i \<and> is_ghost (fn_nodes fn ! j)})"
    "rs = int (card {j. j < i \<and> (\<exists>n'. symcfg_node tab fn j = Some (n', True))})"
    using up unfolding symcfg_upto_def s by auto
  have ss: "sym_same (fn_nodes fn ! j) (fn_nodes g ! j)" if "j < length (fn_nodes fn)" for j
  proof (cases "j < i")
    case True
    then obtain ok where "symcfg_node tab fn j = Some (fn_nodes g ! j, ok)" using u(3) by blast
    then show ?thesis by (rule symcfg_node_same)
  next
    case False
    then have "fn_nodes g ! j = fn_nodes fn ! j" using u(4) that by simp
    then show ?thesis by (simp add: sym_same_def)
  qed
  have rt: "resolve_target g b x d = resolve_target fn b x d" for b x d
    using ss u(2) by (intro resolve_same) (simp add: list_all2_conv_all_nth)
  have n: "fn_nodes g ! i = fn_nodes fn ! i" using u(4) i by simp
  have "symcfg_at tab i s =
     (if is_ghost (fn_nodes fn ! i)
      then map_option (\<lambda>(n', ok). (set_nth_node g i n', gh + 1, rs + (if ok then 1 else 0))) (symcfg_node tab fn i)
      else Some s)"
    by (auto simp: symcfg_at_def s rt n symcfg_node_def is_ghost_def Let_def)
  moreover have "symcfg_node tab fn i = Some (fn_nodes fn ! i, False)" if "\<not> is_ghost (fn_nodes fn ! i)"
    using that by (simp add: symcfg_node_def Let_def is_ghost_def)
  moreover have "set_nth_node g i (fn_nodes fn ! i) = g"
    unfolding n [symmetric] by (simp add: set_nth_node_def)
  ultimately obtain n' ok where nn: "symcfg_node tab fn i = Some (n', ok)"
      "s' = (set_nth_node g i n', gh + (if is_ghost (fn_nodes fn ! i) then 1 else 0), rs + (if ok then 1 else 0))"
    using at s by (cases "is_ghost (fn_nodes fn ! i)") auto
  show ?thesis
    unfolding symcfg_upto_def nn(2) prod.case card_less_Suc_if
  proof (intro conjI)
    show "set_nth_node g i n' = fn\<lparr> fn_nodes := fn_nodes (set_nth_node g i n') \<rparr>"
      unfolding set_nth_node_def by (subst u(1)) simp
    show "\<forall>j<Suc i. \<exists>ok. symcfg_node tab fn j = Some (fn_nodes (set_nth_node g i n') ! j, ok)"
      using u(2,3) i nn(1) by (auto simp: set_nth_node_def less_Suc_eq)
    show "\<forall>j. Suc i \<le> j \<longrightarrow> j < length (fn_nodes fn) \<longrightarrow> fn_nodes (set_nth_node g i n') ! j = fn_nodes fn ! j"
      using u(4) by (simp add: set_nth_node_def)
  qed (use u nn(1) in \<open>simp_all add: set_nth_node_def\<close>)
qed

lemma symcfg_loop_upto:
  "symcfg_upto tab fn i s \<Longrightarrow> symcfg_loop tab i k s = Some s' \<Longrightarrow> i + k \<le> length (fn_nodes fn)
   \<Longrightarrow> symcfg_upto tab fn (i + k) s'"
proof (induction k arbitrary: i s)
  case 0
  then show ?case by simp
next
  case (Suc k)
  then obtain s1 where s1: "symcfg_at tab i s = Some s1" "symcfg_loop tab (Suc i) k s1 = Some s'"
    by (auto split: option.splits)
  then have "symcfg_upto tab fn (Suc i) s1" using Suc.prems by (intro symcfg_at_upto) auto
  then show ?case using Suc.IH [OF _ s1(2)] Suc.prems(3) by simp
qed

lemma symcfg_pass_nodes:
  assumes "ir_pass_symbolic_cfg fn = Some (fn', r)"
  shows "fn' = fn\<lparr> fn_nodes := fn_nodes fn' \<rparr>" "length (fn_nodes fn') = length (fn_nodes fn)"
    and "j < length (fn_nodes fn) \<Longrightarrow>
           \<exists>ok. symcfg_node (label_table_build fn) fn j = Some (fn_nodes fn' ! j, ok)"
    and "nodes_modified r = int (card {j. j < length (fn_nodes fn) \<and>
           (\<exists>n'. symcfg_node (label_table_build fn) fn j = Some (n', True))})"
proof -
  let ?tab = "label_table_build fn"
  have init: "symcfg_upto ?tab fn 0 (fn, 0, 0)" by (simp add: symcfg_upto_def)
  have "fn' = fn\<lparr> fn_nodes := fn_nodes fn' \<rparr> \<and> length (fn_nodes fn') = length (fn_nodes fn) \<and>
     (\<forall>j < length (fn_nodes fn). \<exists>ok. symcfg_node ?tab fn j = Some (fn_nodes fn' ! j, ok)) \<and>
     nodes_modified r = int (card {j. j < length (fn_nodes fn) \<and> (\<exists>n'. symcfg_node ?tab fn j = Some (n', True))})"
  proof (cases "fn_nodes fn = []")
    case True
    then show ?thesis using assms by (auto simp: ir_pass_symbolic_cfg_def empty_result_def)
  next
    case False
    then obtain gh rs where
      "symcfg_loop ?tab 0 (length (fn_nodes fn)) (fn, 0, 0) = Some (fn', gh, rs)" "nodes_modified r = rs"
      using assms by (auto simp: ir_pass_symbolic_cfg_def empty_result_def split: option.splits)
    then show ?thesis using symcfg_loop_upto [OF init] unfolding symcfg_upto_def by fastforce
  qed
  then show "fn' = fn\<lparr> fn_nodes := fn_nodes fn' \<rparr>" "length (fn_nodes fn') = length (fn_nodes fn)"
    "j < length (fn_nodes fn) \<Longrightarrow> \<exists>ok. symcfg_node ?tab fn j = Some (fn_nodes fn' ! j, ok)"
    "nodes_modified r = int (card {j. j < length (fn_nodes fn) \<and> (\<exists>n'. symcfg_node ?tab fn j = Some (n', True))})"
    by blast+
qed

subsection \<open>Functions with dynamic jumps\<close>

text \<open>What the lifted function means before the pass: a ghost jumps to the label of the value its target
  register holds, a conditional one when its condition is true. Everything else is the machine of
  \<open>IRSem\<close>.\<close>

definition jump_target :: "cval \<Rightarrow> u64 option" where
  "jump_target w = (case w of C64 v \<Rightarrow> Some v
     | C256 x \<Rightarrow> if uval x < 2 ^ 63 then Some (of_nat (uval x)) else None)"

definition dyn_jump :: "ir_node list \<Rightarrow> env \<Rightarrow> event list \<Rightarrow> cstr \<Rightarrow> conf option" where
  "dyn_jump p env tr x = (case env x of None \<Rightarrow> None | Some w \<Rightarrow>
     (case jump_target w of None \<Rightarrow> None | Some v \<Rightarrow>
        map_option (\<lambda>r. Run r env tr) (find_label p (evm_label v))))"

fun ghost_next :: "fp_ops \<Rightarrow> ext \<Rightarrow> ir_node list \<Rightarrow> conf \<Rightarrow> conf option" where
  "ghost_next fp ext p (Run (n # rest) env tr) =
     (if is_ghost_jump n then dyn_jump p env tr (nd_src1 n)
      else if is_ghost_jumpi n then
        (case env (nd_src1 n) of None \<Rightarrow> None
         | Some c \<Rightarrow> if truth c then dyn_jump p env tr (nd_label n) else Some (Run rest env tr))
      else ir_next fp ext p (Run (n # rest) env tr))"
| "ghost_next fp ext p c = ir_next fp ext p c"

inductive ghost_steps :: "fp_ops \<Rightarrow> ext \<Rightarrow> ir_node list \<Rightarrow> conf \<Rightarrow> conf \<Rightarrow> bool"
  for fp ext p where
  ghost_refl: "ghost_steps fp ext p c c"
| ghost_step: "ghost_next fp ext p c = Some c' \<Longrightarrow> ghost_steps fp ext p c' c'' \<Longrightarrow> ghost_steps fp ext p c c''"

definition ghost_result :: "fp_ops \<Rightarrow> ext \<Rightarrow> ir_node list \<Rightarrow> env \<Rightarrow> event list \<Rightarrow> bool" where
  "ghost_result fp ext p env tr = ghost_steps fp ext p (Run p env []) (Done tr)"

fun ghost_iter :: "fp_ops \<Rightarrow> ext \<Rightarrow> ir_node list \<Rightarrow> nat \<Rightarrow> conf \<Rightarrow> conf option" where
  "ghost_iter fp ext p 0 c = Some c"
| "ghost_iter fp ext p (Suc k) c =
     (case c of Done t \<Rightarrow> Some c
      | Run r env t \<Rightarrow> (case ghost_next fp ext p c of None \<Rightarrow> None | Some c' \<Rightarrow> ghost_iter fp ext p k c'))"

lemma ghost_iter_steps: "ghost_iter fp ext p k c = Some c' \<Longrightarrow> ghost_steps fp ext p c c'"
  by (induction k arbitrary: c) (auto intro: ghost_steps.intros split: option.splits conf.splits)

lemma ghost_iter_result:
  "final_trace (ghost_iter fp ext p k (Run p env [])) = Some tr \<Longrightarrow> ghost_result fp ext p env tr"
  unfolding ghost_result_def
  by (cases "ghost_iter fp ext p k (Run p env [])" rule: final_trace.cases) (auto dest: ghost_iter_steps)

subsection \<open>Resolved registers hold the resolved value\<close>

definition sym_ok :: "ir_node \<Rightarrow> bool" where
  "sym_ok n \<longleftrightarrow> (nd_op n = IR_CONST \<longrightarrow> nd_tag n \<noteq> IR_TAG_TRUNCATED_WIDE_CONST)
     \<and> (is_sym_op (nd_op n) \<longrightarrow> \<not> is_256_tag (nd_tag n) \<and> nd_phi_ops n = [] \<and> sign_ok (nd_op n) (nd_type n))
     \<and> length (nd_label n) < IR_LABEL_MAX"

definition sym_inv :: "ir_func \<Rightarrow> env \<Rightarrow> bool" where
  "sym_inv fn env \<longleftrightarrow> (\<forall>b x d v w. resolve_target fn b x d = SymResolved v \<longrightarrow> env x = Some w \<longrightarrow> w = C64 v)"

lemma sym_invD: "sym_inv fn env \<Longrightarrow> resolve_target fn b x d = SymResolved v \<Longrightarrow> env x = Some w \<Longrightarrow> w = C64 v"
  by (auto simp: sym_inv_def)

lemma sym_op_bin: "is_sym_op op \<Longrightarrow> is_bin_op op"
  by (auto simp: is_sym_op_def is_bin_op_def)

lemma sym_eval_bin64:
  "sym_eval op a b = SymResolved v \<Longrightarrow> is_sym_op op \<Longrightarrow> sign_ok op ty \<Longrightarrow>
   bin64 fp op (\<not> ir_type_unsigned ty) a b = Some w \<Longrightarrow> w = v"
  by (cases op) (auto simp: is_sym_op_def sym_eval_def bin64_def sym_div_def sign_ok_def shift_left_def shift_right_def
      small_signed_64 c_sdiv_def c_smod_def split: if_splits option.splits)

lemma eval_def_value:
  assumes "sym_inv fn env" "sym_ok (fn_nodes fn ! i)" "eval_def fn i d = SymResolved v"
    and "node_value fp ext (fn_nodes fn ! i) env tr = Some w"
  shows "w = C64 v"
  using assms(3)
proof (cases rule: eval_def_resolved)
  case const
  then show ?thesis using assms(2,4) by (auto simp: node_value_def const_value_def sym_ok_def)
next
  case copy
  then show ?thesis using assms(4) sym_invD [OF assms(1) copy(2)] by (simp add: node_value_def)
next
  case (bin v1 v2)
  let ?n = "fn_nodes fn ! i"
  have op: "is_bin_op (nd_op ?n)" using sym_op_bin bin(1) by blast
  have ok: "\<not> is_256_tag (nd_tag ?n)" "nd_phi_ops ?n = []" "sign_ok (nd_op ?n) (nd_type ?n)"
    using assms(2) bin(1) by (auto simp: sym_ok_def)
  have ne: "nd_src1 ?n \<noteq> []" "nd_src2 ?n \<noteq> []"
    using bin(2,3) by (auto elim: resolve_target_resolved)
  obtain a b where ab: "env (nd_src1 ?n) = Some a" "env (nd_src2 ?n) = Some b"
    "read_all env (operand_names ?n) = Some [a, b]"
    using bin_node_operands [OF op ok(2) ne assms(4)] by blast
  have "a = C64 v1" "b = C64 v2"
    using sym_invD [OF assms(1) bin(2) ab(1)] sym_invD [OF assms(1) bin(3) ab(2)] by auto
  then show ?thesis
    using assms(4) node_value_bin [OF op ab(3), of fp ext tr] ok bin(1) sym_eval_bin64 [OF bin(4) bin(1) ok(3)] by auto
qed

lemma eval_def_store: "nd_op (fn_nodes fn ! i) = IR_STORE \<Longrightarrow> eval_def fn i d = SymUnresolved"
  by (simp add: eval_def_def is_sym_op_def)

lemma eval_def_call: "nd_op (fn_nodes fn ! i) = IR_CALL \<Longrightarrow> eval_def fn i d = SymUnresolved"
  by (simp add: eval_def_def is_sym_op_def)

lemma sym_inv_set:
  assumes inv: "sym_inv fn env" and ssa: "ssa_form (fn_nodes fn)" and k: "k < length (fn_nodes fn)"
    and op: "nd_op (fn_nodes fn ! k) \<noteq> IR_STORE"
    and val: "\<And>d v. eval_def fn k d = SymResolved v \<Longrightarrow> w = C64 v"
  shows "sym_inv fn (set_dst (nd_dst (fn_nodes fn ! k)) w env)"
  unfolding sym_inv_def
proof (intro allI impI)
  fix b x d v w'
  assume r: "resolve_target fn b x d = SymResolved v" and e: "set_dst (nd_dst (fn_nodes fn ! k)) w env x = Some w'"
  show "w' = C64 v"
  proof (cases "x = nd_dst (fn_nodes fn ! k)")
    case True
    obtain i where i: "x \<noteq> []" "ir_find_def fn (Some b) (Some x) = Some i" "eval_def fn i d = SymResolved v"
      using r by (rule resolve_target_resolved)
    note at = find_def_at [OF i(2,1)]
    have "i = k"
      using ssa_unique_def [OF ssa at(2) k] i(1,3) at(3) op True eval_def_store [of fn i d] by (auto simp: is_def_def)
    then show ?thesis using val i e True by (auto simp: set_dst_def)
  next
    case False
    then have "env x = Some w'" using e by (auto simp: set_dst_def split: if_splits)
    then show ?thesis using sym_invD [OF inv r] by blast
  qed
qed

lemma sym_inv_init:
  assumes "fresh_env (fn_nodes fn) env" shows "sym_inv fn env"
  unfolding sym_inv_def
proof (intro allI impI)
  fix b x d v w assume r: "resolve_target fn b x d = SymResolved v" and e: "env x = Some w"
  obtain i where i: "x \<noteq> []" "ir_find_def fn (Some b) (Some x) = Some i" "eval_def fn i d = SymResolved v"
    using r by (rule resolve_target_resolved)
  note at = find_def_at [OF i(2,1)]
  have "is_def (fn_nodes fn ! i)" using i eval_def_store [of fn i d] at(3) by (auto simp: is_def_def)
  then have "env x = None" using assms at by (auto simp: fresh_env_def list_all_length)
  then show "w = C64 v" using e by simp
qed

subsection \<open>The rewritten function simulates the dynamic jumps\<close>

lemma evm_label_copy: "c_copy IR_LABEL_MAX (evm_label v) = evm_label v"
proof (rule c_copy_id)
  have b: "- (2 ^ 63) \<le> sint v" "sint v < 2 ^ 63"
    using sint_greater_eq [of v] sint_less [of v] by simp_all
  have "length (decimal (nat (- sint v))) \<le> 20" "length (decimal (nat (sint v))) \<le> 20"
    using b by (intro decimal_length; simp)+
  then show "length (evm_label v) < IR_LABEL_MAX"
    by (auto simp: evm_label_def show_int_def IR_LABEL_MAX_def)
qed

definition symcfg_resolved :: "ir_func \<Rightarrow> nat \<Rightarrow> ir_node \<Rightarrow> bool" where
  "symcfg_resolved fn k n' \<longleftrightarrow> (let n = fn_nodes fn ! k in
     if is_ghost_jump n then \<exists>v. resolve_target fn k (nd_src1 n) 0 = SymResolved v \<and> n' = jump_to n v
     else if is_ghost_jumpi n then \<exists>v. resolve_target fn k (c_copy IR_LABEL_MAX (nd_label n)) 0 = SymResolved v
                                       \<and> n' = n\<lparr> nd_label := evm_label v \<rparr>
     else n' = n)"

lemma symcfg_node_resolved:
  "symcfg_node tab fn k = Some (n', ok) \<Longrightarrow> is_ghost (fn_nodes fn ! k) \<longrightarrow> ok \<Longrightarrow> symcfg_resolved fn k n'"
  by (auto simp: symcfg_node_def symcfg_resolved_def Let_def is_ghost_def evm_label_copy
      elim!: symcfg_jump_cases symcfg_jumpi_cases split: if_splits)

lemma resolved_label:
  "symcfg_resolved fn k n' \<Longrightarrow> n' = fn_nodes fn ! k \<or> (nd_op (fn_nodes fn ! k) \<noteq> IR_LABEL \<and> nd_op n' \<noteq> IR_LABEL)"
  by (auto simp: symcfg_resolved_def Let_def is_ghost_jump_def is_ghost_jumpi_def jump_to_def split: if_splits)

lemma find_label_replace:
  assumes "length q = length p" "find_label p l = Some r"
    and "\<And>k. k < length p \<Longrightarrow> q ! k = p ! k \<or> (nd_op (p ! k) \<noteq> IR_LABEL \<and> nd_op (q ! k) \<noteq> IR_LABEL)"
  shows "\<exists>j < length p. r = drop (Suc j) p \<and> find_label q l = Some (drop (Suc j) q)"
  using assms
proof (induction p arbitrary: q)
  case Nil
  then show ?case by simp
next
  case (Cons n p)
  obtain n' q' where q: "q = n' # q'" using Cons.prems(1) by (cases q) auto
  have hd: "n' = n \<or> (nd_op n \<noteq> IR_LABEL \<and> nd_op n' \<noteq> IR_LABEL)" using Cons.prems(3) [of 0] q by simp
  show ?case
  proof (cases "nd_op n = IR_LABEL \<and> nd_label n = l")
    case True
    then show ?thesis using hd Cons.prems(2) q by (intro exI [of _ 0]) auto
  next
    case False
    have tl: "q' ! k = p ! k \<or> (nd_op (p ! k) \<noteq> IR_LABEL \<and> nd_op (q' ! k) \<noteq> IR_LABEL)" if "k < length p" for k
      using Cons.prems(3) [of "Suc k"] that q by simp
    have "find_label p l = Some r" using False Cons.prems(2) by auto
    then obtain j where "j < length p" "r = drop (Suc j) p" "find_label q' l = Some (drop (Suc j) q')"
      using Cons.IH [OF _ _ tl] Cons.prems(1) q by auto
    then show ?thesis using False hd q by (intro exI [of _ "Suc j"]) auto
  qed
qed

definition all_resolved :: "ir_func \<Rightarrow> ir_node list \<Rightarrow> bool" where
  "all_resolved fn q \<longleftrightarrow> length q = length (fn_nodes fn) \<and> (\<forall>k < length (fn_nodes fn). symcfg_resolved fn k (q ! k))"

inductive sym_rel :: "ir_func \<Rightarrow> ir_node list \<Rightarrow> conf \<Rightarrow> conf \<Rightarrow> bool" for fn q where
  sym_run: "k \<le> length (fn_nodes fn) \<Longrightarrow> sym_inv fn env
    \<Longrightarrow> sym_rel fn q (Run (drop k (fn_nodes fn)) env tr) (Run (drop k q) env tr)"
| sym_fin: "sym_rel fn q (Done tr) (Done tr)"

inductive_cases sym_rel_DoneE: "sym_rel fn q (Done tr) d"

lemma sym_relI:
  "k \<le> length (fn_nodes fn) \<Longrightarrow> sym_inv fn env \<Longrightarrow> r = drop k (fn_nodes fn) \<Longrightarrow> r' = drop k q
   \<Longrightarrow> sym_rel fn q (Run r env tr) (Run r' env tr)"
  using sym_run by metis

lemma sym_jump:
  assumes all: "all_resolved fn q" and inv: "sym_inv fn env"
    and lab: "find_label (fn_nodes fn) l = Some r"
  shows "\<exists>r'. find_label q l = Some r' \<and> sym_rel fn q (Run r env tr) (Run r' env tr)"
proof -
  obtain j where "j < length (fn_nodes fn)" "r = drop (Suc j) (fn_nodes fn)" "find_label q l = Some (drop (Suc j) q)"
    using all find_label_replace [OF _ lab, of q] resolved_label unfolding all_resolved_def by blast
  then show ?thesis using sym_relI [of "Suc j" fn env] inv by auto
qed

lemma sym_dyn_jump:
  assumes all: "all_resolved fn q" and inv: "sym_inv fn env"
    and j: "dyn_jump (fn_nodes fn) env tr x = Some c'" and v: "resolve_target fn k x d = SymResolved v"
  shows "\<exists>r'. find_label q (evm_label v) = Some r' \<and> sym_rel fn q c' (Run r' env tr)"
proof -
  obtain w where w: "env x = Some w" using j by (auto simp: dyn_jump_def split: option.splits)
  then have "w = C64 v" using sym_invD [OF inv v] by blast
  then obtain r where r: "find_label (fn_nodes fn) (evm_label v) = Some r" "c' = Run r env tr"
    using j w by (auto simp: dyn_jump_def jump_target_def)
  then show ?thesis using sym_jump [OF all inv r(1)] by blast
qed

lemma sym_sim_plain:
  assumes all: "all_resolved fn q" and inv: "sym_inv fn env" and ssa: "ssa_form (fn_nodes fn)"
    and ok: "list_all sym_ok (fn_nodes fn)" and k: "k < length (fn_nodes fn)"
    and dp: "drop k (fn_nodes fn) = n # drop (Suc k) (fn_nodes fn)" and dq: "drop k q = n # drop (Suc k) q"
    and n: "n = fn_nodes fn ! k" and nx: "ir_next fp ext (fn_nodes fn) (Run (drop k (fn_nodes fn)) env tr) = Some c'"
  shows "\<exists>d'. ir_next fp ext q (Run (drop k q) env tr) = Some d' \<and> sym_rel fn q c' d'"
proof -
  have go: "sym_inv fn e \<Longrightarrow> sym_rel fn q (Run (drop (Suc k) (fn_nodes fn)) e t) (Run (drop (Suc k) q) e t)" for e t
    using sym_relI [of "Suc k" fn e] k by auto
  note jump = sym_jump [OF all inv]
  show ?thesis
  proof (cases "nd_op n" rule: op_kind_cases)
    case skip
    then show ?thesis using nx go inv unfolding dp dq by (auto simp: next_skip)
  next
    case br
    then obtain r where r: "find_label (fn_nodes fn) (nd_label n) = Some r" "c' = Run r env tr"
      using nx unfolding dp by (auto simp: next_br)
    obtain r' where "find_label q (nd_label n) = Some r'" "sym_rel fn q (Run r env tr) (Run r' env tr)"
      using jump [OF r(1)] by blast
    then show ?thesis using br r(2) unfolding dq by (simp add: next_br)
  next
    case br_if
    then obtain v where v: "env (nd_src1 n) = Some v" using nx unfolding dp by (auto simp: next_br_if split: option.splits)
    show ?thesis
    proof (cases "truth v")
      case True
      then obtain r where r: "find_label (fn_nodes fn) (nd_label n) = Some r" "c' = Run r env tr"
        using nx v br_if unfolding dp by (auto simp: next_br_if)
      obtain r' where "find_label q (nd_label n) = Some r'" "sym_rel fn q (Run r env tr) (Run r' env tr)"
        using jump [OF r(1)] by blast
      then show ?thesis using br_if True v r(2) unfolding dq by (simp add: next_br_if)
    next
      case False
      then show ?thesis using nx br_if v go inv unfolding dp dq by (auto simp: next_br_if)
    qed
  next
    case ret
    then show ?thesis using nx unfolding dp dq by (auto simp: next_ret intro: sym_fin)
  next
    case effect
    have "sym_inv fn (set_dst (nd_dst n) (C64 w) env)" if "nd_op n = IR_CALL" for w
      unfolding n using inv ssa k that n eval_def_call [of fn k] by (intro sym_inv_set) simp_all
    then show ?thesis using nx effect go inv unfolding dp dq by (auto simp: next_effect)
  next
    case val
    then obtain v where v: "node_value fp ext n env tr = Some v"
      "c' = Run (drop (Suc k) (fn_nodes fn)) (set_dst (nd_dst n) v env) tr"
      using nx unfolding dp by (auto simp: next_value)
    have "sym_ok (fn_nodes fn ! k)" using ok k by (simp add: list_all_length)
    then have "sym_inv fn (set_dst (nd_dst n) v env)"
      unfolding n using inv ssa k val v(1) n eval_def_value [OF inv]
      by (intro sym_inv_set) (auto simp: is_value_op_def is_effect_def)
    then show ?thesis using v val go unfolding dp dq by (auto simp: next_value)
  qed
qed

lemma sym_sim:
  assumes all: "all_resolved fn q" and inv: "sym_inv fn env" and ssa: "ssa_form (fn_nodes fn)"
    and ok: "list_all sym_ok (fn_nodes fn)" and k: "k < length (fn_nodes fn)"
    and nx: "ghost_next fp ext (fn_nodes fn) (Run (drop k (fn_nodes fn)) env tr) = Some c'"
  shows "\<exists>d'. ir_next fp ext q (Run (drop k q) env tr) = Some d' \<and> sym_rel fn q c' d'"
proof -
  have len: "length q = length (fn_nodes fn)" using all by (simp add: all_resolved_def)
  have allD: "j < length (fn_nodes fn) \<Longrightarrow> symcfg_resolved fn j (q ! j)" for j
    using all by (simp add: all_resolved_def)
  define n where "n = fn_nodes fn ! k"
  have dp: "drop k (fn_nodes fn) = n # drop (Suc k) (fn_nodes fn)" and dq: "drop k q = q ! k # drop (Suc k) q"
    using k len by (simp_all add: n_def Cons_nth_drop_Suc)
  have go: "sym_rel fn q (Run (drop (Suc k) (fn_nodes fn)) env tr) (Run (drop (Suc k) q) env tr)"
    using sym_relI [of "Suc k" fn env] k inv by auto
  note dyn = sym_dyn_jump [OF all inv]
  consider (jump) "is_ghost_jump n" | (jumpi) "\<not> is_ghost_jump n" "is_ghost_jumpi n" | (plain) "\<not> is_ghost n"
    by (auto simp: is_ghost_def)
  then show ?thesis
  proof cases
    case jump
    then obtain v where v: "resolve_target fn k (nd_src1 n) 0 = SymResolved v" "q ! k = jump_to n v"
      using allD [OF k] by (auto simp: symcfg_resolved_def Let_def n_def)
    moreover have "dyn_jump (fn_nodes fn) env tr (nd_src1 n) = Some c'" using nx jump dp by simp
    ultimately obtain r' where "find_label q (evm_label v) = Some r'" "sym_rel fn q c' (Run r' env tr)"
      using dyn by blast
    then show ?thesis unfolding dq v(2) by (simp add: next_br jump_to_def evm_label_copy)
  next
    case jumpi
    have "length (nd_label n) < IR_LABEL_MAX" using ok k by (simp add: list_all_length sym_ok_def n_def)
    then obtain v where v: "resolve_target fn k (nd_label n) 0 = SymResolved v" "q ! k = n\<lparr> nd_label := evm_label v \<rparr>"
      using allD [OF k] jumpi by (auto simp: symcfg_resolved_def Let_def n_def c_copy_id)
    have op: "nd_op n = IR_BR_IF" using jumpi by (simp add: is_ghost_jumpi_def)
    obtain c where c: "env (nd_src1 n) = Some c"
      "(if truth c then dyn_jump (fn_nodes fn) env tr (nd_label n) else Some (Run (drop (Suc k) (fn_nodes fn)) env tr)) = Some c'"
      using nx jumpi dp by (auto split: option.splits)
    show ?thesis
    proof (cases "truth c")
      case True
      then obtain r' where "find_label q (evm_label v) = Some r'" "sym_rel fn q c' (Run r' env tr)"
        using dyn [OF _ v(1)] c(2) by (metis (full_types))
      then show ?thesis using c(1) True op unfolding dq v(2) by (simp add: next_br_if)
    next
      case False
      then show ?thesis using c op go unfolding dq v(2) by (simp add: next_br_if)
    qed
  next
    case plain
    then have q: "q ! k = n" using allD [OF k] by (auto simp: symcfg_resolved_def Let_def n_def is_ghost_def)
    have "ir_next fp ext (fn_nodes fn) (Run (drop k (fn_nodes fn)) env tr) = Some c'"
      using nx plain dp by (simp add: is_ghost_def)
    then show ?thesis using sym_sim_plain [OF all inv ssa ok k dp _ n_def] dq q by simp
  qed
qed

lemma sym_simulation:
  assumes all: "all_resolved fn q" and ssa: "ssa_form (fn_nodes fn)"
    and ok: "list_all sym_ok (fn_nodes fn)"
    and st: "ghost_steps fp ext (fn_nodes fn) c c'" and rel: "sym_rel fn q c d" and fin: "c' = Done tr"
  shows "ir_steps fp ext q d (Done tr)"
  using st rel fin
proof (induction arbitrary: d rule: ghost_steps.induct)
  case (ghost_refl c)
  then have "d = Done tr" by (auto elim: sym_rel_DoneE)
  then show ?case by (simp add: ir_steps.refl)
next
  case (ghost_step c c1 c2)
  have "\<exists>d1. ir_next fp ext q d = Some d1 \<and> sym_rel fn q c1 d1"
    using ghost_step.prems(1)
  proof (cases rule: sym_rel.cases)
    case (sym_run k env tr)
    show ?thesis
    proof (cases "k < length (fn_nodes fn)")
      case True
      then show ?thesis using sym_sim [OF all sym_run(4) ssa ok] ghost_step.hyps(1) sym_run(1,2) by auto
    next
      case False
      then show ?thesis using ghost_step.hyps(1) sym_run all by (auto simp: all_resolved_def intro: sym_fin)
    qed
  next
    case (sym_fin tr)
    then show ?thesis using ghost_step.hyps(1) by simp
  qed
  then show ?case using ghost_step.IH ghost_step.prems(2) ir_steps.step by blast
qed

subsection \<open>Facts about the table\<close>

lemma label_table_has_set: "label_table_has t v \<longleftrightarrow> v \<in> set t"
  by (induction t) auto

lemma label_table_build_set:
  "v \<in> set (label_table_build fn) \<Longrightarrow>
   \<exists>n \<in> set (fn_nodes fn). nd_op n = IR_LABEL \<and> take 7 (nd_label n) = ''.L_evm_'' \<and> strtol10 (drop 7 (nd_label n)) = v"
proof -
  have "v \<in> set (foldl (\<lambda>t n. if nd_op n = IR_LABEL \<and> take 7 (nd_label n) = ''.L_evm_''
            then label_table_add t (strtol10 (drop 7 (nd_label n))) else t) t0 ns) \<Longrightarrow>
        v \<in> set t0 \<or> (\<exists>n \<in> set ns. nd_op n = IR_LABEL \<and> take 7 (nd_label n) = ''.L_evm_'' \<and> strtol10 (drop 7 (nd_label n)) = v)"
    for t0 ns
    by (induction ns arbitrary: t0) (fastforce simp: label_table_add_def split: if_splits)+
  then show "v \<in> set (label_table_build fn) \<Longrightarrow> ?thesis"
    unfolding label_table_build_def label_table_clear_def by fastforce
qed

text \<open>Labels written by the lifter: the offset in decimal after the prefix.\<close>

definition canon_labels :: "ir_func \<Rightarrow> bool" where
  "canon_labels fn \<longleftrightarrow> list_all (\<lambda>n. nd_op n = IR_LABEL \<and> take 7 (nd_label n) = ''.L_evm_'' \<longrightarrow>
     nd_label n = evm_label (strtol10 (drop 7 (nd_label n)))) (fn_nodes fn)"

definition has_label :: "ir_func \<Rightarrow> cstr \<Rightarrow> bool" where
  "has_label fn l \<longleftrightarrow> list_ex (\<lambda>n. nd_op n = IR_LABEL \<and> nd_label n = l) (fn_nodes fn)"

lemma table_label:
  assumes "canon_labels fn" "label_table_has (label_table_build fn) v"
  shows "has_label fn (evm_label v)"
proof -
  obtain n where "n \<in> set (fn_nodes fn)" "nd_op n = IR_LABEL" "take 7 (nd_label n) = ''.L_evm_''"
      "strtol10 (drop 7 (nd_label n)) = v"
    using assms(2) label_table_build_set unfolding label_table_has_set by blast
  then show ?thesis using assms(1) by (fastforce simp: canon_labels_def has_label_def list_all_iff list_ex_iff)
qed

text \<open>What becomes of the node at a position: the same, a jump to an existing label, or a barrier.\<close>

definition ghost_outcome :: "ir_func \<Rightarrow> ir_node \<Rightarrow> ir_node \<Rightarrow> bool" where
  "ghost_outcome fn n n' \<longleftrightarrow>
     (if is_ghost n
      then (nd_op n' \<in> {IR_BR, IR_BR_IF} \<and> has_label fn (nd_label n') \<and> nd_dst n' = nd_dst n)
           \<or> (nd_op n' = IR_NOP \<and> nd_tag n' = IR_TAG_EVM_BARRIER)
      else n' = n)"

lemma ghost_outcome_node:
  assumes "symcfg_node (label_table_build fn) fn k = Some (n', ok)" "canon_labels fn"
  shows "ghost_outcome fn (fn_nodes fn ! k) n' \<and> \<not> is_ghost n'"
proof -
  have ev: "evm_label v \<noteq> [] \<and> hd (evm_label v) = CHR ''.''" for v by (simp add: evm_label_def)
  let ?n = "fn_nodes fn ! k"
  have ne: "IR_TAG_EVM_BARRIER \<noteq> IR_TAG_NONE" by (simp add: IR_TAG_EVM_BARRIER_def IR_TAG_NONE_def)
  consider (jump) "is_ghost_jump ?n" | (jumpi) "\<not> is_ghost_jump ?n" "is_ghost_jumpi ?n" | (plain) "\<not> is_ghost ?n"
    by (auto simp: is_ghost_def)
  then show ?thesis
  proof cases
    case jump
    then have "symcfg_jump (label_table_build fn) ?n (resolve_target fn k (nd_src1 ?n) 0) = Some (n', ok)"
      using assms(1) by (simp add: symcfg_node_def Let_def)
    then show ?thesis
    proof (cases rule: symcfg_jump_cases)
      case (good v)
      have "has_label fn (evm_label v)" using table_label [OF assms(2) good(2)] .
      then show ?thesis using jump good(4)
        by (simp add: ghost_outcome_def is_ghost_def is_ghost_jump_def is_ghost_jumpi_def jump_to_def evm_label_copy)
    next
      case bad
      then show ?thesis using jump ne
        by (simp add: ghost_outcome_def is_ghost_def is_ghost_jump_def is_ghost_jumpi_def)
    qed
  next
    case jumpi
    then have "symcfg_jumpi (label_table_build fn) ?n (resolve_target fn k (c_copy IR_LABEL_MAX (nd_label ?n)) 0)
        = Some (n', ok)"
      using assms(1) by (simp add: symcfg_node_def Let_def)
    then show ?thesis
    proof (cases rule: symcfg_jumpi_cases)
      case (good v)
      have "has_label fn (evm_label v)" using table_label [OF assms(2) good(2)] .
      then show ?thesis using jumpi good(4) ev
        by (simp add: ghost_outcome_def is_ghost_def is_ghost_jump_def is_ghost_jumpi_def evm_label_copy)
    next
      case bad
      then show ?thesis using jumpi ne
        by (simp add: ghost_outcome_def is_ghost_def is_ghost_jump_def is_ghost_jumpi_def drop_branch_def)
    qed
  next
    case plain
    then show ?thesis using assms(1)
      by (auto simp: symcfg_node_def Let_def ghost_outcome_def is_ghost_def)
  qed
qed

subsection \<open>Concrete functions\<close>

definition mk_op :: "ir_op \<Rightarrow> cstr \<Rightarrow> cstr \<Rightarrow> cstr \<Rightarrow> ir_node" where
  "mk_op op d a l = ir_node_alloc\<lparr> nd_op := op, nd_dst := d, nd_src1 := a, nd_label := l \<rparr>"

definition symcfg_func :: "ir_node list \<Rightarrow> ir_func" where
  "symcfg_func ns = \<lparr> fn_name = ''evm'', fn_ret_type = IR_TY_VOID, fn_nodes = ns, fn_node_count = int (length ns),
     fn_tmp_counter = 9, fn_lbl_counter = 0, fn_num_params = 0, fn_param_names = replicate 8 [] \<rparr>"

definition symcfg_example :: ir_func where
  "symcfg_example = symcfg_func
     [mk_const ''t0'' 3, mk_const ''t1'' 4, mk_bin IR_ADD IR_TY_I64 ''t2'' ''t0'' ''t1'',
      mk_op IR_NOP [] ''t2'' [], mk_const ''t3'' 1, mk_ret ''t3'',
      mk_op IR_LABEL [] [] ''.L_evm_7'', mk_const ''t4'' 42, mk_ret ''t4'']"

lemmas symcfg_eval = symcfg_func_def mk_op_def mk_const_def mk_bin_def mk_ret_def ir_node_alloc_def

definition symcfg_out :: "ir_func \<Rightarrow> ir_func" where
  "symcfg_out fn = (case ir_pass_symbolic_cfg fn of Some (fn', _) \<Rightarrow> fn' | None \<Rightarrow> fn)"

definition jumpi_example :: ir_func where
  "jumpi_example = symcfg_func
     [mk_op IR_LOAD ''t0'' [] [], mk_const ''t1'' 1, mk_op IR_BR_IF [] ''t1'' ''t0'',
      mk_const ''t2'' 9, mk_ret ''t2'', mk_op IR_LABEL [] [] ''.L_evm_0'', mk_const ''t3'' 7, mk_ret ''t3'']"

definition run_ghost :: "ir_node list \<Rightarrow> event list option" where
  "run_ghost p = final_trace (ghost_iter fp0 ext0 p 40 (Run p Map.empty []))"

lemma run_ghost_result: "run_ghost p = Some tr \<Longrightarrow> ghost_result fp0 ext0 p Map.empty tr"
  unfolding run_ghost_def by (rule ghost_iter_result)

lemma symcfg_example_ghost: "ghost_result fp0 ext0 (fn_nodes symcfg_example) Map.empty [ret_ev 42]"
  by (rule run_ghost_result) code_simp

lemma symcfg_out_run:
  assumes "map_option (nodes_modified \<circ> snd) (ir_pass_symbolic_cfg fn) = Some k"
  obtains r where "ir_pass_symbolic_cfg fn = Some (symcfg_out fn, r)" "nodes_modified r = k"
  using assms by (auto simp: symcfg_out_def)

subsection \<open>Properties\<close>

text \<open>C21: A function all of whose symbolic jumps are resolved (the pass reports as many modified nodes as
  there are ghosts) keeps its results: what the function computes with its dynamic jumps, each going to
  the label of the value in its target register, the rewritten function computes with direct jumps. The
  function assigns every name once, has no truncated wide constants, and its shifts right are unsigned
  and its divisions signed, as the resolver takes them.\<close>

theorem symcfg_preserves_results:
  assumes "ir_pass_symbolic_cfg fn = Some (fn', r)"
    and "nodes_modified r = int (length (filter is_ghost (fn_nodes fn)))"
    and "ssa_form (fn_nodes fn)" "fresh_env (fn_nodes fn) env" "list_all sym_ok (fn_nodes fn)"
    and "ghost_result fp ext (fn_nodes fn) env tr"
  shows "ir_result fp ext (fn_nodes fn') env tr"
proof -
  let ?tab = "label_table_build fn" let ?p = "fn_nodes fn"
  note nodes = symcfg_pass_nodes [OF assms(1)]
  let ?R = "{j. j < length ?p \<and> (\<exists>n'. symcfg_node ?tab fn j = Some (n', True))}"
  let ?G = "{j. j < length ?p \<and> is_ghost (?p ! j)}"
  have "?R \<subseteq> ?G" by (auto simp: symcfg_node_def Let_def is_ghost_def split: if_splits)
  moreover have "card ?R = card ?G" using assms(2) nodes(4) by (simp add: length_filter_conv_card)
  ultimately have eq: "?R = ?G" by (intro card_subset_eq) auto
  have ok: "is_ghost (?p ! k) \<longrightarrow> b" if "k < length ?p" "symcfg_node ?tab fn k = Some (n', b)" for k n' b
  proof
    assume "is_ghost (?p ! k)"
    then have "k \<in> ?R" unfolding eq using that(1) by blast
    then show b using that(2) by simp
  qed
  have "symcfg_resolved fn k (fn_nodes fn' ! k)" if "k < length ?p" for k
    using nodes(3) [OF that] symcfg_node_resolved ok [OF that] by metis
  then have res: "all_resolved fn (fn_nodes fn')" using nodes(2) by (simp add: all_resolved_def)
  have "sym_rel fn (fn_nodes fn') (Run ?p env []) (Run (fn_nodes fn') env [])"
    using sym_run [of 0 fn env] sym_inv_init [OF assms(4)] by simp
  then show ?thesis
    using sym_simulation [OF res assms(3,5)] assms(6) unfolding ghost_result_def ir_result_def by blast
qed

theorem symcfg_preserves_results_witness:
  "nodes_modified (snd (the (ir_pass_symbolic_cfg symcfg_example))) = 1
   \<and> ir_result fp0 ext0 (fn_nodes (symcfg_out symcfg_example)) Map.empty [ret_ev 42]"
proof -
  obtain r where r: "ir_pass_symbolic_cfg symcfg_example = Some (symcfg_out symcfg_example, r)" "nodes_modified r = 1"
  proof (rule symcfg_out_run)
    show "map_option (nodes_modified \<circ> snd) (ir_pass_symbolic_cfg symcfg_example) = Some 1" by code_simp
  qed
  have "nodes_modified r = int (length (filter is_ghost (fn_nodes symcfg_example)))"
    unfolding r(2) by code_simp
  moreover have "ssa_form (fn_nodes symcfg_example)" by code_simp
  moreover have "fresh_env (fn_nodes symcfg_example) Map.empty" by code_simp
  moreover have "list_all sym_ok (fn_nodes symcfg_example)" by code_simp
  ultimately show ?thesis
    using symcfg_preserves_results [OF r(1)] symcfg_example_ghost r by simp
qed

text \<open>After the pass no symbolic jump is left, whatever could be resolved: every ghost has become a
  branch to a label that exists or a barrier, every other node is the one it was, and the node counter and
  the length are unchanged. Labels are those the lifter writes.\<close>

lemma symcfg_no_ghost_left:
  assumes "ir_pass_symbolic_cfg fn = Some (fn', r)" "canon_labels fn"
  shows "list_all2 (ghost_outcome fn) (fn_nodes fn) (fn_nodes fn') \<and> list_all (\<lambda>n. \<not> is_ghost n) (fn_nodes fn')
     \<and> fn_node_count fn' = fn_node_count fn"
proof -
  note nodes = symcfg_pass_nodes [OF assms(1)]
  have at: "ghost_outcome fn (fn_nodes fn ! k) (fn_nodes fn' ! k) \<and> \<not> is_ghost (fn_nodes fn' ! k)"
    if "k < length (fn_nodes fn)" for k
    using nodes(3) [OF that] ghost_outcome_node assms(2) by blast
  moreover have "fn_node_count fn' = fn_node_count fn" 
    by (rule trans [OF arg_cong [OF nodes(1), of fn_node_count]]) simp
  ultimately show ?thesis using nodes(2) by (simp add: list_all2_conv_all_nth list_all_length)
qed

lemma symcfg_no_ghost_left_witness:
  "list_all2 (ghost_outcome jumpi_example) (fn_nodes jumpi_example) (fn_nodes (symcfg_out jumpi_example))
   \<and> list_ex is_ghost (fn_nodes jumpi_example)"
proof -
  obtain r where r: "ir_pass_symbolic_cfg jumpi_example = Some (symcfg_out jumpi_example, r)"
  proof (rule symcfg_out_run)
    show "map_option (nodes_modified \<circ> snd) (ir_pass_symbolic_cfg jumpi_example) = Some 0" by code_simp
  qed
  have "canon_labels jumpi_example" by code_simp
  moreover have "list_ex is_ghost (fn_nodes jumpi_example)" by code_simp
  ultimately show ?thesis using symcfg_no_ghost_left [OF r] by simp
qed


end
