(* ===== verification/EvmMemory.thy ===== *)
theory EvmMemory
  imports EvmShift
begin

text \<open>
  The memory arena of the EVM lifter, \<^verbatim>\<open>src/evm/memory_v2.c\<close>: a byte array that grows by doubling up to
  a ceiling of one gibibyte, with the overflow guards of every entry point. A NULL arena is \<open>None\<close>;
  \<open>realloc\<close> is assumed to succeed, so an operation is refused only by the guards and the ceiling.
  The bytes are a function on positions, of which those below the capacity exist.

  The contract of the arena is a locale of read and write operations over one byte map; the lemmas of
  its clients are proved in it, and it is interpreted on the code below.
\<close>

subsection \<open>The arena\<close>

definition MEM_V2_MAX_CAP :: nat where "MEM_V2_MAX_CAP = 2 ^ 30"
definition SIZE_MAX :: nat where "SIZE_MAX = 2 ^ 64 - 1"

record memory_v2 =
  mv_bytes :: "nat \<Rightarrow> u8"
  mv_size :: nat
  mv_capacity :: nat

definition memory_v2_new :: "memory_v2 option" where
  "memory_v2_new = Some \<lparr> mv_bytes = (\<lambda>_. 0), mv_size = 0, mv_capacity = 65536 \<rparr>"

text \<open>The doubling loop: \<^verbatim>\<open>while (new_cap < needed)\<close>. On a capacity of 0 it would never end.\<close>

partial_function (option) grow_cap :: "nat \<Rightarrow> nat \<Rightarrow> nat option" where
  "grow_cap needed new_cap =
     (if new_cap < needed then
        (if new_cap > SIZE_MAX div 2 \<or> new_cap > MEM_V2_MAX_CAP div 2
         then Some (if needed < MEM_V2_MAX_CAP then needed else MEM_V2_MAX_CAP)
         else grow_cap needed (new_cap * 2))
      else Some new_cap)"

definition update_size :: "memory_v2 \<Rightarrow> nat \<Rightarrow> memory_v2" where
  "update_size m needed = (if needed > mv_size m then m\<lparr> mv_size := needed \<rparr> else m)"

text \<open>The result is \<open>None\<close> for the return value -1.\<close>

definition ensure_capacity :: "memory_v2 \<Rightarrow> nat \<Rightarrow> memory_v2 option" where
  "ensure_capacity m needed =
     (if needed \<le> mv_capacity m then Some (update_size m needed)
      else case grow_cap needed (mv_capacity m) of
          None \<Rightarrow> None
        | Some new_cap \<Rightarrow>
            if new_cap < needed then None
            else Some (update_size
                   (m\<lparr> mv_bytes := (\<lambda>i. if mv_capacity m \<le> i \<and> i < new_cap then 0 else mv_bytes m i),
                       mv_capacity := new_cap \<rparr>) needed))"

definition put_bytes :: "(nat \<Rightarrow> u8) \<Rightarrow> nat \<Rightarrow> u8 list \<Rightarrow> nat \<Rightarrow> u8" where
  "put_bytes f off bs = (\<lambda>i. if off \<le> i \<and> i < off + length bs then bs ! (i - off) else f i)"

definition mstore_v2 :: "memory_v2 option \<Rightarrow> u64 \<Rightarrow> evm_u256 \<Rightarrow> memory_v2 option" where
  "mstore_v2 mem offset v = (case mem of None \<Rightarrow> None | Some m \<Rightarrow>
     if unat offset > SIZE_MAX - 32 then Some m
     else case ensure_capacity m (unat offset + 32) of None \<Rightarrow> Some m
        | Some m' \<Rightarrow> Some (m'\<lparr> mv_bytes := put_bytes (mv_bytes m') (unat offset) v \<rparr>))"

definition mstore8_v2 :: "memory_v2 option \<Rightarrow> u64 \<Rightarrow> u8 \<Rightarrow> memory_v2 option" where
  "mstore8_v2 mem offset v = (case mem of None \<Rightarrow> None | Some m \<Rightarrow>
     if unat offset > SIZE_MAX - 1 then Some m
     else case ensure_capacity m (unat offset + 1) of None \<Rightarrow> Some m
        | Some m' \<Rightarrow> Some (m'\<lparr> mv_bytes := (mv_bytes m')(unat offset := v) \<rparr>))"

text \<open>\<^verbatim>\<open>memory_v2_get_ptr\<close> with the bytes the caller may read through the pointer.\<close>

definition memory_v2_get_ptr :: "memory_v2 option \<Rightarrow> u64 \<Rightarrow> nat \<Rightarrow> memory_v2 option \<times> u8 list option" where
  "memory_v2_get_ptr mem offset len = (case mem of None \<Rightarrow> (None, None) | Some m \<Rightarrow>
     if len > SIZE_MAX - unat offset then (mem, None)
     else case ensure_capacity m (unat offset + len) of None \<Rightarrow> (mem, None)
        | Some m' \<Rightarrow> (Some m', Some (map (mv_bytes m') [unat offset ..< unat offset + len])))"

definition mload_v2 :: "memory_v2 option \<Rightarrow> u64 \<Rightarrow> memory_v2 option \<times> evm_u256" where
  "mload_v2 mem offset = (case mem of None \<Rightarrow> (None, zero32) | Some m \<Rightarrow>
     if unat offset > SIZE_MAX - 32 then (mem, zero32)
     else case ensure_capacity m (unat offset + 32) of None \<Rightarrow> (mem, zero32)
        | Some m' \<Rightarrow> (Some m', map (\<lambda>i. mv_bytes m' (unat offset + i)) [0..<32]))"

definition sstore_v2 :: "memory_v2 option \<Rightarrow> evm_u256 \<Rightarrow> evm_u256 \<Rightarrow> memory_v2 option" where
  "sstore_v2 mem slot v = mem"

subsection \<open>Growth\<close>

definition mem_ok :: "memory_v2 \<Rightarrow> bool" where
  "mem_ok m \<longleftrightarrow> 65536 \<le> mv_capacity m \<and> mv_capacity m \<le> MEM_V2_MAX_CAP \<and> mv_size m \<le> mv_capacity m"

text \<open>The byte map an arena stands for: what was never allocated reads as 0.\<close>

definition mem_view :: "memory_v2 \<Rightarrow> nat \<Rightarrow> u8" where
  "mem_view m i = (if i < mv_capacity m then mv_bytes m i else 0)"

lemma grow_cap_result:
  assumes "0 < c" "c \<le> MEM_V2_MAX_CAP"
  obtains k where "grow_cap needed c = Some k" "c \<le> k" "k \<le> MEM_V2_MAX_CAP" "needed \<le> MEM_V2_MAX_CAP \<longrightarrow> needed \<le> k"
proof -
  have "\<exists>k. grow_cap needed c = Some k \<and> c \<le> k \<and> k \<le> MEM_V2_MAX_CAP \<and> (needed \<le> MEM_V2_MAX_CAP \<longrightarrow> needed \<le> k)"
    using assms
  proof (induction "MEM_V2_MAX_CAP - c" arbitrary: c rule: less_induct)
    case less
    show ?case
    proof (cases "c < needed \<and> \<not> (c > SIZE_MAX div 2 \<or> c > MEM_V2_MAX_CAP div 2)")
      case True
      then have b: "c * 2 \<le> MEM_V2_MAX_CAP" by auto
      have "MEM_V2_MAX_CAP - c * 2 < MEM_V2_MAX_CAP - c" using b less.prems(1) by linarith
      then obtain k where k: "grow_cap needed (c * 2) = Some k" "c * 2 \<le> k" "k \<le> MEM_V2_MAX_CAP"
          "needed \<le> MEM_V2_MAX_CAP \<longrightarrow> needed \<le> k"
        using less.hyps [of "c * 2"] less.prems(1) b by auto
      have "grow_cap needed c = grow_cap needed (c * 2)" using True by (subst grow_cap.simps) simp
      then show ?thesis using k by auto
    next
      case False
      then show ?thesis using less.prems by (subst grow_cap.simps) auto
    qed
  qed
  then show ?thesis using that by blast
qed

lemma ensure_capacity_cases:
  assumes "mem_ok m"
  obtains (ok) m' where "needed \<le> MEM_V2_MAX_CAP" "ensure_capacity m needed = Some m'" "mem_ok m'"
      "mem_view m' = mem_view m" "needed \<le> mv_capacity m'" "mv_size m' = max (mv_size m) needed"
    | (full) "MEM_V2_MAX_CAP < needed" "ensure_capacity m needed = None"
proof -
  have c: "0 < mv_capacity m" "mv_capacity m \<le> MEM_V2_MAX_CAP" "mv_size m \<le> mv_capacity m"
    using assms by (auto simp: mem_ok_def)
  obtain k where k: "grow_cap needed (mv_capacity m) = Some k" "mv_capacity m \<le> k" "k \<le> MEM_V2_MAX_CAP"
      "needed \<le> MEM_V2_MAX_CAP \<longrightarrow> needed \<le> k"
    using grow_cap_result [OF c(1,2)] by blast
  show ?thesis
  proof (cases "needed \<le> MEM_V2_MAX_CAP")
    case True
    have nk: "needed \<le> k" using k(4) True by blast
    show ?thesis
    proof (cases "needed \<le> mv_capacity m")
      case small: True
      then show ?thesis using True assms
        by (intro ok [of "update_size m needed"])
          (auto simp: ensure_capacity_def update_size_def mem_ok_def mem_view_def fun_eq_iff)
    next
      case False
      then show ?thesis using True assms k nk
        by (intro ok) (auto simp: ensure_capacity_def update_size_def mem_ok_def mem_view_def fun_eq_iff)
    qed
  next
    case False
    then have "k < needed" "mv_capacity m < needed" using k c by linarith+
    then show ?thesis using False k full by (simp add: ensure_capacity_def)
  qed
qed

subsection \<open>The contract of an arena\<close>

datatype arena_op = ASet32 u64 evm_u256 | ASet8 u64 u8 | AGet u64 | ARead u64 nat

fun op_end :: "arena_op \<Rightarrow> nat" where
  "op_end (ASet32 a v) = unat a + 32"
| "op_end (ASet8 a b) = unat a + 1"
| "op_end (AGet a) = unat a + 32"
| "op_end (ARead a n) = unat a + n"

fun op_bytes_ok :: "arena_op \<Rightarrow> bool" where
  "op_bytes_ok (ASet32 a v) = bytes_ok v"
| "op_bytes_ok _ = True"

text \<open>The specification: one total map of bytes.\<close>

fun flat_op :: "(nat \<Rightarrow> u8) \<Rightarrow> arena_op \<Rightarrow> (nat \<Rightarrow> u8) \<times> u8 list" where
  "flat_op f (ASet32 a v) = (put_bytes f (unat a) v, [])"
| "flat_op f (ASet8 a b) = (f(unat a := b), [])"
| "flat_op f (AGet a) = (f, map (\<lambda>i. f (unat a + i)) [0..<32])"
| "flat_op f (ARead a n) = (f, map f [unat a ..< unat a + n])"

fun flat_run :: "(nat \<Rightarrow> u8) \<Rightarrow> arena_op list \<Rightarrow> (nat \<Rightarrow> u8) \<times> u8 list list" where
  "flat_run f [] = (f, [])"
| "flat_run f (x # xs) =
     (let (f1, r) = flat_op f x; (f2, rs) = flat_run f1 xs in (f2, r # rs))"

locale evm_arena =
  fixes st32 :: "'m \<Rightarrow> u64 \<Rightarrow> evm_u256 \<Rightarrow> 'm"
    and st8 :: "'m \<Rightarrow> u64 \<Rightarrow> u8 \<Rightarrow> 'm"
    and ld32 :: "'m \<Rightarrow> u64 \<Rightarrow> 'm \<times> evm_u256"
    and ldn :: "'m \<Rightarrow> u64 \<Rightarrow> nat \<Rightarrow> 'm \<times> u8 list option"
    and ok :: "'m \<Rightarrow> bool"
    and view :: "'m \<Rightarrow> nat \<Rightarrow> u8"
    and lim :: nat
  assumes st32_ok: "ok m \<Longrightarrow> bytes_ok v \<Longrightarrow> ok (st32 m a v)"
    and st32_view: "ok m \<Longrightarrow> bytes_ok v \<Longrightarrow> unat a + 32 \<le> lim \<Longrightarrow> view (st32 m a v) = put_bytes (view m) (unat a) v"
    and st8_ok: "ok m \<Longrightarrow> ok (st8 m a b)"
    and st8_view: "ok m \<Longrightarrow> unat a + 1 \<le> lim \<Longrightarrow> view (st8 m a b) = (view m)(unat a := b)"
    and ld32_ok: "ok m \<Longrightarrow> ok (fst (ld32 m a))"
    and ld32_view: "ok m \<Longrightarrow> view (fst (ld32 m a)) = view m"
    and ld32_value: "ok m \<Longrightarrow> unat a + 32 \<le> lim \<Longrightarrow> snd (ld32 m a) = map (\<lambda>i. view m (unat a + i)) [0..<32]"
    and ldn_ok: "ok m \<Longrightarrow> ok (fst (ldn m a n))"
    and ldn_view: "ok m \<Longrightarrow> view (fst (ldn m a n)) = view m"
    and ldn_value: "ok m \<Longrightarrow> unat a + n \<le> lim \<Longrightarrow> snd (ldn m a n) = Some (map (view m) [unat a ..< unat a + n])"
begin

fun arena_step :: "'m \<Rightarrow> arena_op \<Rightarrow> 'm \<times> u8 list" where
  "arena_step m (ASet32 a v) = (st32 m a v, [])"
| "arena_step m (ASet8 a b) = (st8 m a b, [])"
| "arena_step m (AGet a) = ld32 m a"
| "arena_step m (ARead a n) = (let (m', r) = ldn m a n in (m', case r of None \<Rightarrow> [] | Some bs \<Rightarrow> bs))"

lemma arena_step_flat:
  assumes "ok m" "op_end x \<le> lim" "op_bytes_ok x"
  shows "ok (fst (arena_step m x))"
    and "(view (fst (arena_step m x)), snd (arena_step m x)) = flat_op (view m) x"
proof -
  have "ok (fst (arena_step m x)) \<and> (view (fst (arena_step m x)), snd (arena_step m x)) = flat_op (view m) x"
  proof (cases x)
    case (ASet32 a v)
    then show ?thesis using assms st32_ok st32_view by simp
  next
    case (ASet8 a b)
    then show ?thesis using assms st8_ok st8_view by simp
  next
    case (AGet a)
    then show ?thesis using assms ld32_ok ld32_view ld32_value by simp
  next
    case (ARead a n)
    obtain m' r where l: "ldn m a n = (m', r)" by (cases "ldn m a n")
    have "ok m'" "view m' = view m" "r = Some (map (view m) [unat a ..< unat a + n])"
      using assms ARead ldn_ok [of m a n] ldn_view [of m a n] ldn_value [of m a n] l by simp_all
    then show ?thesis using ARead l by simp
  qed
  then show "ok (fst (arena_step m x))"
    "(view (fst (arena_step m x)), snd (arena_step m x)) = flat_op (view m) x" by blast+
qed

lemma load_after_store:
  assumes "ok m" "bytes_ok v" "unat a + 32 \<le> lim"
  shows "snd (ld32 (st32 m a v) a) = v"
proof -
  have "map (\<lambda>i. put_bytes (view m) (unat a) v (unat a + i)) [0..<32] = map (\<lambda>i. v ! i) [0..<32]"
    using assms(2) by (simp add: put_bytes_def bytes_ok_def)
  also have "\<dots> = v" using assms(2) map_nth [of v] by (simp add: bytes_ok_def)
  finally show ?thesis using assms ld32_value st32_ok st32_view by simp
qed

lemma load_other_store:
  assumes "ok m" "bytes_ok v" "unat a + 32 \<le> lim" "unat b + 32 \<le> lim"
    and "unat a + 32 \<le> unat b \<or> unat b + 32 \<le> unat a"
  shows "snd (ld32 (st32 m a v) b) = snd (ld32 m b)"
proof -
  have "map (\<lambda>i. put_bytes (view m) (unat a) v (unat b + i)) [0..<32] = map (\<lambda>i. view m (unat b + i)) [0..<32]"
    using assms(2,5) by (auto simp: put_bytes_def bytes_ok_def)
  then show ?thesis using assms ld32_value st32_ok st32_view by simp
qed

end

text \<open>The code provides it.\<close>

definition arena_ok :: "memory_v2 option \<Rightarrow> bool" where
  "arena_ok mem = (case mem of None \<Rightarrow> False | Some m \<Rightarrow> mem_ok m)"

definition arena_view :: "memory_v2 option \<Rightarrow> nat \<Rightarrow> u8" where
  "arena_view mem = (case mem of None \<Rightarrow> (\<lambda>_. 0) | Some m \<Rightarrow> mem_view m)"

lemma view_put:
  "off + length bs \<le> mv_capacity m \<Longrightarrow> mem_view (m\<lparr> mv_bytes := put_bytes (mv_bytes m) off bs \<rparr>) = put_bytes (mem_view m) off bs"
  by (auto simp: mem_view_def put_bytes_def fun_eq_iff)

lemma mem_ok_bytes: "mem_ok (m\<lparr> mv_bytes := f \<rparr>) = mem_ok m"
  by (simp add: mem_ok_def)

lemma cap_small: "k \<le> MEM_V2_MAX_CAP \<Longrightarrow> k \<le> SIZE_MAX"
  by (simp add: MEM_V2_MAX_CAP_def SIZE_MAX_def)

lemma guard_ok: "a + k \<le> MEM_V2_MAX_CAP \<Longrightarrow> \<not> SIZE_MAX - k < a \<and> \<not> SIZE_MAX - a < k"
  using cap_small [of "a + k"] by linarith

lemma mload_facts:
  assumes "mem_ok m"
  shows "arena_ok (fst (mload_v2 (Some m) a)) \<and> arena_view (fst (mload_v2 (Some m) a)) = mem_view m"
    and "unat a + 32 \<le> MEM_V2_MAX_CAP \<Longrightarrow> snd (mload_v2 (Some m) a) = map (\<lambda>i. mem_view m (unat a + i)) [0..<32]"
proof -
  show "arena_ok (fst (mload_v2 (Some m) a)) \<and> arena_view (fst (mload_v2 (Some m) a)) = mem_view m"
    using assms
    by (cases rule: ensure_capacity_cases [of _ "unat a + 32"]) (auto simp: assms mload_v2_def arena_ok_def arena_view_def)
  assume b: "unat a + 32 \<le> MEM_V2_MAX_CAP"
  show "snd (mload_v2 (Some m) a) = map (\<lambda>i. mem_view m (unat a + i)) [0..<32]"
    using assms
  proof (cases rule: ensure_capacity_cases [of _ "unat a + 32"])
    case (ok m')
    have "mv_bytes m' (unat a + i) = mem_view m (unat a + i)" if "i < 32" for i
      unfolding ok(4) [symmetric] using ok(5) that by (simp add: mem_view_def)
    then show ?thesis using ok guard_ok [OF b] by (simp add: mload_v2_def)
  qed (use b in simp)
qed

lemma get_ptr_facts:
  assumes "mem_ok m"
  shows "arena_ok (fst (memory_v2_get_ptr (Some m) a n)) \<and> arena_view (fst (memory_v2_get_ptr (Some m) a n)) = mem_view m"
    and "unat a + n \<le> MEM_V2_MAX_CAP \<Longrightarrow>
       snd (memory_v2_get_ptr (Some m) a n) = Some (map (mem_view m) [unat a ..< unat a + n])"
proof -
  show "arena_ok (fst (memory_v2_get_ptr (Some m) a n)) \<and> arena_view (fst (memory_v2_get_ptr (Some m) a n)) = mem_view m"
    using assms
    by (cases rule: ensure_capacity_cases [of _ "unat a + n"])
      (auto simp: assms memory_v2_get_ptr_def arena_ok_def arena_view_def)
  assume b: "unat a + n \<le> MEM_V2_MAX_CAP"
  show "snd (memory_v2_get_ptr (Some m) a n) = Some (map (mem_view m) [unat a ..< unat a + n])"
    using assms
  proof (cases rule: ensure_capacity_cases [of _ "unat a + n"])
    case (ok m')
    have "mv_bytes m' i = mem_view m i" if "i < unat a + n" for i
      unfolding ok(4) [symmetric] using ok(5) that by (simp add: mem_view_def)
    then show ?thesis using ok guard_ok [OF b] by (simp add: memory_v2_get_ptr_def)
  qed (use b in simp)
qed

lemma mstore_facts:
  assumes "mem_ok m" "bytes_ok v"
  shows "arena_ok (mstore_v2 (Some m) a v)"
    and "unat a + 32 \<le> MEM_V2_MAX_CAP \<Longrightarrow> arena_view (mstore_v2 (Some m) a v) = put_bytes (mem_view m) (unat a) v"
proof -
  show "arena_ok (mstore_v2 (Some m) a v)"
    using assms(1)
    by (cases rule: ensure_capacity_cases [of _ "unat a + 32"]) (auto simp: assms mstore_v2_def arena_ok_def mem_ok_bytes)
  assume b: "unat a + 32 \<le> MEM_V2_MAX_CAP"
  show "arena_view (mstore_v2 (Some m) a v) = put_bytes (mem_view m) (unat a) v"
    using assms(1)
  proof (cases rule: ensure_capacity_cases [of _ "unat a + 32"])
    case (ok m')
    then show ?thesis using guard_ok [OF b] assms(2)
      by (simp add: mstore_v2_def arena_view_def view_put bytes_ok_def)
  qed (use b in simp)
qed

lemma mstore8_facts:
  assumes "mem_ok m"
  shows "arena_ok (mstore8_v2 (Some m) a b)"
    and "unat a + 1 \<le> MEM_V2_MAX_CAP \<Longrightarrow> arena_view (mstore8_v2 (Some m) a b) = (mem_view m)(unat a := b)"
proof -
  show "arena_ok (mstore8_v2 (Some m) a b)"
    using assms
    by (cases rule: ensure_capacity_cases [of _ "unat a + 1"]) (auto simp: assms mstore8_v2_def arena_ok_def mem_ok_bytes)
  assume l: "unat a + 1 \<le> MEM_V2_MAX_CAP"
  show "arena_view (mstore8_v2 (Some m) a b) = (mem_view m)(unat a := b)"
    using assms
  proof (cases rule: ensure_capacity_cases [of _ "unat a + 1"])
    case (ok m')
    have "mem_view (m'\<lparr> mv_bytes := (mv_bytes m')(unat a := b) \<rparr>) = (mem_view m')(unat a := b)"
      using ok(5) by (auto simp: mem_view_def fun_eq_iff)
    then show ?thesis using ok guard_ok [OF l] by (simp add: mstore8_v2_def arena_view_def)
  qed (use l in simp)
qed

interpretation arena: evm_arena mstore_v2 mstore8_v2 mload_v2 memory_v2_get_ptr arena_ok arena_view MEM_V2_MAX_CAP
proof
  fix m :: "memory_v2 option" and a :: u64 and v :: evm_u256 and b :: u8 and n :: nat
  assume m: "arena_ok m"
  then obtain x where x: "m = Some x" "mem_ok x" by (cases m) (auto simp: arena_ok_def)
  have vx: "arena_view m = mem_view x" by (simp add: x arena_view_def)
  show "bytes_ok v \<Longrightarrow> arena_ok (mstore_v2 m a v)"
    "bytes_ok v \<Longrightarrow> unat a + 32 \<le> MEM_V2_MAX_CAP \<Longrightarrow> arena_view (mstore_v2 m a v) = put_bytes (arena_view m) (unat a) v"
    using mstore_facts [OF x(2)] vx x(1) by simp_all
  show "arena_ok (mstore8_v2 m a b)"
    "unat a + 1 \<le> MEM_V2_MAX_CAP \<Longrightarrow> arena_view (mstore8_v2 m a b) = (arena_view m)(unat a := b)"
    using mstore8_facts [OF x(2)] vx x(1) by simp_all
  show "arena_ok (fst (mload_v2 m a))" "arena_view (fst (mload_v2 m a)) = arena_view m"
    using mload_facts(1) [OF x(2)] vx x(1) by simp_all
  show "unat a + 32 \<le> MEM_V2_MAX_CAP \<Longrightarrow> snd (mload_v2 m a) = map (\<lambda>i. arena_view m (unat a + i)) [0..<32]"
    using mload_facts(2) [OF x(2)] vx x(1) by simp
  show "arena_ok (fst (memory_v2_get_ptr m a n))" "arena_view (fst (memory_v2_get_ptr m a n)) = arena_view m"
    using get_ptr_facts(1) [OF x(2)] vx x(1) by simp_all
  show "unat a + n \<le> MEM_V2_MAX_CAP \<Longrightarrow> snd (memory_v2_get_ptr m a n) = Some (map (arena_view m) [unat a ..< unat a + n])"
    using get_ptr_facts(2) [OF x(2)] vx x(1) by simp
qed

subsection \<open>Properties\<close>

lemma arena_new: "arena_ok memory_v2_new" "arena_view memory_v2_new = (\<lambda>_. 0)"
  by (simp_all add: memory_v2_new_def arena_ok_def mem_ok_def arena_view_def mem_view_def fun_eq_iff MEM_V2_MAX_CAP_def)

fun arena_run :: "memory_v2 option \<Rightarrow> arena_op list \<Rightarrow> memory_v2 option \<times> u8 list list" where
  "arena_run m [] = (m, [])"
| "arena_run m (x # xs) = (let (m1, r) = arena.arena_step m x; (m2, rs) = arena_run m1 xs in (m2, r # rs))"

lemma arena_run_flat:
  "arena_ok m \<Longrightarrow> list_all (\<lambda>x. op_end x \<le> MEM_V2_MAX_CAP \<and> op_bytes_ok x) xs \<Longrightarrow>
   arena_ok (fst (arena_run m xs)) \<and>
   (arena_view (fst (arena_run m xs)), snd (arena_run m xs)) = flat_run (arena_view m) xs"
proof (induction xs arbitrary: m)
  case Nil
  then show ?case by simp
next
  case (Cons x xs)
  obtain m1 r where s: "arena.arena_step m x = (m1, r)" by (cases "arena.arena_step m x")
  have st: "arena_ok m1" "(arena_view m1, r) = flat_op (arena_view m) x"
    using arena.arena_step_flat [of m x] Cons.prems s by simp_all
  then show ?case using Cons.IH [of m1] Cons.prems s
    by (auto simp: Let_def split: prod.splits)
qed

text \<open>C23: The arena is a flat byte memory. After any sequence of word stores, byte stores, word loads and
  range reads that stay below the ceiling, in any order and overlap, every load has returned the bytes the
  sequence of stores left in a memory that began as zeros, whatever growth happened on the way.\<close>

theorem arena_is_flat_memory:
  assumes "list_all (\<lambda>x. op_end x \<le> MEM_V2_MAX_CAP \<and> op_bytes_ok x) ops"
  shows "(arena_view (fst (arena_run memory_v2_new ops)), snd (arena_run memory_v2_new ops)) = flat_run (\<lambda>_. 0) ops"
  using arena_run_flat [OF arena_new(1) assms] unfolding arena_new(2) by blast

definition arena_example :: "arena_op list" where
  "arena_example = [ASet32 2 (replicate 32 7), ASet8 4 1, AGet 1, ARead 0 3, ASet32 0xFFFF0 (replicate 32 9)]"

theorem arena_is_flat_memory_witness:
  "snd (arena_run memory_v2_new arena_example) = [[], [], [0, 7, 7, 1] @ replicate 28 7, [0, 0, 7], []]"
proof -
  have "list_all (\<lambda>x. op_end x \<le> MEM_V2_MAX_CAP \<and> op_bytes_ok x) arena_example"
    by (simp add: arena_example_def MEM_V2_MAX_CAP_def bytes_ok_def)
  note eq = arena_is_flat_memory [OF this]
  have "snd (flat_run (\<lambda>_. 0) arena_example) = [[], [], [0, 7, 7, 1] @ replicate 28 7, [0, 0, 7], []]"
  proof -
    have u: "[0..<32] = [0,1,2,3,4,5,6,7,8,9,10,11,12,13,14,15,16,17,18,19,20,21,22,23,24,25,26,27,28,29,30,31]"
      by (simp add: upt_rec)
    have r: "replicate 28 (7 :: u8) = [7,7,7,7,7,7,7,7,7,7,7,7,7,7,7,7,7,7,7,7,7,7,7,7,7,7,7,7]"
      by (simp add: numeral_eq_Suc)
    have t: "[0..<3] = [0, 1, 2]" by (simp add: upt_rec)
    show ?thesis by (simp add: arena_example_def put_bytes_def u r t)
  qed
  then show ?thesis using eq by (metis snd_conv)
qed

end
