(* ===== verification/EvmTables.thy ===== *)
theory EvmTables
  imports EvmDiv EvmShift Keccak VulnTag
begin

text \<open>
  The tables of the EVM lifter, \<^verbatim>\<open>evm_lifter.h\<close> and \<^verbatim>\<open>evm_lifter.c\<close>: opcodes, tags, support classes
  and result codes, mnemonics, the static gas of an opcode and of a block, and the scan that marks the
  valid jump destinations. An opcode is a byte read as a number; the enumeration is a datatype with its
  byte, and the C \<^verbatim>\<open>switch\<close> goes through \<open>byte_opcode\<close>. Gas is an \<open>int\<close>; a block would need more than
  a hundred thousand storage writes to leave 32 bits.
\<close>

subsection \<open>Opcodes\<close>

datatype (plugins only: code) evm_opcode =
    EVM_STOP | EVM_ADD | EVM_MUL | EVM_SUB | EVM_DIV | EVM_SDIV | EVM_MOD | EVM_SMOD | EVM_ADDMOD
    | EVM_MULMOD | EVM_EXP | EVM_SIGNEXTEND | EVM_LT | EVM_GT | EVM_SLT | EVM_SGT | EVM_EQ
    | EVM_ISZERO | EVM_AND | EVM_OR | EVM_XOR | EVM_NOT | EVM_BYTE | EVM_SHL | EVM_SHR | EVM_SAR
    | EVM_SHA3 | EVM_ADDRESS | EVM_BALANCE | EVM_ORIGIN | EVM_CALLER | EVM_CALLVALUE
    | EVM_CALLDATALOAD | EVM_CALLDATASIZE | EVM_CALLDATACOPY | EVM_CODESIZE | EVM_CODECOPY
    | EVM_GASPRICE | EVM_EXTCODESIZE | EVM_EXTCODECOPY | EVM_RETURNDATASIZE | EVM_RETURNDATACOPY
    | EVM_EXTCODEHASH | EVM_BLOCKHASH | EVM_COINBASE | EVM_TIMESTAMP | EVM_NUMBER | EVM_PREVRANDAO
    | EVM_GASLIMIT | EVM_CHAINID | EVM_SELFBALANCE | EVM_BASEFEE | EVM_POP | EVM_MLOAD | EVM_MSTORE
    | EVM_MSTORE8 | EVM_SLOAD | EVM_SSTORE | EVM_JUMP | EVM_JUMPI | EVM_PC | EVM_MSIZE | EVM_GAS
    | EVM_JUMPDEST | EVM_TLOAD | EVM_TSTORE | EVM_PUSH0 | EVM_PUSH1 | EVM_PUSH32 | EVM_DUP1
    | EVM_DUP16 | EVM_SWAP1 | EVM_SWAP16 | EVM_LOG0 | EVM_LOG1 | EVM_LOG2 | EVM_LOG3 | EVM_LOG4
    | EVM_CREATE | EVM_CALL | EVM_CALLCODE | EVM_RETURN | EVM_DELEGATECALL | EVM_CREATE2
    | EVM_STATICCALL | EVM_REVERT | EVM_INVALID | EVM_SELFDESTRUCT

fun opcode_byte :: "evm_opcode \<Rightarrow> nat" where
  "opcode_byte EVM_STOP = 0x00"
| "opcode_byte EVM_ADD = 0x01"
| "opcode_byte EVM_MUL = 0x02"
| "opcode_byte EVM_SUB = 0x03"
| "opcode_byte EVM_DIV = 0x04"
| "opcode_byte EVM_SDIV = 0x05"
| "opcode_byte EVM_MOD = 0x06"
| "opcode_byte EVM_SMOD = 0x07"
| "opcode_byte EVM_ADDMOD = 0x08"
| "opcode_byte EVM_MULMOD = 0x09"
| "opcode_byte EVM_EXP = 0x0A"
| "opcode_byte EVM_SIGNEXTEND = 0x0B"
| "opcode_byte EVM_LT = 0x10"
| "opcode_byte EVM_GT = 0x11"
| "opcode_byte EVM_SLT = 0x12"
| "opcode_byte EVM_SGT = 0x13"
| "opcode_byte EVM_EQ = 0x14"
| "opcode_byte EVM_ISZERO = 0x15"
| "opcode_byte EVM_AND = 0x16"
| "opcode_byte EVM_OR = 0x17"
| "opcode_byte EVM_XOR = 0x18"
| "opcode_byte EVM_NOT = 0x19"
| "opcode_byte EVM_BYTE = 0x1A"
| "opcode_byte EVM_SHL = 0x1B"
| "opcode_byte EVM_SHR = 0x1C"
| "opcode_byte EVM_SAR = 0x1D"
| "opcode_byte EVM_SHA3 = 0x20"
| "opcode_byte EVM_ADDRESS = 0x30"
| "opcode_byte EVM_BALANCE = 0x31"
| "opcode_byte EVM_ORIGIN = 0x32"
| "opcode_byte EVM_CALLER = 0x33"
| "opcode_byte EVM_CALLVALUE = 0x34"
| "opcode_byte EVM_CALLDATALOAD = 0x35"
| "opcode_byte EVM_CALLDATASIZE = 0x36"
| "opcode_byte EVM_CALLDATACOPY = 0x37"
| "opcode_byte EVM_CODESIZE = 0x38"
| "opcode_byte EVM_CODECOPY = 0x39"
| "opcode_byte EVM_GASPRICE = 0x3A"
| "opcode_byte EVM_EXTCODESIZE = 0x3B"
| "opcode_byte EVM_EXTCODECOPY = 0x3C"
| "opcode_byte EVM_RETURNDATASIZE = 0x3D"
| "opcode_byte EVM_RETURNDATACOPY = 0x3E"
| "opcode_byte EVM_EXTCODEHASH = 0x3F"
| "opcode_byte EVM_BLOCKHASH = 0x40"
| "opcode_byte EVM_COINBASE = 0x41"
| "opcode_byte EVM_TIMESTAMP = 0x42"
| "opcode_byte EVM_NUMBER = 0x43"
| "opcode_byte EVM_PREVRANDAO = 0x44"
| "opcode_byte EVM_GASLIMIT = 0x45"
| "opcode_byte EVM_CHAINID = 0x46"
| "opcode_byte EVM_SELFBALANCE = 0x47"
| "opcode_byte EVM_BASEFEE = 0x48"
| "opcode_byte EVM_POP = 0x50"
| "opcode_byte EVM_MLOAD = 0x51"
| "opcode_byte EVM_MSTORE = 0x52"
| "opcode_byte EVM_MSTORE8 = 0x53"
| "opcode_byte EVM_SLOAD = 0x54"
| "opcode_byte EVM_SSTORE = 0x55"
| "opcode_byte EVM_JUMP = 0x56"
| "opcode_byte EVM_JUMPI = 0x57"
| "opcode_byte EVM_PC = 0x58"
| "opcode_byte EVM_MSIZE = 0x59"
| "opcode_byte EVM_GAS = 0x5A"
| "opcode_byte EVM_JUMPDEST = 0x5B"
| "opcode_byte EVM_TLOAD = 0x5C"
| "opcode_byte EVM_TSTORE = 0x5D"
| "opcode_byte EVM_PUSH0 = 0x5F"
| "opcode_byte EVM_PUSH1 = 0x60"
| "opcode_byte EVM_PUSH32 = 0x7F"
| "opcode_byte EVM_DUP1 = 0x80"
| "opcode_byte EVM_DUP16 = 0x8F"
| "opcode_byte EVM_SWAP1 = 0x90"
| "opcode_byte EVM_SWAP16 = 0x9F"
| "opcode_byte EVM_LOG0 = 0xA0"
| "opcode_byte EVM_LOG1 = 0xA1"
| "opcode_byte EVM_LOG2 = 0xA2"
| "opcode_byte EVM_LOG3 = 0xA3"
| "opcode_byte EVM_LOG4 = 0xA4"
| "opcode_byte EVM_CREATE = 0xF0"
| "opcode_byte EVM_CALL = 0xF1"
| "opcode_byte EVM_CALLCODE = 0xF2"
| "opcode_byte EVM_RETURN = 0xF3"
| "opcode_byte EVM_DELEGATECALL = 0xF4"
| "opcode_byte EVM_CREATE2 = 0xF5"
| "opcode_byte EVM_STATICCALL = 0xFA"
| "opcode_byte EVM_REVERT = 0xFD"
| "opcode_byte EVM_INVALID = 0xFE"
| "opcode_byte EVM_SELFDESTRUCT = 0xFF"

definition all_opcodes :: "evm_opcode list" where
  "all_opcodes = [
     EVM_STOP, EVM_ADD, EVM_MUL, EVM_SUB, EVM_DIV, EVM_SDIV, EVM_MOD, EVM_SMOD, EVM_ADDMOD, EVM_MULMOD,
     EVM_EXP, EVM_SIGNEXTEND, EVM_LT, EVM_GT, EVM_SLT, EVM_SGT, EVM_EQ, EVM_ISZERO, EVM_AND, EVM_OR,
     EVM_XOR, EVM_NOT, EVM_BYTE, EVM_SHL, EVM_SHR, EVM_SAR, EVM_SHA3, EVM_ADDRESS, EVM_BALANCE,
     EVM_ORIGIN, EVM_CALLER, EVM_CALLVALUE, EVM_CALLDATALOAD, EVM_CALLDATASIZE, EVM_CALLDATACOPY,
     EVM_CODESIZE, EVM_CODECOPY, EVM_GASPRICE, EVM_EXTCODESIZE, EVM_EXTCODECOPY, EVM_RETURNDATASIZE,
     EVM_RETURNDATACOPY, EVM_EXTCODEHASH, EVM_BLOCKHASH, EVM_COINBASE, EVM_TIMESTAMP, EVM_NUMBER,
     EVM_PREVRANDAO, EVM_GASLIMIT, EVM_CHAINID, EVM_SELFBALANCE, EVM_BASEFEE, EVM_POP, EVM_MLOAD,
     EVM_MSTORE, EVM_MSTORE8, EVM_SLOAD, EVM_SSTORE, EVM_JUMP, EVM_JUMPI, EVM_PC, EVM_MSIZE, EVM_GAS,
     EVM_JUMPDEST, EVM_TLOAD, EVM_TSTORE, EVM_PUSH0, EVM_PUSH1, EVM_PUSH32, EVM_DUP1, EVM_DUP16,
     EVM_SWAP1, EVM_SWAP16, EVM_LOG0, EVM_LOG1, EVM_LOG2, EVM_LOG3, EVM_LOG4, EVM_CREATE, EVM_CALL,
     EVM_CALLCODE, EVM_RETURN, EVM_DELEGATECALL, EVM_CREATE2, EVM_STATICCALL, EVM_REVERT, EVM_INVALID,
     EVM_SELFDESTRUCT]"

definition byte_opcode :: "nat \<Rightarrow> evm_opcode option" where
  "byte_opcode b = find (\<lambda>p. opcode_byte p = b) all_opcodes"

lemma all_opcodes_all: "x \<in> set all_opcodes"
  by (cases x) (simp_all add: all_opcodes_def)

lemma opcode_byte_distinct: "distinct (map opcode_byte all_opcodes)"
  by (simp add: all_opcodes_def)

lemma opcode_byte_inj: "opcode_byte x = opcode_byte y \<Longrightarrow> x = y"
  using opcode_byte_distinct all_opcodes_all by (auto simp: distinct_map inj_on_def)

lemma byte_opcode_byte: "byte_opcode (opcode_byte x) = Some x"
proof (cases "byte_opcode (opcode_byte x)")
  case None
  then show ?thesis using all_opcodes_all [of x] by (auto simp: byte_opcode_def find_None_iff)
next
  case (Some y)
  then have "opcode_byte y = opcode_byte x" by (auto simp: byte_opcode_def find_Some_iff)
  then show ?thesis using Some opcode_byte_inj by simp
qed

lemma byte_opcode_Some: "byte_opcode b = Some x \<longleftrightarrow> b = opcode_byte x"
  using byte_opcode_byte by (auto simp: byte_opcode_def find_Some_iff)

definition EVM_OP_NAMES :: "cstr list" where
  "EVM_OP_NAMES = [
     ''STOP'', ''ADD'', ''MUL'', ''SUB'', ''DIV'', ''SDIV'', ''MOD'', ''SMOD'', ''ADDMOD'', ''MULMOD'',
     ''EXP'', ''SIGNEXTEND'', ''INVALID'', ''INVALID'', ''INVALID'', ''INVALID'', ''LT'', ''GT'',
     ''SLT'', ''SGT'', ''EQ'', ''ISZERO'', ''AND'', ''OR'', ''XOR'', ''NOT'', ''BYTE'', ''SHL'',
     ''SHR'', ''SAR'', ''INVALID'', ''INVALID'', ''SHA3'', ''INVALID'', ''INVALID'', ''INVALID'',
     ''INVALID'', ''INVALID'', ''INVALID'', ''INVALID'', ''INVALID'', ''INVALID'', ''INVALID'',
     ''INVALID'', ''INVALID'', ''INVALID'', ''INVALID'', ''INVALID'', ''ADDRESS'', ''BALANCE'',
     ''ORIGIN'', ''CALLER'', ''CALLVALUE'', ''CALLDATALOAD'', ''CALLDATASIZE'', ''CALLDATACOPY'',
     ''CODESIZE'', ''CODECOPY'', ''GASPRICE'', ''EXTCODESIZE'', ''EXTCODECOPY'', ''RETURNDATASIZE'',
     ''RETURNDATACOPY'', ''EXTCODEHASH'', ''BLOCKHASH'', ''COINBASE'', ''TIMESTAMP'', ''NUMBER'',
     ''PREVRANDAO'', ''GASLIMIT'', ''CHAINID'', ''SELFBALANCE'', ''BASEFEE'', ''INVALID'', ''INVALID'',
     ''INVALID'', ''INVALID'', ''INVALID'', ''INVALID'', ''INVALID'', ''POP'', ''MLOAD'', ''MSTORE'',
     ''MSTORE8'', ''SLOAD'', ''SSTORE'', ''JUMP'', ''JUMPI'', ''PC'', ''MSIZE'', ''GAS'', ''JUMPDEST'',
     ''INVALID'', ''INVALID'', ''INVALID'', ''PUSH0'', ''PUSH1'', ''PUSH2'', ''PUSH3'', ''PUSH4'',
     ''PUSH5'', ''PUSH6'', ''PUSH7'', ''PUSH8'', ''PUSH9'', ''PUSH10'', ''PUSH11'', ''PUSH12'',
     ''PUSH13'', ''PUSH14'', ''PUSH15'', ''PUSH16'', ''PUSH17'', ''PUSH18'', ''PUSH19'', ''PUSH20'',
     ''PUSH21'', ''PUSH22'', ''PUSH23'', ''PUSH24'', ''PUSH25'', ''PUSH26'', ''PUSH27'', ''PUSH28'',
     ''PUSH29'', ''PUSH30'', ''PUSH31'', ''PUSH32'', ''DUP1'', ''DUP2'', ''DUP3'', ''DUP4'', ''DUP5'',
     ''DUP6'', ''DUP7'', ''DUP8'', ''DUP9'', ''DUP10'', ''DUP11'', ''DUP12'', ''DUP13'', ''DUP14'',
     ''DUP15'', ''DUP16'', ''SWAP1'', ''SWAP2'', ''SWAP3'', ''SWAP4'', ''SWAP5'', ''SWAP6'', ''SWAP7'',
     ''SWAP8'', ''SWAP9'', ''SWAP10'', ''SWAP11'', ''SWAP12'', ''SWAP13'', ''SWAP14'', ''SWAP15'',
     ''SWAP16'', ''LOG0'', ''LOG1'', ''LOG2'', ''LOG3'', ''LOG4'', ''INVALID'', ''INVALID'',
     ''INVALID'', ''INVALID'', ''INVALID'', ''INVALID'', ''INVALID'', ''INVALID'', ''INVALID'',
     ''INVALID'', ''INVALID'', ''INVALID'', ''INVALID'', ''INVALID'', ''INVALID'', ''INVALID'',
     ''INVALID'', ''INVALID'', ''INVALID'', ''INVALID'', ''INVALID'', ''INVALID'', ''INVALID'',
     ''INVALID'', ''INVALID'', ''INVALID'', ''INVALID'', ''INVALID'', ''INVALID'', ''INVALID'',
     ''INVALID'', ''INVALID'', ''INVALID'', ''INVALID'', ''INVALID'', ''INVALID'', ''INVALID'',
     ''INVALID'', ''INVALID'', ''INVALID'', ''INVALID'', ''INVALID'', ''INVALID'', ''INVALID'',
     ''INVALID'', ''INVALID'', ''INVALID'', ''INVALID'', ''INVALID'', ''INVALID'', ''INVALID'',
     ''INVALID'', ''INVALID'', ''INVALID'', ''INVALID'', ''INVALID'', ''INVALID'', ''INVALID'',
     ''INVALID'', ''INVALID'', ''INVALID'', ''INVALID'', ''INVALID'', ''INVALID'', ''INVALID'',
     ''INVALID'', ''INVALID'', ''INVALID'', ''INVALID'', ''INVALID'', ''INVALID'', ''INVALID'',
     ''INVALID'', ''INVALID'', ''INVALID'', ''CREATE'', ''CALL'', ''CALLCODE'', ''RETURN'',
     ''DELEGATECALL'', ''CREATE2'', ''INVALID'', ''INVALID'', ''INVALID'', ''INVALID'', ''STATICCALL'',
     ''INVALID'', ''INVALID'', ''REVERT'', ''INVALID'', ''SELFDESTRUCT'']"

definition evm_opcode_name :: "nat \<Rightarrow> cstr" where
  "evm_opcode_name opcode = (if opcode > 0xFF then ''INVALID'' else EVM_OP_NAMES ! opcode)"

subsection \<open>Tags\<close>

datatype evm_ir_tag =
    IR_TAG_NONE | IR_TAG_UNTRUSTED_EXTERNAL_CALL | IR_TAG_STATIC_CALL | IR_TAG_SELFDESTRUCT
    | IR_TAG_SSTORE | IR_TAG_CREATE | IR_TAG_EVM_BARRIER | IR_TAG_TRUNCATED_WIDE_CONST | IR_TAG_SHA3
    | IR_TAG_MEMORY_COPY | IR_TAG_LOG | IR_TAG_EVM_EQ | IR_TAG_EVM_LT | IR_TAG_EVM_GT
    | IR_TAG_EVM_ISZERO | IR_TAG_TLOAD | IR_TAG_TSTORE | IR_TAG_HOST_CONTEXT | IR_TAG_CALLDATALOAD
    | IR_TAG_EVM_SDIV | IR_TAG_EVM_SMOD

fun tag_code :: "evm_ir_tag \<Rightarrow> int" where
  "tag_code IR_TAG_NONE = 0"
| "tag_code IR_TAG_UNTRUSTED_EXTERNAL_CALL = 1"
| "tag_code IR_TAG_STATIC_CALL = 2"
| "tag_code IR_TAG_SELFDESTRUCT = 3"
| "tag_code IR_TAG_SSTORE = 4"
| "tag_code IR_TAG_CREATE = 5"
| "tag_code IR_TAG_EVM_BARRIER = 6"
| "tag_code IR_TAG_TRUNCATED_WIDE_CONST = 7"
| "tag_code IR_TAG_SHA3 = 8"
| "tag_code IR_TAG_MEMORY_COPY = 9"
| "tag_code IR_TAG_LOG = 10"
| "tag_code IR_TAG_EVM_EQ = 11"
| "tag_code IR_TAG_EVM_LT = 12"
| "tag_code IR_TAG_EVM_GT = 13"
| "tag_code IR_TAG_EVM_ISZERO = 14"
| "tag_code IR_TAG_TLOAD = 15"
| "tag_code IR_TAG_TSTORE = 16"
| "tag_code IR_TAG_HOST_CONTEXT = 17"
| "tag_code IR_TAG_CALLDATALOAD = 18"
| "tag_code IR_TAG_EVM_SDIV = 19"
| "tag_code IR_TAG_EVM_SMOD = 20"

definition EVM_TAG_NAMES :: "cstr list" where
  "EVM_TAG_NAMES = [
     ''IR_TAG_NONE'', ''IR_TAG_UNTRUSTED_EXTERNAL_CALL'', ''IR_TAG_STATIC_CALL'',
     ''IR_TAG_SELFDESTRUCT'', ''IR_TAG_SSTORE'', ''IR_TAG_CREATE'', ''IR_TAG_EVM_BARRIER'',
     ''IR_TAG_TRUNCATED_WIDE_CONST'', ''IR_TAG_SHA3'', ''IR_TAG_MEMORY_COPY'', ''IR_TAG_LOG'']"

definition evm_tag_name :: "int \<Rightarrow> cstr" where
  "evm_tag_name tag = (if tag < 0 \<or> tag > tag_code IR_TAG_EVM_BARRIER then ''IR_TAG_UNKNOWN''
     else EVM_TAG_NAMES ! nat tag)"

definition evm_is_call_family :: "nat \<Rightarrow> bool" where
  "evm_is_call_family opcode \<longleftrightarrow> opcode = opcode_byte EVM_CALL \<or> opcode = opcode_byte EVM_CALLCODE
     \<or> opcode = opcode_byte EVM_DELEGATECALL \<or> opcode = opcode_byte EVM_STATICCALL"

subsection \<open>Support classes\<close>

datatype evm_support_class =
    EVM_SUPPORT_FULLY_SUPPORTED | EVM_SUPPORT_APPROXIMATED_ANALYZABLE | EVM_SUPPORT_PLACEHOLDER_ONLY
  | EVM_SUPPORT_INVALID_OR_UNASSIGNED

fun evm_support_class_name :: "evm_support_class \<Rightarrow> cstr" where
  "evm_support_class_name EVM_SUPPORT_FULLY_SUPPORTED = ''FULLY_SUPPORTED''"
| "evm_support_class_name EVM_SUPPORT_APPROXIMATED_ANALYZABLE = ''APPROXIMATED_ANALYZABLE''"
| "evm_support_class_name EVM_SUPPORT_PLACEHOLDER_ONLY = ''PLACEHOLDER_ONLY''"
| "evm_support_class_name EVM_SUPPORT_INVALID_OR_UNASSIGNED = ''INVALID_OR_UNASSIGNED''"

definition op_in :: "nat \<Rightarrow> evm_opcode list \<Rightarrow> bool" where
  "op_in b xs \<longleftrightarrow> list_ex (\<lambda>x. b = opcode_byte x) xs"

definition op_between :: "nat \<Rightarrow> evm_opcode \<Rightarrow> evm_opcode \<Rightarrow> bool" where
  "op_between b x y \<longleftrightarrow> opcode_byte x \<le> b \<and> b \<le> opcode_byte y"

definition evm_opcode_support :: "nat \<Rightarrow> evm_support_class" where
  "evm_opcode_support b =
     (if b > 0xFF then EVM_SUPPORT_INVALID_OR_UNASSIGNED
      else if op_in b [EVM_STOP, EVM_RETURN, EVM_REVERT, EVM_INVALID, EVM_POP, EVM_JUMPDEST] then EVM_SUPPORT_FULLY_SUPPORTED
      else if op_between b EVM_ADD EVM_MULMOD then EVM_SUPPORT_FULLY_SUPPORTED
      else if op_in b [EVM_EXP, EVM_SIGNEXTEND] then EVM_SUPPORT_FULLY_SUPPORTED
      else if op_between b EVM_LT EVM_SAR then EVM_SUPPORT_FULLY_SUPPORTED
      else if op_in b [EVM_BYTE] then EVM_SUPPORT_FULLY_SUPPORTED
      else if op_in b [EVM_MLOAD, EVM_MSTORE, EVM_MSTORE8, EVM_SLOAD, EVM_SSTORE] then EVM_SUPPORT_FULLY_SUPPORTED
      else if op_between b EVM_PUSH1 EVM_PUSH32 then EVM_SUPPORT_FULLY_SUPPORTED
      else if op_between b EVM_DUP1 EVM_DUP16 then EVM_SUPPORT_FULLY_SUPPORTED
      else if op_between b EVM_SWAP1 EVM_SWAP16 then EVM_SUPPORT_FULLY_SUPPORTED
      else if op_in b [EVM_PUSH0] then EVM_SUPPORT_FULLY_SUPPORTED
      else if op_in b [EVM_JUMP, EVM_JUMPI] then EVM_SUPPORT_APPROXIMATED_ANALYZABLE
      else if op_in b [EVM_SHA3, EVM_CALLDATACOPY, EVM_CODECOPY, EVM_RETURNDATACOPY, EVM_EXTCODECOPY]
        then EVM_SUPPORT_APPROXIMATED_ANALYZABLE
      else if op_between b EVM_LOG0 EVM_LOG4 then EVM_SUPPORT_APPROXIMATED_ANALYZABLE
      else if op_in b [EVM_CALL, EVM_CALLCODE, EVM_DELEGATECALL, EVM_STATICCALL] then EVM_SUPPORT_APPROXIMATED_ANALYZABLE
      else if op_in b [EVM_CREATE, EVM_CREATE2] then EVM_SUPPORT_APPROXIMATED_ANALYZABLE
      else if op_between b EVM_ADDRESS EVM_CALLDATALOAD then EVM_SUPPORT_APPROXIMATED_ANALYZABLE
      else if op_between b EVM_CODESIZE EVM_BASEFEE then EVM_SUPPORT_APPROXIMATED_ANALYZABLE
      else if op_between b EVM_PC EVM_GAS then EVM_SUPPORT_APPROXIMATED_ANALYZABLE
      else if op_in b [EVM_SHA3] then EVM_SUPPORT_APPROXIMATED_ANALYZABLE
      else if op_in b [EVM_SELFDESTRUCT] then EVM_SUPPORT_APPROXIMATED_ANALYZABLE
      else EVM_SUPPORT_INVALID_OR_UNASSIGNED)"

subsection \<open>Gas\<close>

definition gas_switch :: "(nat \<times> int) list" where
  "gas_switch = [
     (0x00, 0), (0x01, 3), (0x02, 5), (0x03, 3), (0x04, 5), (0x05, 5), (0x06, 5), (0x07, 5), (0x08, 8),
     (0x09, 8), (0x0A, 10), (0x0B, 3), (0x10, 3), (0x11, 3), (0x12, 3), (0x13, 3), (0x14, 3),
     (0x15, 3), (0x16, 3), (0x17, 3), (0x18, 3), (0x19, 3), (0x1A, 3), (0x1B, 3), (0x1C, 3), (0x1D, 3),
     (0x20, 30), (0x30, 2), (0x31, 20), (0x32, 2), (0x33, 2), (0x34, 2), (0x35, 3), (0x36, 3),
     (0x37, 3), (0x38, 2), (0x39, 3), (0x3A, 2), (0x3B, 2), (0x3C, 3), (0x3D, 2), (0x3E, 3), (0x3F, 2),
     (0x40, 20), (0x41, 2), (0x42, 2), (0x43, 2), (0x44, 2), (0x45, 2), (0x46, 2), (0x47, 2),
     (0x48, 2), (0x50, 2), (0x51, 3), (0x52, 3), (0x53, 3), (0x54, 200), (0x55, 20000), (0x56, 8),
     (0x57, 10), (0x58, 2), (0x59, 2), (0x5A, 2), (0x5B, 1), (0x5C, 100), (0x5D, 100), (0x5F, 2),
     (0xA0, 375), (0xF0, 32000), (0xF1, 21000), (0xF2, 21000), (0xF3, 0), (0xF4, 21000), (0xF5, 32000),
     (0xFA, 21000), (0xFD, 0), (0xFE, 0), (0xFF, 5000)]"

definition evm_gas_for_op :: "nat \<Rightarrow> int" where
  "evm_gas_for_op b =
     (if 0x60 \<le> b \<and> b \<le> 0x7F then 3
      else if 0x80 \<le> b \<and> b \<le> 0x8F then 3
      else if 0x90 \<le> b \<and> b \<le> 0x9F then 3
      else case map_of gas_switch b of Some g \<Rightarrow> g | None \<Rightarrow> 0)"

definition insn_len :: "nat \<Rightarrow> nat" where
  "insn_len b = (if 0x60 \<le> b \<and> b \<le> 0x7F then 1 + (b - 0x60 + 1) else 1)"

definition ends_block :: "nat \<Rightarrow> bool" where
  "ends_block b \<longleftrightarrow> b = 0x56 \<or> b = 0x57 \<or> b = 0x00 \<or> b = 0xF3 \<or> b = 0xFD \<or> b = 0xFE \<or> b = 0xFF"

text \<open>The byte at an offset of the code.\<close>

definition code_at :: "u8 list \<Rightarrow> nat \<Rightarrow> nat" where
  "code_at code pc = unat (code ! pc)"

lemma insn_len_pos: "0 < insn_len b" by (simp add: insn_len_def)

function block_gas_loop :: "u8 list \<Rightarrow> nat \<Rightarrow> int \<Rightarrow> int" where
  "block_gas_loop code pc gas =
     (if pc < length code then
        (let b = code_at code pc; gas' = gas + evm_gas_for_op b; pc' = pc + insn_len b in
         if ends_block b then gas'
         else if pc' < length code \<and> code_at code pc' = 0x5B then gas'
         else block_gas_loop code pc' gas')
      else gas)"
  by pat_completeness auto
termination
  by (relation "measure (\<lambda>(code, pc, gas). length code - pc)") (auto intro: diff_less_mono2 simp: insn_len_pos)

declare block_gas_loop.simps [simp del]

definition get_block_static_gas :: "u8 list \<Rightarrow> nat \<Rightarrow> int" where
  "get_block_static_gas code pc = block_gas_loop code pc 0"

subsection \<open>Jump destinations\<close>

function scan_jumpdests :: "u8 list \<Rightarrow> nat \<Rightarrow> bool list \<Rightarrow> bool list" where
  "scan_jumpdests code p marks =
     (if p < length code then
        (let b = code_at code p in
         if b = opcode_byte EVM_JUMPDEST then scan_jumpdests code (p + 1) (marks[p := True])
         else if op_between b EVM_PUSH1 EVM_PUSH32
              then scan_jumpdests code (p + (1 + (b - opcode_byte EVM_PUSH1 + 1))) marks
         else scan_jumpdests code (p + 1) marks)
      else marks)"
  by pat_completeness auto
termination by (relation "measure (\<lambda>(code, p, marks). length code - p)") auto

declare scan_jumpdests.simps [simp del]

definition valid_jumpdests :: "u8 list \<Rightarrow> bool list" where
  "valid_jumpdests code = scan_jumpdests code 0 (replicate (length code) False)"

end
