(* ===== verification/EvmLifter.thy ===== *)
theory EvmLifter
  imports EvmTables EvmMemory
begin

text \<open>
  The instruction lifter of \<^verbatim>\<open>evm_lifter.c\<close>: its state, the virtual stack with the constants it tracks, the
  emission of tagged nodes, the gas prologue of a block, the gas clamp of the calls, one handler per
  opcode of the \<^verbatim>\<open>switch\<close>, the step and the loop over the bytecode.

  The stack is the list of its slots, top first: the arrays' entry \<^verbatim>\<open>depth - 1 - k\<close> is element \<open>k\<close>. A
  push writes all four arrays of a slot, so what the arrays hold above the depth is never read. An early
  return \<^verbatim>\<open>if (res != EVM_LIFT_OK) return res\<close> after a pop is \<open>stack_pop_then\<close>. Locals the code reads
  only when they have been set are the unknown slot otherwise. Allocation is assumed to succeed; the text
  of error messages and the two unused memory arrays of the state are left out.
\<close>

subsection \<open>State\<close>

datatype evm_val_state = EVM_VAL_UNKNOWN | EVM_VAL_KNOWN_NARROW | EVM_VAL_KNOWN_WIDE | EVM_VAL_APPROXIMATED

datatype evm_lift_result = EVM_LIFT_OK | EVM_LIFT_TRUNCATED | EVM_LIFT_INVALID_OP
  | EVM_LIFT_STACK_OVER | EVM_LIFT_STACK_UNDER | EVM_LIFT_OOM

definition EVM_STACK_MAX :: nat where "EVM_STACK_MAX = 1024"

record evm_slot =
  sl_name :: cstr
  sl_const :: u64
  sl_wide :: evm_u256
  sl_state :: evm_val_state

record evm_lifter =
  ls_bytecode :: "u8 list"
  ls_pc :: nat
  ls_stack :: "evm_slot list"
  ls_func :: ir_func
  ls_tmp_seq :: nat
  ls_error :: bool
  ls_insn_count :: int
  ls_call_count :: int
  ls_tagged_count :: int
  ls_memory :: "memory_v2 option"
  ls_valid_jumpdest :: "bool list"
  ls_gas_vreg :: cstr
  ls_block_start :: bool

type_synonym lift_out = "evm_lift_result \<times> evm_lifter"

definition lifter_length :: "evm_lifter \<Rightarrow> nat" where
  "lifter_length ls = length (ls_bytecode ls)"

subsection \<open>Nodes and names\<close>

definition lifter_fresh_tmp :: "evm_lifter \<Rightarrow> evm_lifter \<times> cstr" where
  "lifter_fresh_tmp ls = (let (fn, t) = ir_fresh_tmp (ls_func ls) in (ls\<lparr> ls_func := fn \<rparr>, t))"

definition lift_emit ::
  "evm_lifter \<Rightarrow> ir_op \<Rightarrow> ir_type \<Rightarrow> cstr \<Rightarrow> cstr \<Rightarrow> cstr \<Rightarrow> cstr \<Rightarrow> u64 \<Rightarrow> evm_lifter" where
  "lift_emit ls op ty dst s1 s2 lbl imm =
     ls\<lparr> ls_func := fst (ir_emit (ls_func ls) op ty (Some dst) (Some s1) (Some s2) (Some lbl) imm (int (ls_pc ls))) \<rparr>"

text \<open>Writing through the pointer to the node just appended.\<close>

definition on_last_node :: "(ir_node \<Rightarrow> ir_node) \<Rightarrow> evm_lifter \<Rightarrow> evm_lifter" where
  "on_last_node f ls = ls\<lparr> ls_func := (ls_func ls)\<lparr> fn_nodes :=
     butlast (fn_nodes (ls_func ls)) @ [f (last (fn_nodes (ls_func ls)))] \<rparr> \<rparr>"

definition set_vuln :: "u32 \<Rightarrow> ir_node \<Rightarrow> ir_node" where
  "set_vuln v n = (case ir_vuln_tag_set (Some n) v of Some m \<Rightarrow> m | None \<Rightarrow> n)"

definition tagged_emit ::
  "evm_lifter \<Rightarrow> ir_op \<Rightarrow> ir_type \<Rightarrow> cstr \<Rightarrow> cstr \<Rightarrow> cstr \<Rightarrow> cstr \<Rightarrow> u64 \<Rightarrow> evm_ir_tag \<Rightarrow> evm_lifter" where
  "tagged_emit ls op ty dst s1 s2 lbl imm tag =
     (let ls = lift_emit ls op ty dst s1 s2 lbl imm in
      if tag \<noteq> IR_TAG_NONE
      then (on_last_node (\<lambda>n. set_vuln (ir_vuln_map_from_evm_tag (tag_code tag)) (n\<lparr> nd_tag := tag_code tag \<rparr>)) ls)
             \<lparr> ls_tagged_count := ls_tagged_count ls + 1 \<rparr>
      else ls)"

definition emit_const :: "evm_lifter \<Rightarrow> cstr \<Rightarrow> u64 \<Rightarrow> evm_lifter" where
  "emit_const ls d v = lift_emit ls IR_CONST IR_TY_I64 d [] [] [] v"

definition emit_label :: "evm_lifter \<Rightarrow> cstr \<Rightarrow> evm_lifter" where
  "emit_label ls l = lift_emit ls IR_LABEL IR_TY_VOID [] [] [] l 0"

definition emit_br :: "evm_lifter \<Rightarrow> cstr \<Rightarrow> evm_lifter" where
  "emit_br ls l = lift_emit ls IR_BR IR_TY_VOID [] [] [] l 0"

definition emit_arg :: "evm_lifter \<Rightarrow> cstr \<Rightarrow> evm_lifter" where
  "emit_arg ls a = lift_emit ls IR_ARG IR_TY_I64 [] a [] [] 0"

definition seq_label :: "cstr \<Rightarrow> evm_lifter \<Rightarrow> evm_lifter \<times> cstr" where
  "seq_label base ls = (ls\<lparr> ls_tmp_seq := ls_tmp_seq ls + 1 \<rparr>, base @ decimal (ls_tmp_seq ls))"

subsection \<open>Gas\<close>

definition evm_apply_static_gas :: "evm_lifter \<Rightarrow> int \<Rightarrow> cstr \<Rightarrow> cstr \<Rightarrow> evm_lifter" where
  "evm_apply_static_gas ls delta current_gas next_gas =
     (let (ls, delta_vreg) = lifter_fresh_tmp ls;
          ls = emit_const ls delta_vreg (word_of_int delta);
          ls = lift_emit ls IR_SUB IR_TY_I64 next_gas current_gas delta_vreg [] 0;
          (ls, cmp_vreg) = lifter_fresh_tmp ls;
          (ls, zero_vreg) = lifter_fresh_tmp ls;
          ls = emit_const ls zero_vreg 0;
          ls = lift_emit ls IR_LT IR_TY_I64 cmp_vreg next_gas zero_vreg [] 0;
          (ls, l_oog) = seq_label ''.L_OOG_REVERT_'' ls;
          (ls, l_ok) = seq_label ''.L_OOG_OK_'' ls;
          ls = lift_emit ls IR_BR_IF IR_TY_VOID [] cmp_vreg [] l_oog 0;
          ls = on_last_node (\<lambda>br. br\<lparr> nd_tag := tag_code IR_TAG_EVM_BARRIER \<rparr>) ls;
          ls = emit_br ls l_ok;
          ls = emit_label ls l_oog;
          ls = lift_emit ls IR_RET IR_TY_VOID [] zero_vreg [] [] 0
      in emit_label ls l_ok)"

definition evm_inject_eip150_clamp :: "evm_lifter \<Rightarrow> cstr \<Rightarrow> cstr \<Rightarrow> cstr \<Rightarrow> evm_lifter" where
  "evm_inject_eip150_clamp ls req_gas avail_gas out_vreg =
     (let (ls, const_64) = lifter_fresh_tmp ls;
          ls = emit_const ls const_64 64;
          (ls, div64) = lifter_fresh_tmp ls;
          ls = lift_emit ls IR_DIV IR_TY_I64 div64 avail_gas const_64 [] 0;
          (ls, allowed) = lifter_fresh_tmp ls;
          ls = lift_emit ls IR_SUB IR_TY_I64 allowed avail_gas div64 [] 0;
          (ls, cmp) = lifter_fresh_tmp ls;
          ls = lift_emit ls IR_LT IR_TY_I64 cmp req_gas allowed [] 0;
          (ls, l_req) = seq_label ''.L_req_'' ls;
          (ls, l_all) = seq_label ''.L_all_'' ls;
          (ls, l_end) = seq_label ''.L_end_'' ls;
          ls = lift_emit ls IR_BR_IF IR_TY_VOID [] cmp [] l_req 0;
          ls = emit_br ls l_all;
          ls = emit_label ls l_req;
          ls = lift_emit ls IR_COPY IR_TY_I64 out_vreg req_gas [] [] 0;
          ls = emit_br ls l_end;
          ls = emit_label ls l_all;
          ls = lift_emit ls IR_COPY IR_TY_I64 out_vreg allowed [] [] 0;
          ls = emit_br ls l_end
      in emit_label ls l_end)"

definition evm_inject_memory_expansion_cost :: "evm_lifter \<Rightarrow> cstr \<Rightarrow> cstr \<Rightarrow> evm_lifter" where
  "evm_inject_memory_expansion_cost ls words_vreg cost_vreg =
     (let (ls, const_3) = lifter_fresh_tmp ls;
          ls = emit_const ls const_3 3;
          (ls, linear_cost) = lifter_fresh_tmp ls;
          ls = lift_emit ls IR_MUL IR_TY_I64 linear_cost words_vreg const_3 [] 0;
          (ls, squared) = lifter_fresh_tmp ls;
          ls = lift_emit ls IR_MUL IR_TY_I64 squared words_vreg words_vreg [] 0;
          (ls, const_512) = lifter_fresh_tmp ls;
          ls = emit_const ls const_512 512;
          (ls, quad_cost) = lifter_fresh_tmp ls;
          ls = lift_emit ls IR_DIV IR_TY_I64 quad_cost squared const_512 [] 0
      in lift_emit ls IR_ADD IR_TY_I64 cost_vreg linear_cost quad_cost [] 0)"

subsection \<open>The virtual stack\<close>

definition narrow_bytes :: "u64 \<Rightarrow> evm_u256" where
  "narrow_bytes v = foldl (\<lambda>bs i. bs[31 - i := ucast (drop_bit (i * 8) v AND 0xFF)]) zero32 [0..<8]"

definition overflow :: "evm_lifter \<Rightarrow> lift_out" where
  "overflow ls = (EVM_LIFT_STACK_OVER, ls\<lparr> ls_error := True \<rparr>)"

definition underflow :: "evm_lifter \<Rightarrow> lift_out" where
  "underflow ls = (EVM_LIFT_STACK_UNDER, ls\<lparr> ls_error := True \<rparr>)"

definition push_slot :: "evm_slot \<Rightarrow> evm_lifter \<Rightarrow> lift_out" where
  "push_slot s ls = (if length (ls_stack ls) \<ge> EVM_STACK_MAX then overflow ls
     else (EVM_LIFT_OK, ls\<lparr> ls_stack := s # ls_stack ls \<rparr>))"

definition stack_push_const_narrow :: "evm_lifter \<Rightarrow> cstr \<Rightarrow> u64 \<Rightarrow> lift_out" where
  "stack_push_const_narrow ls name v =
     push_slot \<lparr> sl_name = c_copy IR_NAME_MAX name, sl_const = v, sl_wide = narrow_bytes v,
                 sl_state = EVM_VAL_KNOWN_NARROW \<rparr> ls"

definition wide_payload :: "u8 list \<Rightarrow> evm_u256" where
  "wide_payload payload = (let n = min 32 (length payload) in replicate (32 - n) 0 @ take n payload)"

definition stack_push_const_wide :: "evm_lifter \<Rightarrow> cstr \<Rightarrow> u8 list \<Rightarrow> u64 \<Rightarrow> lift_out" where
  "stack_push_const_wide ls name payload truncated_val =
     push_slot \<lparr> sl_name = c_copy IR_NAME_MAX name, sl_const = truncated_val, sl_wide = wide_payload payload,
                 sl_state = EVM_VAL_KNOWN_WIDE \<rparr> ls"

text \<open>Overwriting the state and the values of the slot just pushed.\<close>

definition on_top :: "(evm_slot \<Rightarrow> evm_slot) \<Rightarrow> lift_out \<Rightarrow> lift_out" where
  "on_top f r = (case r of (res, ls) \<Rightarrow>
     if res = EVM_LIFT_OK then (res, ls\<lparr> ls_stack := (ls_stack ls)[0 := f (ls_stack ls ! 0)] \<rparr>) else r)"

definition stack_push :: "evm_lifter \<Rightarrow> cstr \<Rightarrow> lift_out" where
  "stack_push ls name =
     on_top (\<lambda>s. s\<lparr> sl_state := EVM_VAL_UNKNOWN \<rparr>) (stack_push_const_narrow ls name 0)"

definition stack_pop :: "evm_lifter \<Rightarrow> (lift_out \<times> cstr)" where
  "stack_pop ls = (case ls_stack ls of
       [] \<Rightarrow> (underflow ls, [])
     | s # rest \<Rightarrow> ((EVM_LIFT_OK, ls\<lparr> ls_stack := rest \<rparr>), c_copy IR_NAME_MAX (sl_name s)))"

definition stack_pop_then :: "evm_lifter \<Rightarrow> (cstr \<Rightarrow> evm_lifter \<Rightarrow> lift_out) \<Rightarrow> lift_out" where
  "stack_pop_then ls k = (case stack_pop ls of ((res, ls'), out) \<Rightarrow>
     if res \<noteq> EVM_LIFT_OK then (res, ls') else k out ls')"

definition stack_peek :: "evm_lifter \<Rightarrow> nat \<Rightarrow> cstr" where
  "stack_peek ls k = (if k < length (ls_stack ls) then sl_name (ls_stack ls ! k) else [])"

text \<open>Pops of several names in a row, first popped first.\<close>

fun pop_many :: "nat \<Rightarrow> evm_lifter \<Rightarrow> (cstr list \<Rightarrow> evm_lifter \<Rightarrow> lift_out) \<Rightarrow> lift_out" where
  "pop_many 0 ls k = k [] ls"
| "pop_many (Suc n) ls k = stack_pop_then ls (\<lambda>x ls. pop_many n ls (\<lambda>xs ls. k (x # xs) ls))"

definition unknown_slot :: evm_slot where
  "unknown_slot = \<lparr> sl_name = [], sl_const = 0, sl_wide = zero32, sl_state = EVM_VAL_UNKNOWN \<rparr>"

text \<open>The slot \<open>k\<close> below the top, read when the stack holds at least \<open>d\<close> slots.\<close>

definition peeked :: "nat \<Rightarrow> nat \<Rightarrow> evm_lifter \<Rightarrow> evm_slot" where
  "peeked d k ls = (if d \<le> length (ls_stack ls) then ls_stack ls ! k else unknown_slot)"

definition known :: "evm_slot \<Rightarrow> bool" where
  "known s \<longleftrightarrow> sl_state s = EVM_VAL_KNOWN_NARROW \<or> sl_state s = EVM_VAL_KNOWN_WIDE"

definition narrow :: "evm_slot \<Rightarrow> bool" where
  "narrow s \<longleftrightarrow> sl_state s = EVM_VAL_KNOWN_NARROW"

definition push_exact :: "evm_lifter \<Rightarrow> cstr \<Rightarrow> evm_u256 \<Rightarrow> lift_out" where
  "push_exact ls d v = stack_push_const_wide ls d v (evm_u256_to_narrow v)"

definition push_flag :: "evm_lifter \<Rightarrow> cstr \<Rightarrow> bool \<Rightarrow> lift_out" where
  "push_flag ls d b = stack_push_const_narrow ls d (if b then 1 else 0)"

end
