(* ===== verification/EvmStep.thy ===== *)
theory EvmStep
  imports EvmLifter
begin

text \<open>
  The handlers of the lifter's \<^verbatim>\<open>switch\<close>, one definition per opcode or group of \<^verbatim>\<open>case\<close> labels, the
  dispatch, the step with its block prologue, the initialisation and the loop over the bytecode. The
  handlers that pop two operands share the shape the code repeats for each: peek at both, pop both, take a
  fresh name, emit the node, and push the folded constant when both operands are known.
\<close>

subsection \<open>Two operands\<close>

text \<open>\<open>a\<close> is the operand below the top and \<open>b\<close> the top.\<close>

definition lift_binary ::
  "(evm_lifter \<Rightarrow> cstr \<Rightarrow> cstr \<Rightarrow> cstr \<Rightarrow> evm_lifter) \<Rightarrow>
   (evm_lifter \<Rightarrow> cstr \<Rightarrow> evm_u256 \<Rightarrow> evm_u256 \<Rightarrow> lift_out) \<Rightarrow> evm_lifter \<Rightarrow> lift_out" where
  "lift_binary em push_fold ls =
     (let a = peeked 2 1 ls; b = peeked 2 0 ls in
      stack_pop_then ls (\<lambda>tmp_b ls. stack_pop_then ls (\<lambda>tmp_a ls.
        let (ls, tmp_dst) = lifter_fresh_tmp ls; ls = em ls tmp_dst tmp_a tmp_b in
        if known a \<and> known b then push_fold ls tmp_dst (sl_wide a) (sl_wide b) else stack_push ls tmp_dst)))"

definition lift_add :: "evm_lifter \<Rightarrow> lift_out" where
  "lift_add = lift_binary (\<lambda>ls d a b. lift_emit ls IR_ADD IR_TY_I64 d a b [] 0)
     (\<lambda>ls d a b. push_exact ls d (fst (lift_u256_add a b)))"

definition lift_sub :: "evm_lifter \<Rightarrow> lift_out" where
  "lift_sub = lift_binary (\<lambda>ls d a b. lift_emit ls IR_SUB IR_TY_I64 d a b [] 0)
     (\<lambda>ls d a b. push_exact ls d (lift_u256_sub a b))"

definition lift_mul :: "evm_lifter \<Rightarrow> lift_out" where
  "lift_mul = lift_binary (\<lambda>ls d a b. lift_emit ls IR_MUL IR_TY_I64 d a b [] 0)
     (\<lambda>ls d a b. push_exact ls d (lift_u256_mul a b))"

definition lift_div :: "evm_lifter \<Rightarrow> lift_out" where
  "lift_div = lift_binary (\<lambda>ls d a b. lift_emit ls IR_DIV IR_TY_I64 d a b [] 0)
     (\<lambda>ls d a b. push_exact ls d (fst (div_mod_vals a b)))"

definition lift_sdiv :: "evm_lifter \<Rightarrow> lift_out" where
  "lift_sdiv = lift_binary (\<lambda>ls d a b. tagged_emit ls IR_DIV IR_TY_I64 d a b [] 0 IR_TAG_EVM_SDIV)
     (\<lambda>ls d a b. push_exact ls d (fst (evm_u256_sdiv_smod a b)))"

definition lift_mod :: "evm_lifter \<Rightarrow> lift_out" where
  "lift_mod = lift_binary (\<lambda>ls d a b. lift_emit ls IR_MOD IR_TY_I64 d a b [] 0)
     (\<lambda>ls d a b. push_exact ls d (snd (div_mod_vals a b)))"

definition lift_smod :: "evm_lifter \<Rightarrow> lift_out" where
  "lift_smod = lift_binary (\<lambda>ls d a b. tagged_emit ls IR_MOD IR_TY_I64 d a b [] 0 IR_TAG_EVM_SMOD)
     (\<lambda>ls d a b. push_exact ls d (snd (evm_u256_sdiv_smod a b)))"

definition lift_lt :: "evm_lifter \<Rightarrow> lift_out" where
  "lift_lt = lift_binary (\<lambda>ls d a b. tagged_emit ls IR_LT IR_TY_I32 d a b [] 0 IR_TAG_EVM_LT)
     (\<lambda>ls d a b. push_flag ls d (evm_u256_cmp a b < 0))"

definition lift_slt :: "evm_lifter \<Rightarrow> lift_out" where
  "lift_slt = lift_binary (\<lambda>ls d a b. tagged_emit ls IR_LT IR_TY_I32 d a b [] 0 IR_TAG_EVM_LT)
     (\<lambda>ls d a b. push_flag ls d (evm_u256_cmp_signed a b < 0))"

definition lift_gt :: "evm_lifter \<Rightarrow> lift_out" where
  "lift_gt = lift_binary (\<lambda>ls d a b. tagged_emit ls IR_GT IR_TY_I32 d a b [] 0 IR_TAG_EVM_GT)
     (\<lambda>ls d a b. push_flag ls d (evm_u256_cmp a b > 0))"

definition lift_sgt :: "evm_lifter \<Rightarrow> lift_out" where
  "lift_sgt = lift_binary (\<lambda>ls d a b. tagged_emit ls IR_GT IR_TY_I32 d a b [] 0 IR_TAG_EVM_GT)
     (\<lambda>ls d a b. push_flag ls d (evm_u256_cmp_signed a b > 0))"

definition lift_eq :: "evm_lifter \<Rightarrow> lift_out" where
  "lift_eq = lift_binary (\<lambda>ls d a b. tagged_emit ls IR_EQ IR_TY_I32 d a b [] 0 IR_TAG_EVM_EQ)
     (\<lambda>ls d a b. push_flag ls d (evm_u256_eq a b))"

definition lift_and :: "evm_lifter \<Rightarrow> lift_out" where
  "lift_and = lift_binary (\<lambda>ls d a b. lift_emit ls IR_AND IR_TY_I64 d a b [] 0)
     (\<lambda>ls d a b. push_exact ls d (evm_u256_and a b))"

definition lift_or :: "evm_lifter \<Rightarrow> lift_out" where
  "lift_or = lift_binary (\<lambda>ls d a b. lift_emit ls IR_OR IR_TY_I64 d a b [] 0)
     (\<lambda>ls d a b. push_exact ls d (evm_u256_or a b))"

definition lift_xor :: "evm_lifter \<Rightarrow> lift_out" where
  "lift_xor = lift_binary (\<lambda>ls d a b. lift_emit ls IR_XOR IR_TY_I64 d a b [] 0)
     (\<lambda>ls d a b. push_exact ls d (evm_u256_xor a b))"

definition lift_shl :: "evm_lifter \<Rightarrow> lift_out" where
  "lift_shl = lift_binary (\<lambda>ls d a b. lift_emit ls IR_SHL IR_TY_I64 d a b [] 0)
     (\<lambda>ls d a b. push_exact ls d (evm_u256_shl_op b a))"

definition lift_shr :: "evm_lifter \<Rightarrow> lift_out" where
  "lift_shr = lift_binary (\<lambda>ls d a b. lift_emit ls IR_SHR IR_TY_I64 d a b [] 0)
     (\<lambda>ls d a b. push_exact ls d (evm_u256_shr_op b a))"

definition lift_sar :: "evm_lifter \<Rightarrow> lift_out" where
  "lift_sar = lift_binary (\<lambda>ls d a b. lift_emit ls IR_SHR IR_TY_I64 d a b [] 0)
     (\<lambda>ls d a b. push_exact ls d (evm_u256_sar_op b a))"

definition lift_exp :: "evm_lifter \<Rightarrow> lift_out" where
  "lift_exp = lift_binary (\<lambda>ls d a b. lift_emit ls IR_NOP IR_TY_I64 d a b [] 0)
     (\<lambda>ls d a b. push_exact ls d (evm_u256_exp a b))"

definition lift_byte :: "evm_lifter \<Rightarrow> lift_out" where
  "lift_byte = lift_binary (\<lambda>ls d a b. lift_emit ls IR_NOP IR_TY_I64 d a b [] 0)
     (\<lambda>ls d a b. push_exact ls d (evm_u256_byte_op b a))"

definition lift_signextend :: "evm_lifter \<Rightarrow> lift_out" where
  "lift_signextend = lift_binary (\<lambda>ls d a b. lift_emit ls IR_NOP IR_TY_I64 d a b [] 0)
     (\<lambda>ls d a b. push_exact ls d (evm_u256_signextend_op b a))"

subsection \<open>One and three operands\<close>

definition lift_iszero :: "evm_lifter \<Rightarrow> lift_out" where
  "lift_iszero ls =
     (let a = peeked 1 0 ls in
      stack_pop_then ls (\<lambda>tmp_a ls.
        let (ls, tmp_b) = lifter_fresh_tmp ls; ls = emit_const ls tmp_b 0; (ls, tmp_dst) = lifter_fresh_tmp ls;
            ls = tagged_emit ls IR_EQ IR_TY_I32 tmp_dst tmp_a tmp_b [] 0 IR_TAG_EVM_ISZERO in
        if known a then push_flag ls tmp_dst (lift_u256_is_zero (sl_wide a)) else stack_push ls tmp_dst))"

definition lift_not :: "evm_lifter \<Rightarrow> lift_out" where
  "lift_not ls =
     (let a = peeked 1 0 ls in
      stack_pop_then ls (\<lambda>tmp_a ls.
        let (ls, tmp_dst) = lifter_fresh_tmp ls; ls = lift_emit ls IR_NOT IR_TY_I64 tmp_dst tmp_a [] [] 0 in
        if known a then push_exact ls tmp_dst (evm_u256_not (sl_wide a)) else stack_push ls tmp_dst))"

definition lift_modular :: "(evm_u256 \<Rightarrow> evm_u256 \<Rightarrow> evm_u256 \<Rightarrow> evm_u256) \<Rightarrow> evm_lifter \<Rightarrow> lift_out" where
  "lift_modular f ls =
     (let a = peeked 3 2 ls; b = peeked 3 1 ls; c = peeked 3 0 ls in
      stack_pop_then ls (\<lambda>tmp_c ls. stack_pop_then ls (\<lambda>tmp_b ls. stack_pop_then ls (\<lambda>tmp_a ls.
        let (ls, tmp_dst) = lifter_fresh_tmp ls; ls = lift_emit ls IR_NOP IR_TY_I64 tmp_dst tmp_a tmp_b [] 0 in
        if known a \<and> known b \<and> known c then push_exact ls tmp_dst (f (sl_wide a) (sl_wide b) (sl_wide c))
        else stack_push ls tmp_dst))))"

definition lift_addmod :: "evm_lifter \<Rightarrow> lift_out" where "lift_addmod = lift_modular evm_u256_addmod"
definition lift_mulmod :: "evm_lifter \<Rightarrow> lift_out" where "lift_mulmod = lift_modular evm_u256_mulmod"

subsection \<open>Memory and storage\<close>

definition lift_mload :: "evm_lifter \<Rightarrow> lift_out" where
  "lift_mload ls =
     (let a = peeked 1 0 ls in
      stack_pop_then ls (\<lambda>tmp_a ls.
        let (ls, tmp_dst) = lifter_fresh_tmp ls; ls = lift_emit ls IR_LOAD IR_TY_I64 tmp_dst tmp_a [] [] 0 in
        if narrow a
        then (case mload_v2 (ls_memory ls) (sl_const a) of (m, v) \<Rightarrow> push_exact (ls\<lparr> ls_memory := m \<rparr>) tmp_dst v)
        else stack_push ls tmp_dst))"

definition lift_store_with ::
  "(memory_v2 option \<Rightarrow> u64 \<Rightarrow> evm_u256 \<Rightarrow> memory_v2 option) \<Rightarrow> evm_lifter \<Rightarrow> lift_out" where
  "lift_store_with st ls =
     (let a = peeked 2 0 ls; b = peeked 2 1 ls in
      stack_pop_then ls (\<lambda>tmp_a ls. stack_pop_then ls (\<lambda>tmp_b ls.
        let ls = lift_emit ls IR_STORE IR_TY_I64 tmp_a tmp_b [] [] 0 in
        if narrow a \<and> known b
        then (EVM_LIFT_OK, ls\<lparr> ls_memory := st (ls_memory ls) (sl_const a) (sl_wide b) \<rparr>)
        else (EVM_LIFT_OK, ls))))"

definition lift_mstore :: "evm_lifter \<Rightarrow> lift_out" where "lift_mstore = lift_store_with mstore_v2"

definition lift_mstore8 :: "evm_lifter \<Rightarrow> lift_out" where
  "lift_mstore8 = lift_store_with (\<lambda>m off b. mstore8_v2 m off (b ! 31))"

definition lift_sload :: "evm_lifter \<Rightarrow> lift_out" where
  "lift_sload ls = stack_pop_then ls (\<lambda>tmp_a ls.
     let (ls, tmp_dst) = lifter_fresh_tmp ls;
         ls = lift_emit ls IR_LOAD IR_TY_I64 tmp_dst tmp_a [] ''__evm_sload'' 0 in stack_push ls tmp_dst)"

definition lift_sstore :: "evm_lifter \<Rightarrow> lift_out" where
  "lift_sstore ls =
     (let slot = peeked 2 0 ls; b = peeked 2 1 ls in
      stack_pop_then ls (\<lambda>tmp_a ls. stack_pop_then ls (\<lambda>tmp_b ls.
        let ls = tagged_emit ls IR_STORE IR_TY_I64 tmp_a tmp_b [] ''__evm_sstore'' 0 IR_TAG_SSTORE in
        if known slot \<and> known b
        then (EVM_LIFT_OK, ls\<lparr> ls_memory := sstore_v2 (ls_memory ls) (sl_wide slot) (sl_wide b) \<rparr>)
        else (EVM_LIFT_OK, ls))))"

definition lift_tload :: "evm_lifter \<Rightarrow> lift_out" where
  "lift_tload ls = stack_pop_then ls (\<lambda>tmp_a ls.
     let (ls, tmp_dst) = lifter_fresh_tmp ls;
         ls = tagged_emit ls IR_LOAD IR_TY_I64 tmp_dst tmp_a [] ''__evm_tload'' 0 IR_TAG_TLOAD in stack_push ls tmp_dst)"

definition lift_tstore :: "evm_lifter \<Rightarrow> lift_out" where
  "lift_tstore ls = stack_pop_then ls (\<lambda>tmp_a ls. stack_pop_then ls (\<lambda>tmp_b ls.
     (EVM_LIFT_OK, tagged_emit ls IR_STORE IR_TY_I64 tmp_a tmp_b [] ''__evm_tstore'' 0 IR_TAG_TSTORE)))"

text \<open>\<^verbatim>\<open>evm_calldata_load\<close> is not in the sources; it is handed the arena, and what it does to it is the
  parameter \<open>cdl\<close>.\<close>

type_synonym calldata_ext = "memory_v2 option \<Rightarrow> cstr \<Rightarrow> memory_v2 option"

definition lift_calldata :: "calldata_ext \<Rightarrow> evm_lifter \<Rightarrow> lift_out" where
  "lift_calldata cdl ls = stack_pop_then ls (\<lambda>tmp_a ls.
     let (ls, tmp_dst) = lifter_fresh_tmp ls;
         ls = tagged_emit ls IR_LOAD IR_TY_I64 tmp_dst tmp_a [] ''__evm_calldataload'' 0 IR_TAG_CALLDATALOAD;
         ls = ls\<lparr> ls_memory := cdl (ls_memory ls) tmp_a \<rparr> in stack_push ls tmp_dst)"

definition lift_environment :: "evm_lifter \<Rightarrow> lift_out" where
  "lift_environment ls =
     (let (ls, tmp_dst) = lifter_fresh_tmp ls;
          ls = tagged_emit ls IR_CONST IR_TY_I64 tmp_dst [] [] [] 0 IR_TAG_HOST_CONTEXT in stack_push ls tmp_dst)"

definition sha3_in_range :: "u64 \<Rightarrow> u64 \<Rightarrow> bool" where
  "sha3_in_range offset len \<longleftrightarrow> 0 \<le> sint offset \<and> 0 \<le> sint len \<and> sint len \<le> 1024 \<and> sint offset \<le> 1024 - sint len"

definition lift_sha3 :: "evm_lifter \<Rightarrow> lift_out" where
  "lift_sha3 ls =
     (let a = peeked 2 0 ls; b = peeked 2 1 ls in
      stack_pop_then ls (\<lambda>tmp_a ls. stack_pop_then ls (\<lambda>tmp_b ls.
        let (ls, tmp_dst) = lifter_fresh_tmp ls;
            ls = tagged_emit ls IR_CALL IR_TY_I64 tmp_dst [] [] ''__evm_sha3'' 0 IR_TAG_SHA3;
            ls = emit_arg ls tmp_a; ls = emit_arg ls tmp_b in
        if narrow a \<and> narrow b \<and> sha3_in_range (sl_const a) (sl_const b)
        then (case memory_v2_get_ptr (ls_memory ls) (sl_const a) (unat (sl_const b)) of (m, ptr) \<Rightarrow>
               let ls = ls\<lparr> ls_memory := m \<rparr> in
               (case ptr of Some data \<Rightarrow> push_exact ls tmp_dst (evm_keccak256 data)
                | None \<Rightarrow> stack_push ls tmp_dst))
        else stack_push ls tmp_dst)))"

subsection \<open>Flow control\<close>

definition jump_name :: "u64 \<Rightarrow> cstr" where
  "jump_name v = c_copy IR_LABEL_MAX (''.L_evm_'' @ show_int (sint v))"

definition valid_target :: "evm_lifter \<Rightarrow> u64 \<Rightarrow> bool" where
  "valid_target ls v \<longleftrightarrow> 0 \<le> sint v \<and> sint v < int (lifter_length ls) \<and> ls_valid_jumpdest ls ! nat (sint v)"

definition lift_jump :: "evm_lifter \<Rightarrow> lift_out" where
  "lift_jump ls =
     (let t = peeked 1 0 ls in
      stack_pop_then ls (\<lambda>tmp_a ls.
        if narrow t then
          (if valid_target ls (sl_const t) then (EVM_LIFT_OK, emit_br ls (jump_name (sl_const t)))
           else (EVM_LIFT_OK, tagged_emit ls IR_NOP IR_TY_VOID [] [] [] [] 0 IR_TAG_EVM_BARRIER))
        else (EVM_LIFT_OK, lift_emit ls IR_NOP IR_TY_VOID [] tmp_a [] [] 0)))"

definition lift_jumpi :: "evm_lifter \<Rightarrow> lift_out" where
  "lift_jumpi ls =
     (let t = peeked 1 0 ls in
      stack_pop_then ls (\<lambda>tmp_a ls. stack_pop_then ls (\<lambda>tmp_b ls.
        if narrow t then
          (if valid_target ls (sl_const t)
           then (EVM_LIFT_OK, lift_emit ls IR_BR_IF IR_TY_VOID [] tmp_b [] (jump_name (sl_const t)) 0)
           else (EVM_LIFT_OK, tagged_emit ls IR_NOP IR_TY_VOID [] tmp_b [] [] 0 IR_TAG_EVM_BARRIER))
        else (EVM_LIFT_OK, lift_emit ls IR_BR_IF IR_TY_VOID [] tmp_b [] tmp_a 0))))"

definition lift_jumpdest :: "evm_lifter \<Rightarrow> lift_out" where
  "lift_jumpdest ls =
     (EVM_LIFT_OK, emit_label ls (c_copy IR_LABEL_MAX (''.L_evm_'' @ show_int (int (ls_pc ls) - 1))))"

definition lift_stop :: "evm_lifter \<Rightarrow> lift_out" where
  "lift_stop ls = (EVM_LIFT_OK, lift_emit ls IR_RET IR_TY_VOID [] [] [] [] 0)"

definition lift_return :: "evm_lifter \<Rightarrow> lift_out" where
  "lift_return ls = stack_pop_then ls (\<lambda>tmp_a ls. stack_pop_then ls (\<lambda>tmp_b ls.
     (EVM_LIFT_OK, lift_emit ls IR_RET IR_TY_I64 [] tmp_a [] [] 0)))"

definition lift_revert :: "evm_lifter \<Rightarrow> lift_out" where
  "lift_revert ls = stack_pop_then ls (\<lambda>tmp_a ls. stack_pop_then ls (\<lambda>tmp_b ls.
     (EVM_LIFT_OK, tagged_emit ls IR_RET IR_TY_VOID [] tmp_a [] [] 0 IR_TAG_EVM_BARRIER)))"

definition lift_invalid :: "evm_lifter \<Rightarrow> lift_out" where
  "lift_invalid ls = (EVM_LIFT_OK, tagged_emit ls IR_NOP IR_TY_VOID [] [] [] [] 0 IR_TAG_EVM_BARRIER)"

definition lift_selfdestruct :: "evm_lifter \<Rightarrow> lift_out" where
  "lift_selfdestruct ls = stack_pop_then ls (\<lambda>tmp_a ls.
     (EVM_LIFT_OK, tagged_emit ls IR_RET IR_TY_VOID [] tmp_a [] [] 0 IR_TAG_SELFDESTRUCT))"

definition lift_pop :: "evm_lifter \<Rightarrow> lift_out" where
  "lift_pop ls = fst (stack_pop ls)"

definition lift_default :: "evm_lifter \<Rightarrow> lift_out" where
  "lift_default ls = (EVM_LIFT_OK, lift_emit ls IR_NOP IR_TY_VOID [] [] [] [] 0)"

subsection \<open>Copies, logs, calls\<close>

definition lift_copy :: "nat \<Rightarrow> evm_lifter \<Rightarrow> lift_out" where
  "lift_copy b ls =
     (let f = (if b = opcode_byte EVM_CALLDATACOPY then ''__evm_calldatacopy''
               else if b = opcode_byte EVM_CODECOPY then ''__evm_codecopy'' else ''__evm_returndatacopy'') in
      pop_many 3 ls (\<lambda>args ls.
        (EVM_LIFT_OK, foldl emit_arg (tagged_emit ls IR_CALL IR_TY_VOID [] [] [] f 0 IR_TAG_MEMORY_COPY) args)))"

definition lift_extcodecopy :: "evm_lifter \<Rightarrow> lift_out" where
  "lift_extcodecopy ls = pop_many 4 ls (\<lambda>args ls.
     (EVM_LIFT_OK,
      foldl emit_arg (tagged_emit ls IR_CALL IR_TY_VOID [] [] [] ''__evm_extcodecopy'' 0 IR_TAG_MEMORY_COPY) args))"

definition lift_log :: "nat \<Rightarrow> evm_lifter \<Rightarrow> lift_out" where
  "lift_log b ls =
     (let log_topics = b - opcode_byte EVM_LOG0 in
      pop_many (2 + log_topics) ls (\<lambda>args ls.
        (EVM_LIFT_OK, foldl emit_arg
           (tagged_emit ls IR_CALL IR_TY_VOID [] [] [] (''__evm_log'' @ decimal log_topics) 0 IR_TAG_LOG) args)))"

text \<open>The clamp every call shares, with the fresh name of the clamped gas.\<close>

definition call_clamp :: "evm_lifter \<Rightarrow> cstr \<Rightarrow> evm_lifter \<times> cstr" where
  "call_clamp ls gas =
     (let (ls, clamped_gas) = lifter_fresh_tmp ls
      in (evm_inject_eip150_clamp ls gas (ls_gas_vreg ls) clamped_gas, clamped_gas))"

definition lift_call :: "evm_lifter \<Rightarrow> lift_out" where
  "lift_call ls = pop_many 7 ls (\<lambda>args ls.
     let gas = args ! 0; addr = args ! 1; val = args ! 2;
         (ls, gas) = call_clamp ls gas;
         (ls, tmp_dst) = lifter_fresh_tmp ls;
         ls = tagged_emit ls IR_CALL IR_TY_I64 tmp_dst [] [] addr 0 IR_TAG_UNTRUSTED_EXTERNAL_CALL;
         ls = emit_arg ls gas; ls = emit_arg ls val;
         ls = ls\<lparr> ls_call_count := ls_call_count ls + 1 \<rparr> in stack_push ls tmp_dst)"

definition lift_delegatecall :: "evm_lifter \<Rightarrow> lift_out" where
  "lift_delegatecall ls = pop_many 6 ls (\<lambda>args ls.
     let gas = args ! 0; addr = args ! 1;
         (ls, gas) = call_clamp ls gas;
         (ls, tmp_dst) = lifter_fresh_tmp ls;
         ls = tagged_emit ls IR_CALL IR_TY_I64 tmp_dst [] [] addr 0 IR_TAG_UNTRUSTED_EXTERNAL_CALL;
         ls = on_last_node (set_vuln (IR_VULN_DELEGATE_CALL OR IR_VULN_PRIV_BOUNDARY)) ls;
         ls = emit_arg ls gas;
         ls = ls\<lparr> ls_call_count := ls_call_count ls + 1 \<rparr> in stack_push ls tmp_dst)"

definition lift_staticcall :: "evm_lifter \<Rightarrow> lift_out" where
  "lift_staticcall ls = pop_many 6 ls (\<lambda>args ls.
     let gas = args ! 0; addr = args ! 1;
         (ls, gas) = call_clamp ls gas;
         (ls, tmp_dst) = lifter_fresh_tmp ls;
         ls = tagged_emit ls IR_CALL IR_TY_I64 tmp_dst [] [] addr 0 IR_TAG_STATIC_CALL;
         ls = emit_arg ls gas;
         ls = ls\<lparr> ls_call_count := ls_call_count ls + 1 \<rparr> in stack_push ls tmp_dst)"

definition lift_create :: "evm_lifter \<Rightarrow> lift_out" where
  "lift_create ls = pop_many 3 ls (\<lambda>args ls.
     let (ls, tmp_dst) = lifter_fresh_tmp ls in
     stack_push (tagged_emit ls IR_CALL IR_TY_PTR tmp_dst (args ! 0) (args ! 1) ''evm_create'' 0 IR_TAG_CREATE) tmp_dst)"

definition lift_create2 :: "evm_lifter \<Rightarrow> lift_out" where
  "lift_create2 ls = pop_many 4 ls (\<lambda>args ls.
     let (ls, tmp_dst) = lifter_fresh_tmp ls in
     stack_push (tagged_emit ls IR_CALL IR_TY_PTR tmp_dst (args ! 0) (args ! 1) ''evm_create2'' 0 IR_TAG_CREATE) tmp_dst)"

subsection \<open>The switch\<close>

definition evm_switch :: "calldata_ext \<Rightarrow> nat \<Rightarrow> evm_lifter \<Rightarrow> lift_out" where
  "evm_switch cdl b ls = (case byte_opcode b of
       Some EVM_STOP \<Rightarrow> lift_stop ls
     | Some EVM_RETURN \<Rightarrow> lift_return ls
     | Some EVM_REVERT \<Rightarrow> lift_revert ls
     | Some EVM_INVALID \<Rightarrow> lift_invalid ls
     | Some EVM_POP \<Rightarrow> lift_pop ls
     | Some EVM_ADD \<Rightarrow> lift_add ls
     | Some EVM_SUB \<Rightarrow> lift_sub ls
     | Some EVM_MUL \<Rightarrow> lift_mul ls
     | Some EVM_DIV \<Rightarrow> lift_div ls
     | Some EVM_SDIV \<Rightarrow> lift_sdiv ls
     | Some EVM_MOD \<Rightarrow> lift_mod ls
     | Some EVM_SMOD \<Rightarrow> lift_smod ls
     | Some EVM_LT \<Rightarrow> lift_lt ls
     | Some EVM_SLT \<Rightarrow> lift_slt ls
     | Some EVM_GT \<Rightarrow> lift_gt ls
     | Some EVM_SGT \<Rightarrow> lift_sgt ls
     | Some EVM_EQ \<Rightarrow> lift_eq ls
     | Some EVM_AND \<Rightarrow> lift_and ls
     | Some EVM_OR \<Rightarrow> lift_or ls
     | Some EVM_XOR \<Rightarrow> lift_xor ls
     | Some EVM_SHL \<Rightarrow> lift_shl ls
     | Some EVM_SHR \<Rightarrow> lift_shr ls
     | Some EVM_SAR \<Rightarrow> lift_sar ls
     | Some EVM_EXP \<Rightarrow> lift_exp ls
     | Some EVM_BYTE \<Rightarrow> lift_byte ls
     | Some EVM_SIGNEXTEND \<Rightarrow> lift_signextend ls
     | Some EVM_ISZERO \<Rightarrow> lift_iszero ls
     | Some EVM_NOT \<Rightarrow> lift_not ls
     | Some EVM_MLOAD \<Rightarrow> lift_mload ls
     | Some EVM_MSTORE \<Rightarrow> lift_mstore ls
     | Some EVM_MSTORE8 \<Rightarrow> lift_mstore8 ls
     | Some EVM_SLOAD \<Rightarrow> lift_sload ls
     | Some EVM_SSTORE \<Rightarrow> lift_sstore ls
     | Some EVM_TLOAD \<Rightarrow> lift_tload ls
     | Some EVM_TSTORE \<Rightarrow> lift_tstore ls
     | Some EVM_JUMP \<Rightarrow> lift_jump ls
     | Some EVM_JUMPI \<Rightarrow> lift_jumpi ls
     | Some EVM_JUMPDEST \<Rightarrow> lift_jumpdest ls
     | Some EVM_ADDRESS \<Rightarrow> lift_environment ls
     | Some EVM_ORIGIN \<Rightarrow> lift_environment ls
     | Some EVM_CALLER \<Rightarrow> lift_environment ls
     | Some EVM_CALLVALUE \<Rightarrow> lift_environment ls
     | Some EVM_CALLDATASIZE \<Rightarrow> lift_environment ls
     | Some EVM_CODESIZE \<Rightarrow> lift_environment ls
     | Some EVM_GASPRICE \<Rightarrow> lift_environment ls
     | Some EVM_RETURNDATASIZE \<Rightarrow> lift_environment ls
     | Some EVM_COINBASE \<Rightarrow> lift_environment ls
     | Some EVM_TIMESTAMP \<Rightarrow> lift_environment ls
     | Some EVM_NUMBER \<Rightarrow> lift_environment ls
     | Some EVM_PREVRANDAO \<Rightarrow> lift_environment ls
     | Some EVM_GASLIMIT \<Rightarrow> lift_environment ls
     | Some EVM_CHAINID \<Rightarrow> lift_environment ls
     | Some EVM_SELFBALANCE \<Rightarrow> lift_environment ls
     | Some EVM_BASEFEE \<Rightarrow> lift_environment ls
     | Some EVM_PC \<Rightarrow> lift_environment ls
     | Some EVM_MSIZE \<Rightarrow> lift_environment ls
     | Some EVM_GAS \<Rightarrow> lift_environment ls
     | Some EVM_BALANCE \<Rightarrow> lift_calldata cdl ls
     | Some EVM_EXTCODESIZE \<Rightarrow> lift_calldata cdl ls
     | Some EVM_EXTCODEHASH \<Rightarrow> lift_calldata cdl ls
     | Some EVM_BLOCKHASH \<Rightarrow> lift_calldata cdl ls
     | Some EVM_CALLDATALOAD \<Rightarrow> lift_calldata cdl ls
     | Some EVM_SHA3 \<Rightarrow> lift_sha3 ls
     | Some EVM_ADDMOD \<Rightarrow> lift_addmod ls
     | Some EVM_MULMOD \<Rightarrow> lift_mulmod ls
     | Some EVM_CALLDATACOPY \<Rightarrow> lift_copy b ls
     | Some EVM_CODECOPY \<Rightarrow> lift_copy b ls
     | Some EVM_RETURNDATACOPY \<Rightarrow> lift_copy b ls
     | Some EVM_EXTCODECOPY \<Rightarrow> lift_extcodecopy ls
     | Some EVM_LOG0 \<Rightarrow> lift_log b ls
     | Some EVM_LOG1 \<Rightarrow> lift_log b ls
     | Some EVM_LOG2 \<Rightarrow> lift_log b ls
     | Some EVM_LOG3 \<Rightarrow> lift_log b ls
     | Some EVM_LOG4 \<Rightarrow> lift_log b ls
     | Some EVM_CALL \<Rightarrow> lift_call ls
     | Some EVM_CALLCODE \<Rightarrow> lift_call ls
     | Some EVM_DELEGATECALL \<Rightarrow> lift_delegatecall ls
     | Some EVM_STATICCALL \<Rightarrow> lift_staticcall ls
     | Some EVM_CREATE \<Rightarrow> lift_create ls
     | Some EVM_CREATE2 \<Rightarrow> lift_create2 ls
     | Some EVM_SELFDESTRUCT \<Rightarrow> lift_selfdestruct ls
     | _ \<Rightarrow> lift_default ls)"

subsection \<open>Pushes, duplicates, swaps\<close>

definition lift_push0 :: "evm_lifter \<Rightarrow> lift_out" where
  "lift_push0 ls =
     (let ls = ls\<lparr> ls_pc := ls_pc ls + 1 \<rparr>; (ls, tmp_dst) = lifter_fresh_tmp ls; ls = emit_const ls tmp_dst 0
      in stack_push_const_narrow ls tmp_dst 0)"

definition push_imm :: "u8 list \<Rightarrow> u64" where
  "push_imm bs = foldl (\<lambda>v b. push_bit 8 v OR ucast b) 0 bs"

text \<open>The limbs the code assembles from the padded payload, least significant first.\<close>

definition wide_limb :: "u8 list \<Rightarrow> nat \<Rightarrow> u64" where
  "wide_limb wide w = foldl (\<lambda>l b. push_bit 8 l OR ucast (wide ! (31 - w * 8 - 7 + b))) 0 [0..<8]"

definition wide_limbs :: "u8 list \<Rightarrow> uint256" where
  "wide_limbs bs = (let wide = replicate (32 - length bs) 0 @ bs in
     UInt256 (wide_limb wide 0) (wide_limb wide 1) (wide_limb wide 2) (wide_limb wide 3))"

definition lift_push :: "nat \<Rightarrow> evm_lifter \<Rightarrow> lift_out" where
  "lift_push b ls =
     (let push_bytes = b - opcode_byte EVM_PUSH1 + 1; ls = ls\<lparr> ls_pc := ls_pc ls + 1 \<rparr> in
      if ls_pc ls + push_bytes > lifter_length ls then (EVM_LIFT_TRUNCATED, ls\<lparr> ls_error := True \<rparr>)
      else
        (let payload = take push_bytes (drop (ls_pc ls) (ls_bytecode ls)); imm_val = push_imm payload;
             ls = ls\<lparr> ls_pc := ls_pc ls + push_bytes \<rparr>; (ls, tmp_dst) = lifter_fresh_tmp ls in
         if push_bytes > 8 then
           (let ls = tagged_emit ls IR_CONST IR_TY_I64 tmp_dst [] [] [] imm_val IR_TAG_TRUNCATED_WIDE_CONST;
                ls = on_last_node (\<lambda>n. n\<lparr> nd_imm256 := wide_limbs payload \<rparr>) ls
            in stack_push_const_wide ls tmp_dst payload imm_val)
         else stack_push_const_narrow (emit_const ls tmp_dst imm_val) tmp_dst imm_val))"

definition lift_dup :: "nat \<Rightarrow> evm_lifter \<Rightarrow> lift_out" where
  "lift_dup b ls =
     (let depth = b - opcode_byte EVM_DUP1; ls = ls\<lparr> ls_pc := ls_pc ls + 1 \<rparr> in
      if length (ls_stack ls) \<le> depth then underflow ls
      else
        (let src = stack_peek ls depth; s = ls_stack ls ! depth; (ls, tmp_dst) = lifter_fresh_tmp ls;
             ls = lift_emit ls IR_COPY IR_TY_I64 tmp_dst src [] [] 0
         in on_top (\<lambda>t. t\<lparr> sl_state := sl_state s, sl_const := sl_const s, sl_wide := sl_wide s \<rparr>)
              (stack_push ls tmp_dst)))"

definition lift_swap :: "nat \<Rightarrow> evm_lifter \<Rightarrow> lift_out" where
  "lift_swap b ls =
     (let depth = b - opcode_byte EVM_SWAP1 + 1; ls = ls\<lparr> ls_pc := ls_pc ls + 1 \<rparr>; st = ls_stack ls in
      if length st \<le> depth then underflow ls
      else (EVM_LIFT_OK, lift_emit (ls\<lparr> ls_stack := st[0 := st ! depth, depth := st ! 0] \<rparr>)
              IR_NOP IR_TY_VOID [] [] [] [] 0))"

subsection \<open>The step\<close>

definition block_prologue :: "evm_lifter \<Rightarrow> evm_lifter" where
  "block_prologue ls =
     (if ls_block_start ls then
        (let block_gas = get_block_static_gas (ls_bytecode ls) (ls_pc ls); (ls, next_gas) = lifter_fresh_tmp ls;
             ls = evm_apply_static_gas ls block_gas (ls_gas_vreg ls) next_gas
         in ls\<lparr> ls_gas_vreg := next_gas, ls_block_start := False \<rparr>)
      else ls)"

definition evm_lift_step :: "calldata_ext \<Rightarrow> evm_lifter \<Rightarrow> lift_out" where
  "evm_lift_step cdl ls =
     (if ls_pc ls \<ge> lifter_length ls then (EVM_LIFT_OK, ls)
      else
        (let b = code_at (ls_bytecode ls) (ls_pc ls);
             ls = ls\<lparr> ls_insn_count := ls_insn_count ls + 1 \<rparr>;
             ls = (if b = opcode_byte EVM_JUMPDEST then ls\<lparr> ls_block_start := True \<rparr> else ls);
             ls = block_prologue ls in
         if b = opcode_byte EVM_PUSH0 then lift_push0 ls
         else if op_between b EVM_PUSH1 EVM_PUSH32 then lift_push b ls
         else if op_between b EVM_DUP1 EVM_DUP16 then lift_dup b ls
         else if op_between b EVM_SWAP1 EVM_SWAP16 then lift_swap b ls
         else evm_switch cdl b (ls\<lparr> ls_pc := ls_pc ls + 1 \<rparr>)))"

definition is_terminator_op :: "nat \<Rightarrow> bool" where
  "is_terminator_op b \<longleftrightarrow>
     op_in b [EVM_JUMP, EVM_JUMPI, EVM_STOP, EVM_RETURN, EVM_REVERT, EVM_INVALID, EVM_SELFDESTRUCT]"

text \<open>One round of \<^verbatim>\<open>evm_lift_bytecode\<close>; every result but \<open>EVM_LIFT_OK\<close> ends the loop.\<close>

definition bytecode_round :: "calldata_ext \<Rightarrow> evm_lifter \<Rightarrow> lift_out" where
  "bytecode_round cdl ls =
     (let b = code_at (ls_bytecode ls) (ls_pc ls); (res, ls) = evm_lift_step cdl ls
      in (res, if is_terminator_op b then ls\<lparr> ls_block_start := True \<rparr> else ls))"

text \<open>The loop; \<open>None\<close> would be a run that does not end.\<close>

partial_function (option) evm_lift_bytecode :: "calldata_ext \<Rightarrow> evm_lifter \<Rightarrow> lift_out option" where
  "evm_lift_bytecode cdl ls =
     (if ls_pc ls < lifter_length ls then
        (case bytecode_round cdl ls of (res, ls') \<Rightarrow>
           if res = EVM_LIFT_OK then evm_lift_bytecode cdl ls' else Some (res, ls'))
      else Some (EVM_LIFT_OK, ls))"

subsection \<open>Initialisation\<close>

definition evm_lifter_init :: "u8 list \<Rightarrow> ir_module \<Rightarrow> (ir_module \<times> evm_lifter) option" where
  "evm_lifter_init bytecode md =
     map_option (\<lambda>(md', fn).
       let ls = \<lparr> ls_bytecode = bytecode, ls_pc = 0, ls_stack = [], ls_func = fn, ls_tmp_seq = 0, ls_error = False,
                  ls_insn_count = 0, ls_call_count = 0, ls_tagged_count = 0, ls_memory = memory_v2_new,
                  ls_valid_jumpdest = valid_jumpdests bytecode, ls_gas_vreg = ''g0'', ls_block_start = True \<rparr>
       in (md', emit_const ls ''g0'' 30000000))
     (ir_func_create md (Some ''evm_contract'') IR_TY_I64 0)"

end
