(* ===== verification/EvmTyping.thy ===== *)
theory EvmTyping
  imports EvmStep
begin

text \<open>
  The lifter as a typed stack machine: which part of the state an emission leaves alone, the
  well-formedness of the virtual stack, and the stack effect of every opcode, proved handler by handler
  from one rule for a pop and one for a push. The step then returns exactly the result its opcode's row
  of the table gives, and the loop over the bytecode ends.
\<close>

named_theorems effect_rules \<open>stack effects of the lifter's operations\<close>

subsection \<open>What an emission changes\<close>

text \<open>Everything but the function under construction, its counters and the arena.\<close>

definition same :: "evm_lifter \<Rightarrow> evm_lifter \<Rightarrow> bool" where
  "same ls ls' \<longleftrightarrow> ls_bytecode ls' = ls_bytecode ls \<and> ls_pc ls' = ls_pc ls \<and> ls_stack ls' = ls_stack ls
     \<and> ls_valid_jumpdest ls' = ls_valid_jumpdest ls \<and> ls_gas_vreg ls' = ls_gas_vreg ls
     \<and> ls_block_start ls' = ls_block_start ls"

lemma same_refl [simp]: "same ls ls" by (simp add: same_def)

lemma same_trans: "same a b \<Longrightarrow> same b c \<Longrightarrow> same a c" by (simp add: same_def)

lemma same_func [simp]: "same ls (ls'\<lparr> ls_func := f \<rparr>) = same ls ls'" by (simp add: same_def)
lemma same_seq [simp]: "same ls (ls'\<lparr> ls_tmp_seq := k \<rparr>) = same ls ls'" by (simp add: same_def)
lemma same_tagged [simp]: "same ls (ls'\<lparr> ls_tagged_count := c \<rparr>) = same ls ls'" by (simp add: same_def)
lemma same_calls [simp]: "same ls (ls'\<lparr> ls_call_count := c \<rparr>) = same ls ls'" by (simp add: same_def)
lemma same_memory [simp]: "same ls (ls'\<lparr> ls_memory := m \<rparr>) = same ls ls'" by (simp add: same_def)
lemma same_insns [simp]: "same ls (ls'\<lparr> ls_insn_count := c \<rparr>) = same ls ls'" by (simp add: same_def)

lemma same_lift_emit [simp]: "same ls (lift_emit ls' op ty d s1 s2 l i) = same ls ls'"
  by (simp add: lift_emit_def)
lemma same_on_last [simp]: "same ls (on_last_node f ls') = same ls ls'"
  by (simp add: on_last_node_def)
lemma same_tagged_emit [simp]: "same ls (tagged_emit ls' op ty d s1 s2 l i t) = same ls ls'"
  by (simp add: tagged_emit_def Let_def)
lemma same_const [simp]: "same ls (emit_const ls' d v) = same ls ls'" by (simp add: emit_const_def)
lemma same_label [simp]: "same ls (emit_label ls' l) = same ls ls'" by (simp add: emit_label_def)
lemma same_br [simp]: "same ls (emit_br ls' l) = same ls ls'" by (simp add: emit_br_def)
lemma same_arg [simp]: "same ls (emit_arg ls' a) = same ls ls'" by (simp add: emit_arg_def)

lemma same_args [simp]: "same ls (foldl emit_arg ls' as) = same ls ls'"
  by (induction "as" arbitrary: ls') simp_all

lemma fresh_eq: "lifter_fresh_tmp ls =
  (ls\<lparr> ls_func := (ls_func ls)\<lparr> fn_tmp_counter := fn_tmp_counter (ls_func ls) + 1 \<rparr> \<rparr>,
   ''t'' @ decimal (fn_tmp_counter (ls_func ls)))"
  by (simp add: lifter_fresh_tmp_def ir_fresh_tmp_def)

lemma seq_label_eq: "seq_label base ls = (ls\<lparr> ls_tmp_seq := ls_tmp_seq ls + 1 \<rparr>, base @ decimal (ls_tmp_seq ls))"
  by (simp add: seq_label_def)

lemma same_gas: "same ls (evm_apply_static_gas ls' d c n) = same ls ls'"
  by (simp add: evm_apply_static_gas_def Let_def fresh_eq seq_label_eq)

lemma same_clamp: "same ls (evm_inject_eip150_clamp ls' r a out) = same ls ls'"
  by (simp add: evm_inject_eip150_clamp_def Let_def fresh_eq seq_label_eq)

lemma same_expansion: "same ls (evm_inject_memory_expansion_cost ls' w c) = same ls ls'"
  by (simp add: evm_inject_memory_expansion_cost_def Let_def fresh_eq)

lemma same_call_clamp: "same ls (fst (call_clamp ls' g)) = same ls ls'"
  by (simp add: call_clamp_def Let_def fresh_eq same_clamp)

lemma call_clamp_pair: "call_clamp ls g = (fst (call_clamp ls g), snd (call_clamp ls g))" by simp

subsection \<open>Well-formed stacks\<close>

definition slot_ok :: "evm_slot \<Rightarrow> bool" where
  "slot_ok s \<longleftrightarrow> sl_name s \<noteq> [] \<and> length (sl_name s) < IR_NAME_MAX \<and> bytes_ok (sl_wide s)
     \<and> sl_state s \<noteq> EVM_VAL_APPROXIMATED \<and> (narrow s \<longrightarrow> sl_wide s = narrow_bytes (sl_const s))"

definition stack_ok :: "evm_slot list \<Rightarrow> bool" where
  "stack_ok st \<longleftrightarrow> length st \<le> EVM_STACK_MAX \<and> list_all slot_ok st"

lemma stack_ok_Cons: "stack_ok (s # st) \<Longrightarrow> stack_ok st \<and> slot_ok s"
  by (simp add: stack_ok_def)

lemma narrow_bytes_ok [simp]: "bytes_ok (narrow_bytes v)"
proof -
  have "length (foldl (\<lambda>bs i. bs[31 - i := ucast (drop_bit (i * 8) v AND 0xFF)]) z xs) = length z"
    for z :: evm_u256 and xs :: "nat list"
    by (induction xs arbitrary: z) simp_all
  then show ?thesis by (simp add: narrow_bytes_def bytes_ok_def zero32_def)
qed

lemma wide_payload_ok [simp]: "bytes_ok (wide_payload p)"
  by (simp add: wide_payload_def bytes_ok_def Let_def)

lemma wide_payload_id: "bytes_ok p \<Longrightarrow> wide_payload p = p"
  by (simp add: wide_payload_def bytes_ok_def)

lemma c_copy_name: "x \<noteq> [] \<Longrightarrow> c_copy IR_NAME_MAX x \<noteq> [] \<and> length (c_copy IR_NAME_MAX x) < IR_NAME_MAX"
  by (cases x) (simp_all add: c_copy_def IR_NAME_MAX_def numeral_eq_Suc)

text \<open>The effect of an operation that needs \<open>p\<close> slots and puts \<open>q\<close> in their place.\<close>

definition effect :: "nat \<Rightarrow> nat \<Rightarrow> evm_lifter \<Rightarrow> lift_out \<Rightarrow> bool" where
  "effect p q ls r \<longleftrightarrow> (stack_ok (ls_stack ls) \<longrightarrow>
     (case r of (res, ls') \<Rightarrow>
        same (ls\<lparr> ls_stack := ls_stack ls' \<rparr>) ls' \<and> stack_ok (ls_stack ls') \<and>
        (if length (ls_stack ls) < p then res = EVM_LIFT_STACK_UNDER
         else if length (ls_stack ls) - p + q > EVM_STACK_MAX then res = EVM_LIFT_STACK_OVER
         else res = EVM_LIFT_OK \<and> length (ls_stack ls') = length (ls_stack ls) - p + q)))"

lemma effect_pop_then:
  assumes "\<And>s rest. ls_stack ls = s # rest \<Longrightarrow> slot_ok s \<Longrightarrow>
     effect p q (ls\<lparr> ls_stack := rest \<rparr>) (k (c_copy IR_NAME_MAX (sl_name s)) (ls\<lparr> ls_stack := rest \<rparr>))"
  shows "effect (Suc p) q ls (stack_pop_then ls k)"
proof (cases "ls_stack ls")
  case Nil
  then show ?thesis by (simp add: effect_def stack_pop_then_def stack_pop_def underflow_def same_def)
next
  case (Cons s rest)
  show ?thesis
  proof (cases "stack_ok (ls_stack ls)")
    case True
    then have ok: "stack_ok rest" "slot_ok s" using stack_ok_Cons Cons by auto
    have "effect p q (ls\<lparr> ls_stack := rest \<rparr>) (k (c_copy IR_NAME_MAX (sl_name s)) (ls\<lparr> ls_stack := rest \<rparr>))"
      using assms Cons ok(2) by blast
    then show ?thesis using Cons ok
      by (auto simp: effect_def stack_pop_then_def stack_pop_def same_def split: if_splits)
  next
    case False
    then show ?thesis by (simp add: effect_def)
  qed
qed

lemma effect_push:
  assumes "slot_ok s" "same ls ls'"
  shows "effect 0 (Suc 0) ls (push_slot s ls')"
  using assms by (auto simp: effect_def push_slot_def overflow_def same_def stack_ok_def)

lemma effect_push_narrow: "x \<noteq> [] \<Longrightarrow> same ls ls' \<Longrightarrow> effect 0 (Suc 0) ls (stack_push_const_narrow ls' x v)"
  unfolding stack_push_const_narrow_def
  by (rule effect_push) (simp_all add: slot_ok_def c_copy_name)

lemma effect_push_wide: "x \<noteq> [] \<Longrightarrow> same ls ls' \<Longrightarrow> effect 0 (Suc 0) ls (stack_push_const_wide ls' x pl v)"
  unfolding stack_push_const_wide_def
  by (rule effect_push) (simp_all add: slot_ok_def c_copy_name narrow_def)

lemma effect_on_top:
  assumes "effect p (Suc q) ls r" "\<And>s. slot_ok s \<Longrightarrow> slot_ok (f s)"
  shows "effect p (Suc q) ls (on_top f r)"
proof -
  obtain res ls' where r: "r = (res, ls')" by (cases r)
  have "stack_ok (st[0 := f (st ! 0)])" if "stack_ok st" "st \<noteq> []" for st
    using that assms(2) by (cases st) (simp_all add: stack_ok_def)
  then show ?thesis using assms(1)
    by (cases "ls_stack ls' = []") (auto simp: r on_top_def effect_def same_def split: if_splits)
qed

lemma effect_stack_push: "x \<noteq> [] \<Longrightarrow> same ls ls' \<Longrightarrow> effect 0 (Suc 0) ls (stack_push ls' x)"
  unfolding stack_push_def
  by (rule effect_on_top) (use effect_push_narrow in \<open>simp_all add: slot_ok_def narrow_def\<close>)

lemma effect_exact: "x \<noteq> [] \<Longrightarrow> same ls ls' \<Longrightarrow> effect 0 (Suc 0) ls (push_exact ls' x v)"
  by (simp add: push_exact_def effect_push_wide)

lemma effect_flag: "x \<noteq> [] \<Longrightarrow> same ls ls' \<Longrightarrow> effect 0 (Suc 0) ls (push_flag ls' x b)"
  by (simp add: push_flag_def effect_push_narrow)

lemma effect_ok: "same ls ls' \<Longrightarrow> effect 0 0 ls (EVM_LIFT_OK, ls')"
  by (auto simp: effect_def same_def stack_ok_def)

lemma effect_if: "(c \<Longrightarrow> effect p q ls x) \<Longrightarrow> (\<not> c \<Longrightarrow> effect p q ls y) \<Longrightarrow> effect p q ls (if c then x else y)"
  by simp

lemma effect_pop_many:
  assumes "\<And>xs st. length xs = n \<Longrightarrow> list_all (\<lambda>x. x \<noteq> []) xs \<Longrightarrow>
     effect p q (ls\<lparr> ls_stack := st \<rparr>) (k xs (ls\<lparr> ls_stack := st \<rparr>))"
  shows "effect (n + p) q ls (pop_many n ls k)"
  using assms
proof (induction n arbitrary: ls k)
  case 0
  then show ?case using 0 [of "[]" "ls_stack ls"] by simp
next
  case (Suc n)
  show ?case unfolding pop_many.simps add_Suc
  proof (rule effect_pop_then)
    fix s rest assume "ls_stack ls = s # rest" "slot_ok s"
    then have ne: "c_copy IR_NAME_MAX (sl_name s) \<noteq> []" using c_copy_name by (simp add: slot_ok_def)
    show "effect (n + p) q (ls\<lparr> ls_stack := rest \<rparr>)
      (pop_many n (ls\<lparr> ls_stack := rest \<rparr>) (\<lambda>xs. k (c_copy IR_NAME_MAX (sl_name s) # xs)))"
      by (rule Suc.IH) (use Suc.prems ne in simp)
  qed
qed

lemmas push_effects = effect_stack_push effect_exact effect_flag effect_push_narrow effect_push_wide effect_ok effect_if

subsection \<open>The handlers\<close>

lemma effect_binary:
  assumes "\<And>ls' d a b. same ls' (em ls' d a b)"
    and "\<And>ls0 ls' d a b. d \<noteq> [] \<Longrightarrow> same ls0 ls' \<Longrightarrow> effect 0 (Suc 0) ls0 (f ls' d a b)"
  shows "effect (Suc (Suc 0)) (Suc 0) ls (lift_binary em f ls)"
  unfolding lift_binary_def Let_def fresh_eq prod.case
  by (intro effect_pop_then push_effects assms(2)) (simp_all add: same_trans [OF _ assms(1)])

lemmas binary_defs = lift_add_def lift_sub_def lift_mul_def lift_div_def lift_sdiv_def lift_mod_def lift_smod_def
  lift_lt_def lift_slt_def lift_gt_def lift_sgt_def lift_eq_def lift_and_def lift_or_def lift_xor_def lift_shl_def
  lift_shr_def lift_sar_def lift_exp_def lift_byte_def lift_signextend_def

lemma effect_binaries:
  "effect (Suc (Suc 0)) (Suc 0) ls (lift_add ls)" "effect (Suc (Suc 0)) (Suc 0) ls (lift_sub ls)"
  "effect (Suc (Suc 0)) (Suc 0) ls (lift_mul ls)" "effect (Suc (Suc 0)) (Suc 0) ls (lift_div ls)"
  "effect (Suc (Suc 0)) (Suc 0) ls (lift_sdiv ls)" "effect (Suc (Suc 0)) (Suc 0) ls (lift_mod ls)"
  "effect (Suc (Suc 0)) (Suc 0) ls (lift_smod ls)" "effect (Suc (Suc 0)) (Suc 0) ls (lift_lt ls)"
  "effect (Suc (Suc 0)) (Suc 0) ls (lift_slt ls)" "effect (Suc (Suc 0)) (Suc 0) ls (lift_gt ls)"
  "effect (Suc (Suc 0)) (Suc 0) ls (lift_sgt ls)" "effect (Suc (Suc 0)) (Suc 0) ls (lift_eq ls)"
  "effect (Suc (Suc 0)) (Suc 0) ls (lift_and ls)" "effect (Suc (Suc 0)) (Suc 0) ls (lift_or ls)"
  "effect (Suc (Suc 0)) (Suc 0) ls (lift_xor ls)" "effect (Suc (Suc 0)) (Suc 0) ls (lift_shl ls)"
  "effect (Suc (Suc 0)) (Suc 0) ls (lift_shr ls)" "effect (Suc (Suc 0)) (Suc 0) ls (lift_sar ls)"
  "effect (Suc (Suc 0)) (Suc 0) ls (lift_exp ls)" "effect (Suc (Suc 0)) (Suc 0) ls (lift_byte ls)"
  "effect (Suc (Suc 0)) (Suc 0) ls (lift_signextend ls)"
  unfolding binary_defs by (rule effect_binary; simp add: effect_exact effect_flag)+

lemma effect_iszero: "effect (Suc 0) (Suc 0) ls (lift_iszero ls)"
  unfolding lift_iszero_def Let_def fresh_eq prod.case by (intro effect_pop_then push_effects) simp_all

lemma effect_not: "effect (Suc 0) (Suc 0) ls (lift_not ls)"
  unfolding lift_not_def Let_def fresh_eq prod.case by (intro effect_pop_then push_effects) simp_all

lemma effect_modular: "effect (Suc (Suc (Suc 0))) (Suc 0) ls (lift_modular f ls)"
  unfolding lift_modular_def Let_def fresh_eq prod.case by (intro effect_pop_then push_effects) simp_all

lemma effect_mload: "effect (Suc 0) (Suc 0) ls (lift_mload ls)"
  unfolding lift_mload_def Let_def fresh_eq prod.case case_prod_unfold
  by (intro effect_pop_then push_effects) simp_all

lemma effect_store_with: "effect (Suc (Suc 0)) 0 ls (lift_store_with st ls)"
  unfolding lift_store_with_def Let_def by (intro effect_pop_then push_effects) simp_all

lemma effect_sload: "effect (Suc 0) (Suc 0) ls (lift_sload ls)"
  unfolding lift_sload_def Let_def fresh_eq prod.case by (intro effect_pop_then push_effects) simp_all

lemma effect_sstore: "effect (Suc (Suc 0)) 0 ls (lift_sstore ls)"
  unfolding lift_sstore_def Let_def by (intro effect_pop_then push_effects) simp_all

lemma effect_tload: "effect (Suc 0) (Suc 0) ls (lift_tload ls)"
  unfolding lift_tload_def Let_def fresh_eq prod.case by (intro effect_pop_then push_effects) simp_all

lemma effect_tstore: "effect (Suc (Suc 0)) 0 ls (lift_tstore ls)"
  unfolding lift_tstore_def by (intro effect_pop_then push_effects) simp_all

lemma effect_calldata: "effect (Suc 0) (Suc 0) ls (lift_calldata cdl ls)"
  unfolding lift_calldata_def Let_def fresh_eq prod.case by (intro effect_pop_then push_effects) simp_all

lemma effect_environment: "effect 0 (Suc 0) ls (lift_environment ls)"
  unfolding lift_environment_def Let_def fresh_eq prod.case by (intro push_effects) simp_all

lemma effect_option: "(\<And>v. x = Some v \<Longrightarrow> effect p q ls (f v)) \<Longrightarrow> (x = None \<Longrightarrow> effect p q ls y)
   \<Longrightarrow> effect p q ls (case x of Some v \<Rightarrow> f v | None \<Rightarrow> y)"
  by (cases x) simp_all

lemma effect_sha3: "effect (Suc (Suc 0)) (Suc 0) ls (lift_sha3 ls)"
  unfolding lift_sha3_def Let_def fresh_eq prod.case case_prod_unfold
  by (intro effect_pop_then push_effects effect_option) simp_all

lemma effect_jump: "effect (Suc 0) 0 ls (lift_jump ls)"
  unfolding lift_jump_def Let_def by (intro effect_pop_then push_effects) simp_all

lemma effect_jumpi: "effect (Suc (Suc 0)) 0 ls (lift_jumpi ls)"
  unfolding lift_jumpi_def Let_def by (intro effect_pop_then push_effects) simp_all

lemma effect_plain:
  "effect 0 0 ls (lift_jumpdest ls)" "effect 0 0 ls (lift_stop ls)" "effect 0 0 ls (lift_invalid ls)"
  "effect 0 0 ls (lift_default ls)"
  unfolding lift_jumpdest_def lift_stop_def lift_invalid_def lift_default_def by (rule effect_ok; simp)+

lemma effect_ends:
  "effect (Suc (Suc 0)) 0 ls (lift_return ls)" "effect (Suc (Suc 0)) 0 ls (lift_revert ls)"
  "effect (Suc 0) 0 ls (lift_selfdestruct ls)"
  unfolding lift_return_def lift_revert_def lift_selfdestruct_def
  by (intro effect_pop_then push_effects; simp)+

lemma effect_pop: "effect (Suc 0) 0 ls (lift_pop ls)"
proof -
  have "lift_pop ls = stack_pop_then ls (\<lambda>_ ls. (EVM_LIFT_OK, ls))"
    by (simp add: lift_pop_def stack_pop_then_def stack_pop_def underflow_def split: list.splits)
  then show ?thesis by (simp add: effect_pop_then effect_ok)
qed

lemma effect_copies:
  "effect 3 0 ls (lift_copy b ls)" "effect 4 0 ls (lift_extcodecopy ls)"
  "effect (2 + (b - opcode_byte EVM_LOG0)) 0 ls (lift_log b ls)"
  unfolding lift_copy_def lift_extcodecopy_def lift_log_def Let_def
  by (rule effect_pop_many [where p = 0, simplified], rule effect_ok, simp)+

lemma effect_calls:
  "effect 7 (Suc 0) ls (lift_call ls)" "effect 6 (Suc 0) ls (lift_delegatecall ls)"
  "effect 6 (Suc 0) ls (lift_staticcall ls)"
  unfolding lift_call_def lift_delegatecall_def lift_staticcall_def Let_def fresh_eq prod.case case_prod_unfold
  by (rule effect_pop_many [where p = 0, simplified], rule effect_stack_push, simp, simp add: same_call_clamp)+

lemma effect_creates: "effect 3 (Suc 0) ls (lift_create ls)" "effect 4 (Suc 0) ls (lift_create2 ls)"
  unfolding lift_create_def lift_create2_def Let_def fresh_eq prod.case
  by (rule effect_pop_many [where p = 0, simplified], rule effect_stack_push, simp, simp)+

subsection \<open>The table\<close>

text \<open>What each opcode takes off the stack and puts on it, as in the specification of the EVM.\<close>

definition opcode_row :: "evm_opcode \<Rightarrow> nat \<times> nat" where
  "opcode_row x =
     (if x \<in> {EVM_ADD, EVM_MUL, EVM_SUB, EVM_DIV, EVM_SDIV, EVM_MOD, EVM_SMOD, EVM_EXP, EVM_SIGNEXTEND,
  EVM_LT, EVM_GT, EVM_SLT, EVM_SGT, EVM_EQ, EVM_AND, EVM_OR, EVM_XOR, EVM_BYTE, EVM_SHL, EVM_SHR,
  EVM_SAR, EVM_SHA3} then (2, 1)
            else if x \<in> {EVM_ADDMOD, EVM_MULMOD, EVM_CREATE} then (3, 1)
            else if x \<in> {EVM_ISZERO, EVM_NOT, EVM_BALANCE, EVM_CALLDATALOAD, EVM_EXTCODESIZE,
        EVM_EXTCODEHASH, EVM_BLOCKHASH, EVM_MLOAD, EVM_SLOAD, EVM_TLOAD} then (1, 1)
            else if x \<in> {EVM_ADDRESS, EVM_ORIGIN, EVM_CALLER, EVM_CALLVALUE, EVM_CALLDATASIZE,
        EVM_CODESIZE, EVM_GASPRICE, EVM_RETURNDATASIZE, EVM_COINBASE, EVM_TIMESTAMP, EVM_NUMBER,
        EVM_PREVRANDAO, EVM_GASLIMIT, EVM_CHAINID, EVM_SELFBALANCE, EVM_BASEFEE, EVM_PC, EVM_MSIZE,
        EVM_GAS} then (0, 1)
            else if x \<in> {EVM_CALLDATACOPY, EVM_CODECOPY, EVM_RETURNDATACOPY, EVM_LOG1} then (3, 0)
            else if x \<in> {EVM_EXTCODECOPY, EVM_LOG2} then (4, 0)
            else if x \<in> {EVM_POP, EVM_JUMP, EVM_SELFDESTRUCT} then (1, 0)
            else if x \<in> {EVM_MSTORE, EVM_MSTORE8, EVM_SSTORE, EVM_JUMPI, EVM_TSTORE, EVM_LOG0,
        EVM_RETURN, EVM_REVERT} then (2, 0)
            else if x \<in> {EVM_LOG3} then (5, 0)
            else if x \<in> {EVM_LOG4} then (6, 0)
            else if x \<in> {EVM_CALL, EVM_CALLCODE} then (7, 1)
            else if x \<in> {EVM_DELEGATECALL, EVM_STATICCALL} then (6, 1)
            else if x \<in> {EVM_CREATE2} then (4, 1)
      else (0, 0))"

definition stack_row :: "nat \<Rightarrow> nat \<times> nat" where
  "stack_row b =
     (if b = 0x5F \<or> (0x60 \<le> b \<and> b \<le> 0x7F) then (0, 1)
      else if 0x80 \<le> b \<and> b \<le> 0x8F then (b - 0x80 + 1, b - 0x80 + 2)
      else if 0x90 \<le> b \<and> b \<le> 0x9F then (b - 0x90 + 2, b - 0x90 + 2)
      else case byte_opcode b of Some x \<Rightarrow> opcode_row x | None \<Rightarrow> (0, 0))"

lemma small_Suc: "Suc (Suc (Suc 0)) = 3" "Suc (Suc 0) = 2" by simp_all

lemma effect_modulars: "effect 3 (Suc 0) ls (lift_addmod ls)" "effect 3 (Suc 0) ls (lift_mulmod ls)"
  using effect_modular [unfolded small_Suc] by (simp_all add: lift_addmod_def lift_mulmod_def)

lemma effect_stores: "effect 2 0 ls (lift_mstore ls)" "effect 2 0 ls (lift_mstore8 ls)"
  using effect_store_with [unfolded small_Suc] by (simp_all add: lift_mstore_def lift_mstore8_def)

lemmas handler_effects = effect_plain effect_modulars effect_stores effect_creates effect_calls
  effect_copies(1,2) effect_pop effect_ends [unfolded small_Suc] effect_jump effect_jumpi [unfolded small_Suc]
  effect_sha3 [unfolded small_Suc] effect_environment effect_calldata effect_tstore [unfolded small_Suc]
  effect_tload effect_sstore [unfolded small_Suc] effect_sload effect_mload effect_iszero effect_not
  effect_binaries [unfolded small_Suc]

lemma effect_switch:
  "effect (fst (case byte_opcode b of Some x \<Rightarrow> opcode_row x | None \<Rightarrow> (0, 0)))
          (snd (case byte_opcode b of Some x \<Rightarrow> opcode_row x | None \<Rightarrow> (0, 0))) ls (evm_switch cdl b ls)"
proof (cases "byte_opcode b")
  case None
  then show ?thesis by (simp add: evm_switch_def effect_plain)
next
  case (Some x)
  then have b: "b = opcode_byte x" by (simp add: byte_opcode_Some)
  have log: "effect (2 + (opcode_byte x - 160)) 0 ls (lift_log (opcode_byte x) ls)"
    using effect_copies(3) [of "opcode_byte x" ls] by simp
  show ?thesis unfolding evm_switch_def b byte_opcode_byte option.case
    using log
    by (cases x) (simp_all add: opcode_row_def handler_effects)
qed

subsection \<open>The step\<close>

lemma same_prologue_stack:
  "ls_stack (block_prologue ls) = ls_stack ls \<and> ls_bytecode (block_prologue ls) = ls_bytecode ls
   \<and> ls_pc (block_prologue ls) = ls_pc ls \<and> ls_valid_jumpdest (block_prologue ls) = ls_valid_jumpdest ls
   \<and> \<not> ls_block_start (block_prologue ls)"
  using same_gas [of ls "fst (lifter_fresh_tmp ls)"]
  by (simp add: block_prologue_def Let_def fresh_eq same_def)

text \<open>What the step returns on the byte \<open>b\<close> with the stack of depth \<open>d\<close>, when \<open>missing\<close> says that
  the operand of a push is cut off by the end of the code.\<close>

definition step_result :: "nat \<Rightarrow> bool \<Rightarrow> nat \<Rightarrow> evm_lift_result" where
  "step_result b missing d =
     (if missing then EVM_LIFT_TRUNCATED
      else if d < fst (stack_row b) then EVM_LIFT_STACK_UNDER
      else if d - fst (stack_row b) + snd (stack_row b) > EVM_STACK_MAX then EVM_LIFT_STACK_OVER
      else EVM_LIFT_OK)"

definition push_missing :: "u8 list \<Rightarrow> nat \<Rightarrow> bool" where
  "push_missing code pc \<longleftrightarrow> pc + insn_len (code_at code pc) > length code"

definition step_typed :: "evm_lifter \<Rightarrow> lift_out \<Rightarrow> bool" where
  "step_typed ls r \<longleftrightarrow> (case r of (res, ls') \<Rightarrow>
     let b = code_at (ls_bytecode ls) (ls_pc ls); missing = push_missing (ls_bytecode ls) (ls_pc ls);
         d = length (ls_stack ls) in
     res = step_result b missing d \<and> stack_ok (ls_stack ls') \<and> ls_bytecode ls' = ls_bytecode ls
     \<and> ls_valid_jumpdest ls' = ls_valid_jumpdest ls \<and> ls_pc ls < ls_pc ls'
     \<and> (res = EVM_LIFT_OK \<longrightarrow> length (ls_stack ls') = d - fst (stack_row b) + snd (stack_row b)
          \<and> ls_pc ls' = ls_pc ls + insn_len b))"

lemma step_typedI:
  assumes "effect p q ls1 r" "stack_ok (ls_stack ls)" "stack_row (code_at (ls_bytecode ls) (ls_pc ls)) = (p, q)"
    and "\<not> push_missing (ls_bytecode ls) (ls_pc ls)"
    and "ls_stack ls1 = ls_stack ls" "ls_bytecode ls1 = ls_bytecode ls" "ls_valid_jumpdest ls1 = ls_valid_jumpdest ls"
    and "ls_pc ls1 = ls_pc ls + insn_len (code_at (ls_bytecode ls) (ls_pc ls))"
  shows "step_typed ls r"
  using assms insn_len_pos [of "code_at (ls_bytecode ls) (ls_pc ls)"]
  by (auto simp: step_typed_def Let_def effect_def step_result_def same_def split: if_splits)

lemma effect_push0: "effect 0 (Suc 0) (ls\<lparr> ls_pc := ls_pc ls + 1 \<rparr>) (lift_push0 ls)"
  unfolding lift_push0_def Let_def fresh_eq prod.case by (rule effect_push_narrow) simp_all

lemma effect_push_bytes:
  assumes "ls_pc ls + 1 + (b - 0x60 + 1) \<le> length (ls_bytecode ls)"
  shows "effect 0 (Suc 0) (ls\<lparr> ls_pc := ls_pc ls + 1 + (b - 0x60 + 1) \<rparr>) (lift_push b ls)"
  using assms
  by (auto simp: lift_push_def Let_def fresh_eq lifter_length_def intro!: effect_push_narrow effect_push_wide)

lemma effect_dup: "effect (b - 0x80 + 1) (b - 0x80 + 2) (ls\<lparr> ls_pc := ls_pc ls + 1 \<rparr>) (lift_dup b ls)"
proof (cases "length (ls_stack ls) \<le> b - 0x80")
  case True
  then show ?thesis by (simp add: lift_dup_def Let_def effect_def underflow_def same_def)
next
  case False
  show ?thesis
  proof (cases "stack_ok (ls_stack ls)")
    case ok: True
    let ?s = "ls_stack ls ! (b - 0x80)"
    have s: "slot_ok ?s" using ok False by (simp add: stack_ok_def list_all_length)
    have f: "slot_ok t \<Longrightarrow> slot_ok (t\<lparr> sl_state := sl_state ?s, sl_const := sl_const ?s, sl_wide := sl_wide ?s \<rparr>)" for t
      using s by (simp add: slot_ok_def narrow_def)
    have "effect 0 (Suc 0) (ls\<lparr> ls_pc := ls_pc ls + 1 \<rparr>) (lift_dup b ls)"
      using False f unfolding lift_dup_def Let_def fresh_eq prod.case
      by (auto intro!: effect_on_top effect_stack_push)
    moreover have "d - (k + 1) + (k + 2) = d + 1" if "k < d" for d k :: nat using that by linarith
    ultimately show ?thesis using False by (auto simp: effect_def)
  next
    case False
    then show ?thesis by (simp add: effect_def)
  qed
qed

lemma effect_swap: "effect (b - 0x90 + 2) (b - 0x90 + 2) (ls\<lparr> ls_pc := ls_pc ls + 1 \<rparr>) (lift_swap b ls)"
proof -
  let ?k = "b - 0x90 + 1" let ?st = "ls_stack ls"
  have up: "list_all slot_ok (xs[i := y])" if "list_all slot_ok xs" "slot_ok y" for xs i y
    using that set_update_subset_insert [of xs i y] by (auto simp: list_all_iff)
  have "stack_ok (?st[0 := ?st ! ?k, ?k := ?st ! 0])" if "stack_ok ?st" "?k < length ?st"
  proof -
    have "0 < length ?st" using that(2) by linarith
    then have "slot_ok (?st ! ?k)" "slot_ok (?st ! 0)"
      using that list_all_length [of slot_ok ?st] by (auto simp: stack_ok_def)
    then show ?thesis using that up by (simp add: stack_ok_def)
  qed
  then show ?thesis
    by (auto simp: lift_swap_def Let_def effect_def underflow_def lift_emit_def same_def stack_ok_def)
qed

lemma step_typed_OK:
  assumes ok: "stack_ok (ls_stack ls)" and pc: "ls_pc ls < length (ls_bytecode ls)"
  shows "step_typed ls (evm_lift_step cdl ls)"
proof -
  define b where "b = code_at (ls_bytecode ls) (ls_pc ls)"
  define ls0 where "ls0 = (if b = opcode_byte EVM_JUMPDEST then ls\<lparr> ls_insn_count := ls_insn_count ls + 1, ls_block_start := True \<rparr>
     else ls\<lparr> ls_insn_count := ls_insn_count ls + 1 \<rparr>)"
  define ls1 where "ls1 = block_prologue ls0"
  have b256: "b < 256" unfolding b_def code_at_def by (rule unat_lt_8)
  have keep: "ls_stack ls1 = ls_stack ls" "ls_bytecode ls1 = ls_bytecode ls" "ls_pc ls1 = ls_pc ls"
    "ls_valid_jumpdest ls1 = ls_valid_jumpdest ls"
    using same_prologue_stack [of ls0] by (simp_all add: ls1_def ls0_def)
  have st: "evm_lift_step cdl ls =
     (if b = 0x5F then lift_push0 ls1 else if 0x60 \<le> b \<and> b \<le> 0x7F then lift_push b ls1
      else if 0x80 \<le> b \<and> b \<le> 0x8F then lift_dup b ls1 else if 0x90 \<le> b \<and> b \<le> 0x9F then lift_swap b ls1
      else evm_switch cdl b (ls1\<lparr> ls_pc := ls_pc ls1 + 1 \<rparr>))"
    using pc by (simp add: evm_lift_step_def lifter_length_def Let_def b_def [symmetric] ls0_def ls1_def op_between_def)
  consider (zero) "b = 0x5F" | (push) "0x60 \<le> b" "b \<le> 0x7F" | (dup) "0x80 \<le> b" "b \<le> 0x8F"
    | (swap) "0x90 \<le> b" "b \<le> 0x9F" | (other) "b < 0x5F \<or> 0x9F < b"
    using b256 by linarith
  then show ?thesis
  proof cases
    case zero
    then have e: "evm_lift_step cdl ls = lift_push0 ls1" by (simp add: st)
    show ?thesis unfolding e
      by (rule step_typedI [OF effect_push0 [of ls1] ok])
        (use zero pc keep in \<open>simp_all add: b_def [symmetric] stack_row_def push_missing_def insn_len_def\<close>)
  next
    case push
    have len: "insn_len b = 1 + (b - 0x60 + 1)" using push by (simp add: insn_len_def)
    have e: "evm_lift_step cdl ls = lift_push b ls1" using push by (simp add: st)
    show ?thesis
    proof (cases "push_missing (ls_bytecode ls) (ls_pc ls)")
      case True
      then have "lift_push b ls1 = (EVM_LIFT_TRUNCATED, ls1\<lparr> ls_pc := ls_pc ls1 + 1, ls_error := True \<rparr>)"
        using len keep by (simp add: push_missing_def b_def [symmetric] lift_push_def Let_def lifter_length_def)
      then show ?thesis using push True ok keep
        by (simp add: e step_typed_def step_result_def b_def [symmetric] Let_def)
    next
      case False
      then have "ls_pc ls1 + 1 + (b - 0x60 + 1) \<le> length (ls_bytecode ls1)"
        using len keep by (simp add: push_missing_def b_def [symmetric])
      then show ?thesis unfolding e
        by (intro step_typedI [OF effect_push_bytes [of ls1 b] ok])
          (use push False keep len in \<open>simp_all add: b_def [symmetric] stack_row_def\<close>)
    qed
  next
    case dup
    then have e: "evm_lift_step cdl ls = lift_dup b ls1" by (simp add: st)
    show ?thesis unfolding e
      by (rule step_typedI [OF effect_dup [of b ls1] ok])
        (use dup pc keep in \<open>simp_all add: b_def [symmetric] stack_row_def push_missing_def insn_len_def\<close>)
  next
    case swap
    then have e: "evm_lift_step cdl ls = lift_swap b ls1" by (simp add: st)
    show ?thesis unfolding e
      by (rule step_typedI [OF effect_swap [of b ls1] ok])
        (use swap pc keep in \<open>simp_all add: b_def [symmetric] stack_row_def push_missing_def insn_len_def\<close>)
  next
    case other
    then have e: "evm_lift_step cdl ls = evm_switch cdl b (ls1\<lparr> ls_pc := ls_pc ls1 + 1 \<rparr>)" by (auto simp: st)
    show ?thesis unfolding e
      by (rule step_typedI [OF effect_switch [of b "ls1\<lparr> ls_pc := ls_pc ls1 + 1 \<rparr>" cdl] ok])
        (use other pc keep in \<open>auto simp: b_def [symmetric] stack_row_def push_missing_def insn_len_def
           split: option.splits\<close>)
  qed
qed

subsection \<open>The loop\<close>

lemma round_typed:
  assumes "stack_ok (ls_stack ls)" "ls_pc ls < length (ls_bytecode ls)"
  shows "step_typed ls (bytecode_round cdl ls)"
  using step_typed_OK [OF assms, of cdl]
  by (auto simp: bytecode_round_def Let_def step_typed_def split: prod.splits)

lemma bytecode_loop:
  assumes "stack_ok (ls_stack ls)" "ls_pc ls \<le> length (ls_bytecode ls)"
  obtains res ls' where "evm_lift_bytecode cdl ls = Some (res, ls')" "stack_ok (ls_stack ls')"
    "ls_bytecode ls' = ls_bytecode ls" "res \<noteq> EVM_LIFT_INVALID_OP" "res \<noteq> EVM_LIFT_OOM"
    "res = EVM_LIFT_OK \<longrightarrow> ls_pc ls' = length (ls_bytecode ls)"
proof -
  have "\<exists>res ls'. evm_lift_bytecode cdl ls = Some (res, ls') \<and> stack_ok (ls_stack ls') \<and> ls_bytecode ls' = ls_bytecode ls
      \<and> res \<noteq> EVM_LIFT_INVALID_OP \<and> res \<noteq> EVM_LIFT_OOM \<and> (res = EVM_LIFT_OK \<longrightarrow> ls_pc ls' = length (ls_bytecode ls))"
    using assms
  proof (induction "length (ls_bytecode ls) - ls_pc ls" arbitrary: ls rule: less_induct)
    case less
    show ?case
    proof (cases "ls_pc ls < length (ls_bytecode ls)")
      case False
      then show ?thesis using less.prems
        by (subst evm_lift_bytecode.simps) (simp add: lifter_length_def)
    next
      case True
      obtain res ls1 where r: "bytecode_round cdl ls = (res, ls1)" by (cases "bytecode_round cdl ls")
      have t: "res = step_result (code_at (ls_bytecode ls) (ls_pc ls)) (push_missing (ls_bytecode ls) (ls_pc ls)) (length (ls_stack ls))"
        "stack_ok (ls_stack ls1)" "ls_bytecode ls1 = ls_bytecode ls" "ls_pc ls < ls_pc ls1"
        "res = EVM_LIFT_OK \<longrightarrow> ls_pc ls1 = ls_pc ls + insn_len (code_at (ls_bytecode ls) (ls_pc ls))"
        using round_typed [OF less.prems(1) True, of cdl] r by (simp_all add: step_typed_def Let_def)
      have nres: "res \<noteq> EVM_LIFT_INVALID_OP" "res \<noteq> EVM_LIFT_OOM" using t(1) by (auto simp: step_result_def)
      have sim: "evm_lift_bytecode cdl ls = (if res = EVM_LIFT_OK then evm_lift_bytecode cdl ls1 else Some (res, ls1))"
        using True r by (subst evm_lift_bytecode.simps) (simp add: lifter_length_def)
      show ?thesis
      proof (cases "res = EVM_LIFT_OK")
        case ok: True
        then have "ls_pc ls1 \<le> length (ls_bytecode ls)"
          using t(1,5) by (auto simp: step_result_def push_missing_def split: if_splits)
        moreover have "length (ls_bytecode ls) - ls_pc ls1 < length (ls_bytecode ls) - ls_pc ls"
          using t(4) True by linarith
        ultimately show ?thesis using less.hyps [of ls1] t(2,3) ok sim by simp
      next
        case False
        then show ?thesis using sim t nres by simp
      qed
    qed
  qed
  then show ?thesis using that by blast
qed

subsection \<open>Properties\<close>

text \<open>C24: Every step is typed by the opcode table of the EVM. From a well-formed stack the step returns
  TRUNCATED if a push lacks operand bytes, STACK_UNDER if fewer slots are there than the opcode takes,
  STACK_OVER if its results would exceed 1024 slots, and OK otherwise, with exactly the opcode's change of
  depth and the program counter after its operand. The stack stays well formed in every case: names fit
  and are not empty, wide values have 32 bytes, a narrow constant and its bytes agree.\<close>

theorem lift_step_has_its_effect:
  assumes "stack_ok (ls_stack ls)" "ls_pc ls < length (ls_bytecode ls)"
    and "evm_lift_step cdl ls = (res, ls')"
  shows "res = step_result (code_at (ls_bytecode ls) (ls_pc ls)) (push_missing (ls_bytecode ls) (ls_pc ls)) (length (ls_stack ls))
    \<and> stack_ok (ls_stack ls')
    \<and> (res = EVM_LIFT_OK \<longrightarrow>
        length (ls_stack ls') = length (ls_stack ls) - fst (stack_row (code_at (ls_bytecode ls) (ls_pc ls)))
                                + snd (stack_row (code_at (ls_bytecode ls) (ls_pc ls)))
        \<and> ls_pc ls' = ls_pc ls + insn_len (code_at (ls_bytecode ls) (ls_pc ls)))"
  using step_typed_OK [OF assms(1,2), of cdl] assms(3) by (simp add: step_typed_def Let_def)

definition lift_state :: "u8 list \<Rightarrow> evm_lifter" where
  "lift_state code = (case evm_lifter_init code ir_module_create of Some (_, ls) \<Rightarrow> ls)"

lemma lift_state_fields:
  "ls_bytecode (lift_state code) = code" "ls_pc (lift_state code) = 0" "ls_stack (lift_state code) = []"
  "ls_valid_jumpdest (lift_state code) = valid_jumpdests code" "ls_block_start (lift_state code)"
  "ls_memory (lift_state code) = memory_v2_new"
  by (simp_all add: lift_state_def evm_lifter_init_def ir_func_create_def ir_module_create_def IR_MAX_FUNCS_def
      Let_def emit_const_def lift_emit_def)

theorem lift_step_has_its_effect_witness:
  "fst (evm_lift_step (\<lambda>m _. m) (lift_state [0x02, 0x60])) = EVM_LIFT_STACK_UNDER
   \<and> fst (evm_lift_step (\<lambda>m _. m) (lift_state [0x60])) = EVM_LIFT_TRUNCATED"
proof -
  have e: "stack_ok []" by (simp add: stack_ok_def)
  have a: "byte_opcode 2 = Some EVM_MUL" by (simp add: byte_opcode_def all_opcodes_def)
  show ?thesis
    using lift_step_has_its_effect [of "lift_state [0x02, 0x60]" "\<lambda>m _. m"]
      lift_step_has_its_effect [of "lift_state [0x60]" "\<lambda>m _. m"]
    by (cases "evm_lift_step (\<lambda>m _. m) (lift_state [0x02, 0x60])", cases "evm_lift_step (\<lambda>m _. m) (lift_state [0x60])")
      (simp add: lift_state_fields e code_at_def push_missing_def step_result_def insn_len_def stack_row_def a opcode_row_def)
qed

text \<open>C25: Lifting any bytecode ends, whatever the bytes: the loop returns a result, never INVALID_OP and,
  allocation apart, never OOM, with a well-formed stack, and OK only at the end of the code.\<close>

theorem lift_bytecode_terminates:
  "\<exists>res ls'. evm_lift_bytecode cdl (lift_state code) = Some (res, ls') \<and> stack_ok (ls_stack ls')
     \<and> (res = EVM_LIFT_OK \<and> ls_pc ls' = length code
          \<or> res \<in> {EVM_LIFT_TRUNCATED, EVM_LIFT_STACK_OVER, EVM_LIFT_STACK_UNDER})"
proof -
  have "stack_ok (ls_stack (lift_state code))" "ls_pc (lift_state code) \<le> length (ls_bytecode (lift_state code))"
    by (simp_all add: lift_state_fields stack_ok_def)
  then obtain res ls' where r: "evm_lift_bytecode cdl (lift_state code) = Some (res, ls')" "stack_ok (ls_stack ls')"
    "res \<noteq> EVM_LIFT_INVALID_OP" "res \<noteq> EVM_LIFT_OOM" "res = EVM_LIFT_OK \<longrightarrow> ls_pc ls' = length code"
    by (rule bytecode_loop [of "lift_state code" cdl]) (simp add: lift_state_fields)
  then show ?thesis by (cases res) auto
qed

end
