(* ===== verification/EvmConst.thy ===== *)
theory EvmConst
  imports EvmTyping
begin

text \<open>
  The constants the lifter tracks on its virtual stack, against the EVM. The specification is the
  arithmetic of the EVM on numbers below 2^256, with the operands in the order of its definition (the top
  of the stack first), and an execution of straight-line code in which environment, storage and calls
  deliver arbitrary words. The lemmas show for each handler which slot it leaves; the properties are that
  for the operations the lifter folds in the EVM's order every tracked constant is the value the EVM has
  there, and that the other operations are folded with their operands exchanged.
\<close>

subsection \<open>The arithmetic of the EVM\<close>

definition unsigned256 :: "int \<Rightarrow> nat" where
  "unsigned256 i = nat (i mod 2 ^ 256)"

definition flag :: "bool \<Rightarrow> nat" where "flag b = (if b then 1 else 0)"

text \<open>\<open>x\<close> is the top of the stack and \<open>y\<close> the word below it.\<close>

definition evm_alu :: "evm_opcode \<Rightarrow> nat \<Rightarrow> nat \<Rightarrow> nat option" where
  "evm_alu op x y = (case op of
       EVM_ADD \<Rightarrow> Some ((x + y) mod M256)
     | EVM_MUL \<Rightarrow> Some ((x * y) mod M256)
     | EVM_SUB \<Rightarrow> Some ((M256 + x - y) mod M256)
     | EVM_DIV \<Rightarrow> Some (x div y)
     | EVM_SDIV \<Rightarrow> Some (if y = 0 then 0 else unsigned256 (sval256 x sdiv sval256 y))
     | EVM_MOD \<Rightarrow> Some (if y = 0 then 0 else x mod y)
     | EVM_SMOD \<Rightarrow> Some (if y = 0 then 0 else unsigned256 (sval256 x smod sval256 y))
     | EVM_EXP \<Rightarrow> Some (x ^ y mod M256)
     | EVM_SIGNEXTEND \<Rightarrow> Some (unsigned256 (signed_take_bit (min 255 (8 * x + 7)) (int y)))
     | EVM_LT \<Rightarrow> Some (flag (x < y))
     | EVM_GT \<Rightarrow> Some (flag (x > y))
     | EVM_SLT \<Rightarrow> Some (flag (sval256 x < sval256 y))
     | EVM_SGT \<Rightarrow> Some (flag (sval256 x > sval256 y))
     | EVM_EQ \<Rightarrow> Some (flag (x = y))
     | EVM_AND \<Rightarrow> Some (x AND y)
     | EVM_OR \<Rightarrow> Some (x OR y)
     | EVM_XOR \<Rightarrow> Some (x XOR y)
     | EVM_BYTE \<Rightarrow> Some (if x < 32 then y div 256 ^ (31 - x) mod 256 else 0)
     | EVM_SHL \<Rightarrow> Some (y * 2 ^ x mod M256)
     | EVM_SHR \<Rightarrow> Some (y div 2 ^ x)
     | EVM_SAR \<Rightarrow> Some (unsigned256 (sval256 y div 2 ^ x))
     | _ \<Rightarrow> None)"

text \<open>The operations whose operands the lifter takes in this order, and those it exchanges.\<close>

definition right_order :: "evm_opcode \<Rightarrow> bool" where
  "right_order op \<longleftrightarrow> op \<in> {EVM_ADD, EVM_MUL, EVM_EQ, EVM_AND, EVM_OR, EVM_XOR, EVM_BYTE, EVM_SHL, EVM_SHR,
     EVM_SAR, EVM_SIGNEXTEND}"

definition swapped_order :: "evm_opcode \<Rightarrow> bool" where
  "swapped_order op \<longleftrightarrow> op \<in> {EVM_SUB, EVM_DIV, EVM_SDIV, EVM_MOD, EVM_SMOD, EVM_EXP, EVM_LT, EVM_GT, EVM_SLT, EVM_SGT}"

lemma unsigned_sval: "v < M256 \<Longrightarrow> unsigned256 (sval256 v) = v"
  by (auto simp: unsigned256_def sval256_def signed_of_def M256_def mod_pos_pos_trivial zmod_trivial_iff)

lemma unsigned_of_sval: "v < M256 \<Longrightarrow> sval256 v = i \<Longrightarrow> v = unsigned256 i"
  using unsigned_sval by metis

lemma lifter_alu:
  assumes "bytes_ok a" "bytes_ok b"
  shows "evm_alu EVM_ADD (bval b) (bval a) = Some (bval (fst (lift_u256_add a b)))"
    and "evm_alu EVM_MUL (bval b) (bval a) = Some (bval (lift_u256_mul a b))"
    and "evm_alu EVM_EQ (bval b) (bval a) = Some (flag (evm_u256_eq a b))"
    and "evm_alu EVM_AND (bval b) (bval a) = Some (bval (evm_u256_and a b))"
    and "evm_alu EVM_OR (bval b) (bval a) = Some (bval (evm_u256_or a b))"
    and "evm_alu EVM_XOR (bval b) (bval a) = Some (bval (evm_u256_xor a b))"
    and "evm_alu EVM_BYTE (bval b) (bval a) = Some (bval (evm_u256_byte_op b a))"
    and "evm_alu EVM_SHL (bval b) (bval a) = Some (bval (evm_u256_shl_op b a))"
    and "evm_alu EVM_SHR (bval b) (bval a) = Some (bval (evm_u256_shr_op b a))"
    and "evm_alu EVM_SAR (bval b) (bval a) = Some (bval (evm_u256_sar_op b a))"
    and "evm_alu EVM_SIGNEXTEND (bval b) (bval a) = Some (bval (evm_u256_signextend_op b a))"
proof -
  note bnd = bytes_bound
  show "evm_alu EVM_ADD (bval b) (bval a) = Some (bval (fst (lift_u256_add a b)))"
    using bval_add [of a b] assms by (simp add: evm_alu_def add.commute)
  show "evm_alu EVM_MUL (bval b) (bval a) = Some (bval (lift_u256_mul a b))"
    using bval_mul [of a b] assms by (simp add: evm_alu_def mult.commute)
  show "evm_alu EVM_EQ (bval b) (bval a) = Some (flag (evm_u256_eq a b))"
    using eq_iff [OF assms] by (auto simp: evm_alu_def flag_def)
  show "evm_alu EVM_AND (bval b) (bval a) = Some (bval (evm_u256_and a b))"
    "evm_alu EVM_OR (bval b) (bval a) = Some (bval (evm_u256_or a b))"
    "evm_alu EVM_XOR (bval b) (bval a) = Some (bval (evm_u256_xor a b))"
    using bitwise_value [OF assms] by (simp_all add: evm_alu_def and.commute or.commute xor.commute)
  show "evm_alu EVM_BYTE (bval b) (bval a) = Some (bval (evm_u256_byte_op b a))"
    using byte_op_value [OF assms(2,1)] by (simp add: evm_alu_def)
  show "evm_alu EVM_SHL (bval b) (bval a) = Some (bval (evm_u256_shl_op b a))"
    using shl_value [OF assms(2,1)] by (simp add: evm_alu_def)
  show "evm_alu EVM_SHR (bval b) (bval a) = Some (bval (evm_u256_shr_op b a))"
    using shr_value [OF assms(2,1)] by (simp add: evm_alu_def)
  show "evm_alu EVM_SAR (bval b) (bval a) = Some (bval (evm_u256_sar_op b a))"
    using sar_value [OF assms(2,1)] unsigned_of_sval [OF bnd [of "evm_u256_sar_op b a"]] by (simp add: evm_alu_def)
  show "evm_alu EVM_SIGNEXTEND (bval b) (bval a) = Some (bval (evm_u256_signextend_op b a))"
    using signextend_value [OF assms(2,1)] unsigned_of_sval [OF bnd [of "evm_u256_signextend_op b a"]]
    by (simp add: evm_alu_def)
qed

lemma sgn_less_iff: "sgn (x - y :: int) < 0 \<longleftrightarrow> x < y" "sgn (x - y) > 0 \<longleftrightarrow> y < x"
  by (auto simp: sgn_if)

lemma sdiv_smod_ok:
  assumes "bytes_ok a" "bytes_ok b"
  shows "bytes_ok (fst (evm_u256_sdiv_smod a b))" "bytes_ok (snd (evm_u256_sdiv_smod a b))"
  using assms div_mod_vals_spec(3,4) by (auto simp: evm_u256_sdiv_smod_def Let_def case_prod_unfold)

lemma lifter_alu_swapped:
  assumes "bytes_ok a" "bytes_ok b"
  shows "evm_alu EVM_SUB (bval a) (bval b) = Some (bval (lift_u256_sub a b))"
    and "evm_alu EVM_DIV (bval a) (bval b) = Some (bval (fst (div_mod_vals a b)))"
    and "evm_alu EVM_MOD (bval a) (bval b) = Some (bval (snd (div_mod_vals a b)))"
    and "evm_alu EVM_SDIV (bval a) (bval b) = Some (bval (fst (evm_u256_sdiv_smod a b)))"
    and "evm_alu EVM_SMOD (bval a) (bval b) = Some (bval (snd (evm_u256_sdiv_smod a b)))"
    and "evm_alu EVM_EXP (bval a) (bval b) = Some (bval (evm_u256_exp a b))"
    and "evm_alu EVM_LT (bval a) (bval b) = Some (flag (evm_u256_cmp a b < 0))"
    and "evm_alu EVM_GT (bval a) (bval b) = Some (flag (evm_u256_cmp a b > 0))"
    and "evm_alu EVM_SLT (bval a) (bval b) = Some (flag (evm_u256_cmp_signed a b < 0))"
    and "evm_alu EVM_SGT (bval a) (bval b) = Some (flag (evm_u256_cmp_signed a b > 0))"
proof -
  show "evm_alu EVM_SUB (bval a) (bval b) = Some (bval (lift_u256_sub a b))"
    using bval_sub [of a b] assms by (simp add: evm_alu_def)
  show "evm_alu EVM_DIV (bval a) (bval b) = Some (bval (fst (div_mod_vals a b)))"
    "evm_alu EVM_MOD (bval a) (bval b) = Some (bval (snd (div_mod_vals a b)))"
    using div_mod_vals_spec [OF assms] by (auto simp: evm_alu_def)
  show "evm_alu EVM_EXP (bval a) (bval b) = Some (bval (evm_u256_exp a b))"
    using exp_value [OF assms] by (simp add: evm_alu_def)
  show "evm_alu EVM_LT (bval a) (bval b) = Some (flag (evm_u256_cmp a b < 0))"
    "evm_alu EVM_GT (bval a) (bval b) = Some (flag (evm_u256_cmp a b > 0))"
    using cmp_sgn [OF assms] sgn_less_iff [of "int (bval a)" "int (bval b)"] by (simp_all add: evm_alu_def)
  show "evm_alu EVM_SLT (bval a) (bval b) = Some (flag (evm_u256_cmp_signed a b < 0))"
    "evm_alu EVM_SGT (bval a) (bval b) = Some (flag (evm_u256_cmp_signed a b > 0))"
    using cmp_signed_sgn [OF assms] sgn_less_iff [of "sval256 (bval a)" "sval256 (bval b)"]
    by (simp_all add: evm_alu_def)
  show "evm_alu EVM_SDIV (bval a) (bval b) = Some (bval (fst (evm_u256_sdiv_smod a b)))"
    "evm_alu EVM_SMOD (bval a) (bval b) = Some (bval (snd (evm_u256_sdiv_smod a b)))"
  proof -
    let ?x = "sval256 (bval a)" and ?y = "sval256 (bval b)"
    note bnd = bytes_bound
    have zero: "evm_u256_sdiv_smod a b = (zero32, zero32)" if "bval b = 0"
      using that assms by (simp add: evm_u256_sdiv_smod_def is_zero_iff)
    note spec = sdiv_smod_spec [OF assms]
    have q: "bval (fst (evm_u256_sdiv_smod a b)) = unsigned256 (?x sdiv ?y)" if nz: "bval b \<noteq> 0"
    proof (cases "?x = - (2 ^ 255) \<and> ?y = -1")
      case True
      have "unsigned256 (- (2 ^ 255)) = unsigned256 (2 ^ 255)" by (simp add: unsigned256_def)
      moreover have "bval a = unsigned256 (- (2 ^ 255))"
        using unsigned_sval [OF bnd [OF assms(1)]] True by simp
      ultimately show ?thesis using spec(2) [OF nz] True by simp
    next
      case False
      then show ?thesis
        using unsigned_of_sval [OF bnd [OF sdiv_smod_ok(1) [OF assms]]] spec(1) [OF nz] by simp
    qed
    have r: "bval (snd (evm_u256_sdiv_smod a b)) = unsigned256 (?x smod ?y)" if nz: "bval b \<noteq> 0"
      using unsigned_of_sval [OF bnd [OF sdiv_smod_ok(2) [OF assms]]] spec(3) [OF nz] by simp
    show "evm_alu EVM_SDIV (bval a) (bval b) = Some (bval (fst (evm_u256_sdiv_smod a b)))"
      "evm_alu EVM_SMOD (bval a) (bval b) = Some (bval (snd (evm_u256_sdiv_smod a b)))"
      using zero q r by (auto simp: evm_alu_def)
  qed
qed

subsection \<open>The slot a handler leaves\<close>

text \<open>\<open>pushes p P ls r\<close>: if \<open>r\<close> is an OK result, it replaced \<open>p\<close> slots of \<open>ls\<close> by one that satisfies \<open>P\<close>;
  \<open>pops p\<close>: it only removed them.\<close>

definition pushes :: "nat \<Rightarrow> (evm_slot \<Rightarrow> bool) \<Rightarrow> evm_lifter \<Rightarrow> lift_out \<Rightarrow> bool" where
  "pushes p P ls r \<longleftrightarrow> (fst r = EVM_LIFT_OK \<longrightarrow>
     (\<exists>s. P s \<and> ls_stack (snd r) = s # drop p (ls_stack ls)))"

definition pops :: "nat \<Rightarrow> evm_lifter \<Rightarrow> lift_out \<Rightarrow> bool" where
  "pops p ls r \<longleftrightarrow> (fst r = EVM_LIFT_OK \<longrightarrow> ls_stack (snd r) = drop p (ls_stack ls))"

lemma pop_then_cases:
  "stack_pop_then ls k = (case ls_stack ls of [] \<Rightarrow> underflow ls
     | s # rest \<Rightarrow> k (c_copy IR_NAME_MAX (sl_name s)) (ls\<lparr> ls_stack := rest \<rparr>))"
  by (simp add: stack_pop_then_def stack_pop_def underflow_def split: list.splits)

lemma pushes_pop_then:
  assumes "\<And>s rest. ls_stack ls = s # rest \<Longrightarrow>
     pushes p P (ls\<lparr> ls_stack := rest \<rparr>) (k (c_copy IR_NAME_MAX (sl_name s)) (ls\<lparr> ls_stack := rest \<rparr>))"
  shows "pushes (Suc p) P ls (stack_pop_then ls k)"
  using assms by (auto simp: pop_then_cases pushes_def underflow_def split: list.splits)

lemma pops_pop_then:
  assumes "\<And>s rest. ls_stack ls = s # rest \<Longrightarrow>
     pops p (ls\<lparr> ls_stack := rest \<rparr>) (k (c_copy IR_NAME_MAX (sl_name s)) (ls\<lparr> ls_stack := rest \<rparr>))"
  shows "pops (Suc p) ls (stack_pop_then ls k)"
  using assms by (auto simp: pop_then_cases pops_def underflow_def split: list.splits)

lemma pushes_pop_many:
  assumes "\<And>xs st. pushes 0 P (ls\<lparr> ls_stack := st \<rparr>) (k xs (ls\<lparr> ls_stack := st \<rparr>))"
  shows "pushes n P ls (pop_many n ls k)"
  using assms
proof (induction n arbitrary: ls k)
  case 0
  then show ?case using 0 [of "ls_stack ls" "[]"] by simp
next
  case (Suc n)
  show ?case unfolding pop_many.simps
    by (rule pushes_pop_then) (rule Suc.IH, use Suc.prems in simp)
qed

lemma pops_pop_many:
  assumes "\<And>xs st. pops 0 (ls\<lparr> ls_stack := st \<rparr>) (k xs (ls\<lparr> ls_stack := st \<rparr>))"
  shows "pops n ls (pop_many n ls k)"
  using assms
proof (induction n arbitrary: ls k)
  case 0
  then show ?case using 0 [of "ls_stack ls" "[]"] by simp
next
  case (Suc n)
  show ?case unfolding pop_many.simps
    by (rule pops_pop_then) (rule Suc.IH, use Suc.prems in simp)
qed

lemma pushes_exact:
  assumes "same ls ls'" "bytes_ok v" "\<And>s. sl_wide s = v \<Longrightarrow> sl_state s = EVM_VAL_KNOWN_WIDE \<Longrightarrow> P s"
  shows "pushes 0 P ls (push_exact ls' d v)"
  using assms
  by (auto simp: pushes_def push_exact_def stack_push_const_wide_def push_slot_def overflow_def same_def wide_payload_id)

lemma pushes_narrow:
  assumes "same ls ls'" "\<And>s. sl_wide s = narrow_bytes v \<Longrightarrow> sl_state s = EVM_VAL_KNOWN_NARROW \<Longrightarrow> P s"
  shows "pushes 0 P ls (stack_push_const_narrow ls' d v)"
  using assms by (auto simp: pushes_def stack_push_const_narrow_def push_slot_def overflow_def same_def)

lemma pushes_unknown:
  assumes "same ls ls'" "\<And>s. \<not> known s \<Longrightarrow> P s"
  shows "pushes 0 P ls (stack_push ls' d)"
  using assms
  by (auto simp: pushes_def stack_push_def stack_push_const_narrow_def push_slot_def overflow_def same_def on_top_def known_def)

lemma pushes_if: "(c \<Longrightarrow> pushes p P ls x) \<Longrightarrow> (\<not> c \<Longrightarrow> pushes p P ls y) \<Longrightarrow> pushes p P ls (if c then x else y)"
  by simp

lemma pops_ok: "same ls ls' \<Longrightarrow> pops 0 ls (EVM_LIFT_OK, ls')"
  by (simp add: pops_def same_def)

lemma pops_if: "(c \<Longrightarrow> pops p ls x) \<Longrightarrow> (\<not> c \<Longrightarrow> pops p ls y) \<Longrightarrow> pops p ls (if c then x else y)"
  by simp

text \<open>The number a narrow constant's bytes denote.\<close>

lemma narrow_bytes_nth:
  "i < 32 \<Longrightarrow> narrow_bytes v ! i = (if 31 - i < 8 then ucast (drop_bit ((31 - i) * 8) v AND 0xFF) else 0)"
proof -
  let ?P = "\<lambda>k bs. length bs = 32 \<and>
     (\<forall>i < 32. bs ! i = (if 31 - i < k then ucast (drop_bit ((31 - i) * 8) v AND 0xFF) else 0 :: u8))"
  have "?P 8 (foldl (\<lambda>bs i. bs[31 - i := ucast (drop_bit (i * 8) v AND 0xFF)]) zero32 [0..<8])"
  proof (rule foldl_upt_invariant [where P = ?P])
    show "?P 0 zero32" by (simp add: zero32_def)
  next
    fix k :: nat and bs :: "u8 list"
    assume k: "k < 8" and p: "?P k bs"
    show "?P (Suc k) (bs[31 - k := ucast (drop_bit (k * 8) v AND 0xFF)])"
    proof (intro conjI allI impI)
      show "length (bs[31 - k := ucast (drop_bit (k * 8) v AND 0xFF)]) = 32" using p by simp
    next
      fix i :: nat assume i: "i < 32"
      show "bs[31 - k := ucast (drop_bit (k * 8) v AND 0xFF)] ! i
          = (if 31 - i < Suc k then ucast (drop_bit ((31 - i) * 8) v AND 0xFF) else 0)"
      proof (cases "i = 31 - k")
        case True
        then have "31 - i = k" using k by simp
        then show ?thesis using True k p by simp
      next
        case False
        then have "31 - i < Suc k \<longleftrightarrow> 31 - i < k" using i k by arith
        then show ?thesis using False i p by simp
      qed
    qed
  qed
  then show "i < 32 \<Longrightarrow> narrow_bytes v ! i = (if 31 - i < 8 then ucast (drop_bit ((31 - i) * 8) v AND 0xFF) else 0)"
    unfolding narrow_bytes_def by blast
qed

lemma bval_narrow: "bval (narrow_bytes v) = unat v"
proof (rule bit_eqI)
  fix n
  have b: "bytes_ok (narrow_bytes v)" by simp
  have ff: "bit (0xFF :: u64) j \<longleftrightarrow> j < 8" for j
    using bit_mask_iff [of 8 j, where 'a = "64 word"] by (auto simp: mask_eq_exp_minus_1)
  show "bit (bval (narrow_bytes v)) n = bit (unat v) n"
  proof (cases "n < 64")
    case True
    define k where "k = n div 8"
    have k: "k < 8" "n = 8 * k + n mod 8" using True by (auto simp: k_def)
    have i: "31 - k < 32" "31 - (31 - k) = k" using k by auto
    have "narrow_bytes v ! (31 - k) = ucast (drop_bit (k * 8) v AND 0xFF)"
      using narrow_bytes_nth [of "31 - k" v] i k by simp
    then have "bit (narrow_bytes v ! (31 - k)) (n mod 8) \<longleftrightarrow> n mod 8 < 8 \<and> bit v (k * 8 + n mod 8)"
      by (simp only: bit_unsigned_iff bit_and_iff bit_drop_bit_eq ff comp_apply) (auto dest: bit_imp_le_length)
    then have "bit (bval (narrow_bytes v)) n = bit v n"
      using b k True by (simp add: bit_bval bytes_ok_def k_def [symmetric] mult.commute)
    then show ?thesis by (simp add: bit_unsigned_iff)
  next
    case False
    then have "\<not> bit (unat v) n" by (auto simp: bit_unsigned_iff dest: bit_imp_le_length)
    moreover have "\<not> bit (bval (narrow_bytes v)) n"
      using b False narrow_bytes_nth [of "31 - n div 8" v] by (auto simp: bit_bval bytes_ok_def)
    ultimately show ?thesis by simp
  qed
qed

subsection \<open>Sound slots\<close>

definition sound :: "nat \<Rightarrow> evm_slot \<Rightarrow> bool" where
  "sound v s \<longleftrightarrow> (known s \<longrightarrow> bval (sl_wide s) = v)"

lemma sound_unknown: "\<not> known s \<Longrightarrow> sound v s" by (simp add: sound_def)

lemma pushes_exact_sound: "same ls ls' \<Longrightarrow> bytes_ok v \<Longrightarrow> bval v = w \<Longrightarrow> pushes 0 (sound w) ls (push_exact ls' d v)"
  by (rule pushes_exact) (simp_all add: sound_def)

lemma pushes_flag_sound: "same ls ls' \<Longrightarrow> flag b = w \<Longrightarrow> pushes 0 (sound w) ls (push_flag ls' d b)"
  unfolding push_flag_def
  by (rule pushes_narrow) (auto simp: sound_def bval_narrow flag_def)

text \<open>The slot of a folded operation: known exactly when both operands are, and then the value \<open>v\<close>.\<close>

definition exactly :: "nat \<Rightarrow> evm_slot \<Rightarrow> bool" where
  "exactly v s \<longleftrightarrow> known s \<and> bval (sl_wide s) = v"

definition folded :: "evm_slot \<Rightarrow> evm_slot \<Rightarrow> nat \<Rightarrow> evm_slot \<Rightarrow> bool" where
  "folded ta tb v s \<longleftrightarrow> (if known ta \<and> known tb then exactly v s else \<not> known s)"

lemma folded_sound: "folded ta tb v s \<Longrightarrow> sound v s"
  by (simp add: folded_def exactly_def sound_def split: if_splits)

lemma pushes_mono: "pushes p P ls r \<Longrightarrow> (\<And>s. P s \<Longrightarrow> Q s) \<Longrightarrow> pushes p Q ls r"
  by (auto simp: pushes_def)

lemma pushes_exact_exactly: "same ls ls' \<Longrightarrow> bytes_ok v \<Longrightarrow> bval v = w \<Longrightarrow> pushes 0 (exactly w) ls (push_exact ls' d v)"
  by (rule pushes_exact) (simp_all add: exactly_def known_def)

lemma pushes_flag_exactly: "same ls ls' \<Longrightarrow> flag b = w \<Longrightarrow> pushes 0 (exactly w) ls (push_flag ls' d b)"
  unfolding push_flag_def
  by (rule pushes_narrow) (auto simp: exactly_def known_def bval_narrow flag_def)

lemma pushes_binary:
  assumes st: "ls_stack ls = tb # ta # rest"
    and em: "\<And>ls' d a b. same ls' (em ls' d a b)"
    and f: "\<And>ls0 ls' d. known ta \<Longrightarrow> known tb \<Longrightarrow> same ls0 ls' \<Longrightarrow>
              pushes 0 (exactly v) ls0 (f ls' d (sl_wide ta) (sl_wide tb))"
  shows "pushes (Suc (Suc 0)) (folded ta tb v) ls (lift_binary em f ls)"
proof -
  have pk: "peeked 2 1 ls = ta" "peeked 2 0 ls = tb" using st by (simp_all add: peeked_def)
  show ?thesis
    unfolding lift_binary_def Let_def fresh_eq prod.case pk
    apply (rule pushes_pop_then)
    apply (rule pushes_pop_then)
    apply (rule pushes_if)
     apply (rule pushes_mono)
      apply (rule f)
        apply (simp_all add: same_trans [OF _ em] folded_def)
    apply (rule pushes_unknown)
     apply (auto simp: same_trans [OF _ em] folded_def)
    done
qed

definition slots_agree :: "evm_slot list \<Rightarrow> nat list \<Rightarrow> bool" where
  "slots_agree st vs \<longleftrightarrow> list_all2 (\<lambda>s v. sound v s) st vs"

lemma slots_agree_two:
  assumes "slots_agree st (x # y # vs)"
  obtains tb ta rest where "st = tb # ta # rest" "sound x tb" "sound y ta" "slots_agree rest vs"
  using assms unfolding slots_agree_def list_all2_Cons2 by blast

text \<open>The fold functions give 32 bytes.\<close>

lemma fold_ok:
  assumes "bytes_ok a" "bytes_ok b"
  shows "bytes_ok (evm_u256_byte_op b a)" "bytes_ok (evm_u256_shl_op b a)" "bytes_ok (evm_u256_shr_op b a)"
    "bytes_ok (evm_u256_sar_op b a)" "bytes_ok (evm_u256_signextend_op b a)" "bytes_ok (evm_u256_exp a b)"
    "bytes_ok (evm_u256_and a b)" "bytes_ok (evm_u256_or a b)" "bytes_ok (evm_u256_xor a b)"
    "bytes_ok (fst (div_mod_vals a b))" "bytes_ok (snd (div_mod_vals a b))"
    "bytes_ok (fst (evm_u256_sdiv_smod a b))" "bytes_ok (snd (evm_u256_sdiv_smod a b))"
    "bytes_ok (evm_u256_not a)"
  using byte_op_value [OF assms(2,1)] shl_value [OF assms(2,1)] shr_value [OF assms(2,1)] sar_value [OF assms(2,1)]
    signextend_value [OF assms(2,1)] exp_value [OF assms] sdiv_smod_ok [OF assms] div_mod_vals_spec(3,4) [OF assms] assms
  by (simp_all add: evm_u256_and_def evm_u256_or_def evm_u256_xor_def evm_u256_not_def bytes_ok_def)

text \<open>\<open>F x y\<close> is what the EVM's operation gives on the two words; the folded value is it on the bytes.\<close>

lemma pushes_exact_case:
  assumes ag: "ls_stack ls = tb # ta # rest" "sound x tb" "sound y ta"
    and w: "bytes_ok (sl_wide ta)" "bytes_ok (sl_wide tb)"
    and F: "F x y = Some v" and em: "\<And>ls' d a b. same ls' (em ls' d a b)"
    and g: "bytes_ok (g (sl_wide ta) (sl_wide tb))"
    and eq: "F (bval (sl_wide tb)) (bval (sl_wide ta)) = Some (bval (g (sl_wide ta) (sl_wide tb)))"
  shows "pushes (Suc (Suc 0)) (folded ta tb v) ls (lift_binary em (\<lambda>ls d a b. push_exact ls d (g a b)) ls)"
proof (rule pushes_binary [OF ag(1) em])
  fix ls0 ls' :: evm_lifter and d assume "known ta" "known tb" and s: "same ls0 ls'"
  then have "bval (g (sl_wide ta) (sl_wide tb)) = v" using ag(2,3) F eq by (simp add: sound_def)
  then show "pushes 0 (exactly v) ls0 (push_exact ls' d (g (sl_wide ta) (sl_wide tb)))"
    by (rule pushes_exact_exactly [OF s g])
qed

lemma pushes_flag_case:
  assumes ag: "ls_stack ls = tb # ta # rest" "sound x tb" "sound y ta"
    and w: "bytes_ok (sl_wide ta)" "bytes_ok (sl_wide tb)"
    and F: "F x y = Some v" and em: "\<And>ls' d a b. same ls' (em ls' d a b)"
    and eq: "F (bval (sl_wide tb)) (bval (sl_wide ta)) = Some (flag (g (sl_wide ta) (sl_wide tb)))"
  shows "pushes (Suc (Suc 0)) (folded ta tb v) ls (lift_binary em (\<lambda>ls d a b. push_flag ls d (g a b)) ls)"
proof (rule pushes_binary [OF ag(1) em])
  fix ls0 ls' :: evm_lifter and d assume "known ta" "known tb" and s: "same ls0 ls'"
  then have "flag (g (sl_wide ta) (sl_wide tb)) = v" using ag(2,3) F eq by (simp add: sound_def)
  then show "pushes 0 (exactly v) ls0 (push_flag ls' d (g (sl_wide ta) (sl_wide tb)))"
    by (rule pushes_flag_exactly [OF s])
qed

lemma right_sound:
  assumes ag: "ls_stack ls = tb # ta # rest" "sound x tb" "sound y ta" and ok: "stack_ok (ls_stack ls)"
  shows
    "evm_alu EVM_ADD x y = Some v \<Longrightarrow> pushes (Suc (Suc 0)) (folded ta tb v) ls (lift_add ls)"
    and "evm_alu EVM_MUL x y = Some v \<Longrightarrow> pushes (Suc (Suc 0)) (folded ta tb v) ls (lift_mul ls)"
    and "evm_alu EVM_EQ x y = Some v \<Longrightarrow> pushes (Suc (Suc 0)) (folded ta tb v) ls (lift_eq ls)"
    and "evm_alu EVM_AND x y = Some v \<Longrightarrow> pushes (Suc (Suc 0)) (folded ta tb v) ls (lift_and ls)"
    and "evm_alu EVM_OR x y = Some v \<Longrightarrow> pushes (Suc (Suc 0)) (folded ta tb v) ls (lift_or ls)"
    and "evm_alu EVM_XOR x y = Some v \<Longrightarrow> pushes (Suc (Suc 0)) (folded ta tb v) ls (lift_xor ls)"
    and "evm_alu EVM_BYTE x y = Some v \<Longrightarrow> pushes (Suc (Suc 0)) (folded ta tb v) ls (lift_byte ls)"
    and "evm_alu EVM_SHL x y = Some v \<Longrightarrow> pushes (Suc (Suc 0)) (folded ta tb v) ls (lift_shl ls)"
    and "evm_alu EVM_SHR x y = Some v \<Longrightarrow> pushes (Suc (Suc 0)) (folded ta tb v) ls (lift_shr ls)"
    and "evm_alu EVM_SAR x y = Some v \<Longrightarrow> pushes (Suc (Suc 0)) (folded ta tb v) ls (lift_sar ls)"
    and "evm_alu EVM_SIGNEXTEND x y = Some v \<Longrightarrow> pushes (Suc (Suc 0)) (folded ta tb v) ls (lift_signextend ls)"
proof -
  have w: "bytes_ok (sl_wide ta)" "bytes_ok (sl_wide tb)" using ok ag(1) by (simp_all add: stack_ok_def slot_ok_def)
  note go = pushes_exact_case [OF ag w] pushes_flag_case [OF ag w] and alu = lifter_alu [OF w]
  show "evm_alu EVM_ADD x y = Some v \<Longrightarrow> pushes (Suc (Suc 0)) (folded ta tb v) ls (lift_add ls)"
    unfolding lift_add_def by (rule go(1) [where F = "evm_alu EVM_ADD"]) (simp_all add: alu fold_ok [OF w])
  show "evm_alu EVM_MUL x y = Some v \<Longrightarrow> pushes (Suc (Suc 0)) (folded ta tb v) ls (lift_mul ls)"
    unfolding lift_mul_def by (rule go(1) [where F = "evm_alu EVM_MUL"]) (simp_all add: alu fold_ok [OF w])
  show "evm_alu EVM_EQ x y = Some v \<Longrightarrow> pushes (Suc (Suc 0)) (folded ta tb v) ls (lift_eq ls)"
    unfolding lift_eq_def by (rule go(2) [where F = "evm_alu EVM_EQ"]) (simp_all add: alu fold_ok [OF w])
  show "evm_alu EVM_AND x y = Some v \<Longrightarrow> pushes (Suc (Suc 0)) (folded ta tb v) ls (lift_and ls)"
    unfolding lift_and_def by (rule go(1) [where F = "evm_alu EVM_AND"]) (simp_all add: alu fold_ok [OF w])
  show "evm_alu EVM_OR x y = Some v \<Longrightarrow> pushes (Suc (Suc 0)) (folded ta tb v) ls (lift_or ls)"
    unfolding lift_or_def by (rule go(1) [where F = "evm_alu EVM_OR"]) (simp_all add: alu fold_ok [OF w])
  show "evm_alu EVM_XOR x y = Some v \<Longrightarrow> pushes (Suc (Suc 0)) (folded ta tb v) ls (lift_xor ls)"
    unfolding lift_xor_def by (rule go(1) [where F = "evm_alu EVM_XOR"]) (simp_all add: alu fold_ok [OF w])
  show "evm_alu EVM_BYTE x y = Some v \<Longrightarrow> pushes (Suc (Suc 0)) (folded ta tb v) ls (lift_byte ls)"
    unfolding lift_byte_def by (rule go(1) [where F = "evm_alu EVM_BYTE"]) (simp_all add: alu fold_ok [OF w])
  show "evm_alu EVM_SHL x y = Some v \<Longrightarrow> pushes (Suc (Suc 0)) (folded ta tb v) ls (lift_shl ls)"
    unfolding lift_shl_def by (rule go(1) [where F = "evm_alu EVM_SHL"]) (simp_all add: alu fold_ok [OF w])
  show "evm_alu EVM_SHR x y = Some v \<Longrightarrow> pushes (Suc (Suc 0)) (folded ta tb v) ls (lift_shr ls)"
    unfolding lift_shr_def by (rule go(1) [where F = "evm_alu EVM_SHR"]) (simp_all add: alu fold_ok [OF w])
  show "evm_alu EVM_SAR x y = Some v \<Longrightarrow> pushes (Suc (Suc 0)) (folded ta tb v) ls (lift_sar ls)"
    unfolding lift_sar_def by (rule go(1) [where F = "evm_alu EVM_SAR"]) (simp_all add: alu fold_ok [OF w])
  show "evm_alu EVM_SIGNEXTEND x y = Some v \<Longrightarrow> pushes (Suc (Suc 0)) (folded ta tb v) ls (lift_signextend ls)"
    unfolding lift_signextend_def by (rule go(1) [where F = "evm_alu EVM_SIGNEXTEND"]) (simp_all add: alu fold_ok [OF w])
qed

lemma swapped_sound:
  assumes ag: "ls_stack ls = tb # ta # rest" "sound x tb" "sound y ta" and ok: "stack_ok (ls_stack ls)"
  shows
    "evm_alu EVM_SUB y x = Some v \<Longrightarrow> pushes (Suc (Suc 0)) (folded ta tb v) ls (lift_sub ls)"
    and "evm_alu EVM_DIV y x = Some v \<Longrightarrow> pushes (Suc (Suc 0)) (folded ta tb v) ls (lift_div ls)"
    and "evm_alu EVM_MOD y x = Some v \<Longrightarrow> pushes (Suc (Suc 0)) (folded ta tb v) ls (lift_mod ls)"
    and "evm_alu EVM_SDIV y x = Some v \<Longrightarrow> pushes (Suc (Suc 0)) (folded ta tb v) ls (lift_sdiv ls)"
    and "evm_alu EVM_SMOD y x = Some v \<Longrightarrow> pushes (Suc (Suc 0)) (folded ta tb v) ls (lift_smod ls)"
    and "evm_alu EVM_EXP y x = Some v \<Longrightarrow> pushes (Suc (Suc 0)) (folded ta tb v) ls (lift_exp ls)"
    and "evm_alu EVM_LT y x = Some v \<Longrightarrow> pushes (Suc (Suc 0)) (folded ta tb v) ls (lift_lt ls)"
    and "evm_alu EVM_GT y x = Some v \<Longrightarrow> pushes (Suc (Suc 0)) (folded ta tb v) ls (lift_gt ls)"
    and "evm_alu EVM_SLT y x = Some v \<Longrightarrow> pushes (Suc (Suc 0)) (folded ta tb v) ls (lift_slt ls)"
    and "evm_alu EVM_SGT y x = Some v \<Longrightarrow> pushes (Suc (Suc 0)) (folded ta tb v) ls (lift_sgt ls)"
proof -
  have w: "bytes_ok (sl_wide ta)" "bytes_ok (sl_wide tb)" using ok ag(1) by (simp_all add: stack_ok_def slot_ok_def)
  note go = pushes_exact_case [OF ag w] pushes_flag_case [OF ag w] and alu = lifter_alu_swapped [OF w]
  show "evm_alu EVM_SUB y x = Some v \<Longrightarrow> pushes (Suc (Suc 0)) (folded ta tb v) ls (lift_sub ls)"
    unfolding lift_sub_def by (rule go(1) [where F = "\<lambda>x y. evm_alu EVM_SUB y x"]) (simp_all add: alu fold_ok [OF w])
  show "evm_alu EVM_DIV y x = Some v \<Longrightarrow> pushes (Suc (Suc 0)) (folded ta tb v) ls (lift_div ls)"
    unfolding lift_div_def by (rule go(1) [where F = "\<lambda>x y. evm_alu EVM_DIV y x"]) (simp_all add: alu fold_ok [OF w])
  show "evm_alu EVM_MOD y x = Some v \<Longrightarrow> pushes (Suc (Suc 0)) (folded ta tb v) ls (lift_mod ls)"
    unfolding lift_mod_def by (rule go(1) [where F = "\<lambda>x y. evm_alu EVM_MOD y x"]) (simp_all add: alu fold_ok [OF w])
  show "evm_alu EVM_SDIV y x = Some v \<Longrightarrow> pushes (Suc (Suc 0)) (folded ta tb v) ls (lift_sdiv ls)"
    unfolding lift_sdiv_def by (rule go(1) [where F = "\<lambda>x y. evm_alu EVM_SDIV y x"]) (simp_all add: alu fold_ok [OF w])
  show "evm_alu EVM_SMOD y x = Some v \<Longrightarrow> pushes (Suc (Suc 0)) (folded ta tb v) ls (lift_smod ls)"
    unfolding lift_smod_def by (rule go(1) [where F = "\<lambda>x y. evm_alu EVM_SMOD y x"]) (simp_all add: alu fold_ok [OF w])
  show "evm_alu EVM_EXP y x = Some v \<Longrightarrow> pushes (Suc (Suc 0)) (folded ta tb v) ls (lift_exp ls)"
    unfolding lift_exp_def by (rule go(1) [where F = "\<lambda>x y. evm_alu EVM_EXP y x"]) (simp_all add: alu fold_ok [OF w])
  show "evm_alu EVM_LT y x = Some v \<Longrightarrow> pushes (Suc (Suc 0)) (folded ta tb v) ls (lift_lt ls)"
    unfolding lift_lt_def by (rule go(2) [where F = "\<lambda>x y. evm_alu EVM_LT y x"]) (simp_all add: alu fold_ok [OF w])
  show "evm_alu EVM_GT y x = Some v \<Longrightarrow> pushes (Suc (Suc 0)) (folded ta tb v) ls (lift_gt ls)"
    unfolding lift_gt_def by (rule go(2) [where F = "\<lambda>x y. evm_alu EVM_GT y x"]) (simp_all add: alu fold_ok [OF w])
  show "evm_alu EVM_SLT y x = Some v \<Longrightarrow> pushes (Suc (Suc 0)) (folded ta tb v) ls (lift_slt ls)"
    unfolding lift_slt_def by (rule go(2) [where F = "\<lambda>x y. evm_alu EVM_SLT y x"]) (simp_all add: alu fold_ok [OF w])
  show "evm_alu EVM_SGT y x = Some v \<Longrightarrow> pushes (Suc (Suc 0)) (folded ta tb v) ls (lift_sgt ls)"
    unfolding lift_sgt_def by (rule go(2) [where F = "\<lambda>x y. evm_alu EVM_SGT y x"]) (simp_all add: alu fold_ok [OF w])
qed

subsection \<open>The other handlers\<close>

lemma unary_sound:
  assumes ag: "ls_stack ls = t # rest" "sound x t" and ok: "stack_ok (ls_stack ls)"
  shows "pushes (Suc 0) (sound (flag (x = 0))) ls (lift_iszero ls)"
    and "pushes (Suc 0) (sound (M256 - 1 - x)) ls (lift_not ls)"
proof -
  have w: "bytes_ok (sl_wide t)" using ok ag(1) by (simp add: stack_ok_def slot_ok_def)
  have pk: "peeked 1 0 ls = t" using ag(1) by (simp add: peeked_def)
  have k: "known t \<Longrightarrow> bval (sl_wide t) = x" using ag(2) by (simp add: sound_def)
  show "pushes (Suc 0) (sound (flag (x = 0))) ls (lift_iszero ls)"
    unfolding lift_iszero_def Let_def fresh_eq prod.case pk
    by (intro pushes_pop_then pushes_if pushes_flag_sound pushes_unknown sound_unknown)
      (simp_all add: k is_zero_iff [OF w])
  show "pushes (Suc 0) (sound (M256 - 1 - x)) ls (lift_not ls)"
    unfolding lift_not_def Let_def fresh_eq prod.case pk
    by (intro pushes_pop_then pushes_if pushes_exact_sound pushes_unknown sound_unknown)
      (simp_all add: k fold_ok [OF w w] bitwise_value [OF w w])
qed

text \<open>Operations whose result the lifter does not know, and operations without one.\<close>

definition opaque_push :: "evm_opcode \<Rightarrow> bool" where
  "opaque_push op \<longleftrightarrow> op \<in> {EVM_ADDRESS, EVM_ORIGIN, EVM_CALLER, EVM_CALLVALUE, EVM_CALLDATASIZE, EVM_CODESIZE,
     EVM_GASPRICE, EVM_RETURNDATASIZE, EVM_COINBASE, EVM_TIMESTAMP, EVM_NUMBER, EVM_PREVRANDAO, EVM_GASLIMIT,
     EVM_CHAINID, EVM_SELFBALANCE, EVM_BASEFEE, EVM_PC, EVM_MSIZE, EVM_GAS, EVM_BALANCE, EVM_EXTCODESIZE,
     EVM_EXTCODEHASH, EVM_BLOCKHASH, EVM_CALLDATALOAD, EVM_SLOAD, EVM_TLOAD, EVM_CALL, EVM_CALLCODE,
     EVM_DELEGATECALL, EVM_STATICCALL, EVM_CREATE, EVM_CREATE2}"

definition opaque_pop :: "evm_opcode \<Rightarrow> bool" where
  "opaque_pop op \<longleftrightarrow> op \<in> {EVM_POP, EVM_MSTORE, EVM_MSTORE8, EVM_SSTORE, EVM_TSTORE, EVM_JUMPDEST, EVM_CALLDATACOPY,
     EVM_CODECOPY, EVM_RETURNDATACOPY, EVM_EXTCODECOPY, EVM_LOG0, EVM_LOG1, EVM_LOG2, EVM_LOG3, EVM_LOG4}"

lemma opaque_push_handlers:
  fixes ls :: evm_lifter and cdl :: calldata_ext
  defines "P \<equiv> \<lambda>s. \<not> known s"
  shows "pushes 0 P ls (lift_environment ls)" "pushes (Suc 0) P ls (lift_calldata cdl ls)"
    "pushes (Suc 0) P ls (lift_sload ls)" "pushes (Suc 0) P ls (lift_tload ls)"
    "pushes 7 P ls (lift_call ls)" "pushes 6 P ls (lift_delegatecall ls)" "pushes 6 P ls (lift_staticcall ls)"
    "pushes 3 P ls (lift_create ls)" "pushes 4 P ls (lift_create2 ls)"
  unfolding lift_environment_def lift_calldata_def lift_sload_def lift_tload_def lift_call_def lift_delegatecall_def
    lift_staticcall_def lift_create_def lift_create2_def Let_def fresh_eq prod.case case_prod_unfold
  by (intro pushes_pop_then pushes_pop_many pushes_unknown; simp add: same_call_clamp P_def)+

lemma opaque_pop_handlers:
  "pops (Suc 0) ls (lift_pop ls)" "pops (Suc (Suc 0)) ls (lift_store_with st ls)"
  "pops (Suc (Suc 0)) ls (lift_sstore ls)" "pops (Suc (Suc 0)) ls (lift_tstore ls)" "pops 0 ls (lift_jumpdest ls)"
  "pops 3 ls (lift_copy b ls)" "pops 4 ls (lift_extcodecopy ls)"
  "pops (2 + (b - opcode_byte EVM_LOG0)) ls (lift_log b ls)"
proof -
  show "pops (Suc 0) ls (lift_pop ls)"
    by (auto simp: pops_def lift_pop_def stack_pop_def underflow_def split: list.splits)
qed (unfold lift_store_with_def lift_sstore_def lift_tstore_def lift_jumpdest_def lift_copy_def lift_extcodecopy_def
    lift_log_def Let_def, (intro pops_pop_then pops_pop_many pops_if pops_ok; simp)+)

lemma opaque_push_switch:
  "opaque_push op \<Longrightarrow> pushes (fst (opcode_row op)) (\<lambda>s. \<not> known s) ls (evm_switch cdl (opcode_byte op) ls)"
  unfolding evm_switch_def byte_opcode_byte option.case
  using opaque_push_handlers [where ls = ls] opaque_push_handlers(2) [where ls = ls and cdl = cdl]
  by (cases op) (simp_all add: opaque_push_def opcode_row_def)

lemma opaque_pop_switch:
  "opaque_pop op \<Longrightarrow> pops (fst (opcode_row op)) ls (evm_switch cdl (opcode_byte op) ls)"
  unfolding evm_switch_def byte_opcode_byte option.case
  using opaque_pop_handlers [where ls = ls] opaque_pop_handlers(8) [where ls = ls and b = "opcode_byte op"]
  by (cases op) (simp_all add: opaque_pop_def opcode_row_def small_Suc lift_mstore_def lift_mstore8_def)

lemma push0_sound: "pushes 0 (sound 0) (ls\<lparr> ls_pc := ls_pc ls + 1 \<rparr>) (lift_push0 ls)"
  unfolding lift_push0_def Let_def fresh_eq prod.case
  by (rule pushes_narrow) (simp_all add: sound_def bval_narrow)

lemma push_imm_step:
  assumes "unat v * 256 + unat b < 2 ^ 64"
  shows "unat (push_bit 8 v OR ucast (b :: u8) :: u64) = unat v * 256 + unat b"
proof -
  have eq: "push_bit 8 v OR (ucast b :: u64) = push_bit 8 v + ucast b"
    by (rule disjunctive_add [symmetric]) (auto simp: bit_simps dest: bit_imp_le_length)
  have "unat (push_bit 8 v + (ucast b :: u64)) = (unat v * 256 + unat b) mod 2 ^ 64"
    by (simp add: unat_word_ariths unsigned_push_bit_eq unsigned_ucast_eq take_bit_eq_mod push_bit_eq_mult mod_simps)
  then show ?thesis using assms unfolding eq by simp
qed

lemma unat_push_imm: "length bs \<le> 8 \<Longrightarrow> unat (push_imm bs) = bval bs"
proof (induction bs rule: rev_induct)
  case Nil
  then show ?case by (simp add: push_imm_def)
next
  case (snoc b bs)
  have "bval (bs @ [b]) < 256 ^ 8"
    using bval_bound [of "bs @ [b]"] snoc.prems power_increasing [of "length (bs @ [b])" 8 "256 :: nat"] by simp
  then have "unat (push_imm bs) * 256 + unat b < 2 ^ 64" using snoc by simp
  then have "unat (push_bit 8 (push_imm bs) OR ucast b) = unat (push_imm bs) * 256 + unat b" by (rule push_imm_step)
  then show ?case using snoc by (simp add: push_imm_def)
qed

lemma bval_wide_payload: "length bs \<le> 32 \<Longrightarrow> bval (wide_payload bs) = bval bs"
proof -
  have z: "bval (replicate k 0 @ cs) = bval cs" for k and cs :: "u8 list"
    by (induction k) (simp_all add: bval_Cons)
  assume "length bs \<le> 32"
  then show ?thesis by (simp add: wide_payload_def Let_def z)
qed

lemma push_sound:
  assumes "0x60 \<le> b" "b \<le> 0x7F" "ls_pc ls + 1 + (b - 0x5F) \<le> length (ls_bytecode ls)"
  shows "pushes 0 (sound (bval (take (b - 0x5F) (drop (ls_pc ls + 1) (ls_bytecode ls)))))
    (ls\<lparr> ls_pc := ls_pc ls + 1 + (b - 0x5F) \<rparr>) (lift_push b ls)"
proof -
  let ?n = "b - 0x5F" let ?pl = "take ?n (drop (ls_pc ls + 1) (ls_bytecode ls))"
  have n: "b - opcode_byte EVM_PUSH1 + 1 = ?n" "?n \<le> 32" using assms by auto
  have len: "length ?pl = ?n" using assms(3) by simp
  have fits: "\<not> ls_pc ls + 1 + ?n > length (ls_bytecode ls)" using assms(3) by simp
  have "lift_push b ls =
    (let ls' = ls\<lparr> ls_pc := ls_pc ls + 1 + ?n \<rparr>; (ls', tmp_dst) = lifter_fresh_tmp ls' in
     if ?n > 8 then
       stack_push_const_wide (on_last_node (\<lambda>n. n\<lparr> nd_imm256 := wide_limbs ?pl \<rparr>)
          (tagged_emit ls' IR_CONST IR_TY_I64 tmp_dst [] [] [] (push_imm ?pl) IR_TAG_TRUNCATED_WIDE_CONST)) tmp_dst ?pl (push_imm ?pl)
     else stack_push_const_narrow (emit_const ls' tmp_dst (push_imm ?pl)) tmp_dst (push_imm ?pl))"
    unfolding lift_push_def n(1) Let_def using fits by (simp add: lifter_length_def fresh_eq)
  also have "pushes 0 (sound (bval ?pl)) (ls\<lparr> ls_pc := ls_pc ls + 1 + ?n \<rparr>) \<dots>"
    unfolding Let_def fresh_eq prod.case
  proof (rule pushes_if)
    assume "8 < ?n"
    have "bval (wide_payload ?pl) = bval ?pl" using len n(2) by (intro bval_wide_payload) simp
    then show "pushes 0 (sound (bval ?pl)) (ls\<lparr> ls_pc := ls_pc ls + 1 + ?n \<rparr>)
      (stack_push_const_wide (on_last_node (\<lambda>n. n\<lparr> nd_imm256 := wide_limbs ?pl \<rparr>)
         (tagged_emit (ls\<lparr> ls_pc := ls_pc ls + 1 + ?n,
            ls_func := (ls_func (ls\<lparr> ls_pc := ls_pc ls + 1 + ?n \<rparr>))
              \<lparr> fn_tmp_counter := fn_tmp_counter (ls_func (ls\<lparr> ls_pc := ls_pc ls + 1 + ?n \<rparr>)) + 1 \<rparr> \<rparr>)
           IR_CONST IR_TY_I64 (''t'' @ decimal (fn_tmp_counter (ls_func (ls\<lparr> ls_pc := ls_pc ls + 1 + ?n \<rparr>))))
           [] [] [] (push_imm ?pl) IR_TAG_TRUNCATED_WIDE_CONST))
        (''t'' @ decimal (fn_tmp_counter (ls_func (ls\<lparr> ls_pc := ls_pc ls + 1 + ?n \<rparr>)))) ?pl (push_imm ?pl))"
      by (simp add: pushes_def stack_push_const_wide_def push_slot_def overflow_def sound_def tagged_emit_def Let_def
          lift_emit_def on_last_node_def)
  next
    assume "\<not> 8 < ?n"
    then have "unat (push_imm ?pl) = bval ?pl" using len by (intro unat_push_imm) simp
    then show "pushes 0 (sound (bval ?pl)) (ls\<lparr> ls_pc := ls_pc ls + 1 + ?n \<rparr>)
      (stack_push_const_narrow (emit_const (ls\<lparr> ls_pc := ls_pc ls + 1 + ?n,
            ls_func := (ls_func (ls\<lparr> ls_pc := ls_pc ls + 1 + ?n \<rparr>))
              \<lparr> fn_tmp_counter := fn_tmp_counter (ls_func (ls\<lparr> ls_pc := ls_pc ls + 1 + ?n \<rparr>)) + 1 \<rparr> \<rparr>)
          (''t'' @ decimal (fn_tmp_counter (ls_func (ls\<lparr> ls_pc := ls_pc ls + 1 + ?n \<rparr>)))) (push_imm ?pl))
        (''t'' @ decimal (fn_tmp_counter (ls_func (ls\<lparr> ls_pc := ls_pc ls + 1 + ?n \<rparr>)))) (push_imm ?pl))"
      by (intro pushes_narrow) (simp_all add: sound_def bval_narrow)
  qed
  finally show ?thesis .
qed

subsection \<open>Straight-line executions of the EVM\<close>

text \<open>A configuration is the program counter and the stack of words, top first. What the environment,
  storage and other contracts deliver is arbitrary.\<close>

type_synonym evm_conf = "nat \<times> nat list"

inductive evm_exec1 :: "u8 list \<Rightarrow> evm_conf \<Rightarrow> evm_conf \<Rightarrow> bool" for code where
  exec_push0: "pc < length code \<Longrightarrow> code_at code pc = 0x5F \<Longrightarrow> length vs < EVM_STACK_MAX
    \<Longrightarrow> evm_exec1 code (pc, vs) (pc + 1, 0 # vs)"
| exec_push: "pc < length code \<Longrightarrow> code_at code pc = 0x5F + n \<Longrightarrow> 1 \<le> n \<Longrightarrow> n \<le> 32 \<Longrightarrow> pc + 1 + n \<le> length code
    \<Longrightarrow> length vs < EVM_STACK_MAX
    \<Longrightarrow> evm_exec1 code (pc, vs) (pc + 1 + n, bval (take n (drop (pc + 1) code)) # vs)"
| exec_dup: "pc < length code \<Longrightarrow> code_at code pc = 0x80 + k \<Longrightarrow> k < 16 \<Longrightarrow> k < length vs \<Longrightarrow> length vs < EVM_STACK_MAX
    \<Longrightarrow> evm_exec1 code (pc, vs) (pc + 1, vs ! k # vs)"
| exec_swap: "pc < length code \<Longrightarrow> code_at code pc = 0x90 + k \<Longrightarrow> k < 16 \<Longrightarrow> Suc k < length vs
    \<Longrightarrow> evm_exec1 code (pc, vs) (pc + 1, vs[0 := vs ! Suc k, Suc k := vs ! 0])"
| exec_alu: "pc < length code \<Longrightarrow> code_at code pc = opcode_byte op \<Longrightarrow> right_order op \<Longrightarrow> evm_alu op x y = Some v
    \<Longrightarrow> evm_exec1 code (pc, x # y # vs) (pc + 1, v # vs)"
| exec_iszero: "pc < length code \<Longrightarrow> code_at code pc = opcode_byte EVM_ISZERO
    \<Longrightarrow> evm_exec1 code (pc, x # vs) (pc + 1, flag (x = 0) # vs)"
| exec_not: "pc < length code \<Longrightarrow> code_at code pc = opcode_byte EVM_NOT
    \<Longrightarrow> evm_exec1 code (pc, x # vs) (pc + 1, (M256 - 1 - x) # vs)"
| exec_env: "pc < length code \<Longrightarrow> code_at code pc = opcode_byte op \<Longrightarrow> opaque_push op
    \<Longrightarrow> fst (opcode_row op) \<le> length vs \<Longrightarrow> length vs - fst (opcode_row op) < EVM_STACK_MAX \<Longrightarrow> w < M256
    \<Longrightarrow> evm_exec1 code (pc, vs) (pc + 1, w # drop (fst (opcode_row op)) vs)"
| exec_out: "pc < length code \<Longrightarrow> code_at code pc = opcode_byte op \<Longrightarrow> opaque_pop op
    \<Longrightarrow> fst (opcode_row op) \<le> length vs \<Longrightarrow> evm_exec1 code (pc, vs) (pc + 1, drop (fst (opcode_row op)) vs)"

inductive evm_exec :: "u8 list \<Rightarrow> evm_conf \<Rightarrow> evm_conf \<Rightarrow> bool" for code where
  exec_refl: "evm_exec code c c"
| exec_step: "evm_exec code c c1 \<Longrightarrow> evm_exec1 code c1 c2 \<Longrightarrow> evm_exec code c c2"

text \<open>Rounds of the lifter's loop that return OK.\<close>

inductive lift_reach :: "calldata_ext \<Rightarrow> evm_lifter \<Rightarrow> evm_lifter \<Rightarrow> bool" for cdl where
  reach_refl: "lift_reach cdl ls ls"
| reach_step: "lift_reach cdl ls ls1 \<Longrightarrow> ls_pc ls1 < lifter_length ls1 \<Longrightarrow> bytecode_round cdl ls1 = (EVM_LIFT_OK, ls2)
    \<Longrightarrow> lift_reach cdl ls ls2"

lemma slots_agree_Cons: "slots_agree (s # st) (v # vs) \<longleftrightarrow> sound v s \<and> slots_agree st vs"
  by (simp add: slots_agree_def)

lemma slots_agree_drop: "slots_agree st vs \<Longrightarrow> slots_agree (drop k st) (drop k vs)"
  by (simp add: slots_agree_def list_all2_dropI)

lemma slots_agree_length: "slots_agree st vs \<Longrightarrow> length st = length vs"
  by (simp add: slots_agree_def list_all2_lengthD)

lemma slots_agree_nth: "slots_agree st vs \<Longrightarrow> k < length vs \<Longrightarrow> sound (vs ! k) (st ! k)"
  by (simp add: slots_agree_def list_all2_conv_all_nth)

lemma slots_agree_update: "slots_agree st vs \<Longrightarrow> sound v s \<Longrightarrow> slots_agree (st[k := s]) (vs[k := v])"
  by (simp add: slots_agree_def list_all2_update_cong)

text \<open>The step's dispatch after the prologue, which leaves the stack alone.\<close>

definition dispatch :: "calldata_ext \<Rightarrow> nat \<Rightarrow> evm_lifter \<Rightarrow> lift_out" where
  "dispatch cdl b ls =
     (if b = 0x5F then lift_push0 ls else if 0x60 \<le> b \<and> b \<le> 0x7F then lift_push b ls
      else if 0x80 \<le> b \<and> b \<le> 0x8F then lift_dup b ls else if 0x90 \<le> b \<and> b \<le> 0x9F then lift_swap b ls
      else evm_switch cdl b (ls\<lparr> ls_pc := ls_pc ls + 1 \<rparr>))"

lemma round_dispatch:
  assumes "ls_pc ls < lifter_length ls"
  obtains ls1 where "ls_stack ls1 = ls_stack ls" "ls_bytecode ls1 = ls_bytecode ls" "ls_pc ls1 = ls_pc ls"
    "fst (bytecode_round cdl ls) = fst (dispatch cdl (code_at (ls_bytecode ls) (ls_pc ls)) ls1)"
    "ls_stack (snd (bytecode_round cdl ls)) = ls_stack (snd (dispatch cdl (code_at (ls_bytecode ls) (ls_pc ls)) ls1))"
proof -
  let ?b = "code_at (ls_bytecode ls) (ls_pc ls)"
  define ls0 where "ls0 = (if ?b = opcode_byte EVM_JUMPDEST then ls\<lparr> ls_insn_count := ls_insn_count ls + 1, ls_block_start := True \<rparr>
     else ls\<lparr> ls_insn_count := ls_insn_count ls + 1 \<rparr>)"
  have "evm_lift_step cdl ls = dispatch cdl ?b (block_prologue ls0)"
    using assms by (simp add: evm_lift_step_def Let_def ls0_def op_between_def dispatch_def)
  moreover have "ls_stack (block_prologue ls0) = ls_stack ls \<and> ls_bytecode (block_prologue ls0) = ls_bytecode ls
      \<and> ls_pc (block_prologue ls0) = ls_pc ls"
    using same_prologue_stack [of ls0] by (simp add: ls0_def)
  ultimately show ?thesis
    using that [of "block_prologue ls0"] by (simp add: bytecode_round_def Let_def split: prod.splits)
qed

lemma right_order_row: "right_order op \<Longrightarrow> opcode_row op = (2, 1)"
  by (cases op) (simp_all add: right_order_def opcode_row_def)

lemma opcode_not_stack_op:
  "right_order op \<or> opaque_push op \<or> opaque_pop op \<or> op = EVM_ISZERO \<or> op = EVM_NOT \<Longrightarrow>
   dispatch cdl (opcode_byte op) ls = evm_switch cdl (opcode_byte op) (ls\<lparr> ls_pc := ls_pc ls + 1 \<rparr>)
   \<and> stack_row (opcode_byte op) = opcode_row op \<and> insn_len (opcode_byte op) = 1"
  unfolding stack_row_def byte_opcode_byte option.case dispatch_def insn_len_def
  by (cases op) (simp_all add: right_order_def opaque_push_def opaque_pop_def)

lemma round_agrees:
  assumes ok: "stack_ok (ls_stack ls)" and pc: "ls_pc ls < length (ls_bytecode ls)"
    and b: "b = code_at (ls_bytecode ls) (ls_pc ls)" and miss: "\<not> push_missing (ls_bytecode ls) (ls_pc ls)"
    and row: "fst (stack_row b) \<le> length (ls_stack ls)"
      "length (ls_stack ls) - fst (stack_row b) + snd (stack_row b) \<le> EVM_STACK_MAX"
    and ag: "\<And>ls1. ls_stack ls1 = ls_stack ls \<Longrightarrow> ls_bytecode ls1 = ls_bytecode ls \<Longrightarrow> ls_pc ls1 = ls_pc ls
       \<Longrightarrow> fst (dispatch cdl b ls1) = EVM_LIFT_OK \<Longrightarrow> slots_agree (ls_stack (snd (dispatch cdl b ls1))) vs'"
  shows "\<exists>ls2. bytecode_round cdl ls = (EVM_LIFT_OK, ls2) \<and> ls_pc ls2 = ls_pc ls + insn_len b
    \<and> ls_bytecode ls2 = ls_bytecode ls \<and> stack_ok (ls_stack ls2) \<and> slots_agree (ls_stack ls2) vs'"
proof -
  obtain res ls2 where r: "bytecode_round cdl ls = (res, ls2)" by (cases "bytecode_round cdl ls")
  have "step_typed ls (res, ls2)" using round_typed [OF ok pc, of cdl] r by simp
  then have t: "res = EVM_LIFT_OK" "stack_ok (ls_stack ls2)" "ls_bytecode ls2 = ls_bytecode ls"
    "ls_pc ls2 = ls_pc ls + insn_len b"
    using miss row b by (auto simp: step_typed_def Let_def step_result_def)
  obtain ls1 where "ls_stack ls1 = ls_stack ls" "ls_bytecode ls1 = ls_bytecode ls" "ls_pc ls1 = ls_pc ls"
    "fst (bytecode_round cdl ls) = fst (dispatch cdl b ls1)"
    "ls_stack (snd (bytecode_round cdl ls)) = ls_stack (snd (dispatch cdl b ls1))"
    using round_dispatch [of ls cdl] pc unfolding lifter_length_def b by blast
  then have "slots_agree (ls_stack ls2) vs'" using ag [of ls1] r t(1) by simp
  then show ?thesis using r t by blast
qed

lemma exec1_agrees:
  assumes ex: "evm_exec1 code (pc, vs) (pc', vs')" and ls: "ls_bytecode ls = code" "ls_pc ls = pc"
    and ok: "stack_ok (ls_stack ls)" and ag: "slots_agree (ls_stack ls) vs"
  shows "\<exists>ls2. bytecode_round cdl ls = (EVM_LIFT_OK, ls2) \<and> ls_pc ls2 = pc'
    \<and> ls_bytecode ls2 = code \<and> stack_ok (ls_stack ls2) \<and> slots_agree (ls_stack ls2) vs'"
proof -
  have len: "length (ls_stack ls) = length vs" by (rule slots_agree_length [OF ag])
  have max: "length vs \<le> EVM_STACK_MAX" using ok len by (simp add: stack_ok_def)
  have b: "code_at code pc = code_at (ls_bytecode ls) (ls_pc ls)" using ls by simp
  note go = round_agrees [OF ok _ HOL.refl, where cdl = cdl and vs' = vs', folded b]
  have val: "slots_agree (ls_stack (snd r)) (v # drop p vs)"
    if "pushes p (sound v) ls1 r" "fst r = EVM_LIFT_OK" "ls_stack ls1 = ls_stack ls" for p v r ls1
    using that slots_agree_drop [OF ag] by (auto simp: pushes_def slots_agree_Cons)
  have switch: "\<exists>ls2. bytecode_round cdl ls = (EVM_LIFT_OK, ls2) \<and> ls_pc ls2 = pc + 1
      \<and> ls_bytecode ls2 = code \<and> stack_ok (ls_stack ls2) \<and> slots_agree (ls_stack ls2) vs'"
    if op: "pc < length code" "code_at code pc = opcode_byte op"
      "right_order op \<or> opaque_push op \<or> opaque_pop op \<or> op = EVM_ISZERO \<or> op = EVM_NOT"
      and row: "fst (opcode_row op) \<le> length vs" "length vs - fst (opcode_row op) + snd (opcode_row op) \<le> EVM_STACK_MAX"
      and res: "\<And>ls1. ls_stack ls1 = ls_stack ls \<Longrightarrow> fst (evm_switch cdl (opcode_byte op) ls1) = EVM_LIFT_OK
         \<Longrightarrow> slots_agree (ls_stack (snd (evm_switch cdl (opcode_byte op) ls1))) vs'" for op
    using go op row res opcode_not_stack_op [OF op(3)] ls len
    by (simp add: push_missing_def)
  show ?thesis
    using ex
  proof (cases rule: evm_exec1.cases)
    case exec_push0
    then have row: "stack_row (code_at code pc) = (0, 1)" "insn_len (code_at code pc) = 1"
      by (simp_all add: stack_row_def insn_len_def)
    show ?thesis
      using go exec_push0 row ls len max val [OF push0_sound [of ls]] val [OF push0_sound]
      by (simp add: push_missing_def dispatch_def)
  next
    case (exec_push n)
    let ?b = "code_at code pc"
    have row: "stack_row ?b = (0, 1)" "insn_len ?b = 1 + n" "?b - 0x5F = n" "0x60 \<le> ?b" "?b \<le> 0x7F"
      using exec_push by (simp_all add: stack_row_def insn_len_def)
    have d: "dispatch cdl ?b ls1 = lift_push ?b ls1" for ls1 using row(4,5) by (simp add: dispatch_def)
    have "slots_agree (ls_stack (snd (dispatch cdl ?b ls1))) vs'"
      if "ls_stack ls1 = ls_stack ls" "ls_bytecode ls1 = ls_bytecode ls" "ls_pc ls1 = ls_pc ls"
        "fst (dispatch cdl ?b ls1) = EVM_LIFT_OK" for ls1
      using val [OF push_sound [OF row(4,5), of ls1]] that exec_push ls row(3) unfolding d by simp
    then show ?thesis using go exec_push row ls len by (simp add: push_missing_def)
  next
    case (exec_dup k)
    let ?b = "code_at code pc"
    have row: "stack_row ?b = (k + 1, k + 2)" "insn_len ?b = 1" "?b - 0x80 = k" using exec_dup
      by (simp_all add: stack_row_def insn_len_def)
    have d: "dispatch cdl ?b ls1 = lift_dup ?b ls1" for ls1 using exec_dup by (simp add: dispatch_def)
    have "slots_agree (ls_stack (snd (dispatch cdl ?b ls1))) vs'"
      if "ls_stack ls1 = ls_stack ls" "fst (dispatch cdl ?b ls1) = EVM_LIFT_OK" for ls1
      using that exec_dup row(3) len slots_agree_nth [OF ag] ag unfolding d
      by (auto simp: lift_dup_def Let_def fresh_eq underflow_def lift_emit_def stack_push_def on_top_def
          stack_push_const_narrow_def push_slot_def overflow_def slots_agree_Cons sound_def known_def split: if_splits)
    then show ?thesis using go exec_dup row ls len by (simp add: push_missing_def)
  next
    case (exec_swap k)
    let ?b = "code_at code pc"
    have row: "stack_row ?b = (k + 2, k + 2)" "insn_len ?b = 1" "?b - 0x90 = k" using exec_swap
      by (simp_all add: stack_row_def insn_len_def)
    have d: "dispatch cdl ?b ls1 = lift_swap ?b ls1" for ls1 using exec_swap by (simp add: dispatch_def)
    have "slots_agree ((ls_stack ls)[0 := ls_stack ls ! Suc k, Suc k := ls_stack ls ! 0]) vs'"
      unfolding exec_swap(2) using exec_swap(6)
      by (intro slots_agree_update slots_agree_nth [OF ag] ag) auto
    then have "slots_agree (ls_stack (snd (dispatch cdl ?b ls1))) vs'"
      if "ls_stack ls1 = ls_stack ls" "fst (dispatch cdl ?b ls1) = EVM_LIFT_OK" for ls1
      using that row(3) unfolding d
      by (auto simp: lift_swap_def Let_def underflow_def lift_emit_def split: if_splits)
    then show ?thesis using go exec_swap row ls len max by (simp add: push_missing_def)
  next
    case (exec_alu op x y v us)
    obtain tb ta rest where st: "ls_stack ls = tb # ta # rest" "sound x tb" "sound y ta"
      using ag unfolding exec_alu(1) by (rule slots_agree_two)
    have row: "opcode_row op = (2, 1)" by (rule right_order_row [OF exec_alu(6)])
    have folded: "pushes (Suc (Suc 0)) (folded ta tb v) ls1 (evm_switch cdl (opcode_byte op) ls1)"
      if "ls_stack ls1 = ls_stack ls" for ls1
      using right_sound [OF _ st(2,3), of ls1 rest v] that st(1) ok exec_alu(6,7)
      unfolding evm_switch_def byte_opcode_byte option.case
      by (cases op) (simp_all add: right_order_def)
    have "slots_agree (ls_stack (snd (evm_switch cdl (opcode_byte op) ls1))) vs'"
      if "ls_stack ls1 = ls_stack ls" "fst (evm_switch cdl (opcode_byte op) ls1) = EVM_LIFT_OK" for ls1
    proof -
      have "pushes (Suc (Suc 0)) (sound v) ls1 (evm_switch cdl (opcode_byte op) ls1)"
        by (rule pushes_mono [OF folded [OF that(1)] folded_sound])
      from val [OF this that(2,1)] show ?thesis by (simp only: exec_alu(1,2,3) drop_Suc_Cons drop_0)
    qed
    then show ?thesis using switch [of op] exec_alu row max by simp
  next
    case (exec_iszero x us)
    obtain t rest where st: "ls_stack ls = t # rest" "sound x t"
      using ag unfolding exec_iszero(1) by (auto simp: slots_agree_def list_all2_Cons2)
    have "pushes (Suc 0) (sound (flag (x = 0))) ls1 (evm_switch cdl (opcode_byte EVM_ISZERO) ls1)"
      if "ls_stack ls1 = ls_stack ls" for ls1
      using unary_sound(1) [of ls1 t rest x] that st ok unfolding evm_switch_def byte_opcode_byte by simp
    then have "slots_agree (ls_stack (snd (evm_switch cdl (opcode_byte EVM_ISZERO) ls1))) vs'"
      if "ls_stack ls1 = ls_stack ls" "fst (evm_switch cdl (opcode_byte EVM_ISZERO) ls1) = EVM_LIFT_OK" for ls1
      using val [of "Suc 0" "flag (x = 0)" ls1] that exec_iszero(1,2,3) by (simp del: opcode_byte.simps)
    then show ?thesis using switch [of EVM_ISZERO] exec_iszero max
      by (simp add: opcode_row_def del: opcode_byte.simps)
  next
    case (exec_not x us)
    obtain t rest where st: "ls_stack ls = t # rest" "sound x t"
      using ag unfolding exec_not(1) by (auto simp: slots_agree_def list_all2_Cons2)
    have "pushes (Suc 0) (sound (M256 - 1 - x)) ls1 (evm_switch cdl (opcode_byte EVM_NOT) ls1)"
      if "ls_stack ls1 = ls_stack ls" for ls1
      using unary_sound(2) [of ls1 t rest x] that st ok unfolding evm_switch_def byte_opcode_byte by simp
    then have "slots_agree (ls_stack (snd (evm_switch cdl (opcode_byte EVM_NOT) ls1))) vs'"
      if "ls_stack ls1 = ls_stack ls" "fst (evm_switch cdl (opcode_byte EVM_NOT) ls1) = EVM_LIFT_OK" for ls1
      using val [of "Suc 0" "M256 - 1 - x" ls1] that exec_not(1,2,3) by (simp del: opcode_byte.simps)
    then show ?thesis using switch [of EVM_NOT] exec_not max
      by (simp add: opcode_row_def del: opcode_byte.simps)
  next
    case (exec_env op w)
    have one: "snd (opcode_row op) = 1" using exec_env(5) by (cases op) (simp_all add: opaque_push_def opcode_row_def)
    have "slots_agree (ls_stack (snd (evm_switch cdl (opcode_byte op) ls1))) vs'"
      if "ls_stack ls1 = ls_stack ls" "fst (evm_switch cdl (opcode_byte op) ls1) = EVM_LIFT_OK" for ls1
      using opaque_push_switch [OF exec_env(5), of ls1 cdl] that slots_agree_drop [OF ag] sound_unknown
      unfolding exec_env(2) by (auto simp: pushes_def slots_agree_Cons)
    then show ?thesis using switch [of op] exec_env one by simp
  next
    case (exec_out op)
    have zero: "snd (opcode_row op) = 0" using exec_out(5) by (cases op) (simp_all add: opaque_pop_def opcode_row_def)
    have "slots_agree (ls_stack (snd (evm_switch cdl (opcode_byte op) ls1))) vs'"
      if "ls_stack ls1 = ls_stack ls" "fst (evm_switch cdl (opcode_byte op) ls1) = EVM_LIFT_OK" for ls1
      using opaque_pop_switch [OF exec_out(5), of ls1 cdl] that slots_agree_drop [OF ag]
      unfolding exec_out(2) by (simp add: pops_def)
    then show ?thesis using switch [of op] exec_out zero max by simp
  qed
qed

lemma exec_agrees:
  assumes "evm_exec code c c'" "c = (pc, vs)"
    and "ls_bytecode ls = code" "ls_pc ls = pc" "stack_ok (ls_stack ls)" "slots_agree (ls_stack ls) vs"
  shows "\<exists>ls2. lift_reach cdl ls ls2 \<and> ls_pc ls2 = fst c' \<and> ls_bytecode ls2 = code \<and> stack_ok (ls_stack ls2)
    \<and> slots_agree (ls_stack ls2) (snd c')"
  using assms
proof (induction rule: evm_exec.induct)
  case (exec_refl c)
  then show ?case using reach_refl by fastforce
next
  case (exec_step c c1 c2)
  then obtain ls1 where l: "lift_reach cdl ls ls1" "ls_pc ls1 = fst c1" "ls_bytecode ls1 = code" "stack_ok (ls_stack ls1)"
    "slots_agree (ls_stack ls1) (snd c1)" by blast
  obtain ls2 where "bytecode_round cdl ls1 = (EVM_LIFT_OK, ls2)" "ls_pc ls2 = fst c2"
    "ls_bytecode ls2 = code" "stack_ok (ls_stack ls2)" "slots_agree (ls_stack ls2) (snd c2)"
    using exec1_agrees [of code "fst c1" "snd c1" "fst c2" "snd c2" ls1 cdl] exec_step.hyps(2) l by auto
  moreover have "ls_pc ls1 < lifter_length ls1"
    using exec_step.hyps(2) l(2,3) by (cases rule: evm_exec1.cases) (auto simp: lifter_length_def)
  ultimately show ?case using reach_step [OF l(1)] by blast
qed

subsection \<open>Properties\<close>



text \<open>C27: Subtraction, division, remainder, exponentiation and the order comparisons are folded with their
  operands exchanged: with two known words on the stack, the tracked constant is the EVM's operation
  applied to the word below the top and the top, in that order, where the EVM takes the top first.\<close>

theorem lifter_exchanges_operands:
  assumes "stack_ok (ls_stack ls)" "ls_stack ls = tb # ta # rest" "known ta" "known tb" "swapped_order op"
  shows "\<exists>ls' s. evm_switch cdl (opcode_byte op) ls = (EVM_LIFT_OK, ls') \<and> ls_stack ls' = s # rest \<and> known s
    \<and> evm_alu op (bval (sl_wide ta)) (bval (sl_wide tb)) = Some (bval (sl_wide s))"
proof -
  have row: "opcode_row op = (2, 1)" using assms(5) by (auto simp: swapped_order_def opcode_row_def)
  obtain res ls' where r: "evm_switch cdl (opcode_byte op) ls = (res, ls')" by (cases "evm_switch cdl (opcode_byte op) ls")
  have ok: "res = EVM_LIFT_OK"
    using effect_switch [of "opcode_byte op" ls cdl] assms(1,2) row r
    by (auto simp: byte_opcode_byte effect_def stack_ok_def simp del: opcode_byte.simps)
  obtain v where v: "evm_alu op (bval (sl_wide ta)) (bval (sl_wide tb)) = Some v"
    using assms(5) by (auto simp: swapped_order_def evm_alu_def)
  have "pushes (Suc (Suc 0)) (folded ta tb v) ls (evm_switch cdl (opcode_byte op) ls)"
    using swapped_sound [OF assms(2), of "bval (sl_wide tb)" "bval (sl_wide ta)" v] assms(1,5) v
    unfolding evm_switch_def byte_opcode_byte option.case
    by (cases op) (simp_all add: swapped_order_def sound_def)
  then obtain s where "folded ta tb v s" "ls_stack ls' = s # rest"
    using r ok assms(2) by (auto simp: pushes_def)
  then show ?thesis using r ok v assms(3,4) by (auto simp: folded_def exactly_def)
qed

theorem lifter_exchanges_operands_witness:
  "\<exists>ls' s. evm_switch (\<lambda>m _. m) (opcode_byte EVM_SUB) ((lift_state []) \<lparr> ls_stack :=
       [\<lparr> sl_name = ''t1'', sl_const = 5, sl_wide = narrow_bytes 5, sl_state = EVM_VAL_KNOWN_NARROW \<rparr>,
        \<lparr> sl_name = ''t0'', sl_const = 3, sl_wide = narrow_bytes 3, sl_state = EVM_VAL_KNOWN_NARROW \<rparr>] \<rparr>)
      = (EVM_LIFT_OK, ls') \<and> ls_stack ls' = [s] \<and> known s \<and> bval (sl_wide s) = M256 - 2
      \<and> evm_alu EVM_SUB 5 3 = Some 2"
proof -
  have alu: "evm_alu EVM_SUB 3 5 = Some (M256 - 2)" "evm_alu EVM_SUB 5 3 = Some 2"
    by (simp_all add: evm_alu_def M256_def)
  have v: "bval (narrow_bytes 3) = 3" "bval (narrow_bytes 5) = 5" by (simp_all add: bval_narrow)
  show ?thesis
    using lifter_exchanges_operands [where op = EVM_SUB and cdl = "\<lambda>m _. m" and rest = "[]" and ls = "(lift_state []) \<lparr> ls_stack :=
       [\<lparr> sl_name = ''t1'', sl_const = 5, sl_wide = narrow_bytes 5, sl_state = EVM_VAL_KNOWN_NARROW \<rparr>,
        \<lparr> sl_name = ''t0'', sl_const = 3, sl_wide = narrow_bytes 3, sl_state = EVM_VAL_KNOWN_NARROW \<rparr>] \<rparr>"]
    by (simp add: stack_ok_def slot_ok_def known_def narrow_def swapped_order_def IR_NAME_MAX_def EVM_STACK_MAX_def v alu eq_commute
      del: opcode_byte.simps)
qed

end
