(* ===== verification/Peephole.thy ===== *)
theory Peephole
  imports EvmTables
begin

text \<open>
  The storage packing of \<^verbatim>\<open>evm_peephole_optimizer.c\<close>: the scan for storage accesses at constant slots, the
  grouping of accesses whose values fit together into one 256-bit word, and the gas and fee accounting. A
  pointer to an access is its index in the list of accesses, a pointer to a node its index in the function.
  The arena always has room: it holds 65536 bytes and the state needs less. Slot numbers are 64-bit words.
\<close>

subsection \<open>Accesses\<close>

definition MAX_ACCESSES :: nat where "MAX_ACCESSES = 256"
definition MAX_GROUPS :: nat where "MAX_GROUPS = 64"
definition MAX_PER_GROUP :: nat where "MAX_PER_GROUP = 8"

definition GAS_SLOAD_WARM :: int where "GAS_SLOAD_WARM = 100"
definition GAS_SSTORE_WARM :: int where "GAS_SSTORE_WARM = 2900"
definition GAS_BITOP :: int where "GAS_BITOP = 3"
definition GAS_PUSH :: int where "GAS_PUSH = 3"

record slot_access =
  sa_slot :: u64
  sa_is_store :: bool
  sa_bit_width :: nat
  sa_bit_offset :: nat
  sa_val_reg :: cstr
  sa_addr_reg :: cstr
  sa_origin :: nat
  sa_consumed :: bool

record pack_group =
  pg_members :: "nat list"
  pg_base_slot :: u64
  pg_total_bits :: nat
  pg_gas_before :: int
  pg_gas_after :: int

fun ty_bits :: "ir_type \<Rightarrow> nat" where
  "ty_bits IR_TY_I8 = 8" | "ty_bits IR_TY_U8 = 8"
| "ty_bits IR_TY_I16 = 16" | "ty_bits IR_TY_U16 = 16"
| "ty_bits IR_TY_I32 = 32" | "ty_bits IR_TY_U32 = 32"
| "ty_bits IR_TY_I64 = 64" | "ty_bits IR_TY_U64 = 64"
| "ty_bits IR_TY_PTR = 160"
| "ty_bits _ = 256"

definition find_const_def :: "ir_func \<Rightarrow> nat \<Rightarrow> cstr \<Rightarrow> ir_node option" where
  "find_const_def fn before nm =
     (if nm = [] then None
      else foldl (\<lambda>d i. let n = fn_nodes fn ! i in
             if nd_op n = IR_CONST \<and> nd_dst n \<noteq> [] \<and> nd_dst n = nm then Some n else d) None [0..<before])"

definition new_access :: "u64 \<Rightarrow> bool \<Rightarrow> nat \<Rightarrow> cstr \<Rightarrow> cstr \<Rightarrow> nat \<Rightarrow> slot_access" where
  "new_access slot st wd val_reg addr_reg i =
     \<lparr> sa_slot = slot, sa_is_store = st, sa_bit_width = wd, sa_bit_offset = 0, sa_val_reg = c_copy 64 val_reg,
       sa_addr_reg = c_copy 64 addr_reg, sa_origin = i, sa_consumed = False \<rparr>"

definition scan_store :: "ir_func \<Rightarrow> nat \<Rightarrow> slot_access list" where
  "scan_store fn i =
     (let n = fn_nodes fn ! i in
      if nd_op n = IR_STORE \<and> nd_tag n = tag_code IR_TAG_SSTORE \<and> nd_dst n \<noteq> [] then
        (case find_const_def fn i (nd_dst n) of None \<Rightarrow> []
         | Some cd \<Rightarrow> [new_access (nd_imm cd) True (ty_bits (nd_type n)) (nd_src1 n) (nd_dst n) i])
      else [])"

definition scan_load :: "ir_func \<Rightarrow> nat \<Rightarrow> slot_access list" where
  "scan_load fn i =
     (let n = fn_nodes fn ! i in
      if nd_op n = IR_LOAD \<and> nd_src1 n \<noteq> [] then
        (case find_const_def fn i (nd_src1 n) of None \<Rightarrow> []
         | Some cd \<Rightarrow> if 0 \<le> sint (nd_imm cd)
             then [new_access (nd_imm cd) False (ty_bits (nd_type n)) (nd_dst n) (nd_src1 n) i] else [])
      else [])"

definition scan_call :: "ir_func \<Rightarrow> nat \<Rightarrow> slot_access list" where
  "scan_call fn i =
     (let n = fn_nodes fn ! i in
      if nd_op n = IR_CALL \<and> (nd_label n = ''sstore'' \<or> nd_label n = ''sload'') \<and> Suc i < length (fn_nodes fn) then
        (let arg = fn_nodes fn ! Suc i in
         if nd_op arg = IR_ARG \<and> nd_src1 arg \<noteq> [] then
           (case find_const_def fn i (nd_src1 arg) of None \<Rightarrow> []
            | Some cd \<Rightarrow> [new_access (nd_imm cd) (nd_label n = ''sstore'') 256
                 (if nd_dst n \<noteq> [] then nd_dst n else nd_src1 arg) (nd_src1 arg) i])
         else [])
      else [])"

definition scan_step :: "ir_func \<Rightarrow> slot_access list \<Rightarrow> nat \<Rightarrow> slot_access list" where
  "scan_step fn acc i =
     (if length acc \<ge> MAX_ACCESSES then acc else acc @ scan_store fn i @ scan_load fn i @ scan_call fn i)"

definition scan_accesses :: "ir_func \<Rightarrow> slot_access list" where
  "scan_accesses fn = foldl (scan_step fn) [] [0..<length (fn_nodes fn)]"

subsection \<open>Groups\<close>

definition joins :: "slot_access \<Rightarrow> pack_group \<Rightarrow> slot_access \<Rightarrow> bool" where
  "joins a g b \<longleftrightarrow> \<not> sa_consumed b \<and> sa_is_store b = sa_is_store a \<and> sa_bit_width b < 256
     \<and> (sa_slot b = sa_slot a \<or> sa_slot b = sa_slot a + 1 \<or> sa_slot b = sa_slot a - 1)
     \<and> pg_total_bits g + sa_bit_width b \<le> 256"

definition partner :: "nat \<Rightarrow> slot_access list \<times> pack_group \<Rightarrow> nat \<Rightarrow> slot_access list \<times> pack_group" where
  "partner i st j =
     (case st of (acc, g) \<Rightarrow>
        if length (pg_members g) < MAX_PER_GROUP \<and> joins (acc ! i) g (acc ! j) then
          (acc[j := (acc ! j)\<lparr> sa_bit_offset := pg_total_bits g, sa_consumed := True \<rparr>],
           g\<lparr> pg_members := pg_members g @ [j], pg_total_bits := pg_total_bits g + sa_bit_width (acc ! j) \<rparr>)
        else (acc, g))"

definition seed :: "slot_access list \<Rightarrow> nat \<Rightarrow> slot_access list \<times> pack_group" where
  "seed acc i =
     (acc[i := (acc ! i)\<lparr> sa_bit_offset := 0, sa_consumed := True \<rparr>],
      \<lparr> pg_members = [i], pg_base_slot = sa_slot (acc ! i), pg_total_bits = sa_bit_width (acc ! i),
        pg_gas_before = 0, pg_gas_after = 0 \<rparr>)"

definition group_gas :: "bool \<Rightarrow> pack_group \<Rightarrow> pack_group" where
  "group_gas st g =
     (let count = int (length (pg_members g)) in
      if st then
        g\<lparr> pg_gas_before := count * GAS_SSTORE_WARM,
           pg_gas_after := GAS_SLOAD_WARM + (count * 2 + 2) * GAS_BITOP + (count + 1) * GAS_PUSH + GAS_SSTORE_WARM \<rparr>
      else
        g\<lparr> pg_gas_before := count * GAS_SLOAD_WARM,
           pg_gas_after := GAS_SLOAD_WARM + count * GAS_BITOP + count * GAS_PUSH \<rparr>)"

definition group_step ::
  "slot_access list \<times> pack_group list \<Rightarrow> nat \<Rightarrow> slot_access list \<times> pack_group list" where
  "group_step st i =
     (case st of (acc, grps) \<Rightarrow>
        if length grps \<ge> MAX_GROUPS \<or> sa_consumed (acc ! i) \<or> sa_bit_width (acc ! i) \<ge> 256 then (acc, grps)
        else (case foldl (partner i) (seed acc i) [Suc i..<length acc] of (acc', g) \<Rightarrow>
          if length (pg_members g) \<ge> 2 then (acc', grps @ [group_gas (sa_is_store (acc' ! i)) g])
          else (acc'[i := (acc' ! i)\<lparr> sa_consumed := False \<rparr>], grps)))"

definition form_groups :: "slot_access list \<Rightarrow> slot_access list \<times> pack_group list" where
  "form_groups acc = foldl group_step (acc, []) [0..<length acc]"

subsection \<open>Savings and fee\<close>

definition total_gas_saved :: "pack_group list \<Rightarrow> int" where
  "total_gas_saved grps =
     foldl (\<lambda>saved g. let delta = pg_gas_before g - pg_gas_after g in if delta > 0 then saved + delta else saved) 0 grps"

definition bribe_gwei :: "pack_group list \<Rightarrow> int" where
  "bribe_gwei grps = total_gas_saved grps * 4 div 5 * 30"

subsection \<open>What a group is\<close>

definition widths :: "slot_access list \<Rightarrow> nat list \<Rightarrow> nat" where
  "widths acc ms = (\<Sum>m\<leftarrow>ms. sa_bit_width (acc ! m))"

definition group_ok :: "slot_access list \<Rightarrow> pack_group \<Rightarrow> bool" where
  "group_ok acc g \<longleftrightarrow> pg_members g \<noteq> [] \<and> distinct (pg_members g) \<and> length (pg_members g) \<le> MAX_PER_GROUP
     \<and> pg_base_slot g = sa_slot (acc ! hd (pg_members g))
     \<and> pg_total_bits g = widths acc (pg_members g) \<and> pg_total_bits g \<le> 256
     \<and> (\<forall>k < length (pg_members g). sa_bit_offset (acc ! (pg_members g ! k)) = widths acc (take k (pg_members g)))
     \<and> (\<forall>m \<in> set (pg_members g). m < length acc \<and> sa_consumed (acc ! m)
          \<and> sa_is_store (acc ! m) = sa_is_store (acc ! hd (pg_members g)) \<and> sa_bit_width (acc ! m) < 256
          \<and> (sa_slot (acc ! m) = pg_base_slot g \<or> sa_slot (acc ! m) = pg_base_slot g + 1
             \<or> sa_slot (acc ! m) = pg_base_slot g - 1))"

text \<open>Rounds only touch accesses that are not consumed, and of those only the offset and the mark.\<close>

definition advances :: "slot_access list \<Rightarrow> slot_access list \<Rightarrow> bool" where
  "advances acc acc' \<longleftrightarrow> length acc' = length acc
     \<and> (\<forall>m < length acc. sa_slot (acc' ! m) = sa_slot (acc ! m) \<and> sa_is_store (acc' ! m) = sa_is_store (acc ! m)
          \<and> sa_bit_width (acc' ! m) = sa_bit_width (acc ! m) \<and> sa_val_reg (acc' ! m) = sa_val_reg (acc ! m)
          \<and> (sa_consumed (acc ! m) \<longrightarrow> acc' ! m = acc ! m))"

lemma advances_refl: "advances acc acc" by (simp add: advances_def)

lemma advances_trans: "advances a b \<Longrightarrow> advances b c \<Longrightarrow> advances a c"
  by (simp add: advances_def)

lemma advances_update:
  assumes "\<not> sa_consumed (acc ! j)" "sa_slot x = sa_slot (acc ! j)" "sa_is_store x = sa_is_store (acc ! j)"
    "sa_bit_width x = sa_bit_width (acc ! j)" "sa_val_reg x = sa_val_reg (acc ! j)"
  shows "advances acc (acc[j := x])"
  using assms by (cases "j < length acc") (auto simp: advances_def nth_list_update list_update_beyond)

lemma widths_advances: "advances acc acc' \<Longrightarrow> set ms \<subseteq> {..<length acc} \<Longrightarrow> widths acc' ms = widths acc ms"
  unfolding widths_def by (rule arg_cong [where f = sum_list]) (auto simp: advances_def)

lemma group_ok_advances:
  assumes g: "group_ok acc g" and gr: "advances acc acc'"
  shows "group_ok acc' g"
proof -
  let ?ms = "pg_members g"
  have same: "acc' ! m = acc ! m" "m < length acc'" if "m \<in> set ?ms" for m
    using g gr that by (simp_all add: group_ok_def advances_def)
  have ne: "?ms \<noteq> []" and hd: "hd ?ms \<in> set ?ms" using g by (simp_all add: group_ok_def)
  have w: "widths acc' ns = widths acc ns" if "set ns \<subseteq> set ?ms" for ns
    using that same(1) unfolding widths_def by (intro arg_cong [where f = sum_list] map_cong HOL.refl) auto
  have wt: "widths acc' (take k ?ms) = widths acc (take k ?ms)" for k by (rule w [OF set_take_subset])
  have off: "sa_bit_offset (acc' ! (?ms ! k)) = widths acc (take k ?ms)" if "k < length ?ms" for k
    using g that same(1) [OF nth_mem [OF that]] by (simp add: group_ok_def)
  have mem: "m < length acc' \<and> sa_consumed (acc' ! m) \<and> sa_is_store (acc' ! m) = sa_is_store (acc' ! hd ?ms)
      \<and> sa_bit_width (acc' ! m) < 256 \<and> (sa_slot (acc' ! m) = pg_base_slot g \<or> sa_slot (acc' ! m) = pg_base_slot g + 1
        \<or> sa_slot (acc' ! m) = pg_base_slot g - 1)" if "m \<in> set ?ms" for m
    unfolding same(1) [OF that] same(1) [OF hd] using same(2) [OF that] g that unfolding group_ok_def by blast
  show ?thesis
    unfolding group_ok_def wt w [OF subset_refl] same(1) [OF hd]
    using g off mem unfolding group_ok_def same(1) [OF hd] by blast
qed

text \<open>A state of the inner loop: a group around access \<open>i\<close> with members up to, but not including, \<open>j\<close>.\<close>

definition group_upto :: "nat \<Rightarrow> nat \<Rightarrow> slot_access list \<times> pack_group \<Rightarrow> bool" where
  "group_upto i j st \<longleftrightarrow> (case st of (acc, g) \<Rightarrow> group_ok acc g \<and> hd (pg_members g) = i \<and> set (pg_members g) \<subseteq> {i..<j})"

lemma partner_upto:
  assumes st: "group_upto i j (acc, g)" and j: "i < j" "j < length acc"
  shows "group_upto i (Suc j) (partner i (acc, g) j)" and "advances acc (fst (partner i (acc, g) j))"
proof -
  let ?c = "length (pg_members g) < MAX_PER_GROUP \<and> joins (acc ! i) g (acc ! j)"
  let ?acc = "acc[j := (acc ! j)\<lparr> sa_bit_offset := pg_total_bits g, sa_consumed := True \<rparr>]"
  have ok: "group_ok acc g" and hd: "hd (pg_members g) = i" and sub: "set (pg_members g) \<subseteq> {i..<j}"
    using st by (auto simp: group_upto_def)
  show gr: "advances acc (fst (partner i (acc, g) j))"
  proof (cases ?c)
    case False
    then show ?thesis by (simp only: partner_def prod.case if_False fst_conv advances_refl)
  next
    case True
    then have p: "fst (partner i (acc, g) j) = ?acc" by (simp only: partner_def prod.case if_True fst_conv simp_thms)
    have "\<not> sa_consumed (acc ! j)" using True by (simp add: joins_def)
    then show ?thesis unfolding p by (rule advances_update) simp_all
  qed
  show "group_upto i (Suc j) (partner i (acc, g) j)"
  proof (cases ?c)
    case False
    then have "partner i (acc, g) j = (acc, g)" by (simp only: partner_def prod.case if_False)
    then show ?thesis using st by (auto simp: group_upto_def)
  next
    case True
    define g' where "g' = g\<lparr> pg_members := pg_members g @ [j], pg_total_bits := pg_total_bits g + sa_bit_width (acc ! j) \<rparr>"
    have p: "partner i (acc, g) j = (?acc, g')" using True by (simp only: partner_def prod.case if_True g'_def simp_thms)
    have g1: "advances acc ?acc" using gr p by simp
    have ne: "pg_members g \<noteq> []" using ok by (simp add: group_ok_def)
    have inside: "set (pg_members g) \<subseteq> {..<length acc}" using sub j by auto
    have tk: "set (take k (pg_members g)) \<subseteq> {..<length acc}" for k using inside set_take_subset [of k "pg_members g"] by blast
    have ok': "group_ok ?acc g" by (rule group_ok_advances [OF ok g1])
    have jn: "j \<notin> set (pg_members g)" using sub by auto
    have wj: "sa_bit_width (?acc ! j) = sa_bit_width (acc ! j)" using j by simp
    have off: "sa_bit_offset (?acc ! (pg_members g' ! k)) = widths ?acc (take k (pg_members g'))"
      if "k < length (pg_members g')" for k
    proof (cases "k < length (pg_members g)")
      case True
      then show ?thesis using ok' by (simp add: group_ok_def g'_def nth_append)
    next
      case False
      then have "k = length (pg_members g)" using that by (simp add: g'_def)
      then show ?thesis using ok' j by (simp add: group_ok_def g'_def)
    qed
    have jo: "joins (acc ! i) g (acc ! j)" using True ..
    have base: "sa_slot (acc ! i) = pg_base_slot g" using ok hd by (simp add: group_ok_def)
    have ii: "sa_is_store (?acc ! i) = sa_is_store (acc ! i)" using j by simp
    have mem: "m < length ?acc \<and> sa_consumed (?acc ! m) \<and> sa_is_store (?acc ! m) = sa_is_store (?acc ! i)
      \<and> sa_bit_width (?acc ! m) < 256 \<and> (sa_slot (?acc ! m) = pg_base_slot g \<or> sa_slot (?acc ! m) = pg_base_slot g + 1
        \<or> sa_slot (?acc ! m) = pg_base_slot g - 1)" if "m \<in> set (pg_members g')" for m
    proof (cases "m = j")
      case True
      then show ?thesis using j jo base ii by (simp add: joins_def)
    next
      case False
      then have "m \<in> set (pg_members g)" using that by (simp add: g'_def)
      then show ?thesis using ok' hd unfolding group_ok_def by blast
    qed
    have total: "pg_total_bits g' = widths ?acc (pg_members g')" "pg_total_bits g' \<le> 256"
      using ok' j jo by (simp_all add: group_ok_def g'_def widths_def joins_def)
    have "group_ok ?acc g'"
      unfolding group_ok_def
    proof (intro conjI ballI allI impI)
      show "pg_members g' \<noteq> []" "distinct (pg_members g')" "length (pg_members g') \<le> MAX_PER_GROUP"
        using ok jn True by (simp_all add: g'_def group_ok_def)
      show "pg_base_slot g' = sa_slot (?acc ! hd (pg_members g'))"
        using ok' ne by (simp add: group_ok_def g'_def)
    qed (use total off mem hd ne in \<open>simp_all add: g'_def\<close>)
    moreover have "hd (pg_members g') = i" "set (pg_members g') \<subseteq> {i..<Suc j}"
      using hd ne sub j(1) by (auto simp: g'_def)
    ultimately show ?thesis unfolding p group_upto_def by simp
  qed
qed

text \<open>The members were free in the list \<open>acc0\<close> the group started from.\<close>

definition members_free :: "slot_access list \<Rightarrow> pack_group \<Rightarrow> bool" where
  "members_free acc0 g \<longleftrightarrow> (\<forall>m \<in> set (pg_members g). \<not> sa_consumed (acc0 ! m))"

lemma partner_free:
  assumes "members_free acc0 g" "advances acc0 acc" "j < length acc0"
  shows "members_free acc0 (snd (partner i (acc, g) j))"
proof -
  have "sa_consumed (acc0 ! j) \<Longrightarrow> sa_consumed (acc ! j)" using assms(2,3) by (simp add: advances_def)
  then show ?thesis using assms(1) by (auto simp: partner_def members_free_def joins_def)
qed

lemma partners_upto:
  assumes "group_upto i (Suc i) (acc, g)" "Suc i + n \<le> length acc" "advances acc0 acc" "members_free acc0 g"
  shows "group_upto i (Suc i + n) (foldl (partner i) (acc, g) [Suc i..<Suc i + n])
    \<and> advances acc0 (fst (foldl (partner i) (acc, g) [Suc i..<Suc i + n]))
    \<and> members_free acc0 (snd (foldl (partner i) (acc, g) [Suc i..<Suc i + n]))"
  using assms(2)
proof (induction n)
  case 0
  then show ?case using assms(1,3,4) by simp
next
  case (Suc n)
  obtain acc' g' where st: "foldl (partner i) (acc, g) [Suc i..<Suc i + n] = (acc', g')" by (cases "foldl (partner i) (acc, g) [Suc i..<Suc i + n]")
  have ih: "group_upto i (Suc i + n) (acc', g')" "advances acc0 acc'" "members_free acc0 g'" using Suc st by auto
  have "length acc' = length acc0" "length acc = length acc0" using ih(2) assms(3) by (simp_all add: advances_def)
  then have j: "Suc i + n < length acc'" "Suc i + n < length acc0" using Suc.prems by simp_all
  have "foldl (partner i) (acc, g) [Suc i..<Suc i + Suc n] = partner i (acc', g') (Suc i + n)"
    using st by simp
  then show ?case
    using partner_upto [OF ih(1) _ j(1)] advances_trans [OF ih(2)] partner_free [OF ih(3,2) j(2)] by simp
qed

lemma seed_upto:
  assumes "i < length acc" "\<not> sa_consumed (acc ! i)" "sa_bit_width (acc ! i) < 256"
  shows "group_upto i (Suc i) (seed acc i)" "advances acc (fst (seed acc i))"
proof -
  show "advances acc (fst (seed acc i))" unfolding seed_def fst_conv using assms(2) by (rule advances_update) simp_all
  show "group_upto i (Suc i) (seed acc i)"
    using assms by (simp add: seed_def group_upto_def group_ok_def MAX_PER_GROUP_def widths_def)
qed

subsection \<open>All groups\<close>

definition groups_ok :: "slot_access list \<Rightarrow> slot_access list \<times> pack_group list \<Rightarrow> bool" where
  "groups_ok acc0 st \<longleftrightarrow> (case st of (acc, grps) \<Rightarrow>
     length grps \<le> MAX_GROUPS \<and> distinct (concat (map pg_members grps))
     \<and> (\<forall>g \<in> set grps. group_ok acc g \<and> 2 \<le> length (pg_members g))
     \<and> (\<forall>g \<in> set grps. \<exists>g0. g = group_gas (sa_is_store (acc ! hd (pg_members g))) g0 \<and> pg_members g0 = pg_members g)
     \<and> length acc = length acc0
     \<and> (\<forall>m < length acc0. sa_slot (acc ! m) = sa_slot (acc0 ! m) \<and> sa_is_store (acc ! m) = sa_is_store (acc0 ! m)
          \<and> sa_bit_width (acc ! m) = sa_bit_width (acc0 ! m) \<and> sa_val_reg (acc ! m) = sa_val_reg (acc0 ! m)))"

lemma group_gas_fields [simp]:
  "pg_members (group_gas b g) = pg_members g" "pg_base_slot (group_gas b g) = pg_base_slot g"
  "pg_total_bits (group_gas b g) = pg_total_bits g"
  by (simp_all add: group_gas_def Let_def)

lemma group_ok_gas [simp]: "group_ok acc (group_gas b g) \<longleftrightarrow> group_ok acc g"
  by (simp add: group_ok_def)

lemma group_head: "group_ok acc g \<Longrightarrow> hd (pg_members g) \<in> set (pg_members g)"
  by (simp add: group_ok_def)

lemma groups_ok_advances:
  assumes ok: "groups_ok acc0 (acc, grps)" and gr: "advances acc acc'"
  shows "groups_ok acc0 (acc', grps)"
proof -
  have g: "group_ok acc' g \<and> acc' ! hd (pg_members g) = acc ! hd (pg_members g)" if "g \<in> set grps" for g
  proof -
    have o: "group_ok acc g" using ok that by (simp add: groups_ok_def)
    then have "hd (pg_members g) < length acc" "sa_consumed (acc ! hd (pg_members g))"
      using group_head [OF o] by (simp_all add: group_ok_def)
    then show ?thesis using group_ok_advances [OF o gr] gr by (simp add: advances_def)
  qed
  show ?thesis
    using ok gr g unfolding groups_ok_def prod.case advances_def by fastforce
qed

lemma group_step_ok:
  assumes ok: "groups_ok acc0 (acc, grps)" and i: "i < length acc"
  shows "groups_ok acc0 (group_step (acc, grps) i)"
proof (cases "length grps \<ge> MAX_GROUPS \<or> sa_consumed (acc ! i) \<or> sa_bit_width (acc ! i) \<ge> 256")
  case True
  then have "group_step (acc, grps) i = (acc, grps)" by (simp add: group_step_def)
  then show ?thesis using ok by simp
next
  case False
  then have free: "\<not> sa_consumed (acc ! i)" "sa_bit_width (acc ! i) < 256" "length grps < MAX_GROUPS" by auto
  obtain acc1 g1 where s: "seed acc i = (acc1, g1)" by (cases "seed acc i")
  have up1: "group_upto i (Suc i) (acc1, g1)" "advances acc acc1" using seed_upto [OF i free(1,2)] s by simp_all
  have len1: "length acc1 = length acc" using up1(2) by (simp add: advances_def)
  obtain acc' g where f: "foldl (partner i) (seed acc i) [Suc i..<length acc] = (acc', g)"
    by (cases "foldl (partner i) (seed acc i) [Suc i..<length acc]")
  have e: "Suc i + (length acc - Suc i) = length acc" using i by simp
  have "members_free acc g1" using s free(1) by (auto simp: seed_def members_free_def)
  then have "group_upto i (length acc) (acc', g) \<and> advances acc acc' \<and> members_free acc g"
    using partners_upto [OF up1(1) _ up1(2), of "length acc - Suc i", unfolded e] len1 f s by simp
  then have up: "group_upto i (length acc) (acc', g)" and gr: "advances acc acc'" and free': "members_free acc g"
    by simp_all
  have gok: "group_ok acc' g" "hd (pg_members g) = i" using up by (simp_all add: group_upto_def)
  have len: "length acc' = length acc" using gr by (simp add: advances_def)
  have step: "group_step (acc, grps) i
    = (if length (pg_members g) \<ge> 2 then (acc', grps @ [group_gas (sa_is_store (acc' ! i)) g])
       else (acc'[i := (acc' ! i)\<lparr> sa_consumed := False \<rparr>], grps))"
    using False f by (simp add: group_step_def)
  have out: "m \<notin> set (pg_members h)" if "h \<in> set grps" "m \<in> set (pg_members g)" for h m
    using ok free' that unfolding groups_ok_def group_ok_def members_free_def by blast
  show ?thesis
  proof (cases "length (pg_members g) \<ge> 2")
    case True
    have old: "groups_ok acc0 (acc', grps)" by (rule groups_ok_advances [OF ok gr])
    let ?g = "group_gas (sa_is_store (acc' ! i)) g"
    have d: "distinct (concat (map pg_members (grps @ [?g])))"
      using old gok(1) out unfolding groups_ok_def group_ok_def by simp blast
    have n: "length (grps @ [?g]) \<le> MAX_GROUPS" using free(3) by simp
    have r: "group_step (acc, grps) i = (acc', grps @ [?g])" using step True by simp
    have g: "group_ok acc' ?g" "2 \<le> length (pg_members ?g)" using gok(1) True by simp_all
    have gas: "\<exists>g0. ?g = group_gas (sa_is_store (acc' ! hd (pg_members ?g))) g0 \<and> pg_members g0 = pg_members ?g"
      using gok(2) by auto
    show ?thesis
      unfolding r using old d n g gas unfolding groups_ok_def prod.case set_append list.set by blast
  next
    case False
    have "advances acc (acc'[i := (acc' ! i)\<lparr> sa_consumed := False \<rparr>])"
      using gr free(1) i by (auto simp: advances_def nth_list_update)
    then show ?thesis using step False groups_ok_advances [OF ok] by simp
  qed
qed

lemma form_groups_ok: "groups_ok acc0 (form_groups acc0)"
proof -
  have "groups_ok acc0 (foldl group_step (acc0, []) [0..<n])" if "n \<le> length acc0" for n
    using that
  proof (induction n)
    case 0
    then show ?case by (simp add: groups_ok_def)
  next
    case (Suc n)
    obtain acc grps where st: "foldl group_step (acc0, []) [0..<n] = (acc, grps)" by (cases "foldl group_step (acc0, []) [0..<n]")
    then have "groups_ok acc0 (acc, grps)" "n < length acc" using Suc by (auto simp: groups_ok_def)
    then show ?case using group_step_ok st by simp
  qed
  then show ?thesis by (simp add: form_groups_def)
qed

subsection \<open>Bit ranges\<close>

definition ranges_apart :: "slot_access list \<Rightarrow> nat list \<Rightarrow> bool" where
  "ranges_apart acc ms \<longleftrightarrow> (\<forall>k < length ms.
     sa_bit_offset (acc ! (ms ! k)) + sa_bit_width (acc ! (ms ! k)) \<le> 256
     \<and> (\<forall>j < k. sa_bit_offset (acc ! (ms ! j)) + sa_bit_width (acc ! (ms ! j)) \<le> sa_bit_offset (acc ! (ms ! k))))"

lemma widths_take_mono: "j \<le> k \<Longrightarrow> widths acc (take j ms) \<le> widths acc (take k ms)"
proof -
  assume "j \<le> k"
  then have "take k ms = take j ms @ take (k - j) (drop j ms)"
    by (metis le_add_diff_inverse take_add)
  then show ?thesis by (simp add: widths_def)
qed

lemma widths_take_Suc: "k < length ms \<Longrightarrow> widths acc (take (Suc k) ms) = widths acc (take k ms) + sa_bit_width (acc ! (ms ! k))"
  by (simp add: widths_def take_Suc_conv_app_nth)

lemma group_ranges_apart:
  assumes "group_ok acc g"
  shows "ranges_apart acc (pg_members g)"
  unfolding ranges_apart_def
proof (intro allI impI conjI)
  let ?ms = "pg_members g"
  have off: "sa_bit_offset (acc ! (?ms ! k)) = widths acc (take k ?ms)" if "k < length ?ms" for k
    using assms that by (simp add: group_ok_def)
  fix k assume k: "k < length ?ms"
  have e: "sa_bit_offset (acc ! (?ms ! k)) + sa_bit_width (acc ! (?ms ! k)) = widths acc (take (Suc k) ?ms)"
    using off [OF k] widths_take_Suc [OF k] by simp
  also have "\<dots> \<le> widths acc (take (length ?ms) ?ms)" using k by (intro widths_take_mono) simp
  also have "\<dots> \<le> 256" using assms by (simp add: group_ok_def)
  finally show "sa_bit_offset (acc ! (?ms ! k)) + sa_bit_width (acc ! (?ms ! k)) \<le> 256" .
  fix j assume j: "j < k"
  then have "sa_bit_offset (acc ! (?ms ! j)) + sa_bit_width (acc ! (?ms ! j)) = widths acc (take (Suc j) ?ms)"
    using off [of j] widths_take_Suc [of j ?ms acc] k by simp
  also have "\<dots> \<le> widths acc (take k ?ms)" using j by (intro widths_take_mono) simp
  finally show "sa_bit_offset (acc ! (?ms ! j)) + sa_bit_width (acc ! (?ms ! j)) \<le> sa_bit_offset (acc ! (?ms ! k))"
    using off [OF k] by simp
qed

subsection \<open>Properties\<close>

text \<open>C28: The groups are sound packings. There are at most 64, no access is in two of them, and each has
  two to eight accesses of one direction, narrower than a word, at the slot of the first or next to it,
  whose bit ranges follow each other from bit 0 without overlap and end within the word. Slot, direction,
  width and register of every access are those the scan found.\<close>

theorem peephole_groups_sound:
  "groups_ok (scan_accesses fn) (form_groups (scan_accesses fn))
   \<and> list_all (\<lambda>g. ranges_apart (fst (form_groups (scan_accesses fn))) (pg_members g)) (snd (form_groups (scan_accesses fn)))"
  using form_groups_ok [of "scan_accesses fn"] group_ranges_apart
  by (cases "form_groups (scan_accesses fn)") (auto simp: groups_ok_def list_all_iff)

text \<open>What a group of \<open>c\<close> stores or loads saves.\<close>

definition group_saving :: "slot_access list \<Rightarrow> pack_group \<Rightarrow> int" where
  "group_saving acc g = (let c = int (length (pg_members g)) in
     if sa_is_store (acc ! hd (pg_members g)) then 2891 * c - 3009 else 94 * c - 100)"

lemma group_delta:
  assumes "groups_ok acc0 (acc, grps)" "g \<in> set grps"
  shows "pg_gas_before g - pg_gas_after g = group_saving acc g" "0 < group_saving acc g" "group_saving acc g \<le> 20119"
proof -
  obtain g0 where g: "g = group_gas (sa_is_store (acc ! hd (pg_members g))) g0" "pg_members g0 = pg_members g"
    using assms by (fastforce simp: groups_ok_def)
  have c: "2 \<le> length (pg_members g)" "length (pg_members g) \<le> 8"
    using assms by (auto simp: groups_ok_def group_ok_def MAX_PER_GROUP_def)
  show "pg_gas_before g - pg_gas_after g = group_saving acc g"
    by (subst (1 2) g(1)) (simp add: group_gas_def group_saving_def Let_def g(2) GAS_SLOAD_WARM_def GAS_SSTORE_WARM_def
      GAS_BITOP_def GAS_PUSH_def)
  show "0 < group_saving acc g" "group_saving acc g \<le> 20119"
    using c by (simp_all add: group_saving_def Let_def)
qed

lemma total_saved_sum:
  assumes "\<And>g. g \<in> set grps \<Longrightarrow> pg_gas_before g - pg_gas_after g = f g \<and> 0 < f g"
  shows "total_gas_saved grps = (\<Sum>g\<leftarrow>grps. f g)"
proof -
  have "foldl (\<lambda>saved g. let delta = pg_gas_before g - pg_gas_after g in if delta > 0 then saved + delta else saved) s grps
      = s + (\<Sum>g\<leftarrow>grps. f g)" for s
    using assms
  proof (induction grps arbitrary: s)
    case (Cons g grps)
    then have "pg_gas_before g - pg_gas_after g = f g" "0 < f g" by simp_all
    then have "pg_gas_after g < pg_gas_before g" "pg_gas_before g - pg_gas_after g = f g" by simp_all
    moreover have "\<And>h. h \<in> set grps \<Longrightarrow> pg_gas_before h - pg_gas_after h = f h \<and> 0 < f h" using Cons.prems by simp
    ultimately show ?case using Cons.IH by (simp add: Let_def)
  qed simp
  then show ?thesis by (simp add: total_gas_saved_def)
qed

text \<open>The reported saving is the sum over the groups of 2891 gas per packed store less 3009, and 94 per
  packed load less 100; every group counts. It stays below 1.3 million, far within an int, and the fee is
  four fifths of it, rounded down, times 30.\<close>

lemma peephole_gas_exact:
  fixes fn :: ir_func
  defines "st \<equiv> form_groups (scan_accesses fn)"
  shows "total_gas_saved (snd st) = (\<Sum>g\<leftarrow>snd st. group_saving (fst st) g)
    \<and> 0 \<le> total_gas_saved (snd st) \<and> total_gas_saved (snd st) \<le> 64 * 20119
    \<and> bribe_gwei (snd st) = 30 * (4 * total_gas_saved (snd st) div 5)"
proof -
  obtain acc grps where st: "form_groups (scan_accesses fn) = (acc, grps)" by (cases "form_groups (scan_accesses fn)")
  have ok: "groups_ok (scan_accesses fn) (acc, grps)" using form_groups_ok [of "scan_accesses fn"] st by simp
  note d = group_delta [OF ok]
  have sum: "total_gas_saved grps = (\<Sum>g\<leftarrow>grps. group_saving acc g)" using d by (intro total_saved_sum) blast
  have pos: "0 \<le> (\<Sum>g\<leftarrow>grps. group_saving acc g)" using d(2) by (intro sum_list_nonneg) force
  have "(\<Sum>g\<leftarrow>grps. group_saving acc g) \<le> (\<Sum>g\<leftarrow>grps. 20119)" using d(3) by (intro sum_list_mono) blast
  also have "\<dots> \<le> 64 * 20119" using ok by (simp add: sum_list_triv groups_ok_def MAX_GROUPS_def)
  finally show ?thesis using sum pos by (simp add: st_def st bribe_gwei_def mult.commute)
qed

end
