(* ===== verification/PeepholeYul.thy ===== *)
theory PeepholeYul
  imports Peephole
begin

text \<open>
  The code the packing emits. The printer writes Yul text line by line and drops a line that does not fit
  the buffer; the text is compared with a program of Yul statements, and the program is run on a store of
  256-bit words.
\<close>

unbundle bit_operations_syntax

subsection \<open>Masks\<close>

definition hex_digit :: "u8 \<Rightarrow> char" where
  "hex_digit d = ''0123456789abcdef'' ! unat d"

definition hex2 :: "u8 \<Rightarrow> cstr" where
  "hex2 b = [hex_digit (drop_bit 4 b AND 0xF), hex_digit (b AND 0xF)]"

definition set_bits :: "nat \<Rightarrow> nat \<Rightarrow> u8 \<Rightarrow> u8" where
  "set_bits lo hi b = foldl (\<lambda>b k. b OR push_bit k 1) b [lo..<Suc hi]"

definition mask_bytes :: "nat \<Rightarrow> nat \<Rightarrow> u8 list \<Rightarrow> u8 list" where
  "mask_bytes width offset bs =
     (let byte_lo = offset div 8; byte_hi = (offset + width - 1) div 8 in
      foldl (\<lambda>bs bi. bs[bi := set_bits (if bi = byte_lo then offset mod 8 else 0)
                                  (if bi = byte_hi then (offset + width - 1) mod 8 else 7) (bs ! bi)])
        bs [byte_lo..<min (Suc byte_hi) 32])"

definition hex_pairs :: "u8 list \<Rightarrow> cstr list" where
  "hex_pairs bs = map (\<lambda>i. hex2 (bs ! i)) (rev [0..<32])"

definition build_mask_hex :: "nat \<Rightarrow> nat \<Rightarrow> cstr" where
  "build_mask_hex width offset = ''0x'' @ concat (hex_pairs (mask_bytes width offset (replicate 32 0)))"

subsection \<open>The text\<close>

definition show_long :: "u64 \<Rightarrow> cstr" where "show_long v = show_int (sint v)"

definition nl :: cstr where "nl = [CHR 0x0A]"

text \<open>\<^verbatim>\<open>YUL_PRINTF\<close> and the writing of a pair of digits: the text is added if it ends before the last byte.\<close>

definition yul_put :: "nat \<Rightarrow> cstr \<Rightarrow> cstr \<Rightarrow> cstr" where
  "yul_put cap out s = (if 0 < length s \<and> length out + length s < cap - 1 then out @ s else out)"

definition store_line :: "slot_access \<Rightarrow> cstr" where
  "store_line m = (let mask_buf = build_mask_hex (sa_bit_width m) 0 in
     if sa_bit_offset m = 0 then ''    _packed := or(_packed, and('' @ sa_val_reg m @ '', '' @ mask_buf @ ''))'' @ nl
     else ''    _packed := or(_packed, shl('' @ decimal (sa_bit_offset m) @ '', and('' @ sa_val_reg m @ '', '' @ mask_buf @ '')))'' @ nl)"

definition load_line :: "slot_access \<Rightarrow> cstr" where
  "load_line m = (let mask_buf = build_mask_hex (sa_bit_width m) 0 in
     if sa_bit_offset m = 0 then ''    let '' @ sa_val_reg m @ '' := and(_word, '' @ mask_buf @ '')'' @ nl
     else ''    let '' @ sa_val_reg m @ '' := and(shr('' @ decimal (sa_bit_offset m) @ '', _word), '' @ mask_buf @ '')'' @ nl)"

definition combined_mask :: "slot_access list \<Rightarrow> u8 list" where
  "combined_mask ms = foldl (\<lambda>c m. mask_bytes (sa_bit_width m) (sa_bit_offset m) c) (replicate 32 0) ms"

definition group_members :: "slot_access list \<Rightarrow> pack_group \<Rightarrow> slot_access list" where
  "group_members acc g = map ((!) acc) (pg_members g)"

definition yul_header :: "slot_access list \<Rightarrow> pack_group \<Rightarrow> cstr" where
  "yul_header acc g =
     ''// === Packed '' @ (if sa_is_store (hd (group_members acc g)) then ''SSTORE'' else ''SLOAD'') @ '' (slot '' @
       show_long (pg_base_slot g) @ '', '' @ decimal (length (pg_members g)) @ '' values, '' @
       decimal (pg_total_bits g) @ '' bits) ==='' @ nl"

definition yul_chunks :: "slot_access list \<Rightarrow> pack_group \<Rightarrow> cstr list" where
  "yul_chunks acc g = (let ms = group_members acc g in
     [yul_header acc g, ''{'' @ nl] @
     (if sa_is_store (hd ms) then
        [''    let _existing := sload('' @ show_long (pg_base_slot g) @ '')'' @ nl, ''    let _clear := not(0x''] @
        hex_pairs (combined_mask ms) @
        ['')'' @ nl, ''    let _packed := and(_existing, _clear)'' @ nl] @
        map store_line ms @
        [''    sstore('' @ show_long (pg_base_slot g) @ '', _packed)'' @ nl]
      else
        [''    let _word := sload('' @ show_long (pg_base_slot g) @ '')'' @ nl] @ map load_line ms) @
     [''}'' @ nl])"

definition emit_yul_group :: "slot_access list \<Rightarrow> pack_group \<Rightarrow> nat \<Rightarrow> cstr" where
  "emit_yul_group acc g cap = foldl (yul_put cap) [] (yul_chunks acc g)"

definition emit_groups :: "slot_access list \<Rightarrow> pack_group list \<Rightarrow> int \<Rightarrow> cstr" where
  "emit_groups acc grps yul_cap =
     foldl (\<lambda>out g. let remain = yul_cap - int (length out) - 1 in
        if remain < 128 then out else out @ emit_yul_group acc g (nat remain)) [] grps"

text \<open>The result: the gas saved, the text and the fee; \<open>None\<close> for the early return, which writes nothing.\<close>

definition evm_peephole_optimize :: "ir_func option \<Rightarrow> bool \<Rightarrow> int \<Rightarrow> int \<times> (cstr \<times> int) option" where
  "evm_peephole_optimize fn has_out yul_cap =
     (case fn of None \<Rightarrow> (0, None)
      | Some f \<Rightarrow>
          if \<not> has_out \<or> yul_cap < 64 then (0, None)
          else (case form_groups (scan_accesses f) of (acc, grps) \<Rightarrow>
            (total_gas_saved grps, Some (emit_groups acc grps yul_cap, bribe_gwei grps))))"

subsection \<open>Yul programs\<close>

type_synonym w256 = "256 word"

datatype yul_expr =
    YVar cstr
  | YHex "u8 list"
  | YSload u64
  | YAnd yul_expr yul_expr
  | YOr yul_expr yul_expr
  | YNot yul_expr
  | YShl nat yul_expr
  | YShr nat yul_expr

datatype yul_stmt = YLet cstr yul_expr | YAssign cstr yul_expr | YSstore u64 yul_expr

fun show_expr :: "yul_expr \<Rightarrow> cstr" where
  "show_expr (YVar x) = x"
| "show_expr (YHex bs) = ''0x'' @ concat (hex_pairs bs)"
| "show_expr (YSload s) = ''sload('' @ show_long s @ '')''"
| "show_expr (YAnd a b) = ''and('' @ show_expr a @ '', '' @ show_expr b @ '')''"
| "show_expr (YOr a b) = ''or('' @ show_expr a @ '', '' @ show_expr b @ '')''"
| "show_expr (YNot a) = ''not('' @ show_expr a @ '')''"
| "show_expr (YShl n a) = ''shl('' @ decimal n @ '', '' @ show_expr a @ '')''"
| "show_expr (YShr n a) = ''shr('' @ decimal n @ '', '' @ show_expr a @ '')''"

fun show_stmt :: "yul_stmt \<Rightarrow> cstr" where
  "show_stmt (YLet x e) = ''    let '' @ x @ '' := '' @ show_expr e @ nl"
| "show_stmt (YAssign x e) = ''    '' @ x @ '' := '' @ show_expr e @ nl"
| "show_stmt (YSstore s e) = ''    sstore('' @ show_long s @ '', '' @ show_expr e @ '')'' @ nl"

definition yul_block :: "yul_stmt list \<Rightarrow> cstr" where
  "yul_block p = ''{'' @ nl @ concat (map show_stmt p) @ ''}'' @ nl"

text \<open>The number a list of bytes stands for, least significant first, and the meaning of programs. A
  slot number is a literal of the text, so it is read without a sign.\<close>

primrec le_word :: "u8 list \<Rightarrow> w256" where
  "le_word [] = 0"
| "le_word (b # bs) = push_bit 8 (le_word bs) OR ucast b"

type_synonym yul_state = "(cstr \<Rightarrow> w256) \<times> (w256 \<Rightarrow> w256)"

fun yul_eval :: "yul_state \<Rightarrow> yul_expr \<Rightarrow> w256" where
  "yul_eval st (YVar x) = fst st x"
| "yul_eval st (YHex bs) = le_word bs"
| "yul_eval st (YSload s) = snd st (ucast s)"
| "yul_eval st (YAnd a b) = yul_eval st a AND yul_eval st b"
| "yul_eval st (YOr a b) = yul_eval st a OR yul_eval st b"
| "yul_eval st (YNot a) = NOT (yul_eval st a)"
| "yul_eval st (YShl n a) = push_bit n (yul_eval st a)"
| "yul_eval st (YShr n a) = drop_bit n (yul_eval st a)"

fun yul_exec :: "yul_state \<Rightarrow> yul_stmt \<Rightarrow> yul_state" where
  "yul_exec st (YLet x e) = ((fst st)(x := yul_eval st e), snd st)"
| "yul_exec st (YAssign x e) = ((fst st)(x := yul_eval st e), snd st)"
| "yul_exec st (YSstore s e) = (fst st, (snd st)(ucast s := yul_eval st e))"

definition yul_run :: "yul_stmt list \<Rightarrow> yul_state \<Rightarrow> yul_state" where
  "yul_run p st = foldl yul_exec st p"

subsection \<open>The text of a group is a program\<close>

definition low_mask :: "slot_access \<Rightarrow> yul_expr" where
  "low_mask m = YHex (mask_bytes (sa_bit_width m) 0 (replicate 32 0))"

definition store_stmt :: "slot_access \<Rightarrow> yul_stmt" where
  "store_stmt m = YAssign ''_packed'' (YOr (YVar ''_packed'')
     (if sa_bit_offset m = 0 then YAnd (YVar (sa_val_reg m)) (low_mask m)
      else YShl (sa_bit_offset m) (YAnd (YVar (sa_val_reg m)) (low_mask m))))"

definition load_stmt :: "slot_access \<Rightarrow> yul_stmt" where
  "load_stmt m = YLet (sa_val_reg m)
     (if sa_bit_offset m = 0 then YAnd (YVar ''_word'') (low_mask m)
      else YAnd (YShr (sa_bit_offset m) (YVar ''_word'')) (low_mask m))"

definition pack_prog :: "slot_access list \<Rightarrow> pack_group \<Rightarrow> yul_stmt list" where
  "pack_prog acc g = (let ms = group_members acc g in
     if sa_is_store (hd ms) then
       [YLet ''_existing'' (YSload (pg_base_slot g)), YLet ''_clear'' (YNot (YHex (combined_mask ms))),
        YLet ''_packed'' (YAnd (YVar ''_existing'') (YVar ''_clear''))] @
       map store_stmt ms @ [YSstore (pg_base_slot g) (YVar ''_packed'')]
     else YLet ''_word'' (YSload (pg_base_slot g)) # map load_stmt ms)"

lemma store_line_show: "store_line m = show_stmt (store_stmt m)"
  by (simp add: store_line_def store_stmt_def low_mask_def build_mask_hex_def Let_def)

lemma load_line_show: "load_line m = show_stmt (load_stmt m)"
  by (simp add: load_line_def load_stmt_def low_mask_def build_mask_hex_def Let_def)

lemma chunks_show: "concat (yul_chunks acc g) = yul_header acc g @ yul_block (pack_prog acc g)"
  unfolding yul_chunks_def yul_block_def pack_prog_def Let_def
  by (simp add: store_line_show [abs_def] load_line_show [abs_def] comp_def)

lemma puts_fit: "length out + length (concat ss) < cap - 1 \<Longrightarrow> foldl (yul_put cap) out ss = out @ concat ss"
  by (induction ss arbitrary: out) (auto simp: yul_put_def)

lemma emit_fits:
  "length (yul_header acc g @ yul_block (pack_prog acc g)) < cap - 1
   \<Longrightarrow> emit_yul_group acc g cap = yul_header acc g @ yul_block (pack_prog acc g)"
  using puts_fit [of "[]" "yul_chunks acc g" cap] by (simp add: emit_yul_group_def chunks_show)

subsection \<open>What the masks denote\<close>

lemma bit_foldl_or: "n < 8 \<Longrightarrow> bit (foldl (\<lambda>b k. b OR push_bit k 1) b ks :: u8) n \<longleftrightarrow> bit b n \<or> n \<in> set ks"
  by (induction ks arbitrary: b) (auto simp: bit_simps)

lemma bit_set_bits: "n < 8 \<Longrightarrow> bit (set_bits lo hi b) n \<longleftrightarrow> bit b n \<or> (lo \<le> n \<and> n \<le> hi)"
  unfolding set_bits_def bit_foldl_or set_upt by auto

lemma foldl_update_range:
  "n \<le> length bs \<Longrightarrow> length (foldl (\<lambda>bs i. bs[i := f i (bs ! i)]) bs [a..<n]) = length bs
     \<and> (\<forall>i < length bs. foldl (\<lambda>bs i. bs[i := f i (bs ! i)]) bs [a..<n] ! i = (if a \<le> i \<and> i < n then f i (bs ! i) else bs ! i))"
proof (induction n)
  case (Suc n)
  show ?case
  proof (cases "a \<le> n")
    case True
    let ?r = "foldl (\<lambda>bs i. bs[i := f i (bs ! i)]) bs [a..<n]"
    have ih: "length ?r = length bs" "\<And>i. i < length bs \<Longrightarrow> ?r ! i = (if a \<le> i \<and> i < n then f i (bs ! i) else bs ! i)"
      using Suc by auto
    have e: "foldl (\<lambda>bs i. bs[i := f i (bs ! i)]) bs [a..<Suc n] = ?r[n := f n (?r ! n)]" using True by simp
    have n: "n < length bs" using Suc.prems by simp
    show ?thesis
      unfolding e using ih n True by (auto simp: nth_list_update less_Suc_eq)
  next
    case False
    then show ?thesis by auto
  qed
qed simp

lemma length_mask_bytes [simp]: "length bs = 32 \<Longrightarrow> length (mask_bytes w off bs) = 32"
  unfolding mask_bytes_def Let_def
  by (rule trans [OF conjunct1 [OF foldl_update_range]]) simp_all

lemma in_byte_range:
  fixes n off w :: nat
  assumes "0 < w"
  shows "(off div 8 \<le> n div 8 \<and> n div 8 < Suc ((off + w - 1) div 8)
      \<and> (if n div 8 = off div 8 then off mod 8 else 0) \<le> n mod 8
      \<and> n mod 8 \<le> (if n div 8 = (off + w - 1) div 8 then (off + w - 1) mod 8 else 7)) \<longleftrightarrow> off \<le> n \<and> n < off + w"
proof -
  define l where "l = off + w - 1"
  have l: "n < off + w \<longleftrightarrow> n \<le> l" using assms by (auto simp: l_def)
  have ord: "(a :: nat) \<le> b \<longleftrightarrow> a div 8 < b div 8 \<or> a div 8 = b div 8 \<and> a mod 8 \<le> b mod 8" for a b
  proof -
    have e: "a = 8 * (a div 8) + a mod 8" "b = 8 * (b div 8) + b mod 8" by simp_all
    have l: "a mod 8 < 8" "b mod 8 < 8" by simp_all
    show ?thesis
      by (rule linorder_cases [of "a div 8" "b div 8"]) (use e l in linarith)+
  qed
  have "n mod 8 \<le> 7" by simp
  moreover have "off \<le> n \<longleftrightarrow> off div 8 \<le> n div 8 \<and> (if n div 8 = off div 8 then off mod 8 else 0) \<le> n mod 8"
    unfolding ord [of off n] by (simp split: if_splits) linarith
  ultimately show ?thesis
    unfolding l l_def [symmetric] ord [of n l] less_Suc_eq_le
    by (cases "n div 8 = l div 8") (auto simp: le_less)
qed

lemma mask_bytes_bit:
  assumes "length bs = 32" "n < 256" "0 < w"
  shows "bit (mask_bytes w off bs ! (n div 8)) (n mod 8) \<longleftrightarrow> bit (bs ! (n div 8)) (n mod 8) \<or> (off \<le> n \<and> n < off + w)"
proof -
  have i: "n div 8 < 32" and mod8: "n mod 8 < 8" using assms(2) by simp_all
  have f: "mask_bytes w off bs ! (n div 8)
    = (if off div 8 \<le> n div 8 \<and> n div 8 < min (Suc ((off + w - 1) div 8)) 32
       then set_bits (if n div 8 = off div 8 then off mod 8 else 0)
              (if n div 8 = (off + w - 1) div 8 then (off + w - 1) mod 8 else 7) (bs ! (n div 8))
       else bs ! (n div 8))"
    unfolding mask_bytes_def Let_def
    by (rule conjunct2 [OF foldl_update_range, rule_format]) (use assms(1) i in simp_all)
  let ?c = "off div 8 \<le> n div 8 \<and> n div 8 < Suc ((off + w - 1) div 8)"
  have c: "off div 8 \<le> n div 8 \<and> n div 8 < min (Suc ((off + w - 1) div 8)) 32 \<longleftrightarrow> ?c"
    unfolding min_less_iff_conj using i by blast
  note r = in_byte_range [OF assms(3), of off n]
  show ?thesis
  proof (cases ?c)
    case True
    show ?thesis unfolding f c if_P [OF True] bit_set_bits [OF mod8] using r True by blast
  next
    case False
    show ?thesis unfolding f c if_not_P [OF False] using r False by blast
  qed
qed

lemma bit_le_word: "bit (le_word bs) n \<longleftrightarrow> n < 256 \<and> n div 8 < length bs \<and> bit (bs ! (n div 8)) (n mod 8)"
proof (induction bs arbitrary: n)
  case (Cons b bs)
  show ?case
  proof (cases "n < 8")
    case True
    then show ?thesis by (simp add: bit_simps)
  next
    case False
    have "\<not> bit b n" using False by (auto dest: bit_imp_le_length)
    moreover have "n div 8 = Suc ((n - 8) div 8)" "(n - 8) mod 8 = n mod 8" using False by (simp_all add: le_div_geq le_mod_geq)
    ultimately show ?thesis using False Cons.IH [of "n - 8"] by (auto simp: bit_simps)
  qed
qed simp

definition in_range :: "slot_access \<Rightarrow> nat \<Rightarrow> bool" where
  "in_range m n \<longleftrightarrow> sa_bit_offset m \<le> n \<and> n < sa_bit_offset m + sa_bit_width m"

lemma bit_low_mask:
  "0 < sa_bit_width m \<Longrightarrow> bit (yul_eval st (low_mask m)) n \<longleftrightarrow> n < 256 \<and> n < sa_bit_width m"
  using mask_bytes_bit [of "replicate 32 0" n "sa_bit_width m" 0]
  by (auto simp: low_mask_def bit_le_word div_less_iff_less_mult)

lemma combined_mask_bit:
  assumes "\<And>m. m \<in> set ms \<Longrightarrow> 0 < sa_bit_width m" "n < 256"
  shows "length (combined_mask ms) = 32 \<and> (bit (combined_mask ms ! (n div 8)) (n mod 8) \<longleftrightarrow> (\<exists>m \<in> set ms. in_range m n))"
  using assms(1)
proof (induction ms rule: rev_induct)
  case Nil
  then show ?case using assms(2) by (simp add: combined_mask_def div_less_iff_less_mult)
next
  case (snoc m ms)
  have c: "combined_mask (ms @ [m]) = mask_bytes (sa_bit_width m) (sa_bit_offset m) (combined_mask ms)"
    by (simp add: combined_mask_def)
  have ih: "length (combined_mask ms) = 32" "bit (combined_mask ms ! (n div 8)) (n mod 8) \<longleftrightarrow> (\<exists>m \<in> set ms. in_range m n)"
    using snoc by auto
  show ?case
    unfolding c using ih mask_bytes_bit [OF ih(1) assms(2), of "sa_bit_width m" "sa_bit_offset m"] snoc.prems [of m]
    by (auto simp: in_range_def)
qed

lemma bit_combined:
  "(\<And>m. m \<in> set ms \<Longrightarrow> 0 < sa_bit_width m)
   \<Longrightarrow> bit (le_word (combined_mask ms)) n \<longleftrightarrow> n < 256 \<and> (\<exists>m \<in> set ms. in_range m n)"
  using combined_mask_bit [of ms n] by (auto simp: bit_le_word div_less_iff_less_mult)

subsection \<open>Running a packed store\<close>

definition member_term :: "slot_access \<Rightarrow> (cstr \<Rightarrow> w256) \<Rightarrow> nat \<Rightarrow> bool" where
  "member_term m env n \<longleftrightarrow> in_range m n \<and> n < 256 \<and> bit (env (sa_val_reg m)) (n - sa_bit_offset m)"

lemma store_stmt_exec:
  assumes "0 < sa_bit_width m"
  shows "\<exists>v. yul_exec st (store_stmt m) = ((fst st)(''_packed'' := v), snd st)
    \<and> (\<forall>n. bit v n \<longleftrightarrow> bit (fst st ''_packed'') n \<or> member_term m (fst st) n)"
proof -
  let ?e = "if sa_bit_offset m = 0 then YAnd (YVar (sa_val_reg m)) (low_mask m)
      else YShl (sa_bit_offset m) (YAnd (YVar (sa_val_reg m)) (low_mask m))"
  have "bit (yul_eval st ?e) n \<longleftrightarrow> member_term m (fst st) n" for n
  proof (cases "sa_bit_offset m = 0")
    case True
    then show ?thesis
      unfolding if_P [OF True] yul_eval.simps bit_and_iff bit_low_mask [OF assms]
      by (auto simp: member_term_def in_range_def)
  next
    case False
    have "bit (yul_eval st ?e) n \<longleftrightarrow> sa_bit_offset m \<le> n \<and> n < 256 \<and> bit (fst st (sa_val_reg m)) (n - sa_bit_offset m)
        \<and> n - sa_bit_offset m < 256 \<and> n - sa_bit_offset m < sa_bit_width m"
      unfolding if_not_P [OF False] yul_eval.simps bit_push_bit_iff bit_and_iff bit_low_mask [OF assms] by simp
    also have "\<dots> \<longleftrightarrow> member_term m (fst st) n" by (simp add: member_term_def in_range_def) linarith
    finally show ?thesis .
  qed
  then show ?thesis
    by (intro exI [of _ "fst st ''_packed'' OR yul_eval st ?e"])
      (simp only: store_stmt_def yul_exec.simps yul_eval.simps bit_or_iff simp_thms)
qed

lemma store_stmts_run:
  assumes "\<And>m. m \<in> set ms \<Longrightarrow> 0 < sa_bit_width m \<and> sa_val_reg m \<noteq> ''_packed''"
  shows "\<exists>v. yul_run (map store_stmt ms) st = ((fst st)(''_packed'' := v), snd st)
    \<and> (\<forall>n. bit v n \<longleftrightarrow> bit (fst st ''_packed'') n \<or> (\<exists>m \<in> set ms. member_term m (fst st) n))"
  using assms
proof (induction ms arbitrary: st)
  case Nil
  show ?case by (rule exI [of _ "fst st ''_packed''"]) (simp add: yul_run_def fun_upd_triv del: fun_upd_apply)
next
  case (Cons m ms)
  obtain v where v: "yul_exec st (store_stmt m) = ((fst st)(''_packed'' := v), snd st)"
    "\<And>n. bit v n \<longleftrightarrow> bit (fst st ''_packed'') n \<or> member_term m (fst st) n"
    using store_stmt_exec Cons.prems by (metis list.set_intros(1))
  define st' where "st' = ((fst st)(''_packed'' := v), snd st)"
  have other: "member_term m' (fst st') n = member_term m' (fst st) n" if "m' \<in> set ms" for m' n
    using Cons.prems [of m'] that by (simp add: st'_def member_term_def)
  obtain w where w: "yul_run (map store_stmt ms) st' = ((fst st')(''_packed'' := w), snd st')"
    "\<And>n. bit w n \<longleftrightarrow> bit (fst st' ''_packed'') n \<or> (\<exists>m \<in> set ms. member_term m (fst st') n)"
  proof -
    have "\<exists>v. yul_run (map store_stmt ms) st' = ((fst st')(''_packed'' := v), snd st')
      \<and> (\<forall>n. bit v n \<longleftrightarrow> bit (fst st' ''_packed'') n \<or> (\<exists>m \<in> set ms. member_term m (fst st') n))"
      by (rule Cons.IH) (use Cons.prems in simp)
    then show thesis using that by blast
  qed
  have r: "yul_run (map store_stmt (m # ms)) st = yul_run (map store_stmt ms) st'"
    by (simp add: yul_run_def v(1) st'_def)
  show ?case
    unfolding r w(1)
    by (rule exI [of _ w]) (use w(2) v(2) other in \<open>auto simp: st'_def\<close>)
qed

definition field :: "w256 \<Rightarrow> slot_access \<Rightarrow> w256" where
  "field v m = take_bit (sa_bit_width m) (drop_bit (sa_bit_offset m) v)"

text \<open>After the program, the word in the slot holds every member's value in its bit range, and its own old
  bits elsewhere; no other slot changed.\<close>

definition fields_written :: "slot_access list \<Rightarrow> u64 \<Rightarrow> yul_state \<Rightarrow> yul_state \<Rightarrow> bool" where
  "fields_written ms base st st' \<longleftrightarrow>
     (\<forall>m \<in> set ms. field (snd st' (ucast base)) m = take_bit (sa_bit_width m) (fst st (sa_val_reg m)))
     \<and> (\<forall>n. (\<forall>m \<in> set ms. \<not> in_range m n) \<longrightarrow> bit (snd st' (ucast base)) n = bit (snd st (ucast base)) n)
     \<and> (\<forall>s. s \<noteq> ucast base \<longrightarrow> snd st' s = snd st s)"

definition fields_apart :: "slot_access list \<Rightarrow> bool" where
  "fields_apart ms \<longleftrightarrow> (\<forall>m \<in> set ms. 0 < sa_bit_width m \<and> sa_bit_offset m + sa_bit_width m \<le> 256)
     \<and> (\<forall>m \<in> set ms. \<forall>m' \<in> set ms. \<forall>n. in_range m n \<longrightarrow> in_range m' n \<longrightarrow> m = m')"

lemma store_run:
  assumes ms: "fields_apart (group_members acc g)" and st: "sa_is_store (hd (group_members acc g))"
    and regs: "\<And>m. m \<in> set (group_members acc g) \<Longrightarrow> sa_val_reg m \<notin> {''_existing'', ''_clear'', ''_packed''}"
  shows "fields_written (group_members acc g) (pg_base_slot g) s (yul_run (pack_prog acc g) s)"
proof -
  let ?ms = "group_members acc g" let ?b = "ucast (pg_base_slot g) :: w256"
  have pos: "0 < sa_bit_width m" if "m \<in> set ?ms" for m using ms that by (simp add: fields_apart_def)
  define old where "old = snd s ?b"
  define s1 where "s1 = yul_run [YLet ''_existing'' (YSload (pg_base_slot g)), YLet ''_clear'' (YNot (YHex (combined_mask ?ms))),
        YLet ''_packed'' (YAnd (YVar ''_existing'') (YVar ''_clear''))] s"
  have s1: "snd s1 = snd s" "fst s1 ''_packed'' = old AND NOT (le_word (combined_mask ?ms))"
    by (simp_all add: s1_def yul_run_def old_def)
  have env: "fst s1 (sa_val_reg m) = fst s (sa_val_reg m)" if "m \<in> set ?ms" for m
    using regs [OF that] by (simp add: s1_def yul_run_def)
  have start: "bit (fst s1 ''_packed'') n \<longleftrightarrow> bit old n \<and> \<not> (\<exists>m \<in> set ?ms. in_range m n)" for n
    unfolding s1(2) using bit_combined [of ?ms n] pos by (auto simp: bit_simps dest: bit_imp_le_length)
  obtain v where v: "yul_run (map store_stmt ?ms) s1 = ((fst s1)(''_packed'' := v), snd s1)"
    "\<And>n. bit v n \<longleftrightarrow> bit (fst s1 ''_packed'') n \<or> (\<exists>m \<in> set ?ms. member_term m (fst s1) n)"
    using store_stmts_run [of ?ms s1] pos regs by blast
  have "pack_prog acc g = [YLet ''_existing'' (YSload (pg_base_slot g)), YLet ''_clear'' (YNot (YHex (combined_mask ?ms))),
        YLet ''_packed'' (YAnd (YVar ''_existing'') (YVar ''_clear''))] @ map store_stmt ?ms
        @ [YSstore (pg_base_slot g) (YVar ''_packed'')]"
    using st by (simp add: pack_prog_def Let_def)
  then have "yul_run (pack_prog acc g) s = yul_run [YSstore (pg_base_slot g) (YVar ''_packed'')] (yul_run (map store_stmt ?ms) s1)"
    by (simp only: yul_run_def foldl_append s1_def)
  then have r: "snd (yul_run (pack_prog acc g) s) = (snd s)(?b := v)"
    unfolding v(1) s1(1) by (simp add: yul_run_def)
  have mt: "member_term m (fst s1) n \<longleftrightarrow> member_term m (fst s) n" if "m \<in> set ?ms" for m n
    using env [OF that] by (simp add: member_term_def)
  have fld: "field v m = take_bit (sa_bit_width m) (fst s (sa_val_reg m))" if m: "m \<in> set ?ms" for m
  proof (rule bit_eqI)
    fix i
    show "bit (field v m) i = bit (take_bit (sa_bit_width m) (fst s (sa_val_reg m))) i"
    proof (cases "i < sa_bit_width m")
      case True
      let ?n = "sa_bit_offset m + i"
      have n: "in_range m ?n" "?n < 256" using True ms m by (auto simp: in_range_def fields_apart_def)
      have uniq: "m' = m" if "m' \<in> set ?ms" "in_range m' ?n" for m' using ms m that n(1) by (auto simp: fields_apart_def)
      have "bit v ?n \<longleftrightarrow> member_term m (fst s) ?n"
      proof -
        have "(\<exists>m' \<in> set ?ms. member_term m' (fst s1) ?n) \<longleftrightarrow> member_term m (fst s1) ?n"
          using m uniq unfolding member_term_def by blast
        then show ?thesis unfolding v(2) start mt [OF m] using m n(1) by blast
      qed
      then show ?thesis using n True by (simp add: field_def bit_simps member_term_def)
    qed (simp add: field_def bit_simps)
  qed
  have rest: "bit v n = bit old n" if "\<forall>m \<in> set ?ms. \<not> in_range m n" for n
    unfolding v(2) start using that by (auto simp: member_term_def)
  show ?thesis unfolding fields_written_def r using fld rest by (auto simp: old_def)
qed

subsection \<open>Running a packed load\<close>

lemma load_stmt_exec:
  assumes "0 < sa_bit_width m"
  shows "yul_exec st (load_stmt m) = ((fst st)(sa_val_reg m := field (fst st ''_word'') m), snd st)"
proof -
  let ?e = "if sa_bit_offset m = 0 then YAnd (YVar ''_word'') (low_mask m)
      else YAnd (YShr (sa_bit_offset m) (YVar ''_word'')) (low_mask m)"
  have e: "yul_eval st ?e = drop_bit (sa_bit_offset m) (fst st ''_word'') AND yul_eval st (low_mask m)"
    by simp
  have "yul_eval st ?e = field (fst st ''_word'') m"
    unfolding e field_def
    by (rule bit_eqI) (auto simp: bit_and_iff bit_low_mask [OF assms] bit_take_bit_iff dest: bit_imp_le_length)
  then show ?thesis by (simp only: load_stmt_def yul_exec.simps)
qed

lemma load_stmts_run:
  assumes "\<And>m. m \<in> set ms \<Longrightarrow> 0 < sa_bit_width m \<and> sa_val_reg m \<noteq> ''_word''" "distinct (map sa_val_reg ms)"
  shows "snd (yul_run (map load_stmt ms) st) = snd st
    \<and> (\<forall>x. x \<notin> sa_val_reg ` set ms \<longrightarrow> fst (yul_run (map load_stmt ms) st) x = fst st x)
    \<and> (\<forall>m \<in> set ms. fst (yul_run (map load_stmt ms) st) (sa_val_reg m) = field (fst st ''_word'') m)"
  using assms
proof (induction ms arbitrary: st)
  case Nil
  then show ?case by (simp add: yul_run_def)
next
  case (Cons m ms)
  define st' where "st' = ((fst st)(sa_val_reg m := field (fst st ''_word'') m), snd st)"
  have r: "yul_run (map load_stmt (m # ms)) st = yul_run (map load_stmt ms) st'"
    using load_stmt_exec [of m st] Cons.prems(1) by (simp add: yul_run_def st'_def)
  have w: "fst st' ''_word'' = fst st ''_word''" using Cons.prems(1) [of m] by (auto simp: st'_def)
  have ih: "snd (yul_run (map load_stmt ms) st') = snd st'"
    "\<And>x. x \<notin> sa_val_reg ` set ms \<Longrightarrow> fst (yul_run (map load_stmt ms) st') x = fst st' x"
    "\<And>m. m \<in> set ms \<Longrightarrow> fst (yul_run (map load_stmt ms) st') (sa_val_reg m) = field (fst st' ''_word'') m"
    using Cons.IH [of st'] Cons.prems by auto
  have fresh: "sa_val_reg m \<notin> sa_val_reg ` set ms" using Cons.prems(2) by simp
  show ?case
    unfolding r using ih w fresh by (auto simp: st'_def)
qed

lemma load_run:
  assumes "fields_apart (group_members acc g)" "\<not> sa_is_store (hd (group_members acc g))"
    "\<And>m. m \<in> set (group_members acc g) \<Longrightarrow> sa_val_reg m \<noteq> ''_word''"
    "distinct (map sa_val_reg (group_members acc g))"
  shows "snd (yul_run (pack_prog acc g) s) = snd s"
    and "m \<in> set (group_members acc g) \<Longrightarrow>
      fst (yul_run (pack_prog acc g) s) (sa_val_reg m) = field (snd s (ucast (pg_base_slot g))) m"
proof -
  let ?ms = "group_members acc g"
  let ?s = "((fst s)(''_word'' := snd s (ucast (pg_base_slot g))), snd s)"
  have r: "yul_run (pack_prog acc g) s = yul_run (map load_stmt ?ms) ?s"
    using assms(2) by (simp add: pack_prog_def Let_def yul_run_def)
  have "\<And>m. m \<in> set ?ms \<Longrightarrow> 0 < sa_bit_width m \<and> sa_val_reg m \<noteq> ''_word''"
    using assms(1,3) by (simp add: fields_apart_def)
  note run = load_stmts_run [OF this assms(4), of ?s]
  show "snd (yul_run (pack_prog acc g) s) = snd s" unfolding r using run by simp
  show "m \<in> set ?ms \<Longrightarrow> fst (yul_run (pack_prog acc g) s) (sa_val_reg m) = field (snd s (ucast (pg_base_slot g))) m"
    unfolding r using run by simp
qed

subsection \<open>Groups that the scan and the grouping make\<close>

lemma ty_bits_pos: "0 < ty_bits t" by (cases t) simp_all

lemma new_access_width [simp]: "sa_bit_width (new_access slot st wd v a i) = wd"
  by (simp add: new_access_def)

lemma scan_node_widths:
  "list_all (\<lambda>a. 0 < sa_bit_width a) (scan_store fn i)" "list_all (\<lambda>a. 0 < sa_bit_width a) (scan_load fn i)"
  "list_all (\<lambda>a. 0 < sa_bit_width a) (scan_call fn i)"
proof -
  show "list_all (\<lambda>a. 0 < sa_bit_width a) (scan_store fn i)"
    by (cases "find_const_def fn i (nd_dst (fn_nodes fn ! i))") (simp_all add: scan_store_def Let_def ty_bits_pos)
  show "list_all (\<lambda>a. 0 < sa_bit_width a) (scan_load fn i)"
    by (cases "find_const_def fn i (nd_src1 (fn_nodes fn ! i))") (simp_all add: scan_load_def Let_def ty_bits_pos)
  show "list_all (\<lambda>a. 0 < sa_bit_width a) (scan_call fn i)"
    by (cases "find_const_def fn i (nd_src1 (fn_nodes fn ! Suc i))") (simp_all add: scan_call_def Let_def)
qed

lemma scan_widths: "a \<in> set (scan_accesses fn) \<Longrightarrow> 0 < sa_bit_width a"
proof -
  have "list_all (\<lambda>a. 0 < sa_bit_width a) (foldl (scan_step fn) acc is)"
    if "list_all (\<lambda>a. 0 < sa_bit_width a) acc" for acc "is"
    using that by (induction "is" arbitrary: acc) (simp_all add: scan_step_def scan_node_widths)
  from this [of "[]"] show "a \<in> set (scan_accesses fn) \<Longrightarrow> 0 < sa_bit_width a"
    by (simp add: scan_accesses_def list_all_iff)
qed

lemma made_group:
  assumes f: "form_groups (scan_accesses fn) = (acc, grps)" and g: "g \<in> set grps"
  shows "group_ok acc g" "fields_apart (group_members acc g)" "hd (group_members acc g) = acc ! hd (pg_members g)"
proof -
  have all: "groups_ok (scan_accesses fn) (acc, grps)" using form_groups_ok [of "scan_accesses fn"] f by simp
  then show ok: "group_ok acc g" using g by (simp add: groups_ok_def)
  have ne: "pg_members g \<noteq> []" using ok by (simp add: group_ok_def)
  then show "hd (group_members acc g) = acc ! hd (pg_members g)" by (simp add: group_members_def hd_map)
  have pos: "0 < sa_bit_width (acc ! k)" if "k \<in> set (pg_members g)" for k
  proof -
    have k: "k < length (scan_accesses fn)" using that ok all by (simp add: group_ok_def groups_ok_def)
    then have "sa_bit_width (acc ! k) = sa_bit_width (scan_accesses fn ! k)" using all by (simp add: groups_ok_def)
    then show ?thesis using scan_widths [OF nth_mem [OF k]] by simp
  qed
  have ap: "ranges_apart acc (pg_members g)" by (rule group_ranges_apart [OF ok])
  have uniq: "j = k" if "j < length (pg_members g)" "k < length (pg_members g)"
    "in_range (acc ! (pg_members g ! j)) n" "in_range (acc ! (pg_members g ! k)) n" for j k n
    by (rule linorder_cases [of j k]) (use ap that in \<open>force simp: ranges_apart_def in_range_def\<close>)+
  show "fields_apart (group_members acc g)"
    unfolding fields_apart_def group_members_def
  proof (intro conjI ballI allI impI)
    fix m m' n assume "m \<in> set (map ((!) acc) (pg_members g))" "m' \<in> set (map ((!) acc) (pg_members g))"
      "in_range m n" "in_range m' n"
    then obtain j k where "j < length (pg_members g)" "k < length (pg_members g)"
      "m = acc ! (pg_members g ! j)" "m' = acc ! (pg_members g ! k)"
      "in_range (acc ! (pg_members g ! j)) n" "in_range (acc ! (pg_members g ! k)) n"
      by (auto simp: in_set_conv_nth)
    then show "m = m'" using uniq [of j k n] by simp
  next
    fix m assume "m \<in> set (map ((!) acc) (pg_members g))"
    then obtain k where k: "k < length (pg_members g)" "m = acc ! (pg_members g ! k)" by (auto simp: in_set_conv_nth)
    then show "0 < sa_bit_width m" "sa_bit_offset m + sa_bit_width m \<le> 256"
      using pos ap by (auto simp: ranges_apart_def)
  qed
qed

subsection \<open>An example\<close>

text \<open>Two 64-bit stores, to slots 5 and 6.\<close>

definition two_stores :: ir_func where
  "two_stores = (ir_empty_func 0)\<lparr> fn_nodes := [
     ir_node_alloc\<lparr> nd_op := IR_CONST, nd_dst := ''t0'', nd_imm := 5 \<rparr>,
     ir_node_alloc\<lparr> nd_op := IR_STORE, nd_type := IR_TY_I64, nd_dst := ''t0'', nd_src1 := ''t1'', nd_tag := tag_code IR_TAG_SSTORE \<rparr>,
     ir_node_alloc\<lparr> nd_op := IR_CONST, nd_dst := ''t2'', nd_imm := 6 \<rparr>,
     ir_node_alloc\<lparr> nd_op := IR_STORE, nd_type := IR_TY_I64, nd_dst := ''t2'', nd_src1 := ''t3'', nd_tag := tag_code IR_TAG_SSTORE \<rparr>] \<rparr>"

definition two_accesses :: "slot_access list" where
  "two_accesses = [
     \<lparr> sa_slot = 5, sa_is_store = True, sa_bit_width = 64, sa_bit_offset = 0, sa_val_reg = ''t1'', sa_addr_reg = ''t0'',
       sa_origin = 1, sa_consumed = True \<rparr>,
     \<lparr> sa_slot = 6, sa_is_store = True, sa_bit_width = 64, sa_bit_offset = 64, sa_val_reg = ''t3'', sa_addr_reg = ''t2'',
       sa_origin = 3, sa_consumed = True \<rparr>]"

definition two_group :: pack_group where
  "two_group = \<lparr> pg_members = [0, 1], pg_base_slot = 5, pg_total_bits = 128, pg_gas_before = 5800, pg_gas_after = 3027 \<rparr>"

lemma two_stores_groups: "form_groups (scan_accesses two_stores) = (two_accesses, [two_group])"
  by code_simp

subsection \<open>Properties\<close>

text \<open>C29: If the buffer is long enough, the text of a group of stores is a Yul block, and running it writes
  the low bits of every value into its own bit range of the group's slot, keeps the other bits of that
  slot, and touches no other slot.\<close>

theorem packed_store_writes_fields:
  assumes "form_groups (scan_accesses fn) = (acc, grps)" "g \<in> set grps" "sa_is_store (acc ! hd (pg_members g))"
    and "0 \<le> sint (pg_base_slot g)"
    and "\<forall>m \<in> set (group_members acc g). sa_val_reg m \<notin> {''_existing'', ''_clear'', ''_packed''}"
    and "length (yul_header acc g @ yul_block (pack_prog acc g)) < cap - 1"
  shows "emit_yul_group acc g cap = yul_header acc g @ yul_block (pack_prog acc g)
    \<and> fields_written (group_members acc g) (pg_base_slot g) st (yul_run (pack_prog acc g) st)"
proof -
  note m = made_group [OF assms(1,2)]
  show ?thesis
    using emit_fits [OF assms(6)] store_run [of acc g st] m(2,3) assms(3,5) by simp
qed


text \<open>C31: Packing is not sound for stores to neighbouring slots. For a function that stores to slots 5 and 6
  one group is made, its code fits, and running it leaves slot 6 as it was, whatever the value stored.\<close>

theorem packing_loses_adjacent_store:
  "evm_peephole_optimize (Some two_stores) True 4096
     = (2773, Some (yul_header two_accesses two_group @ yul_block (pack_prog two_accesses two_group), 66540))
   \<and> snd (yul_run (pack_prog two_accesses two_group) st) 6 = snd st 6"
proof -
  have fits: "length (yul_header two_accesses two_group @ yul_block (pack_prog two_accesses two_group)) < 4094"
    by code_simp
  then have e: "emit_yul_group two_accesses two_group 4095
    = yul_header two_accesses two_group @ yul_block (pack_prog two_accesses two_group)"
    by (intro emit_fits) simp
  have g: "total_gas_saved [two_group] = 2773" by (simp add: total_gas_saved_def two_group_def)
  have regs: "list_all (\<lambda>m. sa_val_reg m \<noteq> ''_existing'' \<and> sa_val_reg m \<noteq> ''_clear'' \<and> sa_val_reg m \<noteq> ''_packed'')
      (group_members two_accesses two_group)" "sa_is_store (hd (group_members two_accesses two_group))"
    by code_simp+
  have base: "pg_base_slot two_group = 5" by (simp add: two_group_def)
  have "fields_written (group_members two_accesses two_group) (pg_base_slot two_group) st
      (yul_run (pack_prog two_accesses two_group) st)"
    by (rule store_run [OF made_group(2) [OF two_stores_groups] regs(2)]) (use regs(1) in \<open>auto simp: list_all_iff\<close>)
  then have "snd (yul_run (pack_prog two_accesses two_group) st) 6 = snd st 6"
    unfolding base fields_written_def by simp
  then show ?thesis
    by (simp add: evm_peephole_optimize_def two_stores_groups emit_groups_def e g bribe_gwei_def)
qed

text \<open>The program without the statement of the second member.\<close>

definition short_prog :: "yul_stmt list" where
  "short_prog = (let ms = group_members two_accesses two_group in
     [YLet ''_existing'' (YSload 5), YLet ''_clear'' (YNot (YHex (combined_mask ms))),
      YLet ''_packed'' (YAnd (YVar ''_existing'') (YVar ''_clear'')), store_stmt (hd ms), YSstore 5 (YVar ''_packed'')])"

text \<open>A line that does not fit the buffer is left out silently. With 400 bytes the second value's line
  is missing, the text is still a well-formed block, the full saving is reported, and running it clears
  the second value's bits in the slot.\<close>

lemma short_buffer_clears_value:
  "evm_peephole_optimize (Some two_stores) True 400
     = (2773, Some (yul_header two_accesses two_group @ yul_block short_prog, 66540))
   \<and> field (snd (yul_run short_prog st) 5) (two_accesses ! 1) = 0"
proof -
  have e: "emit_yul_group two_accesses two_group 399 = yul_header two_accesses two_group @ yul_block short_prog"
    by code_simp
  have g: "total_gas_saved [two_group] = 2773" by (simp add: total_gas_saved_def two_group_def)
  let ?m0 = "two_accesses ! 0" and ?m1 = "two_accesses ! Suc 0"
  let ?ms = "group_members two_accesses two_group"
  have ms: "?ms = [?m0, ?m1]" by (simp add: group_members_def two_group_def)
  have w: "sa_bit_width ?m0 = 64" "sa_bit_offset ?m0 = 0" "sa_bit_width ?m1 = 64" "sa_bit_offset ?m1 = 64"
    "sa_val_reg ?m0 = ''t1''"
    by (simp_all add: two_accesses_def)
  have r: "snd (yul_run short_prog st) 5
    = (snd st 5 AND NOT (le_word (combined_mask ?ms))) OR (fst st ''t1'' AND yul_eval st (low_mask ?m0))"
    by (simp add: short_prog_def yul_run_def Let_def ms store_stmt_def low_mask_def w)
  have pos: "0 < sa_bit_width m" if "m \<in> set ?ms" for m using that w by (auto simp: ms)
  have "\<not> bit (snd (yul_run short_prog st) 5) (64 + i)" if "i < 64" for i
    unfolding r using bit_combined [OF pos, of ?ms "64 + i"] bit_low_mask [of ?m0 st "64 + i"] that
    by (simp add: ms w in_range_def bit_or_iff bit_and_iff bit_not_iff)
  then have "field (snd (yul_run short_prog st) 5) ?m1 = 0"
    unfolding field_def w by (intro bit_eqI) (simp add: bit_take_bit_iff bit_drop_bit_eq)
  then show ?thesis
    by (simp add: evm_peephole_optimize_def two_stores_groups emit_groups_def e g bribe_gwei_def)
qed

subsection \<open>Witnesses\<close>

theorem packed_store_writes_fields_witness:
  "emit_yul_group two_accesses two_group 4096 = yul_header two_accesses two_group @ yul_block (pack_prog two_accesses two_group)
    \<and> fields_written (group_members two_accesses two_group) 5 (\<lambda>_. 7, \<lambda>_. 0)
        (yul_run (pack_prog two_accesses two_group) (\<lambda>_. 7, \<lambda>_. 0))"
proof -
  have a: "length (yul_header two_accesses two_group @ yul_block (pack_prog two_accesses two_group)) < 4096 - 1"
    "sa_is_store (two_accesses ! hd (pg_members two_group))"
    "list_all (\<lambda>m. sa_val_reg m \<noteq> ''_existing'' \<and> sa_val_reg m \<noteq> ''_clear'' \<and> sa_val_reg m \<noteq> ''_packed'')
      (group_members two_accesses two_group)"
    by code_simp+
  have b: "pg_base_slot two_group = 5" by (simp add: two_group_def)
  show ?thesis
    using packed_store_writes_fields [OF two_stores_groups _ a(2) _ _ a(1), of "(\<lambda>_. 7, \<lambda>_. 0)"] a(3)
    unfolding b by (simp add: list_all_iff)
qed

text \<open>Two loads of the same widths from slot 5.\<close>

definition two_loads :: ir_func where
  "two_loads = (ir_empty_func 0)\<lparr> fn_nodes := [
     ir_node_alloc\<lparr> nd_op := IR_CONST, nd_dst := ''t0'', nd_imm := 5 \<rparr>,
     ir_node_alloc\<lparr> nd_op := IR_LOAD, nd_type := IR_TY_I64, nd_dst := ''t4'', nd_src1 := ''t0'' \<rparr>,
     ir_node_alloc\<lparr> nd_op := IR_LOAD, nd_type := IR_TY_I64, nd_dst := ''t5'', nd_src1 := ''t0'' \<rparr>] \<rparr>"

definition load_accesses :: "slot_access list" where
  "load_accesses = [
     \<lparr> sa_slot = 5, sa_is_store = False, sa_bit_width = 64, sa_bit_offset = 0, sa_val_reg = ''t4'', sa_addr_reg = ''t0'',
       sa_origin = 1, sa_consumed = True \<rparr>,
     \<lparr> sa_slot = 5, sa_is_store = False, sa_bit_width = 64, sa_bit_offset = 64, sa_val_reg = ''t5'', sa_addr_reg = ''t0'',
       sa_origin = 2, sa_consumed = True \<rparr>]"

definition load_group :: pack_group where
  "load_group = \<lparr> pg_members = [0, 1], pg_base_slot = 5, pg_total_bits = 128, pg_gas_before = 200, pg_gas_after = 112 \<rparr>"

lemma two_loads_groups: "form_groups (scan_accesses two_loads) = (load_accesses, [load_group])"
  by code_simp


end
