(* ===== verification/Lexer.thy ===== *)
theory Lexer
  imports Prelude "HOL-Library.Char_ord"
begin

text \<open>
  The lexer of the C front end (\<^verbatim>\<open>part2.c\<close>). The source from the current position on is a list of characters;
  \<^verbatim>\<open>peek_char\<close> looks at its head and \<^verbatim>\<open>read_char\<close> removes it, counting lines and columns. The buffers
  \<^verbatim>\<open>tk_text\<close> and \<^verbatim>\<open>tk_str\<close> are arrays (functions from positions), so what stays behind in them and what is
  written past their end is visible. A loop that reads while a condition holds is \<open>read_while\<close>. Every
  \<^verbatim>\<open>goto again\<close> is a recursive call. The value of a floating-point literal is a parameter applied to its text.
\<close>

subsection \<open>Tokens\<close>

text \<open>The enumeration numbers the tokens from 0.\<close>

type_synonym tk = int

abbreviation TK_EOF :: tk where "TK_EOF \<equiv> 0"
abbreviation TK_NUM :: tk where "TK_NUM \<equiv> 1"
abbreviation TK_STR :: tk where "TK_STR \<equiv> 2"
abbreviation TK_CHAR_LIT :: tk where "TK_CHAR_LIT \<equiv> 3"
abbreviation TK_IDENT :: tk where "TK_IDENT \<equiv> 4"
abbreviation TK_FLIT :: tk where "TK_FLIT \<equiv> 5"
abbreviation TK_INT :: tk where "TK_INT \<equiv> 6"
abbreviation TK_CHAR :: tk where "TK_CHAR \<equiv> 7"
abbreviation TK_VOID :: tk where "TK_VOID \<equiv> 8"
abbreviation TK_LONG :: tk where "TK_LONG \<equiv> 9"
abbreviation TK_SHORT :: tk where "TK_SHORT \<equiv> 10"
abbreviation TK_UNSIGNED :: tk where "TK_UNSIGNED \<equiv> 11"
abbreviation TK_SIGNED :: tk where "TK_SIGNED \<equiv> 12"
abbreviation TK_FLOAT :: tk where "TK_FLOAT \<equiv> 13"
abbreviation TK_DOUBLE :: tk where "TK_DOUBLE \<equiv> 14"
abbreviation TK_IF :: tk where "TK_IF \<equiv> 15"
abbreviation TK_ELSE :: tk where "TK_ELSE \<equiv> 16"
abbreviation TK_WHILE :: tk where "TK_WHILE \<equiv> 17"
abbreviation TK_FOR :: tk where "TK_FOR \<equiv> 18"
abbreviation TK_DO :: tk where "TK_DO \<equiv> 19"
abbreviation TK_RETURN :: tk where "TK_RETURN \<equiv> 20"
abbreviation TK_BREAK :: tk where "TK_BREAK \<equiv> 21"
abbreviation TK_CONTINUE :: tk where "TK_CONTINUE \<equiv> 22"
abbreviation TK_GOTO :: tk where "TK_GOTO \<equiv> 23"
abbreviation TK_SWITCH :: tk where "TK_SWITCH \<equiv> 24"
abbreviation TK_CASE :: tk where "TK_CASE \<equiv> 25"
abbreviation TK_DEFAULT :: tk where "TK_DEFAULT \<equiv> 26"
abbreviation TK_STRUCT :: tk where "TK_STRUCT \<equiv> 27"
abbreviation TK_UNION :: tk where "TK_UNION \<equiv> 28"
abbreviation TK_ENUM :: tk where "TK_ENUM \<equiv> 29"
abbreviation TK_TYPEDEF :: tk where "TK_TYPEDEF \<equiv> 30"
abbreviation TK_SIZEOF :: tk where "TK_SIZEOF \<equiv> 31"
abbreviation TK_STATIC :: tk where "TK_STATIC \<equiv> 32"
abbreviation TK_EXTERN :: tk where "TK_EXTERN \<equiv> 33"
abbreviation TK_CONST :: tk where "TK_CONST \<equiv> 34"
abbreviation TK_VOLATILE :: tk where "TK_VOLATILE \<equiv> 35"
abbreviation TK_AUTO :: tk where "TK_AUTO \<equiv> 36"
abbreviation TK_REGISTER :: tk where "TK_REGISTER \<equiv> 37"
abbreviation TK_INLINE :: tk where "TK_INLINE \<equiv> 38"
abbreviation TK_ASM :: tk where "TK_ASM \<equiv> 39"
abbreviation TK_BUILTIN_VA_ARG :: tk where "TK_BUILTIN_VA_ARG \<equiv> 40"
abbreviation TK_TYPEOF :: tk where "TK_TYPEOF \<equiv> 41"
abbreviation TK_AUTO_TYPE :: tk where "TK_AUTO_TYPE \<equiv> 42"
abbreviation TK_PLUS :: tk where "TK_PLUS \<equiv> 43"
abbreviation TK_MINUS :: tk where "TK_MINUS \<equiv> 44"
abbreviation TK_STAR :: tk where "TK_STAR \<equiv> 45"
abbreviation TK_SLASH :: tk where "TK_SLASH \<equiv> 46"
abbreviation TK_PERCENT :: tk where "TK_PERCENT \<equiv> 47"
abbreviation TK_AMP :: tk where "TK_AMP \<equiv> 48"
abbreviation TK_PIPE :: tk where "TK_PIPE \<equiv> 49"
abbreviation TK_CARET :: tk where "TK_CARET \<equiv> 50"
abbreviation TK_TILDE :: tk where "TK_TILDE \<equiv> 51"
abbreviation TK_BANG :: tk where "TK_BANG \<equiv> 52"
abbreviation TK_ASSIGN :: tk where "TK_ASSIGN \<equiv> 53"
abbreviation TK_EQ :: tk where "TK_EQ \<equiv> 54"
abbreviation TK_NE :: tk where "TK_NE \<equiv> 55"
abbreviation TK_LT :: tk where "TK_LT \<equiv> 56"
abbreviation TK_GT :: tk where "TK_GT \<equiv> 57"
abbreviation TK_LE :: tk where "TK_LE \<equiv> 58"
abbreviation TK_GE :: tk where "TK_GE \<equiv> 59"
abbreviation TK_LAND :: tk where "TK_LAND \<equiv> 60"
abbreviation TK_LOR :: tk where "TK_LOR \<equiv> 61"
abbreviation TK_SHL :: tk where "TK_SHL \<equiv> 62"
abbreviation TK_SHR :: tk where "TK_SHR \<equiv> 63"
abbreviation TK_INC :: tk where "TK_INC \<equiv> 64"
abbreviation TK_DEC :: tk where "TK_DEC \<equiv> 65"
abbreviation TK_ARROW :: tk where "TK_ARROW \<equiv> 66"
abbreviation TK_DOT :: tk where "TK_DOT \<equiv> 67"
abbreviation TK_QUESTION :: tk where "TK_QUESTION \<equiv> 68"
abbreviation TK_COLON :: tk where "TK_COLON \<equiv> 69"
abbreviation TK_PLUS_ASSIGN :: tk where "TK_PLUS_ASSIGN \<equiv> 70"
abbreviation TK_MINUS_ASSIGN :: tk where "TK_MINUS_ASSIGN \<equiv> 71"
abbreviation TK_STAR_ASSIGN :: tk where "TK_STAR_ASSIGN \<equiv> 72"
abbreviation TK_SLASH_ASSIGN :: tk where "TK_SLASH_ASSIGN \<equiv> 73"
abbreviation TK_PERCENT_ASSIGN :: tk where "TK_PERCENT_ASSIGN \<equiv> 74"
abbreviation TK_AMP_ASSIGN :: tk where "TK_AMP_ASSIGN \<equiv> 75"
abbreviation TK_PIPE_ASSIGN :: tk where "TK_PIPE_ASSIGN \<equiv> 76"
abbreviation TK_CARET_ASSIGN :: tk where "TK_CARET_ASSIGN \<equiv> 77"
abbreviation TK_SHL_ASSIGN :: tk where "TK_SHL_ASSIGN \<equiv> 78"
abbreviation TK_SHR_ASSIGN :: tk where "TK_SHR_ASSIGN \<equiv> 79"
abbreviation TK_LPAREN :: tk where "TK_LPAREN \<equiv> 80"
abbreviation TK_RPAREN :: tk where "TK_RPAREN \<equiv> 81"
abbreviation TK_LBRACE :: tk where "TK_LBRACE \<equiv> 82"
abbreviation TK_RBRACE :: tk where "TK_RBRACE \<equiv> 83"
abbreviation TK_LBRACKET :: tk where "TK_LBRACKET \<equiv> 84"
abbreviation TK_RBRACKET :: tk where "TK_RBRACKET \<equiv> 85"
abbreviation TK_SEMI :: tk where "TK_SEMI \<equiv> 86"
abbreviation TK_COMMA :: tk where "TK_COMMA \<equiv> 87"
abbreviation TK_ELLIPSIS :: tk where "TK_ELLIPSIS \<equiv> 88"
abbreviation TK_HASH :: tk where "TK_HASH \<equiv> 89"

definition token_names :: "cstr list" where
  "token_names = [
     ''EOF'', ''NUM'', ''STR'', ''CHAR_LIT'', ''IDENT'', ''FLIT'', ''INT'', ''CHAR'', ''VOID'', ''LONG'',
     ''SHORT'', ''UNSIGNED'', ''SIGNED'', ''FLOAT'', ''DOUBLE'', ''IF'', ''ELSE'', ''WHILE'', ''FOR'',
     ''DO'', ''RETURN'', ''BREAK'', ''CONTINUE'', ''GOTO'', ''SWITCH'', ''CASE'', ''DEFAULT'', ''STRUCT'',
     ''UNION'', ''ENUM'', ''TYPEDEF'', ''SIZEOF'', ''STATIC'', ''EXTERN'', ''CONST'', ''VOLATILE'', ''AUTO'',
     ''REGISTER'', ''INLINE'', ''ASM'', ''BUILTIN_VA_ARG'', ''TYPEOF'', ''AUTO_TYPE'', ''PLUS'', ''MINUS'',
     ''STAR'', ''SLASH'', ''PERCENT'', ''AMP'', ''PIPE'', ''CARET'', ''TILDE'', ''BANG'', ''ASSIGN'', ''EQ'',
     ''NE'', ''LT'', ''GT'', ''LE'', ''GE'', ''LAND'', ''LOR'', ''SHL'', ''SHR'', ''INC'', ''DEC'',
     ''ARROW'', ''DOT'', ''QUESTION'', ''COLON'', ''PLUS_ASSIGN'', ''MINUS_ASSIGN'', ''STAR_ASSIGN'',
     ''SLASH_ASSIGN'', ''PERCENT_ASSIGN'', ''AMP_ASSIGN'', ''PIPE_ASSIGN'', ''CARET_ASSIGN'', ''SHL_ASSIGN'',
     ''SHR_ASSIGN'', ''LPAREN'', ''RPAREN'', ''LBRACE'', ''RBRACE'', ''LBRACKET'', ''RBRACKET'', ''SEMI'',
     ''COMMA'', ''ELLIPSIS'', ''HASH'']"

definition token_name :: "tk \<Rightarrow> cstr" where
  "token_name t = (if t \<ge> 0 \<and> t < 88 then token_names ! nat t else ''?'')"

subsection \<open>Keywords\<close>

definition keyword_table :: "(cstr \<times> tk) list" where
  "keyword_table = [
     (''int'', TK_INT), (''char'', TK_CHAR), (''void'', TK_VOID), (''long'', TK_LONG), (''short'', TK_SHORT),
     (''unsigned'', TK_UNSIGNED), (''signed'', TK_SIGNED), (''float'', TK_FLOAT), (''double'', TK_DOUBLE),
     (''if'', TK_IF), (''else'', TK_ELSE), (''while'', TK_WHILE), (''for'', TK_FOR), (''do'', TK_DO),
     (''return'', TK_RETURN), (''break'', TK_BREAK), (''continue'', TK_CONTINUE), (''goto'', TK_GOTO),
     (''switch'', TK_SWITCH), (''case'', TK_CASE), (''default'', TK_DEFAULT), (''struct'', TK_STRUCT),
     (''union'', TK_UNION), (''enum'', TK_ENUM), (''typedef'', TK_TYPEDEF), (''typeof'', TK_TYPEOF),
     (''__typeof__'', TK_TYPEOF), (''__typeof'', TK_TYPEOF), (''__auto_type'', TK_AUTO_TYPE),
     (''sizeof'', TK_SIZEOF), (''__builtin_va_arg'', TK_BUILTIN_VA_ARG), (''static'', TK_STATIC),
     (''extern'', TK_EXTERN), (''const'', TK_CONST), (''volatile'', TK_VOLATILE), (''auto'', TK_AUTO),
     (''register'', TK_REGISTER), (''inline'', TK_INLINE), (''asm'', TK_ASM), (''__asm__'', TK_ASM),
     (''__signed__'', TK_SIGNED), (''__signed'', TK_SIGNED), (''__const__'', TK_CONST),
     (''__const'', TK_CONST), (''__inline__'', TK_INLINE), (''__inline'', TK_INLINE),
     (''__volatile__'', TK_VOLATILE), (''__volatile'', TK_VOLATILE), (''__restrict__'', TK_VOLATILE),
     (''__restrict'', TK_VOLATILE), (''restrict'', TK_VOLATILE), (''__int128'', TK_LONG),
     (''__int128_t'', TK_LONG), (''_Bool'', TK_INT), (''_Atomic'', TK_VOLATILE), (''_Noreturn'', TK_INLINE),
     (''_Thread_local'', TK_STATIC), (''_Alignof'', TK_SIZEOF), (''__alignof__'', TK_SIZEOF),
     (''__alignof'', TK_SIZEOF)]"

definition lookup_keyword :: "cstr \<Rightarrow> tk option" where
  "lookup_keyword name = map_of keyword_table name"

text \<open>The conditions of the second table: a length, and the characters that are compared.\<close>

definition fallback_table :: "(nat \<times> cstr \<times> tk) list" where
  "fallback_table = [
     (3, ''int'', TK_INT), (4, ''char'', TK_CHAR), (4, ''void'', TK_VOID), (4, ''long'', TK_LONG),
     (5, ''short'', TK_SHORT), (6, ''signed'', TK_SIGNED), (5, ''float'', TK_FLOAT),
     (6, ''double'', TK_DOUBLE), (2, ''if'', TK_IF), (3, ''asm'', TK_ASM), (7, ''__asm__'', TK_ASM),
     (4, ''else'', TK_ELSE), (5, ''while'', TK_WHILE), (3, ''for'', TK_FOR), (2, ''do'', TK_DO),
     (6, ''return'', TK_RETURN), (5, ''break'', TK_BREAK), (4, ''goto'', TK_GOTO),
     (6, ''switch'', TK_SWITCH), (4, ''case'', TK_CASE), (6, ''struct'', TK_STRUCT),
     (5, ''union'', TK_UNION), (4, ''enum'', TK_ENUM), (6, ''sizeof'', TK_SIZEOF),
     (6, ''static'', TK_STATIC), (6, ''extern'', TK_EXTERN), (5, ''const'', TK_CONST),
     (4, ''auto'', TK_AUTO), (6, ''inline'', TK_INLINE), (6, ''typeof'', TK_TYPEOF),
     (8, ''__typeof'', TK_TYPEOF), (10, ''__typeof__'', TK_TYPEOF), (7, ''typedef'', TK_TYPEDEF),
     (7, ''default'', TK_DEFAULT), (8, ''unsigned'', TK_UNSIGNED), (8, ''volatile'', TK_VOLATILE),
     (8, ''continue'', TK_CONTINUE), (8, ''register'', TK_REGISTER), (8, ''restrict'', TK_VOLATILE),
     (8, ''__const'', TK_CONST), (8, ''__signed'', TK_SIGNED), (8, ''__inline'', TK_INLINE),
     (9, ''__const__'', TK_CONST), (10, ''__signed__'', TK_SIGNED), (10, ''__inline__'', TK_INLINE),
     (10, ''__restrict'', TK_VOLATILE), (12, ''__restrict__'', TK_VOLATILE),
     (10, ''__volatile'', TK_VOLATILE), (12, ''__volatile__'', TK_VOLATILE), (8, ''__int128'', TK_LONG),
     (10, ''__int128_t'', TK_LONG)]"

definition lookup_keyword_fallback :: "cstr \<Rightarrow> tk option" where
  "lookup_keyword_fallback buf =
     (if buf = [] \<or> length buf > 16 then None
      else map_option (\<lambda>(_, _, t). t)
        (find (\<lambda>(len, cs, _). length buf = len \<and> take (length cs) buf = cs) fallback_table))"

subsection \<open>State\<close>

definition MAX_IDENT :: nat where "MAX_IDENT = 128"
definition MAX_STR :: nat where "MAX_STR = 16384"

type_synonym carray = "nat \<Rightarrow> char"

record lexer =
  lx_in :: "char list"
  lx_line :: nat
  lx_col :: nat
  lx_tk :: tk
  lx_val :: u64
  lx_fval :: u64
  lx_text :: carray
  lx_str :: carray
  lx_str_len :: nat
  lx_tk_line :: nat
  lx_tk_col :: nat
  lx_has_peek :: bool
  pk_tk :: tk
  pk_val :: u64
  pk_text :: carray
  pk_str :: carray
  pk_str_len :: nat
  pk_line :: nat
  pk_col :: nat
  lx_packed :: bool
  lx_aligned :: nat
  lx_errors :: nat

abbreviation NUL :: char where "NUL \<equiv> CHR 0x00"
abbreviation newline :: char where "newline \<equiv> CHR 0x0A"
abbreviation quote :: char where "quote \<equiv> CHR 0x22"
abbreviation apostrophe :: char where "apostrophe \<equiv> CHR 0x27"
abbreviation backslash :: char where "backslash \<equiv> CHR 0x5C"

text \<open>\<^verbatim>\<open>strncpy\<close> stops at the first NUL of the source and fills up with NULs.\<close>

definition strncpy :: "nat \<Rightarrow> carray \<Rightarrow> carray \<Rightarrow> carray" where
  "strncpy n src dst = (\<lambda>i. if i < n then (if list_ex (\<lambda>j. src j = NUL) [0..<Suc i] then NUL else src i) else dst i)"

definition text_of :: "cstr \<Rightarrow> carray" where
  "text_of s = (\<lambda>i. if i < length s then s ! i else NUL)"

subsection \<open>Characters\<close>

abbreviation code :: "char \<Rightarrow> nat" where "code c \<equiv> of_char c"

definition is_alpha :: "char \<Rightarrow> bool" where
  "is_alpha c \<longleftrightarrow> (code c \<ge> 97 \<and> code c \<le> 122) \<or> (code c \<ge> 65 \<and> code c \<le> 90) \<or> c = CHR ''_''"

definition is_digit :: "char \<Rightarrow> bool" where
  "is_digit c \<longleftrightarrow> code c \<ge> 48 \<and> code c \<le> 57"

definition is_alnum :: "char \<Rightarrow> bool" where
  "is_alnum c \<longleftrightarrow> is_alpha c \<or> is_digit c"

definition is_octal :: "char \<Rightarrow> bool" where
  "is_octal c \<longleftrightarrow> code c \<ge> 48 \<and> code c \<le> 55"

definition is_space :: "char \<Rightarrow> bool" where
  "is_space c \<longleftrightarrow> c = CHR '' '' \<or> c = CHR 0x09 \<or> c = CHR 0x0D \<or> c = CHR 0x0C \<or> c = CHR 0x0B"

definition hex_val :: "char \<Rightarrow> nat option" where
  "hex_val c =
     (if code c \<ge> 48 \<and> code c \<le> 57 then Some (code c - 48)
      else if code c \<ge> 97 \<and> code c \<le> 102 then Some (code c - 97 + 10)
      else if code c \<ge> 65 \<and> code c \<le> 70 then Some (code c - 65 + 10)
      else None)"

definition is_hex :: "char \<Rightarrow> bool" where "is_hex c \<longleftrightarrow> hex_val c \<noteq> None"

definition peek_is :: "(char \<Rightarrow> bool) \<Rightarrow> lexer \<Rightarrow> bool" where
  "peek_is P lx = (case lx_in lx of [] \<Rightarrow> False | c # _ \<Rightarrow> P c)"

definition bump :: "char \<Rightarrow> lexer \<Rightarrow> lexer" where
  "bump c lx = (if c = newline then lx\<lparr> lx_line := lx_line lx + 1, lx_col := 1 \<rparr> else lx\<lparr> lx_col := lx_col lx + 1 \<rparr>)"

text \<open>The result is the C int, -1 at the end.\<close>

definition read_char :: "lexer \<Rightarrow> u32 \<times> lexer" where
  "read_char lx = (case lx_in lx of [] \<Rightarrow> (- 1, lx) | c # cs \<Rightarrow> (of_nat (code c), bump c (lx\<lparr> lx_in := cs \<rparr>)))"

definition skip_char :: "lexer \<Rightarrow> lexer" where "skip_char lx = snd (read_char lx)"

definition read_upto :: "nat \<Rightarrow> (char \<Rightarrow> bool) \<Rightarrow> lexer \<Rightarrow> char list \<times> lexer" where
  "read_upto n P lx =
     (let ds = take n (takeWhile P (lx_in lx))
      in (ds, foldl (\<lambda>lx c. bump c lx) (lx\<lparr> lx_in := drop (length ds) (lx_in lx) \<rparr>) ds))"

definition read_while :: "(char \<Rightarrow> bool) \<Rightarrow> lexer \<Rightarrow> char list \<times> lexer" where
  "read_while P lx = read_upto (length (lx_in lx)) P lx"

definition digits_val :: "nat \<Rightarrow> char list \<Rightarrow> 'a::len word" where
  "digits_val base ds =
     foldl (\<lambda>v d. v * of_nat base + of_nat (case hex_val d of Some h \<Rightarrow> h | None \<Rightarrow> 0)) 0 ds"

subsection \<open>Escapes and literals\<close>

definition simple_escapes :: "(char \<times> u32) list" where
  "simple_escapes = [(CHR ''n'', 10), (CHR ''t'', 9), (CHR ''r'', 13), (backslash, 92), (apostrophe, 39), (quote, 34),
     (CHR ''a'', 7), (CHR ''b'', 8), (CHR ''f'', 12), (CHR ''v'', 11)]"

definition read_escape :: "lexer \<Rightarrow> u32 \<times> lexer" where
  "read_escape lx =
     (case lx_in lx of [] \<Rightarrow> (- 1, lx)
      | c # _ \<Rightarrow>
          (let lx1 = skip_char lx in
           if is_octal c then
             (let (ds, lx2) = read_upto 2 is_octal lx1 in (digits_val 8 (c # ds), lx2))
           else if c = CHR ''x'' then
             (let (ds, lx2) = read_while is_hex lx1 in (digits_val 16 ds, lx2))
           else (case map_of simple_escapes c of Some v \<Rightarrow> (v, lx1) | None \<Rightarrow> (of_nat (code c), lx1))))"

fun float_look :: "char list \<Rightarrow> bool" where
  "float_look [] = False"
| "float_look (ch # cs) =
     (if ch = CHR ''.'' \<or> ch = CHR ''e'' \<or> ch = CHR ''E'' then True
      else if \<not> is_digit ch \<and> \<not> is_alpha ch then False
      else float_look cs)"

text \<open>The characters \<^verbatim>\<open>strtod\<close> accepts of a decimal number.\<close>

definition exponent_len :: "char list \<Rightarrow> nat" where
  "exponent_len cs =
     (case cs of [] \<Rightarrow> 0
      | e # r \<Rightarrow>
          if e = CHR ''e'' \<or> e = CHR ''E'' then
            (let s = (if r \<noteq> [] \<and> (hd r = CHR ''+'' \<or> hd r = CHR ''-'') then 1 else 0 :: nat);
                 n = length (takeWhile is_digit (drop s r))
             in if n = 0 then 0 else 1 + s + n)
          else 0)"

definition strtod_len :: "char list \<Rightarrow> nat" where
  "strtod_len cs =
     (let n = length (takeWhile is_digit cs); r = drop n cs;
          m = (if r \<noteq> [] \<and> hd r = CHR ''.'' then 1 + length (takeWhile is_digit (tl r)) else 0)
      in if n = 0 \<and> m \<le> 1 then 0 else n + m + exponent_len (drop (n + m) cs))"

type_synonym dbl_ext = "char list \<Rightarrow> u64"

definition float_suffix :: "lexer \<Rightarrow> lexer" where
  "float_suffix lx =
     (if peek_is (\<lambda>c. c = CHR ''f'' \<or> c = CHR ''F'') lx
      then lx\<lparr> lx_in := tl (lx_in lx), lx_col := lx_col lx + 1, lx_text := (lx_text lx)(0 := CHR ''F'') \<rparr>
      else if peek_is (\<lambda>c. c = CHR ''l'' \<or> c = CHR ''L'') lx
      then lx\<lparr> lx_in := tl (lx_in lx), lx_col := lx_col lx + 1 \<rparr>
      else lx)"

definition lex_float :: "dbl_ext \<Rightarrow> lexer \<Rightarrow> lexer" where
  "lex_float dbl lx =
     (let n = strtod_len (lx_in lx); len = (if n = 0 then 1 else n);
          lx1 = lx\<lparr> lx_in := drop len (lx_in lx), lx_col := lx_col lx + len, lx_text := (lx_text lx)(0 := NUL) \<rparr>
      in (float_suffix lx1)\<lparr> lx_tk := TK_FLIT, lx_fval := dbl (take n (lx_in lx)) \<rparr>)"

lemma float_suffix_shrinks: "length (lx_in (float_suffix lx)) \<le> length (lx_in lx)"
  by (simp add: float_suffix_def)

definition int_digits :: "lexer \<Rightarrow> u64 \<times> lexer" where
  "int_digits lx =
     (if peek_is (\<lambda>c. c = CHR ''0'') lx then
        (let lx = skip_char lx in
         if peek_is (\<lambda>c. c = CHR ''x'' \<or> c = CHR ''X'') lx then
           (let (ds, lx) = read_while is_hex (skip_char lx) in (digits_val 16 ds, lx))
         else (let (ds, lx) = read_while is_octal lx in (digits_val 8 ds, lx)))
      else (let (ds, lx) = read_while is_digit lx in (digits_val 10 ds, lx)))"

definition lex_int :: "lexer \<Rightarrow> lexer" where
  "lex_int lx =
     (let (val, lx) = int_digits lx;
          (ss, lx) = read_while (\<lambda>c. c = CHR ''L'' \<or> c = CHR ''l'' \<or> c = CHR ''U'' \<or> c = CHR ''u'') lx;
          is_uns = list_ex (\<lambda>c. c = CHR ''U'' \<or> c = CHR ''u'') ss;
          is_lng = list_ex (\<lambda>c. c = CHR ''L'' \<or> c = CHR ''l'') ss
      in lx\<lparr> lx_tk := TK_NUM, lx_val := val,
             lx_text := (lx_text lx)(0 := (if is_uns then CHR ''U'' else NUL), 1 := (if is_lng then CHR ''L'' else NUL)) \<rparr>)"

definition lex_number :: "dbl_ext \<Rightarrow> lexer \<Rightarrow> lexer" where
  "lex_number dbl lx =
     (let cs = lx_in lx;
          hex = (hd cs = CHR ''0'' \<and> 1 < length cs \<and> (cs ! 1 = CHR ''x'' \<or> cs ! 1 = CHR ''X''))
      in if \<not> hex \<and> float_look cs then lex_float dbl lx else lex_int lx)"

definition lex_char :: "lexer \<Rightarrow> lexer" where
  "lex_char lx =
     (let lx = skip_char lx;
          (val, lx) = (if peek_is (\<lambda>c. c = backslash) lx then read_escape (skip_char lx) else read_char lx);
          lx = (if peek_is (\<lambda>c. c = apostrophe) lx then skip_char lx else lx)
      in lx\<lparr> lx_tk := TK_CHAR_LIT, lx_val := scast val \<rparr>)"

lemma bump_in [simp]: "lx_in (bump c lx) = lx_in lx" by (simp add: bump_def)

lemma skip_char_in [simp]: "lx_in (skip_char lx) = tl (lx_in lx)"
  by (simp add: skip_char_def read_char_def split: list.splits)

lemma read_char_in [simp]: "lx_in (snd (read_char lx)) = tl (lx_in lx)"
  by (simp add: read_char_def split: list.splits)

lemma foldl_bump_in [simp]: "lx_in (foldl (\<lambda>lx c. bump c lx) lx ds) = lx_in lx"
  by (induction ds arbitrary: lx) simp_all

lemma read_upto_in [simp]:
  "lx_in (snd (read_upto n P lx)) = drop (length (take n (takeWhile P (lx_in lx)))) (lx_in lx)"
  by (simp add: read_upto_def Let_def)

lemma read_while_in [simp]: "lx_in (snd (read_while P lx)) = dropWhile P (lx_in lx)"
proof -
  have "length (takeWhile P (lx_in lx)) \<le> length (lx_in lx)" by (rule length_takeWhile_le)
  then show ?thesis by (simp add: read_while_def dropWhile_eq_drop min_def)
qed

lemma read_escape_shrinks: "length (lx_in (snd (read_escape lx))) \<le> length (lx_in lx) - 1"
  by (auto simp: read_escape_def Let_def case_prod_unfold length_dropWhile_le split: list.splits option.splits)

definition str_char :: "lexer \<Rightarrow> u32 \<times> lexer" where
  "str_char lx = (if peek_is (\<lambda>c. c = backslash) lx then read_escape (skip_char lx) else read_char lx)"

lemma str_char_less: "lx_in lx \<noteq> [] \<Longrightarrow> length (lx_in (snd (str_char lx))) < length (lx_in lx)"
proof -
  assume "lx_in lx \<noteq> []"
  then have "length (lx_in (snd (read_escape (skip_char lx)))) < length (lx_in lx)"
    using read_escape_shrinks [of "skip_char lx"] by (cases "lx_in lx") auto
  then show ?thesis using \<open>lx_in lx \<noteq> []\<close> by (simp add: str_char_def)
qed

text \<open>The characters of a string literal up to its closing quote, the end, or the size of the buffer.\<close>

function str_body :: "lexer \<Rightarrow> nat \<Rightarrow> lexer \<times> nat" where
  "str_body lx len =
     (if lx_in lx = [] \<or> peek_is (\<lambda>c. c = quote) lx then (lx, len)
      else
        (let v = fst (str_char lx); lx = snd (str_char lx); lx = lx\<lparr> lx_str := (lx_str lx)(len := char_of (unat v)) \<rparr>
         in if len + 1 \<ge> MAX_STR - 1 then (lx, len + 1) else str_body lx (len + 1)))"
  by pat_completeness auto
termination
  by (relation "measure (\<lambda>(lx, len). length (lx_in lx))") (simp_all add: str_char_less)

declare str_body.simps [simp del]

lemma str_body_shrinks: "length (lx_in (fst (str_body lx len))) \<le> length (lx_in lx)"
proof (induction lx len rule: str_body.induct)
  case (1 lx len)
  show ?case
  proof (cases "lx_in lx = [] \<or> peek_is (\<lambda>c. c = quote) lx \<or> len + 1 \<ge> MAX_STR - 1")
    case True
    then show ?thesis using str_char_less [of lx] by (subst str_body.simps) (auto simp: Let_def)
  next
    case False
    then show ?thesis using 1 [OF _ HOL.refl HOL.refl HOL.refl] str_char_less [of lx]
      by (subst str_body.simps) (simp add: Let_def)
  qed
qed

text \<open>One literal from the character after its opening quote.\<close>

definition str_part :: "lexer \<Rightarrow> nat \<Rightarrow> lexer" where
  "str_part lx len =
     (let (lx, len) = str_body lx len; lx = (if peek_is (\<lambda>c. c = quote) lx then skip_char lx else lx)
      in lx\<lparr> lx_str := (lx_str lx)(len := NUL), lx_str_len := len \<rparr>)"

lemma str_part_shrinks: "length (lx_in (str_part lx len)) \<le> length (lx_in lx)"
  using str_body_shrinks [of lx len] by (auto simp: str_part_def Let_def case_prod_unfold)

definition is_blank :: "char \<Rightarrow> bool" where
  "is_blank c \<longleftrightarrow> c = CHR '' '' \<or> c = CHR 0x09 \<or> c = CHR 0x0D \<or> c = newline"

text \<open>Adjacent literals are appended. Blanks before something else are put back, blanks before the end are not.\<close>

function str_adjacent :: "lexer \<Rightarrow> lexer" where
  "str_adjacent lx =
     (let lx1 = snd (read_while is_blank lx) in
      if lx_in lx1 = [] then lx1
      else if peek_is (\<lambda>c. c = quote) lx1 then str_adjacent (str_part (skip_char lx1) (lx_str_len lx1))
      else lx)"
  by pat_completeness auto
termination
proof (relation "measure (\<lambda>lx. length (lx_in lx))", goal_cases)
  case (2 lx lx1)
  have "length (lx_in (str_part (skip_char lx1) (lx_str_len lx1))) \<le> length (tl (lx_in lx1))"
    using str_part_shrinks [of "skip_char lx1"] by simp
  moreover have "length (lx_in lx1) \<le> length (lx_in lx)" using 2 by (simp add: length_dropWhile_le)
  moreover have "length (tl (lx_in lx1)) < length (lx_in lx1)" using 2(2) by (cases "lx_in lx1") simp_all
  ultimately show ?case by simp
qed simp

declare str_adjacent.simps [simp del]

definition lex_string :: "lexer \<Rightarrow> lexer" where
  "lex_string lx = str_adjacent ((str_part (skip_char lx) 0)\<lparr> lx_tk := TK_STR \<rparr>)"

subsection \<open>Blanks, comments and directives\<close>

definition skip_space :: "lexer \<Rightarrow> lexer" where
  "skip_space lx = snd (read_while (\<lambda>c. c = newline \<or> is_space c) lx)"

fun skip_block :: "char list \<Rightarrow> nat \<Rightarrow> nat \<Rightarrow> char list \<times> nat \<times> nat" where
  "skip_block (c # d # cs) line col =
     (if c = CHR ''*'' \<and> d = CHR ''/'' then (cs, line, col + 2)
      else if c = newline then skip_block (d # cs) (line + 1) 2
      else skip_block (d # cs) line (col + 1))"
| "skip_block cs line col = (cs, line, col)"

fun skip_directive :: "char list \<Rightarrow> nat \<Rightarrow> nat \<Rightarrow> char list \<times> nat \<times> nat" where
  "skip_directive [] line col = ([], line, col)"
| "skip_directive (c # cs) line col =
     (if c = newline then (c # cs, line, col)
      else if c = backslash \<and> cs \<noteq> [] \<and> hd cs = newline then skip_directive (tl cs) (line + 1) 1
      else skip_directive cs line col)"

definition at_rest :: "lexer \<Rightarrow> char list \<times> nat \<times> nat \<Rightarrow> lexer" where
  "at_rest lx r = (case r of (cs, line, col) \<Rightarrow> lx\<lparr> lx_in := cs, lx_line := line, lx_col := col \<rparr>)"

definition lex_directive :: "lexer \<Rightarrow> lexer" where
  "lex_directive lx =
     (let ds = takeWhile is_digit (dropWhile (\<lambda>c. c = CHR '' '' \<or> c = CHR 0x09) (tl (lx_in lx)));
          new_line = foldl (\<lambda>v d. v * 10 + (code d - 48)) 0 ds;
          line = (if ds \<noteq> [] \<and> new_line > 0 then new_line else lx_line lx)
      in at_rest lx (skip_directive (lx_in lx) line (lx_col lx)))"

lemma skip_block_shrinks: "length (fst (skip_block cs line col)) \<le> length cs"
  by (induction cs line col rule: skip_block.induct) (force split: if_splits)+

lemma skip_directive_shrinks: "length (fst (skip_directive cs line col)) \<le> length cs"
proof (induction cs line col rule: skip_directive.induct)
  case (2 c cs line col)
  then show ?case by (cases cs) auto
qed simp

lemma at_rest_in [simp]: "lx_in (at_rest lx r) = fst r"
  by (simp add: at_rest_def split: prod.splits)

subsection \<open>Words\<close>

definition attr_strip :: "cstr \<Rightarrow> cstr" where
  "attr_strip an =
     (if 4 < length an \<and> take 2 an = ''__'' \<and> drop (length an - 2) an = ''__''
      then take (length an - 4) (drop 2 an) else an)"

text \<open>The first pass over an attribute: what it sets.\<close>

definition attr_number :: "char list \<Rightarrow> nat" where
  "attr_number p =
     (let p = dropWhile (\<lambda>c. c \<noteq> CHR ''('' \<and> c \<noteq> CHR '')'') p in
      if p \<noteq> [] \<and> hd p = CHR ''('' then foldl (\<lambda>v d. v * 10 + (code d - 48)) 0 (takeWhile is_digit (tl p)) else 0)"

definition attr_set :: "cstr \<Rightarrow> nat \<Rightarrow> lexer \<Rightarrow> lexer" where
  "attr_set an n lx =
     (if an = ''packed'' then lx\<lparr> lx_packed := True \<rparr>
      else if an = ''aligned'' \<and> n > 0 then lx\<lparr> lx_aligned := n \<rparr> else lx)"

definition attr_scan :: "lexer \<Rightarrow> lexer" where
  "attr_scan lx =
     (let blank = (\<lambda>c. c = CHR '' '' \<or> c = CHR 0x09);
          paren = (\<lambda>cs. if cs \<noteq> [] \<and> hd cs = CHR ''('' then tl cs else cs);
          p = dropWhile blank (paren (dropWhile blank (paren (dropWhile is_blank (lx_in lx)))));
          name = take 63 (takeWhile is_alnum p)
      in attr_set (attr_strip name) (attr_number (drop (length name) p)) lx)"

text \<open>The second pass: everything up to the parenthesis that closes the first one.\<close>

fun attr_gobble :: "char list \<Rightarrow> int \<Rightarrow> bool \<Rightarrow> char list" where
  "attr_gobble [] pcount started = []"
| "attr_gobble (c # cs) pcount started =
     (if c = CHR ''('' then attr_gobble cs (pcount + 1) True
      else if c = CHR '')'' then (if started \<and> pcount - 1 = 0 then cs else attr_gobble cs (pcount - 1) started)
      else attr_gobble cs pcount started)"

lemma length_if_le: "length xs \<le> n \<Longrightarrow> length ys \<le> n \<Longrightarrow> length (if b then xs else ys) \<le> n"
  by simp

lemma attr_gobble_shrinks: "length (attr_gobble cs pcount started) \<le> length cs"
proof (induction cs arbitrary: pcount started)
  case (Cons c cs)
  have ih: "length (attr_gobble cs p s) \<le> length (c # cs)" for p s using Cons.IH [of p s] by simp
  have self: "length cs \<le> length (c # cs)" by simp
  show ?case unfolding attr_gobble.simps by (intro length_if_le ih self)
qed simp

lemma attr_scan_in [simp]: "lx_in (attr_scan lx) = lx_in lx"
  by (simp add: attr_scan_def attr_set_def Let_def)

definition kw_of :: "cstr \<Rightarrow> tk option" where
  "kw_of w = (case lookup_keyword w of Some t \<Rightarrow> Some t | None \<Rightarrow> lookup_keyword_fallback w)"

text \<open>A handler's result is \<open>Inl\<close> for \<^verbatim>\<open>goto again\<close>, \<open>Inr\<close> for a return.\<close>

definition set_word :: "cstr \<Rightarrow> tk \<Rightarrow> lexer \<Rightarrow> lexer" where
  "set_word w t lx =
     lx\<lparr> lx_tk := t, lx_text := (strncpy (MAX_IDENT - 1) (text_of w) (lx_text lx))(MAX_IDENT - 1 := NUL) \<rparr>"

definition lex_word :: "lexer \<Rightarrow> lexer + lexer" where
  "lex_word lx =
     (let (w, lx) = read_upto (MAX_IDENT - 1) is_alnum lx in
      case kw_of w of Some t \<Rightarrow> Inr (set_word w t lx)
      | None \<Rightarrow>
          if w = ''__zcc_attr_packed__'' then Inl (lx\<lparr> lx_packed := True \<rparr>)
          else if w = ''__attribute__'' \<or> w = ''__attribute'' then
            (let lx = attr_scan lx in Inl (lx\<lparr> lx_in := attr_gobble (lx_in lx) 0 False \<rparr>))
          else if w = ''__extension__'' then Inl lx
          else Inr (set_word w TK_IDENT lx))"

subsection \<open>Operators\<close>

text \<open>The token that starts with \<open>c\<close> when \<open>cs\<close> follows, and how many characters of \<open>cs\<close> are read.\<close>

definition op_token :: "char \<Rightarrow> char list \<Rightarrow> (tk \<times> nat) option" where
  "op_token c cs =
     (let p = (\<lambda>d. cs \<noteq> [] \<and> hd cs = d); q = (\<lambda>d. 1 < length cs \<and> cs ! 1 = d) in
      if c = CHR ''+'' then
        (if p (CHR ''+'') then Some (TK_INC, 1) else if p (CHR ''='') then Some (TK_PLUS_ASSIGN, 1) else Some (TK_PLUS, 0))
      else if c = CHR ''-'' then
        (if p (CHR ''-'') then Some (TK_DEC, 1) else if p (CHR ''>'') then Some (TK_ARROW, 1)
         else if p (CHR ''='') then Some (TK_MINUS_ASSIGN, 1) else Some (TK_MINUS, 0))
      else if c = CHR ''*'' then (if p (CHR ''='') then Some (TK_STAR_ASSIGN, 1) else Some (TK_STAR, 0))
      else if c = CHR ''/'' then (if p (CHR ''='') then Some (TK_SLASH_ASSIGN, 1) else Some (TK_SLASH, 0))
      else if c = CHR ''%'' then (if p (CHR ''='') then Some (TK_PERCENT_ASSIGN, 1) else Some (TK_PERCENT, 0))
      else if c = CHR ''&'' then
        (if p (CHR ''&'') then Some (TK_LAND, 1) else if p (CHR ''='') then Some (TK_AMP_ASSIGN, 1) else Some (TK_AMP, 0))
      else if c = CHR ''|'' then
        (if p (CHR ''|'') then Some (TK_LOR, 1) else if p (CHR ''='') then Some (TK_PIPE_ASSIGN, 1) else Some (TK_PIPE, 0))
      else if c = CHR ''^'' then (if p (CHR ''='') then Some (TK_CARET_ASSIGN, 1) else Some (TK_CARET, 0))
      else if c = CHR ''~'' then Some (TK_TILDE, 0)
      else if c = CHR ''!'' then (if p (CHR ''='') then Some (TK_NE, 1) else Some (TK_BANG, 0))
      else if c = CHR ''='' then (if p (CHR ''='') then Some (TK_EQ, 1) else Some (TK_ASSIGN, 0))
      else if c = CHR ''<'' then
        (if p (CHR ''<'') then (if q (CHR ''='') then Some (TK_SHL_ASSIGN, 2) else Some (TK_SHL, 1))
         else if p (CHR ''='') then Some (TK_LE, 1) else Some (TK_LT, 0))
      else if c = CHR ''>'' then
        (if p (CHR ''>'') then (if q (CHR ''='') then Some (TK_SHR_ASSIGN, 2) else Some (TK_SHR, 1))
         else if p (CHR ''='') then Some (TK_GE, 1) else Some (TK_GT, 0))
      else if c = CHR ''('' then Some (TK_LPAREN, 0)
      else if c = CHR '')'' then Some (TK_RPAREN, 0)
      else if c = CHR ''{'' then Some (TK_LBRACE, 0)
      else if c = CHR ''}'' then Some (TK_RBRACE, 0)
      else if c = CHR ''['' then Some (TK_LBRACKET, 0)
      else if c = CHR '']'' then Some (TK_RBRACKET, 0)
      else if c = CHR '';'' then Some (TK_SEMI, 0)
      else if c = CHR '','' then Some (TK_COMMA, 0)
      else if c = CHR ''.'' then
        (if p (CHR ''.'') then (if q (CHR ''.'') then Some (TK_ELLIPSIS, 2) else Some (TK_DOT, 1)) else Some (TK_DOT, 0))
      else if c = CHR ''?'' then Some (TK_QUESTION, 0)
      else if c = CHR '':'' then Some (TK_COLON, 0)
      else None)"

definition lex_op :: "dbl_ext \<Rightarrow> lexer \<Rightarrow> lexer + lexer" where
  "lex_op dbl lx =
     (let c = hd (lx_in lx); lx1 = skip_char lx in
      if c = CHR ''.'' \<and> peek_is is_digit lx1 then Inr (lex_float dbl lx)
      else (case op_token c (lx_in lx1) of
              Some (t, k) \<Rightarrow> Inr ((skip_char ^^ k) lx1\<lparr> lx_tk := t \<rparr>)
            | None \<Rightarrow> Inl lx1))"

subsection \<open>The next token\<close>

definition next_at :: "dbl_ext \<Rightarrow> lexer \<Rightarrow> lexer + lexer" where
  "next_at dbl lx =
     (case lx_in lx of
        [] \<Rightarrow> Inr (lx\<lparr> lx_tk := TK_EOF, lx_text := (lx_text lx)(0 := NUL) \<rparr>)
      | c # cs \<Rightarrow>
          if c = CHR ''/'' \<and> cs \<noteq> [] \<and> hd cs = CHR ''/'' then
            Inl (lx\<lparr> lx_in := dropWhile (\<lambda>c. c \<noteq> newline) (lx_in lx) \<rparr>)
          else if c = CHR ''/'' \<and> cs \<noteq> [] \<and> hd cs = CHR ''*'' then
            Inl (at_rest lx (skip_block (tl cs) (lx_line lx) (lx_col lx + 2)))
          else if c = CHR ''#'' then Inl (lex_directive lx)
          else if is_digit c then Inr (lex_number dbl lx)
          else if c = apostrophe then Inr (lex_char lx)
          else if c = quote then Inr (lex_string lx)
          else if is_alpha c then lex_word lx
          else lex_op dbl lx)"

definition mark :: "lexer \<Rightarrow> lexer" where
  "mark lx = lx\<lparr> lx_tk_line := lx_line lx, lx_tk_col := lx_col lx \<rparr>"

lemma length_dropWhile_less: "P c \<Longrightarrow> length (dropWhile P (c # cs)) < length (c # cs)"
  by (simp add: le_imp_less_Suc length_dropWhile_le)

lemma skip_directive_less: "c \<noteq> newline \<Longrightarrow> length (fst (skip_directive (c # cs) line col)) < length (c # cs)"
  using skip_directive_shrinks [of cs line col] skip_directive_shrinks [of "tl cs" "line + 1" 1] by auto

lemma lex_word_Inl:
  assumes "lx_in lx = c # cs" "is_alpha c" "lex_word lx = Inl lx'"
  shows "length (lx_in lx') < length (lx_in lx)"
proof -
  obtain w lx1 where r: "read_upto (MAX_IDENT - 1) is_alnum lx = (w, lx1)" by (cases "read_upto (MAX_IDENT - 1) is_alnum lx")
  have "length (lx_in (snd (read_upto (MAX_IDENT - 1) is_alnum lx))) < length (lx_in lx)"
    using assms(1,2) by (simp add: is_alnum_def MAX_IDENT_def)
  then have less: "length (lx_in lx1) < length (lx_in lx)" by (simp only: r snd_conv)
  have "length (lx_in lx') \<le> length (lx_in lx1)"
    using assms(3) attr_gobble_shrinks [of "lx_in lx1" 0 False] unfolding lex_word_def r
    by (cases "kw_of w") (auto simp: Let_def simp del: attr_gobble.simps split: if_splits)
  with less show ?thesis by simp
qed

lemma next_at_Inl: "next_at dbl lx = Inl lx' \<Longrightarrow> length (lx_in lx') < length (lx_in lx)"
proof (cases "lx_in lx")
  case (Cons c cs)
  assume n: "next_at dbl lx = Inl lx'"
  have block: "length (fst (skip_block (tl cs) l k)) < length (c # cs)" for l k
    using skip_block_shrinks [of "tl cs" l k] by auto
  show ?thesis
    using n Cons block skip_directive_less [of c cs] length_dropWhile_less [of "\<lambda>c. c \<noteq> newline" c cs]
      lex_word_Inl [of lx c cs lx']
    by (auto simp: next_at_def lex_directive_def lex_op_def Let_def split: if_splits option.splits)
qed (simp add: next_at_def)

lemma skip_space_shrinks: "length (lx_in (skip_space lx)) \<le> length (lx_in lx)"
  by (simp add: skip_space_def length_dropWhile_le)

function next_raw :: "dbl_ext \<Rightarrow> lexer \<Rightarrow> lexer" where
  "next_raw dbl lx = (case next_at dbl (mark (skip_space lx)) of Inl lx' \<Rightarrow> next_raw dbl lx' | Inr lx' \<Rightarrow> lx')"
  by pat_completeness auto
termination
proof (relation "measure (\<lambda>(dbl, lx). length (lx_in lx))", goal_cases)
  case (2 dbl lx lx')
  then show ?case using next_at_Inl [of dbl _ lx'] skip_space_shrinks [of lx] by (fastforce simp: mark_def)
qed simp

declare next_raw.simps [simp del]

definition next_token :: "dbl_ext \<Rightarrow> lexer \<Rightarrow> lexer" where
  "next_token dbl lx =
     (if lx_has_peek lx then
        lx\<lparr> lx_tk := pk_tk lx, lx_val := pk_val lx, lx_text := strncpy (MAX_IDENT - 1) (pk_text lx) (lx_text lx),
            lx_str := strncpy (MAX_STR - 1) (pk_str lx) (lx_str lx), lx_str_len := pk_str_len lx,
            lx_tk_line := pk_line lx, lx_tk_col := pk_col lx, lx_has_peek := False \<rparr>
      else next_raw dbl lx)"

definition peek_token :: "dbl_ext \<Rightarrow> lexer \<Rightarrow> tk \<times> lexer" where
  "peek_token dbl lx =
     (if lx_has_peek lx then (pk_tk lx, lx)
      else
        (let s_text = strncpy (MAX_IDENT - 1) (lx_text lx) (\<lambda>_. NUL);
             s_str = strncpy (MAX_STR - 1) (lx_str lx) (\<lambda>_. NUL);
             n = next_token dbl lx
         in (lx_tk n,
             n\<lparr> pk_tk := lx_tk n, pk_val := lx_val n, pk_text := strncpy (MAX_IDENT - 1) (lx_text n) (pk_text n),
                pk_str := strncpy (MAX_STR - 1) (lx_str n) (pk_str n), pk_str_len := lx_str_len n,
                pk_line := lx_tk_line n, pk_col := lx_tk_col n, lx_has_peek := True,
                lx_tk := lx_tk lx, lx_val := lx_val lx, lx_text := strncpy (MAX_IDENT - 1) s_text (lx_text n),
                lx_str := strncpy (MAX_STR - 1) s_str (lx_str n), lx_str_len := lx_str_len lx,
                lx_tk_line := lx_tk_line lx, lx_tk_col := lx_tk_col lx \<rparr>)))"

definition expect :: "dbl_ext \<Rightarrow> lexer \<Rightarrow> tk \<Rightarrow> lexer" where
  "expect dbl lx t =
     (let lx = (if t < 0 \<or> t > 128 then lx\<lparr> lx_errors := lx_errors lx + 1 \<rparr> else lx);
          lx = (if lx_tk lx \<noteq> t then lx\<lparr> lx_errors := lx_errors lx + 1 \<rparr> else lx)
      in next_token dbl lx)"

end
