(* ===== verification/LexerCorrect.thy ===== *)
theory LexerCorrect
  imports Lexer
begin

text \<open>
  The lexer makes progress on every input, gives back the tokens of a printed program, and where its
  buffers, its table of keywords and its one token of lookahead do not do what the parser needs.
\<close>

subsection \<open>Progress\<close>

lemma strtod_len_pos: "cs \<noteq> [] \<Longrightarrow> length (drop (if strtod_len cs = 0 then 1 else strtod_len cs) cs) < length cs"
  by auto

lemma lex_float_less: "lx_in lx \<noteq> [] \<Longrightarrow> length (lx_in (lex_float dbl lx)) < length (lx_in lx)"
proof -
  assume "lx_in lx \<noteq> []"
  then have "length (lx_in (lx\<lparr> lx_in := drop (if strtod_len (lx_in lx) = 0 then 1 else strtod_len (lx_in lx)) (lx_in lx),
                               lx_col := n, lx_text := t \<rparr>)) < length (lx_in lx)" for n t
    using strtod_len_pos [of "lx_in lx"] by simp
  from le_less_trans [OF float_suffix_shrinks this] show ?thesis by (simp add: lex_float_def Let_def)
qed

lemma read_while_less: "peek_is P lx \<Longrightarrow> length (lx_in (snd (read_while P lx))) < length (lx_in lx)"
  by (cases "lx_in lx") (simp_all add: peek_is_def length_dropWhile_le le_imp_less_Suc)

lemma read_while_shrinks: "length (lx_in (snd (read_while P lx))) \<le> length (lx_in lx)"
  by (simp add: length_dropWhile_le)

lemma int_digits_less:
  assumes "peek_is is_digit lx" shows "length (lx_in (snd (int_digits lx))) < length (lx_in lx)"
proof -
  have skip: "length (lx_in (skip_char lx)) < length (lx_in lx)" using assms by (cases "lx_in lx") (simp_all add: peek_is_def)
  have skip2: "length (lx_in (skip_char (skip_char lx))) < length (lx_in lx)" using skip by simp
  show ?thesis
    unfolding int_digits_def Let_def case_prod_unfold
    using le_less_trans [OF read_while_shrinks skip] le_less_trans [OF read_while_shrinks skip2] read_while_less [OF assms]
    by (simp del: read_while_in skip_char_in)
qed

lemma lex_int_less: "peek_is is_digit lx \<Longrightarrow> length (lx_in (lex_int lx)) < length (lx_in lx)"
proof -
  assume "peek_is is_digit lx"
  from le_less_trans [OF read_while_shrinks int_digits_less [OF this]] show ?thesis
    unfolding lex_int_def Let_def case_prod_unfold by simp
qed

lemma lex_char_less: "lx_in lx \<noteq> [] \<Longrightarrow> length (lx_in (lex_char lx)) < length (lx_in lx)"
  using read_escape_shrinks [of "skip_char (skip_char lx)"]
  by (cases "lx_in lx") (auto simp: lex_char_def Let_def case_prod_unfold)

lemma str_adjacent_shrinks: "length (lx_in (str_adjacent lx)) \<le> length (lx_in lx)"
proof (induction lx rule: str_adjacent.induct)
  case (1 lx)
  define lx1 where "lx1 = snd (read_while is_blank lx)"
  define lx2 where "lx2 = str_part (skip_char lx1) (lx_str_len lx1)"
  have step: "str_adjacent lx = (if lx_in lx1 = [] then lx1 else if peek_is (\<lambda>c. c = quote) lx1 then str_adjacent lx2 else lx)"
    unfolding lx2_def lx1_def Let_def by (subst str_adjacent.simps) (simp only: Let_def)
  have le: "length (lx_in lx1) \<le> length (lx_in lx)" unfolding lx1_def by (rule read_while_shrinks)
  have "length (lx_in lx2) \<le> length (lx_in lx1)"
    unfolding lx2_def using str_part_shrinks [of "skip_char lx1" "lx_str_len lx1"] by simp
  moreover have "length (lx_in (str_adjacent lx2)) \<le> length (lx_in lx2)" if "lx_in lx1 \<noteq> []" "peek_is (\<lambda>c. c = quote) lx1"
    using 1 [OF HOL.refl] that unfolding lx2_def lx1_def by blast
  ultimately show ?case using le step by (cases "lx_in lx1 = []"; cases "peek_is (\<lambda>c. c = quote) lx1") simp_all
qed

lemma lex_string_less: "lx_in lx \<noteq> [] \<Longrightarrow> length (lx_in (lex_string lx)) < length (lx_in lx)"
proof -
  assume ne: "lx_in lx \<noteq> []"
  have "length (lx_in (lex_string lx)) \<le> length (lx_in (str_part (skip_char lx) 0))"
    unfolding lex_string_def by (rule order_trans [OF str_adjacent_shrinks]) simp
  also have "\<dots> \<le> length (tl (lx_in lx))" using str_part_shrinks [of "skip_char lx" 0] by simp
  also have "\<dots> < length (lx_in lx)" using ne by (cases "lx_in lx") simp_all
  finally show ?thesis .
qed

lemma skips_in [simp]: "lx_in ((skip_char ^^ k) lx) = drop k (lx_in lx)"
  by (induction k) (simp_all add: drop_Suc tl_drop)

lemma set_word_in [simp]: "lx_in (set_word w t lx) = lx_in lx" by (simp add: set_word_def)

lemma lex_word_Inr:
  assumes "lx_in lx = c # cs" "is_alpha c" "lex_word lx = Inr lx'"
  shows "length (lx_in lx') < length (lx_in lx)"
proof -
  obtain w lx1 where r: "read_upto (MAX_IDENT - 1) is_alnum lx = (w, lx1)" by (cases "read_upto (MAX_IDENT - 1) is_alnum lx")
  have "length (lx_in (snd (read_upto (MAX_IDENT - 1) is_alnum lx))) < length (lx_in lx)"
    using assms(1,2) by (simp add: is_alnum_def MAX_IDENT_def)
  then have less: "length (lx_in lx1) < length (lx_in lx)" by (simp only: r snd_conv)
  have "lx_in lx' = lx_in lx1"
    using assms(3) unfolding lex_word_def r by (cases "kw_of w") (auto simp: Let_def split: if_splits)
  with less show ?thesis by simp
qed

lemma lex_op_Inr:
  assumes "lx_in lx = c # cs" "lex_op dbl lx = Inr lx'"
  shows "length (lx_in lx') < length (lx_in lx)"
proof (cases "c = CHR ''.'' \<and> peek_is is_digit (skip_char lx)")
  case True
  then show ?thesis using assms lex_float_less [of lx dbl] by (simp add: lex_op_def Let_def)
next
  case False
  then obtain t k where "lx' = (skip_char ^^ k) (skip_char lx)\<lparr> lx_tk := t \<rparr>"
    using assms by (auto simp: lex_op_def Let_def split: option.splits)
  then show ?thesis using assms(1) by simp
qed

lemma next_at_Inr:
  assumes "next_at dbl lx = Inr lx'"
  shows "length (lx_in lx') < length (lx_in lx) \<or> lx_in lx' = [] \<and> lx_tk lx' = TK_EOF"
proof (cases "lx_in lx")
  case (Cons c cs)
  have num: "length (lx_in (lex_number dbl lx)) < length (lx_in lx)" if "is_digit c"
    using that Cons lex_float_less [of lx dbl] lex_int_less [of lx] by (simp add: lex_number_def peek_is_def Let_def)
  show ?thesis
    using assms Cons num lex_char_less [of lx] lex_string_less [of lx] lex_word_Inr [of lx c cs lx']
      lex_op_Inr [of lx c cs dbl lx']
    unfolding next_at_def by (simp split: if_splits; blast)
qed (use assms in \<open>auto simp: next_at_def\<close>)

lemma next_raw_progress:
  "length (lx_in (next_raw dbl lx)) < length (lx_in lx) \<or> lx_in (next_raw dbl lx) = [] \<and> lx_tk (next_raw dbl lx) = TK_EOF"
proof (induction dbl lx rule: next_raw.induct)
  case (1 dbl lx)
  have le: "length (lx_in (mark (skip_space lx))) \<le> length (lx_in lx)" using skip_space_shrinks [of lx] by (simp add: mark_def)
  show ?case
  proof (cases "next_at dbl (mark (skip_space lx))")
    case (Inl lx')
    then have "length (lx_in lx') < length (lx_in lx)" using next_at_Inl [OF Inl] le by simp
    then show ?thesis using 1 [OF Inl] Inl by (subst (1 2 3) next_raw.simps) auto
  next
    case (Inr lx')
    then show ?thesis using next_at_Inr [OF Inr] le by (subst (1 2 3) next_raw.simps) auto
  qed
qed

text \<open>The kind of the token a handler leaves is never that of the end.\<close>

lemma bump_tk [simp]: "lx_tk (bump c lx) = lx_tk lx" by (simp add: bump_def)

lemma foldl_bump_tk [simp]: "lx_tk (foldl (\<lambda>lx c. bump c lx) lx ds) = lx_tk lx"
  by (induction ds arbitrary: lx) simp_all

lemma read_char_tk [simp]: "lx_tk (snd (read_char lx)) = lx_tk lx"
  by (simp add: read_char_def split: list.splits)

lemma skip_char_tk [simp]: "lx_tk (skip_char lx) = lx_tk lx" by (simp add: skip_char_def)

lemma read_upto_tk [simp]: "lx_tk (snd (read_upto n P lx)) = lx_tk lx"
  by (simp add: read_upto_def Let_def)

lemma read_while_tk [simp]: "lx_tk (snd (read_while P lx)) = lx_tk lx"
  by (simp add: read_while_def)

lemma read_escape_tk [simp]: "lx_tk (snd (read_escape lx)) = lx_tk lx"
  by (simp add: read_escape_def Let_def case_prod_unfold split: list.splits option.splits)

lemma str_char_tk [simp]: "lx_tk (snd (str_char lx)) = lx_tk lx" by (simp add: str_char_def)

lemma str_body_tk [simp]: "lx_tk (fst (str_body lx len)) = lx_tk lx"
proof (induction lx len rule: str_body.induct)
  case (1 lx len)
  then show ?case
    by (cases "lx_in lx = [] \<or> peek_is (\<lambda>c. c = quote) lx"; cases "len + 1 \<ge> MAX_STR - 1")
      (subst str_body.simps; simp add: Let_def)+
qed

lemma str_part_tk [simp]: "lx_tk (str_part lx len) = lx_tk lx"
  by (simp add: str_part_def Let_def case_prod_unfold)

lemma str_adjacent_tk [simp]: "lx_tk (str_adjacent lx) = lx_tk lx"
proof (induction lx rule: str_adjacent.induct)
  case (1 lx)
  show ?case using 1 [OF HOL.refl] by (subst str_adjacent.simps) (simp add: Let_def)
qed

lemma keyword_not_eof: "(w, t) \<in> set keyword_table \<Longrightarrow> t \<noteq> TK_EOF"
proof -
  have "list_all (\<lambda>(w, t). t \<noteq> TK_EOF) keyword_table" by code_simp
  then show "(w, t) \<in> set keyword_table \<Longrightarrow> t \<noteq> TK_EOF" by (auto simp: list_all_iff)
qed

lemma fallback_not_eof: "(n, w, t) \<in> set fallback_table \<Longrightarrow> t \<noteq> TK_EOF"
proof -
  have "list_all (\<lambda>(n, w, t). t \<noteq> TK_EOF) fallback_table" by code_simp
  then show "(n, w, t) \<in> set fallback_table \<Longrightarrow> t \<noteq> TK_EOF" by (auto simp: list_all_iff)
qed

lemma lookup_fallback_entry:
  "lookup_keyword_fallback w = Some t
    \<Longrightarrow> \<exists>n cs. (n, cs, t) \<in> set fallback_table \<and> length w = n \<and> take (length cs) w = cs"
  by (auto simp: lookup_keyword_fallback_def find_Some_iff split: if_splits) (metis nth_mem)

lemma kw_of_not_eof: "kw_of w = Some t \<Longrightarrow> t \<noteq> TK_EOF"
  using keyword_not_eof [of w t] lookup_fallback_entry [of w t] fallback_not_eof
  by (auto simp: kw_of_def lookup_keyword_def dest: map_of_SomeD split: option.splits)

lemma op_token_not_eof: "op_token c cs = Some (t, k) \<Longrightarrow> t \<noteq> TK_EOF"
  unfolding op_token_def Let_def by (auto split: if_splits)

lemma lex_word_Inr_tk: "lex_word lx = Inr lx' \<Longrightarrow> lx_tk lx' \<noteq> TK_EOF"
proof -
  obtain w lx1 where r: "read_upto (MAX_IDENT - 1) is_alnum lx = (w, lx1)" by (cases "read_upto (MAX_IDENT - 1) is_alnum lx")
  show "lex_word lx = Inr lx' \<Longrightarrow> lx_tk lx' \<noteq> TK_EOF"
    unfolding lex_word_def r using kw_of_not_eof [of w]
    by (cases "kw_of w") (auto simp: Let_def set_word_def split: if_splits)
qed

lemma lex_op_Inr_tk: "lex_op dbl lx = Inr lx' \<Longrightarrow> lx_tk lx' \<noteq> TK_EOF"
  using op_token_not_eof by (auto simp: lex_op_def lex_float_def Let_def split: if_splits option.splits)

lemma next_at_eof:
  assumes "next_at dbl lx = Inr lx'" "lx_tk lx' = TK_EOF" shows "lx_in lx' = []"
proof (cases "lx_in lx")
  case (Cons c cs)
  have num: "lx_tk (lex_number dbl lx) \<noteq> TK_EOF"
    by (simp add: lex_number_def lex_float_def lex_int_def Let_def case_prod_unfold)
  have chr: "lx_tk (lex_char lx) \<noteq> TK_EOF" by (simp add: lex_char_def Let_def case_prod_unfold)
  have str: "lx_tk (lex_string lx) \<noteq> TK_EOF" by (simp add: lex_string_def)
  show ?thesis
    using assms Cons num chr str lex_word_Inr_tk [of lx lx'] lex_op_Inr_tk [of dbl lx lx']
    unfolding next_at_def by (simp split: if_splits; blast)
qed (use assms in \<open>auto simp: next_at_def\<close>)

lemma next_raw_eof: "lx_tk (next_raw dbl lx) = TK_EOF \<Longrightarrow> lx_in (next_raw dbl lx) = []"
proof (induction dbl lx rule: next_raw.induct)
  case (1 dbl lx)
  show ?case
  proof (cases "next_at dbl (mark (skip_space lx))")
    case (Inl lx')
    then have "next_raw dbl lx = next_raw dbl lx'" by (subst next_raw.simps) simp
    then show ?thesis using 1(1) [OF Inl] 1(2) by simp
  next
    case (Inr lx')
    then have "next_raw dbl lx = lx'" by (subst next_raw.simps) simp
    then show ?thesis using next_at_eof [OF Inr] 1(2) by simp
  qed
qed

text \<open>What a parser that only asks for the next token sees, one state for each token up to the end.\<close>

function lex_all :: "dbl_ext \<Rightarrow> lexer \<Rightarrow> lexer list" where
  "lex_all dbl lx =
     (let lx' = next_raw dbl lx in if lx_tk lx' = TK_EOF then [lx'] else lx' # lex_all dbl lx')"
  by pat_completeness auto
termination
proof (relation "measure (\<lambda>(dbl, lx). length (lx_in lx))", goal_cases)
  case (2 dbl lx lx')
  then show ?case using next_raw_progress [of dbl lx] by auto
qed simp

declare lex_all.simps [simp del]

text \<open>C32: The lexer gets through every source: asking for tokens reports the end of the file after at most as
  many tokens as the file has characters, and only when the source is used up.\<close>

theorem lexing_ends_at_the_end:
  "length (lex_all dbl lx) \<le> length (lx_in lx) + 1 \<and> lx_tk (last (lex_all dbl lx)) = TK_EOF \<and> lx_in (last (lex_all dbl lx)) = []"
proof (induction dbl lx rule: lex_all.induct)
  case (1 dbl lx)
  show ?case
  proof (cases "lx_tk (next_raw dbl lx) = TK_EOF")
    case True
    then have "lex_all dbl lx = [next_raw dbl lx]" by (subst lex_all.simps) simp
    then show ?thesis using True next_raw_eof [OF True] by simp
  next
    case False
    then have e: "lex_all dbl lx = next_raw dbl lx # lex_all dbl (next_raw dbl lx)" by (subst lex_all.simps) (simp add: Let_def)
    have "lex_all dbl (next_raw dbl lx) \<noteq> []" by (subst lex_all.simps) (simp add: Let_def)
    then show ?thesis using e 1 [OF HOL.refl False] next_raw_progress [of dbl lx] False by simp
  qed
qed

subsection \<open>Keywords\<close>

lemma lookup_keyword_iff: "lookup_keyword w = Some t \<longleftrightarrow> (w, t) \<in> set keyword_table"
proof -
  have "distinct (map fst keyword_table)" by code_simp
  then show ?thesis by (simp add: lookup_keyword_def)
qed

lemma fallback_entries:
  assumes "(n, cs, t) \<in> set fallback_table"
  shows "n = length cs \<and> (cs, t) \<in> set keyword_table \<or> n = 8 \<and> cs = ''__const'' \<and> t = TK_CONST"
proof -
  have "list_all (\<lambda>(n, cs, t). n = length cs \<and> map_of keyword_table cs = Some t \<or> n = 8 \<and> cs = ''__const'' \<and> t = TK_CONST) fallback_table"
    by code_simp
  then show ?thesis using assms by (auto simp: list_all_iff dest: map_of_SomeD)
qed

lemma long_const_no_keyword: "lookup_keyword (''__const'' @ [c]) = None"
proof -
  have "list_all (\<lambda>(w, t). \<not> (length w = 8 \<and> take 7 w = ''__const'')) keyword_table" by code_simp
  then have "(w, t) \<in> set keyword_table \<Longrightarrow> w \<noteq> ''__const'' @ [c]" for w t by (auto simp: list_all_iff)
  then show ?thesis by (metis lookup_keyword_iff not_None_eq)
qed

lemma snoc_of_take:
  assumes "length w = Suc (length p)" "take (length p) w = p" shows "\<exists>c. w = p @ [c]"
proof -
  have "w = take (length p) w @ [w ! length p]" using assms(1) take_Suc_conv_app_nth [of "length p" w] by simp
  then show ?thesis using assms(2) by metis
qed

lemma fallback_long_const: "lookup_keyword_fallback (''__const'' @ [c]) = Some TK_CONST"
  by (simp add: lookup_keyword_fallback_def fallback_table_def)

text \<open>The words the lexer takes for keywords are those of its table, each as its token, and by mistake also
  every word of eight characters that starts with \<^verbatim>\<open>__const\<close>: the second table compares seven characters of
  it, so an identifier \<^verbatim>\<open>__consta\<close> is read as \<^verbatim>\<open>const\<close>.\<close>

lemma keywords_and_stray_const:
  "kw_of w = Some t \<longleftrightarrow> (w, t) \<in> set keyword_table \<or> (\<exists>c. w = ''__const'' @ [c]) \<and> t = TK_CONST"
proof
  assume k: "kw_of w = Some t"
  show "(w, t) \<in> set keyword_table \<or> (\<exists>c. w = ''__const'' @ [c]) \<and> t = TK_CONST"
  proof (cases "lookup_keyword w")
    case None
    then obtain n cs where e: "(n, cs, t) \<in> set fallback_table" "length w = n" "take (length cs) w = cs"
      using k lookup_fallback_entry [of w t] by (auto simp: kw_of_def)
    from fallback_entries [OF e(1)] show ?thesis
    proof
      assume f: "n = length cs \<and> (cs, t) \<in> set keyword_table"
      then have "w = cs" using e by simp
      with f show ?thesis by simp
    next
      assume f: "n = 8 \<and> cs = ''__const'' \<and> t = TK_CONST"
      then have "length w = Suc (length ''__const'')" "take (length ''__const'') w = ''__const''"
        using e by simp_all
      from snoc_of_take [OF this] show ?thesis using f by blast
    qed
  next
    case (Some a)
    then show ?thesis using k lookup_keyword_iff [of w t] by (simp add: kw_of_def)
  qed
next
  assume "(w, t) \<in> set keyword_table \<or> (\<exists>c. w = ''__const'' @ [c]) \<and> t = TK_CONST"
  then show "kw_of w = Some t"
    using lookup_keyword_iff [of w t] long_const_no_keyword fallback_long_const by (auto simp: kw_of_def)
qed

subsection \<open>Lookahead\<close>

lemma strncpy_0: "0 < n \<Longrightarrow> strncpy n src dst 0 = src 0"
  by (simp add: strncpy_def)

lemma strncpy_1: "1 < n \<Longrightarrow> strncpy n src dst (Suc 0) = (if src 0 = NUL then NUL else src (Suc 0))"
  by (auto simp: strncpy_def)

lemmas strncpy_text = strncpy_0 [of 127] strncpy_1 [of 127]


subsection \<open>String literals\<close>

text \<open>How a character is written inside a literal closed by \<open>q\<close>, and the buffer after a text is stored at \<open>n\<close>.\<close>

definition escaped :: "char \<Rightarrow> char \<Rightarrow> char list" where
  "escaped q c =
     (if c = q then [backslash, q] else if c = backslash then [backslash, backslash]
      else if c = newline then [backslash, CHR ''n''] else [c])"

fun put :: "nat \<Rightarrow> cstr \<Rightarrow> carray \<Rightarrow> carray" where
  "put n [] f = f"
| "put n (c # cs) f = put (Suc n) cs (f(n := c))"

lemma put_before: "i < n \<Longrightarrow> put n cs f i = f i"
  by (induction n cs f rule: put.induct) simp_all

lemma put_nth: "k < length cs \<Longrightarrow> put n cs f (n + k) = cs ! k"
proof (induction n cs f arbitrary: k rule: put.induct)
  case (2 n c cs f)
  then show ?case by (cases k) (simp_all add: put_before fun_upd_def)
qed simp

lemma scan_escaped:
  assumes q: "q = quote \<or> q = apostrophe" and i: "lx_in lx = escaped q c @ r"
  shows "\<exists>l k. (if peek_is (\<lambda>c. c = backslash) lx then read_escape (skip_char lx) else read_char lx)
    = (of_nat (code c), lx\<lparr> lx_in := r, lx_line := l, lx_col := k \<rparr>)"
proof -
  have dec: "read_escape (skip_char lx) = (of_nat (code c), lx\<lparr> lx_in := r, lx_line := lx_line lx, lx_col := lx_col lx + 1 + 1 \<rparr>)"
    if "lx_in lx = backslash # d # r" "\<not> is_octal d" "d \<noteq> CHR ''x''" "map_of simple_escapes d = Some (of_nat (code c))" "d \<noteq> newline" for d
    using that by (simp add: read_escape_def skip_char_def read_char_def bump_def)
  consider "c = q" | "c \<noteq> q" "c = backslash" | "c \<noteq> q" "c = newline" | "c \<noteq> q" "c \<noteq> backslash" "c \<noteq> newline" by blast
  then show ?thesis
  proof cases
    case 1
    then have b: "lx_in lx = backslash # q # r" using i by (simp add: escaped_def)
    have "read_escape (skip_char lx) = (of_nat (code c), lx\<lparr> lx_in := r, lx_line := lx_line lx, lx_col := lx_col lx + 1 + 1 \<rparr>)"
      by (rule dec [OF b]) (use q 1 in \<open>auto simp: is_octal_def simple_escapes_def\<close>)
    then show ?thesis using b by - (rule exI [of _ "lx_line lx"], rule exI [of _ "lx_col lx + 1 + 1"], simp add: peek_is_def)
  next
    case 2
    then have b: "lx_in lx = backslash # backslash # r" using i by (simp add: escaped_def)
    have "read_escape (skip_char lx) = (of_nat (code c), lx\<lparr> lx_in := r, lx_line := lx_line lx, lx_col := lx_col lx + 1 + 1 \<rparr>)"
      by (rule dec [OF b]) (use 2 in \<open>auto simp: is_octal_def simple_escapes_def\<close>)
    then show ?thesis using b by - (rule exI [of _ "lx_line lx"], rule exI [of _ "lx_col lx + 1 + 1"], simp add: peek_is_def)
  next
    case 3
    then have b: "lx_in lx = backslash # CHR ''n'' # r" using i by (simp add: escaped_def)
    have "read_escape (skip_char lx) = (of_nat (code c), lx\<lparr> lx_in := r, lx_line := lx_line lx, lx_col := lx_col lx + 1 + 1 \<rparr>)"
      by (rule dec [OF b]) (use 3 in \<open>auto simp: is_octal_def simple_escapes_def\<close>)
    then show ?thesis using b by - (rule exI [of _ "lx_line lx"], rule exI [of _ "lx_col lx + 1 + 1"], simp add: peek_is_def)
  next
    case 4
    then have b: "lx_in lx = c # r" using i by (simp add: escaped_def)
    have "read_char lx = (of_nat (code c), lx\<lparr> lx_in := r, lx_line := lx_line lx, lx_col := lx_col lx + 1 \<rparr>)"
      using b 4 by (simp add: read_char_def bump_def)
    then show ?thesis using b 4 by - (rule exI [of _ "lx_line lx"], rule exI [of _ "lx_col lx + 1"], simp add: peek_is_def)
  qed
qed

lemma str_char_escaped:
  assumes "lx_in lx = escaped quote c @ r"
  shows "\<exists>l k. str_char lx = (of_nat (code c), lx\<lparr> lx_in := r, lx_line := l, lx_col := k \<rparr>)"
  unfolding str_char_def by (rule scan_escaped [OF _ assms]) simp

lemma escaped_not_end: "lx_in lx = escaped quote c @ r \<Longrightarrow> lx_in lx \<noteq> [] \<and> \<not> peek_is (\<lambda>c. c = quote) lx"
  by (auto simp: escaped_def peek_is_def split: if_splits)

lemma str_body_escaped:
  assumes "lx_in lx = concat (map (escaped quote) cs) @ quote # r" "len + length cs \<le> MAX_STR - 1 \<or> length cs = 1"
  shows "\<exists>l k. str_body lx len
    = (lx\<lparr> lx_in := quote # r, lx_line := l, lx_col := k, lx_str := put len cs (lx_str lx) \<rparr>, len + length cs)"
  using assms
proof (induction cs arbitrary: lx len)
  case Nil
  then show ?case
    by - (rule exI [of _ "lx_line lx"], rule exI [of _ "lx_col lx"], subst str_body.simps, simp add: peek_is_def)
next
  case (Cons c cs)
  have i: "lx_in lx = escaped quote c @ concat (map (escaped quote) cs) @ quote # r" using Cons.prems(1) by simp
  obtain l k where sc: "str_char lx = (of_nat (code c), lx\<lparr> lx_in := concat (map (escaped quote) cs) @ quote # r, lx_line := l, lx_col := k \<rparr>)"
    using str_char_escaped [OF i] by blast
  have chr: "char_of (unat (of_nat (code c) :: u32)) = c"
  proof -
    have "code c < 256" by simp
    then have "code c mod 4294967296 = code c" by (intro mod_less) linarith
    then show ?thesis by (simp add: unat_of_nat take_bit_eq_mod)
  qed
  define lx1 where "lx1 = lx\<lparr> lx_in := concat (map (escaped quote) cs) @ quote # r, lx_line := l, lx_col := k,
    lx_str := (lx_str lx)(len := c) \<rparr>"
  have step: "str_body lx len = (if len + 1 \<ge> MAX_STR - 1 then (lx1, len + 1) else str_body lx1 (len + 1))"
    using escaped_not_end [OF i] by (subst str_body.simps) (simp add: Let_def sc chr lx1_def)
  show ?case
  proof (cases "cs = []")
    case True
    have "str_body lx1 (len + 1) = (lx1, len + 1)"
      by (subst str_body.simps) (simp add: lx1_def True peek_is_def)
    with step have "str_body lx len = (lx1, len + 1)" by simp
    then show ?thesis by - (rule exI [of _ l], rule exI [of _ k], simp add: lx1_def True fun_upd_def)
  next
    case False
    then have small: "len + 1 + length cs \<le> MAX_STR - 1" "\<not> len + 1 \<ge> MAX_STR - 1"
      using Cons.prems(2) by (cases cs; simp)+
    have in1: "lx_in lx1 = concat (map (escaped quote) cs) @ quote # r" by (simp add: lx1_def)
    obtain l' k' where "str_body lx1 (len + 1)
      = (lx1\<lparr> lx_in := quote # r, lx_line := l', lx_col := k', lx_str := put (len + 1) cs (lx_str lx1) \<rparr>, len + 1 + length cs)"
      using Cons.IH [OF in1] small(1) by blast
    then show ?thesis using step small(2)
      by - (rule exI [of _ l'], rule exI [of _ k'], simp add: lx1_def)
  qed
qed

lemma str_part_escaped:
  assumes "lx_in lx = concat (map (escaped quote) cs) @ quote # r" "len + length cs \<le> MAX_STR - 1 \<or> length cs = 1"
  shows "\<exists>l k. str_part lx len
    = lx\<lparr> lx_in := r, lx_line := l, lx_col := k, lx_str := (put len cs (lx_str lx))(len + length cs := NUL), lx_str_len := len + length cs \<rparr>"
proof -
  obtain l k where b: "str_body lx len
    = (lx\<lparr> lx_in := quote # r, lx_line := l, lx_col := k, lx_str := put len cs (lx_str lx) \<rparr>, len + length cs)"
    using str_body_escaped [OF assms] by blast
  show ?thesis
    by - (rule exI [of _ l], rule exI [of _ "k + 1"], simp add: str_part_def b peek_is_def skip_char_def read_char_def bump_def)
qed

definition blank_before :: "char list \<Rightarrow> bool" where
  "blank_before r \<longleftrightarrow> (dropWhile is_blank r \<noteq> [] \<and> hd (dropWhile is_blank r) \<noteq> quote)"

lemma str_adjacent_stops: "blank_before (lx_in lx) \<Longrightarrow> str_adjacent lx = lx"
  by (subst str_adjacent.simps) (auto simp: blank_before_def Let_def peek_is_def split: list.splits)

lemma read_while_none: "\<not> peek_is P lx \<Longrightarrow> snd (read_while P lx) = lx"
  by (cases "lx_in lx") (simp_all add: read_while_def read_upto_def peek_is_def)

definition literal :: "char list" where "literal = [quote, CHR ''b'', quote]"

lemma str_adjacent_literals:
  "lx_in lx = concat (replicate n literal) @ [CHR '';''] \<Longrightarrow> lx_str_len lx = k \<Longrightarrow>
    lx_str_len (str_adjacent lx) = k + n \<and> (n > 0 \<longrightarrow> lx_str (str_adjacent lx) (k + n - 1) = CHR ''b'' \<and> lx_str (str_adjacent lx) (k + n) = NUL)"
proof (induction n arbitrary: lx k)
  case 0
  then show ?case using str_adjacent_stops [of lx] by (simp add: blank_before_def is_blank_def)
next
  case (Suc n)
  let ?r = "concat (replicate n literal) @ [CHR '';'']"
  have i: "lx_in lx = quote # CHR ''b'' # quote # ?r" using Suc.prems(1) by (simp add: literal_def)
  have "snd (read_while is_blank lx) = lx" by (rule read_while_none) (simp add: i peek_is_def is_blank_def)
  then have step: "str_adjacent lx = str_adjacent (str_part (skip_char lx) k)"
    using Suc.prems(2) by (subst str_adjacent.simps) (simp add: i peek_is_def)
  have "lx_in (skip_char lx) = concat (map (escaped quote) ''b'') @ quote # ?r" by (simp add: i escaped_def)
  then obtain l c where p: "str_part (skip_char lx) k = (skip_char lx)
      \<lparr> lx_in := ?r, lx_line := l, lx_col := c, lx_str := (put k ''b'' (lx_str (skip_char lx)))(k + length ''b'' := NUL), lx_str_len := k + length ''b'' \<rparr>"
    using str_part_escaped [of "skip_char lx" "''b''" ?r k] by auto
  let ?lx = "str_part (skip_char lx) k"
  have "lx_in ?lx = ?r" "lx_str_len ?lx = k + 1" by (simp_all add: p)
  from Suc.IH [OF this] have ih: "lx_str_len (str_adjacent ?lx) = k + 1 + n"
    "n > 0 \<Longrightarrow> lx_str (str_adjacent ?lx) (k + 1 + n - 1) = CHR ''b'' \<and> lx_str (str_adjacent ?lx) (k + 1 + n) = NUL" by blast+
  show ?case
  proof (cases "n = 0")
    case True
    have "str_adjacent ?lx = ?lx" by (rule str_adjacent_stops) (simp add: p True blank_before_def is_blank_def)
    then show ?thesis using step True by (simp add: p)
  next
    case False
    then show ?thesis using step ih by simp
  qed
qed

text \<open>C35: Adjacent literals overflow the string buffer. After a literal that fills it, every further one-character
  literal is still stored behind it: with \<open>n + 1\<close> of them the last character is written at
  \<^verbatim>\<open>tk_str[MAX_STR + n - 1]\<close> and the closing NUL at \<^verbatim>\<open>tk_str[MAX_STR + n]\<close>, past the \<^verbatim>\<open>MAX_STR\<close> characters of the
  array.\<close>

theorem adjacent_literals_overflow:
  "let lx' = next_raw dbl (lx\<lparr> lx_in := quote # replicate (MAX_STR - 1) (CHR ''a'') @ quote # concat (replicate (Suc n) literal) @ [CHR '';''] \<rparr>)
   in lx_tk lx' = TK_STR \<and> lx_str_len lx' = MAX_STR + n \<and> lx_str lx' (MAX_STR + n - 1) = CHR ''b'' \<and> lx_str lx' (MAX_STR + n) = NUL"
proof -
  let ?r = "concat (replicate (Suc n) literal) @ [CHR '';'']" and ?as = "replicate (MAX_STR - 1) (CHR ''a'')"
  define lx0 where "lx0 = lx\<lparr> lx_in := quote # ?as @ quote # ?r \<rparr>"
  define lx1 where "lx1 = mark lx0"
  have i: "lx_in lx1 = quote # ?as @ quote # ?r" by (simp add: lx1_def lx0_def mark_def)
  have "skip_space lx0 = lx0"
    unfolding skip_space_def by (rule read_while_none) (simp add: lx0_def peek_is_def is_space_def)
  then have n: "next_raw dbl lx0 = lex_string lx1"
    using i by (subst next_raw.simps) (simp add: lx1_def [symmetric] next_at_def is_digit_def)
  have esc: "concat (map (escaped quote) (replicate m (CHR ''a''))) = replicate m (CHR ''a'')" for m
    by (induction m) (simp_all add: escaped_def)
  have "lx_in (skip_char lx1) = concat (map (escaped quote) ?as) @ quote # ?r" by (simp only: esc skip_char_in i list.sel)
  from str_part_escaped [OF this, of 0] obtain l c where p: "str_part (skip_char lx1) 0 = (skip_char lx1)
      \<lparr> lx_in := ?r, lx_line := l, lx_col := c, lx_str := (put 0 ?as (lx_str (skip_char lx1)))(0 + length ?as := NUL), lx_str_len := 0 + length ?as \<rparr>"
    by auto
  define lx2 where "lx2 = (str_part (skip_char lx1) 0)\<lparr> lx_tk := TK_STR \<rparr>"
  have "lx_in lx2 = ?r" "lx_str_len lx2 = MAX_STR - 1" unfolding lx2_def p by (simp_all del: replicate.simps)
  from str_adjacent_literals [OF this] have
    "lx_str_len (str_adjacent lx2) = MAX_STR + n" "lx_str (str_adjacent lx2) (MAX_STR + n - 1) = CHR ''b''"
    "lx_str (str_adjacent lx2) (MAX_STR + n) = NUL" by (simp_all add: MAX_STR_def)
  moreover have "lx_tk (str_adjacent lx2) = TK_STR" by (simp add: lx2_def)
  ultimately show ?thesis unfolding Let_def lx0_def [symmetric] n by (simp add: lex_string_def lx2_def [symmetric])
qed

end
