(* ===== verification/LexerPrint.thy ===== *)
theory LexerPrint
  imports LexerCorrect
begin

text \<open>
  Printing tokens and reading them back. A piece is a token with its value; the printed program has a blank
  after every piece. Reading it gives the pieces and then the end of the file.
\<close>

subsection \<open>Pieces\<close>

datatype piece = PWord cstr | PNum nat bool bool | PStr cstr | PChar char | POp tk

definition op_spelling :: "(tk \<times> cstr) list" where
  "op_spelling = [
     (TK_PLUS, ''+''), (TK_MINUS, ''-''), (TK_STAR, ''*''), (TK_SLASH, ''/''), (TK_PERCENT, ''%''), (TK_AMP, ''&''),
     (TK_PIPE, ''|''), (TK_CARET, ''^''), (TK_TILDE, ''~''), (TK_BANG, ''!''), (TK_ASSIGN, ''=''), (TK_EQ, ''==''),
     (TK_NE, ''!=''), (TK_LT, ''<''), (TK_GT, ''>''), (TK_LE, ''<=''), (TK_GE, ''>=''), (TK_LAND, ''&&''),
     (TK_LOR, ''||''), (TK_SHL, ''<<''), (TK_SHR, ''>>''), (TK_INC, ''++''), (TK_DEC, ''--''), (TK_ARROW, ''->''),
     (TK_DOT, ''.''), (TK_QUESTION, ''?''), (TK_COLON, '':''), (TK_PLUS_ASSIGN, ''+=''), (TK_MINUS_ASSIGN, ''-=''),
     (TK_STAR_ASSIGN, ''*=''), (TK_SLASH_ASSIGN, ''/=''), (TK_PERCENT_ASSIGN, ''%=''), (TK_AMP_ASSIGN, ''&=''),
     (TK_PIPE_ASSIGN, ''|=''), (TK_CARET_ASSIGN, ''^=''), (TK_SHL_ASSIGN, ''<<=''), (TK_SHR_ASSIGN, ''>>=''),
     (TK_LPAREN, ''(''), (TK_RPAREN, '')''), (TK_LBRACE, ''{''), (TK_RBRACE, ''}''), (TK_LBRACKET, ''[''),
     (TK_RBRACKET, '']''), (TK_SEMI, '';''), (TK_COMMA, '',''), (TK_ELLIPSIS, ''...'')]"

fun show_dec :: "nat \<Rightarrow> cstr" where
  "show_dec n = (if n < 10 then [char_of (48 + n)] else show_dec (n div 10) @ [char_of (48 + n mod 10)])"

declare show_dec.simps [simp del]

fun show_piece :: "piece \<Rightarrow> cstr" where
  "show_piece (PWord w) = w"
| "show_piece (PNum n u l) = show_dec n @ (if u then ''U'' else []) @ (if l then ''L'' else [])"
| "show_piece (PStr s) = quote # concat (map (escaped quote) s) @ [quote]"
| "show_piece (PChar c) = apostrophe # escaped apostrophe c @ [apostrophe]"
| "show_piece (POp t) = (case map_of op_spelling t of Some s \<Rightarrow> s | None \<Rightarrow> [])"

definition show_pieces :: "piece list \<Rightarrow> cstr" where
  "show_pieces ps = concat (map (\<lambda>p. show_piece p @ '' '') ps)"

text \<open>The words the lexer handles as attributes are not tokens.\<close>

definition attribute_words :: "cstr list" where
  "attribute_words = [''__zcc_attr_packed__'', ''__attribute__'', ''__attribute'', ''__extension__'']"

fun printable :: "piece \<Rightarrow> bool" where
  "printable (PWord w) \<longleftrightarrow> w \<noteq> [] \<and> is_alpha (hd w) \<and> list_all is_alnum w \<and> length w \<le> MAX_IDENT - 1 \<and> \<not> List.member attribute_words w"
| "printable (PNum n u l) \<longleftrightarrow> n < 2 ^ 64"
| "printable (PStr s) \<longleftrightarrow> length s \<le> MAX_STR - 1"
| "printable (PChar c) \<longleftrightarrow> True"
| "printable (POp t) \<longleftrightarrow> map_of op_spelling t \<noteq> None"

fun is_str :: "piece \<Rightarrow> bool" where
  "is_str (PStr s) = True"
| "is_str _ = False"

text \<open>Adjacent literals would be read as one.\<close>

fun printables :: "piece list \<Rightarrow> bool" where
  "printables [] = True"
| "printables [p] = printable p"
| "printables (p # q # ps) \<longleftrightarrow> printable p \<and> \<not> (is_str p \<and> is_str q) \<and> printables (q # ps)"

fun kind_of :: "piece \<Rightarrow> tk" where
  "kind_of (PWord w) = (case kw_of w of Some t \<Rightarrow> t | None \<Rightarrow> TK_IDENT)"
| "kind_of (PNum n u l) = TK_NUM"
| "kind_of (PStr s) = TK_STR"
| "kind_of (PChar c) = TK_CHAR_LIT"
| "kind_of (POp t) = t"

text \<open>What the parser reads off the state at a token.\<close>

definition word_text :: "carray \<Rightarrow> cstr" where
  "word_text a = takeWhile (\<lambda>c. c \<noteq> NUL) (map a [0..<MAX_IDENT])"

definition piece_at :: "lexer \<Rightarrow> piece" where
  "piece_at lx =
     (if lx_tk lx = TK_NUM then PNum (unat (lx_val lx)) (lx_text lx 0 = CHR ''U'') (lx_text lx 1 = CHR ''L'')
      else if lx_tk lx = TK_STR then PStr (map (lx_str lx) [0..<lx_str_len lx])
      else if lx_tk lx = TK_CHAR_LIT then PChar (char_of (unat (lx_val lx)))
      else if lx_tk lx \<ge> TK_IDENT \<and> lx_tk lx \<le> TK_AUTO_TYPE then PWord (word_text (lx_text lx))
      else POp (lx_tk lx))"

abbreviation seen :: "lexer \<Rightarrow> tk \<times> piece" where
  "seen lx \<equiv> (lx_tk lx, piece_at lx)"

text \<open>A piece is read: the state after it shows the piece and is at the blank behind it, or at the end.\<close>

definition reads :: "dbl_ext \<Rightarrow> lexer \<Rightarrow> piece \<Rightarrow> char list \<Rightarrow> bool" where
  "reads dbl lx p r \<longleftrightarrow> (\<exists>lx'. next_at dbl lx = Inr lx' \<and> seen lx' = (kind_of p, p)
     \<and> (lx_in lx' = CHR '' '' # r \<or> r = [] \<and> lx_in lx' = []))"

subsection \<open>Numbers\<close>

lemma digit_char: "d < 10 \<Longrightarrow> code (char_of (48 + d)) = 48 + d"
  by simp

lemma char_zero: "char_of (48 :: nat) = CHR ''0''"
proof -
  have "of_char (CHR ''0'') = (48 :: nat)" by simp
  then show ?thesis by (metis char_of_char)
qed

lemma is_digit_of: "d < 10 \<Longrightarrow> is_digit (char_of (48 + d :: nat))"
  by (simp add: is_digit_def)

lemma show_dec_digits: "list_all is_digit (show_dec n)"
  by (induction n rule: show_dec.induct) (subst show_dec.simps, auto intro: is_digit_of)

lemma show_dec_head: "show_dec n \<noteq> [] \<and> is_digit (hd (show_dec n)) \<and> (hd (show_dec n) = CHR ''0'' \<longrightarrow> n = 0)"
proof (induction n rule: show_dec.induct)
  case (1 n)
  show ?case
  proof (cases "n < 10")
    case True
    have "char_of (48 + n) = CHR ''0'' \<Longrightarrow> n = 0"
    proof -
      assume "char_of (48 + n) = CHR ''0''"
      then have "code (char_of (48 + n)) = 48" by simp
      then show "n = 0" using digit_char [OF True] by simp
    qed
    then show ?thesis using True by (subst (1 2 3) show_dec.simps) (auto simp: is_digit_def)
  next
    case False
    have "n div 10 \<noteq> 0" using False by simp
    then show ?thesis using 1 [OF False] False by (subst (1 2 3) show_dec.simps) simp
  qed
qed

lemma digits_val_snoc: "digits_val b (ds @ [d]) = digits_val b ds * of_nat b + of_nat (case hex_val d of Some h \<Rightarrow> h | None \<Rightarrow> 0)"
  by (simp add: digits_val_def)

lemma hex_val_digit: "d < 10 \<Longrightarrow> hex_val (char_of (48 + d)) = Some d"
  by (simp add: hex_val_def)

lemma digits_val_show: "digits_val 10 (show_dec n) = (of_nat n :: u64)"
proof (induction n rule: show_dec.induct)
  case (1 n)
  show ?case
  proof (cases "n < 10")
    case True
    then show ?thesis by (subst show_dec.simps) (simp add: digits_val_def hex_val_digit)
  next
    case False
    have "digits_val 10 (show_dec n) = (of_nat (n div 10) * of_nat 10 + of_nat (n mod 10) :: u64)"
      using False 1 [OF False] by (subst show_dec.simps) (simp add: digits_val_snoc hex_val_digit del: of_nat_numeral)
    also have "\<dots> = of_nat (n div 10 * 10 + n mod 10)" by (simp only: of_nat_add of_nat_mult)
    finally show ?thesis by simp
  qed
qed

lemma read_while_fst [simp]: "fst (read_while P lx) = takeWhile P (lx_in lx)"
  by (simp add: read_while_def read_upto_def Let_def length_takeWhile_le)

lemma takeWhile_stop: "list_all P xs \<Longrightarrow> (case r of [] \<Rightarrow> True | c # _ \<Rightarrow> \<not> P c) \<Longrightarrow> takeWhile P (xs @ r) = xs"
  by (induction xs) (auto split: list.splits)

lemma dropWhile_stop: "list_all P xs \<Longrightarrow> (case r of [] \<Rightarrow> True | c # _ \<Rightarrow> \<not> P c) \<Longrightarrow> dropWhile P (xs @ r) = r"
  by (induction xs) (auto split: list.splits)

abbreviation suffix_char :: "char \<Rightarrow> bool" where
  "suffix_char c \<equiv> c = CHR ''L'' \<or> c = CHR ''l'' \<or> c = CHR ''U'' \<or> c = CHR ''u''"

definition suffix :: "bool \<Rightarrow> bool \<Rightarrow> cstr" where
  "suffix u l = (if u then ''U'' else []) @ (if l then ''L'' else [])"

lemma suffix_facts:
  "list_all suffix_char (suffix u l)"
  "list_ex (\<lambda>c. c = CHR ''U'' \<or> c = CHR ''u'') (suffix u l) = u"
  "list_ex (\<lambda>c. c = CHR ''L'' \<or> c = CHR ''l'') (suffix u l) = l"
  "case suffix u l @ CHR '' '' # r of [] \<Rightarrow> True | c # _ \<Rightarrow> \<not> is_digit c"
  "case suffix u l @ CHR '' '' # r of [] \<Rightarrow> True | c # _ \<Rightarrow> \<not> is_octal c"
  "case suffix u l @ CHR '' '' # r of [] \<Rightarrow> True | c # _ \<Rightarrow> c \<noteq> CHR ''x'' \<and> c \<noteq> CHR ''X''"
  by (simp_all add: suffix_def is_digit_def is_octal_def)

lemma float_look_skip: "list_all (\<lambda>c. is_digit c \<or> c = CHR ''U'' \<or> c = CHR ''L'') s \<Longrightarrow> \<not> float_look (s @ CHR '' '' # r)"
proof (induction s)
  case Nil
  then show ?case by (simp add: is_digit_def is_alpha_def)
next
  case (Cons c s)
  have "is_digit c \<or> c = CHR ''U'' \<or> c = CHR ''L''" using Cons.prems by simp
  moreover have "c = CHR ''.'' \<or> c = CHR ''e'' \<or> c = CHR ''E'' \<Longrightarrow> \<not> is_digit c" by (auto simp: is_digit_def)
  ultimately have "c \<noteq> CHR ''.''" "c \<noteq> CHR ''e''" "c \<noteq> CHR ''E''" "is_digit c \<or> is_alpha c"
    by (auto simp: is_digit_def is_alpha_def)
  then show ?case using Cons by simp
qed

lemma int_digits_show:
  assumes "lx_in lx = show_dec n @ suffix u l @ CHR '' '' # r"
  shows "fst (int_digits lx) = of_nat n \<and> lx_in (snd (int_digits lx)) = suffix u l @ CHR '' '' # r"
proof (cases "hd (show_dec n) = CHR ''0''")
  case True
  then have n: "n = 0" using show_dec_head [of n] by blast
  then have i: "lx_in lx = CHR ''0'' # suffix u l @ CHR '' '' # r" using assms by (subst (asm) show_dec.simps) (simp add: char_zero)
  have "\<not> peek_is (\<lambda>c. c = CHR ''x'' \<or> c = CHR ''X'') (skip_char lx)"
    using suffix_facts(6) [of u l r] by (simp add: peek_is_def i split: list.splits)
  moreover have "takeWhile is_octal ([] @ suffix u l @ CHR '' '' # r) = []" "dropWhile is_octal ([] @ suffix u l @ CHR '' '' # r) = suffix u l @ CHR '' '' # r"
    by (rule takeWhile_stop dropWhile_stop; simp add: suffix_facts(5) del: append.simps)+
  ultimately show ?thesis
    by (simp add: int_digits_def Let_def case_prod_unfold peek_is_def [of "\<lambda>c. c = CHR ''0''"] i n digits_val_def)
next
  case False
  have "\<not> peek_is (\<lambda>c. c = CHR ''0'') lx" using False show_dec_head [of n] by (cases "show_dec n") (simp_all add: peek_is_def assms)
  moreover have "takeWhile is_digit (lx_in lx) = show_dec n" "dropWhile is_digit (lx_in lx) = suffix u l @ CHR '' '' # r"
    unfolding assms by (rule takeWhile_stop dropWhile_stop; rule show_dec_digits suffix_facts(4))+
  ultimately show ?thesis by (simp add: int_digits_def Let_def case_prod_unfold digits_val_show)
qed

lemma reads_num:
  assumes "lx_in lx = show_piece (PNum n u l) @ CHR '' '' # r" "n < 2 ^ 64"
  shows "reads dbl lx (PNum n u l) r"
proof -
  have i: "lx_in lx = show_dec n @ suffix u l @ CHR '' '' # r" using assms(1) by (simp add: suffix_def)
  obtain c ds where d: "show_dec n = c # ds" "is_digit c" "c = CHR ''0'' \<Longrightarrow> n = 0" "list_all is_digit (show_dec n)"
    using show_dec_head [of n] show_dec_digits [of n] by (cases "show_dec n") auto
  have "list_all (\<lambda>c. is_digit c \<or> c = CHR ''U'' \<or> c = CHR ''L'') (show_dec n @ suffix u l)"
    using d(4) by (auto simp: list_all_iff suffix_def)
  then have fl: "\<not> float_look (lx_in lx)" using float_look_skip [of "show_dec n @ suffix u l" r] by (simp add: i)
  have num: "next_at dbl lx = Inr (lex_int lx)"
  proof -
    have "c \<noteq> CHR ''/''" "c \<noteq> CHR ''#''" using d(2) by (auto simp: is_digit_def)
    then show ?thesis using fl d(2) by (simp add: next_at_def i d(1) lex_number_def Let_def)
  qed
  obtain v lx1 where r: "int_digits lx = (v, lx1)" by (cases "int_digits lx")
  have v: "v = of_nat n" "lx_in lx1 = suffix u l @ CHR '' '' # r" using int_digits_show [OF i] r by simp_all
  have s: "takeWhile suffix_char (lx_in lx1) = suffix u l" "dropWhile suffix_char (lx_in lx1) = CHR '' '' # r"
    unfolding v(2) by (rule takeWhile_stop dropWhile_stop; simp add: suffix_facts(1))+
  have "seen (lex_int lx) = (TK_NUM, PNum n u l)" "lx_in (lex_int lx) = CHR '' '' # r"
    using assms(2) by (simp_all add: lex_int_def r case_prod_unfold Let_def s v(1) suffix_facts piece_at_def unat_of_nat take_bit_eq_mod)
  then show ?thesis using num by (simp add: reads_def)
qed

subsection \<open>Words\<close>

lemma keyword_range: "(w, t) \<in> set keyword_table \<Longrightarrow> TK_IDENT \<le> t \<and> t \<le> TK_AUTO_TYPE"
proof -
  have "list_all (\<lambda>(w, t). TK_IDENT \<le> t \<and> t \<le> TK_AUTO_TYPE) keyword_table" by code_simp
  then show "(w, t) \<in> set keyword_table \<Longrightarrow> TK_IDENT \<le> t \<and> t \<le> TK_AUTO_TYPE" by (auto simp: list_all_iff)
qed

lemma fallback_range: "(n, w, t) \<in> set fallback_table \<Longrightarrow> TK_IDENT \<le> t \<and> t \<le> TK_AUTO_TYPE"
  using fallback_entries [of n w t] keyword_range [of w t] by auto

lemma kw_of_range: "kw_of w = Some t \<Longrightarrow> TK_IDENT \<le> t \<and> t \<le> TK_AUTO_TYPE"
  using keyword_range [of w t] lookup_keyword_iff [of w t] lookup_fallback_entry [of w t] fallback_range
  by (auto simp: kw_of_def split: option.splits)

lemma word_text_of:
  assumes "length w < MAX_IDENT" "\<And>i. i < length w \<Longrightarrow> a i = w ! i" "NUL \<notin> set w" "a (length w) = NUL"
  shows "word_text a = w"
proof -
  have "[0..<MAX_IDENT] = [0..<length w] @ [length w..<MAX_IDENT]" using upt_add_eq_append [of 0 "length w" "MAX_IDENT - length w"] assms(1) by simp
  then have "map a [0..<MAX_IDENT] = map a [0..<length w] @ a (length w) # map a [Suc (length w)..<MAX_IDENT]"
    using assms(1) by (simp add: upt_conv_Cons)
  also have "map a [0..<length w] = w" using assms(2) by (intro nth_equalityI) simp_all
  finally have m: "map a [0..<MAX_IDENT] = w @ NUL # map a [Suc (length w)..<MAX_IDENT]" using assms(4) by simp
  have "list_all (\<lambda>c. c \<noteq> NUL) w" using assms(3) by (auto simp: list_all_iff)
  then show ?thesis unfolding word_text_def m by (rule takeWhile_stop) simp
qed

lemma set_word_text:
  assumes "length w \<le> MAX_IDENT - 1" "NUL \<notin> set w"
  shows "word_text (lx_text (set_word w t lx)) = w"
proof (rule word_text_of)
  have nth: "strncpy (MAX_IDENT - 1) (text_of w) f i = w ! i" if "i < length w" for i f
  proof -
    have "text_of w j \<noteq> NUL" if "j < Suc i" for j
    proof -
      have "j < length w" using that \<open>i < length w\<close> by simp
      then have "w ! j \<in> set w" by (rule nth_mem)
      then show ?thesis using assms(2) \<open>j < length w\<close> unfolding text_of_def by metis
    qed
    then have "list_ex (\<lambda>j. text_of w j = NUL) [0..<Suc i] = False" by (simp add: list_ex_iff)
    then show ?thesis using that assms(1) unfolding strncpy_def by (simp add: text_of_def)
  qed
  show "length w < MAX_IDENT" using assms(1) by (simp add: MAX_IDENT_def)
  show "lx_text (set_word w t lx) i = w ! i" if "i < length w" for i
    using nth [OF that] that assms(1) by (simp add: set_word_def)
  show "lx_text (set_word w t lx) (length w) = NUL"
    by (simp add: set_word_def strncpy_def text_of_def list_ex_iff) (use assms(1) in force)
qed (rule assms(2))

lemma read_upto_all:
  assumes "lx_in lx = w @ CHR '' '' # r" "list_all is_alnum w" "length w \<le> n"
  shows "fst (read_upto n is_alnum lx) = w \<and> lx_in (snd (read_upto n is_alnum lx)) = CHR '' '' # r"
proof -
  have "takeWhile is_alnum (lx_in lx) = w"
    unfolding assms(1) by (rule takeWhile_stop [OF assms(2)]) (simp add: is_alnum_def is_alpha_def is_digit_def)
  then show ?thesis using assms by (simp add: read_upto_def Let_def)
qed

lemma reads_word:
  assumes i: "lx_in lx = w @ CHR '' '' # r" and p: "printable (PWord w)"
  shows "reads dbl lx (PWord w) r"
proof -
  obtain c cs where w: "w = c # cs" "is_alpha c" using p by (cases w) simp_all
  have nul: "NUL \<notin> set w" using p by (auto simp: list_all_iff is_alnum_def is_alpha_def is_digit_def)
  have len: "length w \<le> MAX_IDENT - 1" using p by simp
  have "\<not> is_digit c" "c \<noteq> CHR ''/''" "c \<noteq> CHR ''#''" "c \<noteq> apostrophe" "c \<noteq> quote" using w(2) by (auto simp: is_alpha_def is_digit_def)
  then have n: "next_at dbl lx = lex_word lx" using w(2) by (simp add: next_at_def i w(1))
  obtain ds lx1 where r: "read_upto (MAX_IDENT - 1) is_alnum lx = (ds, lx1)" by (cases "read_upto (MAX_IDENT - 1) is_alnum lx")
  have "list_all is_alnum w" using p by simp
  from read_upto_all [OF i this len] have ds: "ds = w" "lx_in lx1 = CHR '' '' # r" unfolding r by simp_all
  have "lex_word lx = Inr (set_word w (kind_of (PWord w)) lx1)"
  proof (cases "kw_of w")
    case None
    have "\<not> List.member attribute_words w" using p by simp
    then have "w \<noteq> ''__zcc_attr_packed__''" "w \<noteq> ''__attribute__''" "w \<noteq> ''__attribute''" "w \<noteq> ''__extension__''"
      by (auto simp: attribute_words_def)
    then show ?thesis using None unfolding lex_word_def r ds(1) by simp
  qed (unfold lex_word_def r ds(1), simp)
  moreover have "TK_IDENT \<le> kind_of (PWord w) \<and> kind_of (PWord w) \<le> TK_AUTO_TYPE"
    using kw_of_range [of w] by (auto split: option.splits)
  then have "seen (set_word w (kind_of (PWord w)) lx1) = (kind_of (PWord w), PWord w)"
    using set_word_text [OF len nul, of "kind_of (PWord w)" lx1] by (simp add: piece_at_def set_word_def del: kind_of.simps)
  ultimately show ?thesis using n ds(2) unfolding reads_def
    by (intro exI [of _ "set_word w (kind_of (PWord w)) lx1"] conjI) (simp_all del: kind_of.simps)
qed

subsection \<open>Characters and strings\<close>

lemma byte_value: "char_of (unat (scast (of_nat (code c) :: u32) :: u64)) = c"
proof -
  have "list_all (\<lambda>k. unat (scast (of_nat k :: u32) :: u64) = k) [0..<256]" by code_simp
  then have "unat (scast (of_nat (code c) :: u32) :: u64) = code c" by (simp add: list_all_iff)
  then show ?thesis by simp
qed

lemma reads_char:
  assumes i: "lx_in lx = show_piece (PChar c) @ CHR '' '' # r"
  shows "reads dbl lx (PChar c) r"
proof -
  have n: "next_at dbl lx = Inr (lex_char lx)" by (simp add: next_at_def i is_digit_def)
  have "lx_in (skip_char lx) = escaped apostrophe c @ apostrophe # CHR '' '' # r" by (simp add: i)
  from scan_escaped [OF _ this] obtain l k where
    s: "(if peek_is (\<lambda>c. c = backslash) (skip_char lx) then read_escape (skip_char (skip_char lx)) else read_char (skip_char lx))
      = (of_nat (code c), (skip_char lx)\<lparr> lx_in := apostrophe # CHR '' '' # r, lx_line := l, lx_col := k \<rparr>)" by blast
  have "lex_char lx = (skip_char ((skip_char lx)\<lparr> lx_in := apostrophe # CHR '' '' # r, lx_line := l, lx_col := k \<rparr>))
      \<lparr> lx_tk := TK_CHAR_LIT, lx_val := scast (of_nat (code c) :: u32) \<rparr>"
    unfolding lex_char_def Let_def s by (simp add: peek_is_def)
  then have "seen (lex_char lx) = (TK_CHAR_LIT, PChar c)" "lx_in (lex_char lx) = CHR '' '' # r"
    by (simp_all add: piece_at_def byte_value)
  then show ?thesis using n by (simp add: reads_def)
qed

lemma str_adjacent_end:
  assumes "lx_in lx = '' ''"
  shows "lx_str (str_adjacent lx) = lx_str lx \<and> lx_str_len (str_adjacent lx) = lx_str_len lx \<and> lx_in (str_adjacent lx) = []"
  by (subst (1 2 3) str_adjacent.simps)
    (simp add: read_while_def read_upto_def assms is_blank_def bump_def)

lemma reads_str:
  assumes i: "lx_in lx = show_piece (PStr s) @ CHR '' '' # r" and len: "length s \<le> MAX_STR - 1"
    and r: "r = [] \<or> blank_before r"
  shows "reads dbl lx (PStr s) r"
proof -
  have n: "next_at dbl lx = Inr (lex_string lx)" by (simp add: next_at_def i is_digit_def)
  have "lx_in (skip_char lx) = concat (map (escaped quote) s) @ quote # CHR '' '' # r" by (simp add: i)
  from str_part_escaped [OF this, of 0] len obtain l k where
    p: "str_part (skip_char lx) 0 = (skip_char lx)\<lparr> lx_in := CHR '' '' # r, lx_line := l, lx_col := k,
      lx_str := (put 0 s (lx_str (skip_char lx)))(0 + length s := NUL), lx_str_len := 0 + length s \<rparr>" by auto
  define lx1 where "lx1 = (str_part (skip_char lx) 0)\<lparr> lx_tk := TK_STR \<rparr>"
  have in1: "lx_in lx1 = CHR '' '' # r" and len1: "lx_str_len lx1 = length s" by (simp_all add: lx1_def p)
  have str1: "map (lx_str lx1) [0..<length s] = s"
    by (rule nth_equalityI) (use put_nth [of _ s 0] in \<open>simp_all add: lx1_def p\<close>)
  have adj: "lx_str (str_adjacent lx1) = lx_str lx1 \<and> lx_str_len (str_adjacent lx1) = lx_str_len lx1
      \<and> (lx_in (str_adjacent lx1) = CHR '' '' # r \<or> r = [] \<and> lx_in (str_adjacent lx1) = [])"
  proof (cases "r = []")
    case True
    then show ?thesis using str_adjacent_end [of lx1] in1 by simp
  next
    case False
    then have "blank_before (lx_in lx1)" using r by (simp add: in1 blank_before_def is_blank_def)
    from str_adjacent_stops [OF this] show ?thesis using in1 by simp
  qed
  have "lex_string lx = str_adjacent lx1" by (simp add: lex_string_def lx1_def)
  moreover have "seen (str_adjacent lx1) = (TK_STR, PStr s)"
    using adj str1 len1 by (simp add: piece_at_def lx1_def [symmetric]) (simp add: lx1_def)
  ultimately show ?thesis using n adj unfolding reads_def by auto
qed

subsection \<open>Operators\<close>

text \<open>What a printed operator starts with, and that it is the longest one at its place.\<close>

definition op_entry_ok :: "char list \<Rightarrow> tk \<times> cstr \<Rightarrow> bool" where
  "op_entry_ok r e = (case e of (t, s) \<Rightarrow>
     s \<noteq> [] \<and> op_token (hd s) (tl s @ CHR '' '' # r) = Some (t, length (tl s))
     \<and> \<not> (hd s = CHR ''/'' \<and> tl s \<noteq> [] \<and> (hd (tl s) = CHR ''/'' \<or> hd (tl s) = CHR ''*''))
     \<and> hd s \<noteq> CHR ''#'' \<and> \<not> is_digit (hd s) \<and> hd s \<noteq> apostrophe \<and> hd s \<noteq> quote \<and> \<not> is_alpha (hd s)
     \<and> (tl s = [] \<or> \<not> is_digit (hd (tl s)))
     \<and> \<not> is_space (hd s) \<and> hd s \<noteq> newline)"

lemma op_entries: "list_all (op_entry_ok r) op_spelling"
  unfolding op_spelling_def
  by (simp add: op_entry_ok_def op_token_def is_digit_def is_alpha_def is_space_def)

lemma reads_op:
  assumes i: "lx_in lx = show_piece (POp t) @ CHR '' '' # r" and p: "map_of op_spelling t = Some s"
  shows "reads dbl lx (POp t) r"
proof -
  have e: "op_entry_ok r (t, s)" using op_entries [of r] map_of_SomeD [OF p] by (auto simp: list_all_iff)
  obtain c cs where s: "s = c # cs" using e by (cases s) (auto simp: op_entry_ok_def)
  have i2: "lx_in lx = c # cs @ CHR '' '' # r" using i p s by simp
  have "next_at dbl lx = lex_op dbl lx"
    using e s by (cases cs) (auto simp: next_at_def i2 op_entry_ok_def)
  moreover have "lex_op dbl lx = Inr ((skip_char ^^ length cs) (skip_char lx)\<lparr> lx_tk := t \<rparr>)"
  proof -
    have "\<not> peek_is is_digit (skip_char lx)" using e s by (cases cs) (auto simp: peek_is_def i2 op_entry_ok_def is_digit_def)
    then show ?thesis using e s by (simp add: lex_op_def Let_def i2 op_entry_ok_def)
  qed
  moreover have "t > TK_AUTO_TYPE" using map_of_SomeD [OF p] by (auto simp: op_spelling_def)
  ultimately show ?thesis unfolding reads_def
    by (intro exI [of _ "(skip_char ^^ length cs) (skip_char lx)\<lparr> lx_tk := t \<rparr>"] conjI) (simp_all add: piece_at_def i2)
qed

subsection \<open>Programs\<close>

lemma piece_head:
  assumes "printable p"
  shows "\<exists>c cs. show_piece p = c # cs \<and> \<not> is_space c \<and> c \<noteq> newline \<and> (c = quote \<longleftrightarrow> is_str p)"
proof (cases p)
  case (PWord w)
  then show ?thesis using assms by (cases w) (auto simp: is_alpha_def is_space_def)
next
  case (PNum n u l)
  then show ?thesis using show_dec_head [of n] by (cases "show_dec n") (auto simp: is_digit_def is_space_def)
next
  case (POp t)
  then obtain s where s: "map_of op_spelling t = Some s" using assms by auto
  have "op_entry_ok [] (t, s)" using op_entries [of "[]"] map_of_SomeD [OF s] by (auto simp: list_all_iff)
  then show ?thesis using POp s by (cases s) (auto simp: op_entry_ok_def)
qed (simp_all add: is_space_def)

lemma reads_piece:
  assumes "lx_in lx = show_piece p @ CHR '' '' # r" "printable p" "is_str p \<Longrightarrow> r = [] \<or> blank_before r"
  shows "reads dbl lx p r"
proof (cases p)
  case (PWord w)
  then show ?thesis using assms reads_word [of lx w r dbl] by simp
next
  case (PNum n u l)
  then show ?thesis using assms reads_num [of lx n u l r dbl] by (simp del: show_piece.simps)
next
  case (PStr s)
  then show ?thesis using assms reads_str [of lx s r dbl] by (simp del: show_piece.simps)
next
  case (PChar c)
  then show ?thesis using assms reads_char [of lx c r dbl] by (simp del: show_piece.simps)
next
  case (POp t)
  then obtain s where "map_of op_spelling t = Some s" using assms(2) by auto
  then show ?thesis using POp assms reads_op [of lx t r s dbl] by (simp del: show_piece.simps)
qed

lemma kind_not_eof: "printable p \<Longrightarrow> kind_of p \<noteq> TK_EOF"
  by (cases p) (auto simp: op_spelling_def dest: kw_of_not_eof split: option.splits if_splits)

abbreviation white :: "char \<Rightarrow> bool" where "white c \<equiv> c = newline \<or> is_space c"

lemma next_raw_reads:
  assumes w: "dropWhile white (lx_in lx) = show_piece p @ CHR '' '' # r" and p: "printable p"
    and r: "is_str p \<Longrightarrow> r = [] \<or> blank_before r"
  shows "seen (next_raw dbl lx) = (kind_of p, p) \<and> (lx_in (next_raw dbl lx) = CHR '' '' # r \<or> r = [] \<and> lx_in (next_raw dbl lx) = [])"
proof -
  have "lx_in (mark (skip_space lx)) = show_piece p @ CHR '' '' # r" by (simp add: mark_def skip_space_def w)
  from reads_piece [OF this p r] obtain lx' where "next_at dbl (mark (skip_space lx)) = Inr lx'" "seen lx' = (kind_of p, p)"
    "lx_in lx' = CHR '' '' # r \<or> r = [] \<and> lx_in lx' = []" unfolding reads_def by blast
  moreover from this(1) have "next_raw dbl lx = lx'" by (subst next_raw.simps) simp
  ultimately show ?thesis by simp
qed

lemma show_pieces_white: "printables ps \<Longrightarrow> dropWhile white (show_pieces ps) = show_pieces ps"
proof (cases ps)
  case (Cons p qs)
  assume "printables ps"
  then have "printable p" using Cons by (cases qs) simp_all
  from piece_head [OF this] show ?thesis by (auto simp: show_pieces_def Cons)
qed (simp add: show_pieces_def)

lemma show_pieces_blank:
  assumes "printables (p # ps)" "is_str p"
  shows "show_pieces ps = [] \<or> blank_before (show_pieces ps)"
proof (cases ps)
  case (Cons q qs)
  then have "printable q" "\<not> is_str q" using assms by (cases qs; simp)+
  from piece_head [OF this(1)] this(2) obtain c cs where "show_piece q = c # cs" "\<not> is_blank c" "c \<noteq> quote"
    by (auto simp: is_blank_def is_space_def)
  then show ?thesis by (simp add: show_pieces_def Cons blank_before_def)
qed (simp add: show_pieces_def)

lemma lex_all_reads:
  "printables ps \<Longrightarrow> dropWhile white (lx_in lx) = show_pieces ps \<Longrightarrow>
    map seen (lex_all dbl lx) = map (\<lambda>p. (kind_of p, p)) ps @ [(TK_EOF, POp TK_EOF)]"
proof (induction ps arbitrary: lx)
  case Nil
  then have "lx_in (mark (skip_space lx)) = []" by (simp add: mark_def skip_space_def show_pieces_def)
  then have "lx_tk (next_raw dbl lx) = TK_EOF" by (subst next_raw.simps) (simp add: next_at_def)
  then show ?case by (subst lex_all.simps) (simp add: piece_at_def)
next
  case (Cons p ps)
  have p: "printable p" and ps: "printables ps" using Cons.prems(1) by (cases ps; simp)+
  have w: "dropWhile white (lx_in lx) = show_piece p @ CHR '' '' # show_pieces ps"
    using Cons.prems(2) by (simp add: show_pieces_def)
  from next_raw_reads [OF w p, of dbl] show_pieces_blank [OF Cons.prems(1)]
  have n: "seen (next_raw dbl lx) = (kind_of p, p)"
    and i: "lx_in (next_raw dbl lx) = CHR '' '' # show_pieces ps \<or> show_pieces ps = [] \<and> lx_in (next_raw dbl lx) = []" by blast+
  have "dropWhile white (lx_in (next_raw dbl lx)) = show_pieces ps"
    using i show_pieces_white [OF ps] by (auto simp: is_space_def)
  from Cons.IH [OF ps this] have ih: "map seen (lex_all dbl (next_raw dbl lx)) = map (\<lambda>p. (kind_of p, p)) ps @ [(TK_EOF, POp TK_EOF)]" .
  have "lex_all dbl lx = next_raw dbl lx # lex_all dbl (next_raw dbl lx)"
    using n kind_not_eof [OF p] by (subst lex_all.simps) (simp add: Let_def)
  then show ?case using ih n by simp
qed

text \<open>C33: Printing and reading back is the identity: a program printed from words, numbers below 2^64 with their
  suffixes, character and string literals of any bytes and operators, with a blank after each and no two string
  literals side by side, is read as exactly these tokens with these values, and then the end of the file.\<close>

theorem lex_print_roundtrip:
  assumes "printables ps"
  shows "map seen (lex_all dbl (lx\<lparr> lx_in := show_pieces ps \<rparr>)) = map (\<lambda>p. (kind_of p, p)) ps @ [(TK_EOF, POp TK_EOF)]"
  by (rule lex_all_reads [OF assms]) (simp add: show_pieces_white [OF assms])

definition sample :: "piece list" where
  "sample = [PWord ''long'', PWord ''x'', POp TK_ASSIGN, POp TK_LPAREN, PNum 10 True True, POp TK_RPAREN, POp TK_SHL_ASSIGN,
     PChar apostrophe, POp TK_COMMA, PStr [quote, CHR ''a'', backslash, newline], POp TK_SEMI]"

definition sample_lexer :: lexer where
  "sample_lexer = \<lparr> lx_in = [], lx_line = 1, lx_col = 1, lx_tk = 0, lx_val = 0, lx_fval = 0, lx_text = (\<lambda>_. NUL), lx_str = (\<lambda>_. NUL),
     lx_str_len = 0, lx_tk_line = 0, lx_tk_col = 0, lx_has_peek = False, pk_tk = 0, pk_val = 0, pk_text = (\<lambda>_. NUL),
     pk_str = (\<lambda>_. NUL), pk_str_len = 0, pk_line = 0, pk_col = 0, lx_packed = False, lx_aligned = 0, lx_errors = 0 \<rparr>"

theorem lex_print_roundtrip_witness:
  "map seen (lex_all (\<lambda>_. 0) (sample_lexer\<lparr> lx_in := show_pieces sample \<rparr>))
    = [(TK_LONG, PWord ''long''), (TK_IDENT, PWord ''x''), (TK_ASSIGN, POp TK_ASSIGN), (TK_LPAREN, POp TK_LPAREN),
       (TK_NUM, PNum 10 True True), (TK_RPAREN, POp TK_RPAREN), (TK_SHL_ASSIGN, POp TK_SHL_ASSIGN),
       (TK_CHAR_LIT, PChar apostrophe), (TK_COMMA, POp TK_COMMA), (TK_STR, PStr [quote, CHR ''a'', backslash, newline]),
       (TK_SEMI, POp TK_SEMI), (TK_EOF, POp TK_EOF)]"
proof -
  have p: "printables sample"
    by (simp add: sample_def op_spelling_def attribute_words_def is_alnum_def is_alpha_def MAX_STR_def MAX_IDENT_def)
  have "kw_of ''long'' = Some TK_LONG" "kw_of ''x'' = None" by code_simp+
  then have "map (\<lambda>p. (kind_of p, p)) sample @ [(TK_EOF, POp TK_EOF)]
    = [(TK_LONG, PWord ''long''), (TK_IDENT, PWord ''x''), (TK_ASSIGN, POp TK_ASSIGN), (TK_LPAREN, POp TK_LPAREN),
       (TK_NUM, PNum 10 True True), (TK_RPAREN, POp TK_RPAREN), (TK_SHL_ASSIGN, POp TK_SHL_ASSIGN),
       (TK_CHAR_LIT, PChar apostrophe), (TK_COMMA, POp TK_COMMA), (TK_STR, PStr [quote, CHR ''a'', backslash, newline]),
       (TK_SEMI, POp TK_SEMI), (TK_EOF, POp TK_EOF)]" by (simp add: sample_def)
  with lex_print_roundtrip [OF p] show ?thesis by (rule trans)
qed

end
