(* ===== verification/Arena.thy ===== *)
theory Arena
  imports Prelude
begin

text \<open>
  The allocator of the C front end (\<^verbatim>\<open>cc_alloc\<close> in \<^verbatim>\<open>part2.c\<close>). The arena is the list of its blocks, each with
  the position of the next free byte and its capacity; an address is a block and an offset in it. Leaving the
  program when there are too many blocks is \<open>None\<close>. Sizes are those of records and of strings of the source,
  far below the range of \<^verbatim>\<open>int\<close>, and are numbers.
\<close>

definition ARENA_SIZE :: nat where "ARENA_SIZE = 536870912"

record ablock =
  ab_pos :: nat
  ab_cap :: nat

record arena =
  ar_blocks :: "ablock list"
  ar_block_count :: nat

definition arena_init :: arena where
  "arena_init = \<lparr> ar_blocks = [\<lparr> ab_pos = 0, ab_cap = ARENA_SIZE \<rparr>], ar_block_count = 0 \<rparr>"

definition round8 :: "nat \<Rightarrow> nat" where
  "round8 sz = (sz + 7) div 8 * 8"

text \<open>The walk along the blocks: the index and offset of the memory, and the blocks after it. A block that is
  added is large enough and the walk stops there.\<close>

definition new_cap :: "nat \<Rightarrow> nat" where
  "new_cap sz = (if sz > ARENA_SIZE then sz * 2 else ARENA_SIZE)"

fun walk :: "nat \<Rightarrow> nat \<Rightarrow> ablock list \<Rightarrow> nat \<Rightarrow> (nat \<times> nat \<times> ablock list \<times> nat) option" where
  "walk sz i [] count =
     (if count \<ge> 8192 then None
      else Some (i, 0, [\<lparr> ab_pos = sz, ab_cap = new_cap sz \<rparr>], count + 1))"
| "walk sz i (b # bs) count =
     (if ab_pos b + sz \<le> ab_cap b then Some (i, ab_pos b, b\<lparr> ab_pos := ab_pos b + sz \<rparr> # bs, count)
      else map_option (\<lambda>(k, off, bs', count'). (k, off, b # bs', count')) (walk sz (Suc i) bs count))"

definition cc_alloc :: "arena \<Rightarrow> nat \<Rightarrow> ((nat \<times> nat) \<times> arena) option" where
  "cc_alloc a sz =
     map_option (\<lambda>(k, off, bs, count). ((k, off), \<lparr> ar_blocks = bs, ar_block_count = count \<rparr>))
       (walk (round8 sz) 0 (ar_blocks a) (ar_block_count a))"

text \<open>The copy of a string takes its characters and the final NUL.\<close>

definition cc_strdup :: "arena \<Rightarrow> cstr \<Rightarrow> ((nat \<times> nat) \<times> arena) option" where
  "cc_strdup a s = cc_alloc a (length s + 1)"

text \<open>A sequence of requests, up to the one at which the program stops: the memory given out, as block, offset
  and rounded size, and the arena at the end.\<close>

type_synonym region = "nat \<times> nat \<times> nat"

fun alloc_all :: "arena \<Rightarrow> nat list \<Rightarrow> region list \<times> arena" where
  "alloc_all a [] = ([], a)"
| "alloc_all a (s # ss) =
     (case cc_alloc a s of None \<Rightarrow> ([], a)
      | Some ((k, off), a') \<Rightarrow> (let (rs, a'') = alloc_all a' ss in ((k, off, round8 s) # rs, a'')))"

definition inside :: "ablock list \<Rightarrow> region \<Rightarrow> bool" where
  "inside bs r = (case r of (k, off, n) \<Rightarrow> k < length bs \<and> off + n \<le> ab_pos (bs ! k) \<and> ab_pos (bs ! k) \<le> ab_cap (bs ! k) \<and> off mod 8 = 0)"

definition apart :: "region \<Rightarrow> region \<Rightarrow> bool" where
  "apart r s = (case (r, s) of ((k, off, n), (k', off', n')) \<Rightarrow> k \<noteq> k' \<or> off + n \<le> off' \<or> off' + n' \<le> off)"

fun all_apart :: "region list \<Rightarrow> bool" where
  "all_apart [] = True"
| "all_apart (r # rs) \<longleftrightarrow> list_all (apart r) rs \<and> all_apart rs"

subsection \<open>One request\<close>

text \<open>The blocks only grow: their positions increase, their capacities stay.\<close>

definition blocks_le :: "ablock list \<Rightarrow> ablock list \<Rightarrow> bool" where
  "blocks_le bs bs' \<longleftrightarrow> length bs \<le> length bs'
     \<and> list_all2 (\<lambda>b b'. ab_pos b \<le> ab_pos b' \<and> ab_cap b' = ab_cap b) bs (take (length bs) bs')"

definition block_ok :: "ablock \<Rightarrow> bool" where
  "block_ok b \<longleftrightarrow> ab_pos b \<le> ab_cap b \<and> ab_pos b mod 8 = 0"

lemma blocks_le_refl [simp]: "blocks_le bs bs"
  by (simp add: blocks_le_def list_all2_refl)

lemma blocks_le_Cons [simp]:
  "blocks_le (b # bs) (b' # bs') \<longleftrightarrow> ab_pos b \<le> ab_pos b' \<and> ab_cap b' = ab_cap b \<and> blocks_le bs bs'"
  by (auto simp: blocks_le_def)

lemma blocks_le_nth: "blocks_le bs bs' \<Longrightarrow> k < length bs \<Longrightarrow> k < length bs' \<and> ab_pos (bs ! k) \<le> ab_pos (bs' ! k)"
  by (auto simp: blocks_le_def list_all2_conv_all_nth)

lemma blocks_le_trans: "blocks_le a b \<Longrightarrow> blocks_le b c \<Longrightarrow> blocks_le a c"
  by (auto simp: blocks_le_def list_all2_conv_all_nth) (meson le_trans less_le_trans)

lemma new_cap_enough: "sz \<le> new_cap sz" by (simp add: new_cap_def)

lemma walk_spec:
  "walk sz i bs count = Some (k, off, bs', count') \<Longrightarrow> list_all block_ok bs \<Longrightarrow> sz mod 8 = 0 \<Longrightarrow>
    i \<le> k \<and> k - i < length bs' \<and> off + sz = ab_pos (bs' ! (k - i)) \<and> off mod 8 = 0
    \<and> list_all block_ok bs' \<and> blocks_le bs bs' \<and> (k - i < length bs \<longrightarrow> ab_pos (bs ! (k - i)) = off)"
proof (induction sz i bs count arbitrary: k off bs' count' rule: walk.induct)
  case (1 sz i count)
  then show ?case by (auto simp: block_ok_def new_cap_enough blocks_le_def split: if_splits)
next
  case (2 sz i b bs count)
  show ?case
  proof (cases "ab_pos b + sz \<le> ab_cap b")
    case True
    then show ?thesis using 2(2,3,4) by (auto simp: block_ok_def mod_add_eq [symmetric])
  next
    case False
    then obtain bs0 where w: "walk sz (Suc i) bs count = Some (k, off, bs0, count')" "bs' = b # bs0"
      using 2(2) by auto
    from 2(1) [OF False w(1)] 2(3,4) have ih: "Suc i \<le> k" "k - Suc i < length bs0" "off + sz = ab_pos (bs0 ! (k - Suc i))"
      "off mod 8 = 0" "list_all block_ok bs0" "blocks_le bs bs0" "k - Suc i < length bs \<Longrightarrow> ab_pos (bs ! (k - Suc i)) = off" by simp_all
    have "k - i = Suc (k - Suc i)" using ih(1) by simp
    then show ?thesis using ih w(2) 2(3) by simp
  qed
qed

lemma round8_mod: "round8 s mod 8 = 0" by (simp add: round8_def)

lemma cc_alloc_spec:
  assumes "cc_alloc a s = Some ((k, off), a')" "list_all block_ok (ar_blocks a)"
  shows "inside (ar_blocks a') (k, off, round8 s) \<and> list_all block_ok (ar_blocks a') \<and> blocks_le (ar_blocks a) (ar_blocks a')
    \<and> (k < length (ar_blocks a) \<longrightarrow> ab_pos (ar_blocks a ! k) = off)"
proof -
  obtain bs count where w: "walk (round8 s) 0 (ar_blocks a) (ar_block_count a) = Some (k, off, bs, count)"
    "a' = \<lparr> ar_blocks = bs, ar_block_count = count \<rparr>" using assms(1) by (auto simp: cc_alloc_def)
  from walk_spec [OF w(1) assms(2) round8_mod] show ?thesis
    by (auto simp: w(2) inside_def block_ok_def list_all_length)
qed

lemma inside_mono: "inside bs r \<Longrightarrow> blocks_le bs bs' \<Longrightarrow> list_all block_ok bs' \<Longrightarrow> inside bs' r"
  using blocks_le_nth [of bs bs'] by (force simp: inside_def block_ok_def list_all_length split: prod.splits)

text \<open>What lies below the positions of the blocks is never given out again.\<close>

lemma alloc_all_spec:
  "list_all block_ok (ar_blocks a) \<Longrightarrow> alloc_all a ss = (rs, a') \<Longrightarrow>
    list_all block_ok (ar_blocks a') \<and> blocks_le (ar_blocks a) (ar_blocks a') \<and> list_all (inside (ar_blocks a')) rs \<and> all_apart rs
    \<and> (\<forall>r. inside (ar_blocks a) r \<longrightarrow> list_all (apart r) rs)"
proof (induction a ss arbitrary: rs a' rule: alloc_all.induct)
  case (2 a s ss)
  show ?case
  proof (cases "cc_alloc a s")
    case None
    then show ?thesis using 2(2,3) by simp
  next
    case (Some p)
    obtain k off a1 where p: "p = ((k, off), a1)" by (metis surj_pair)
    obtain rs1 where r: "alloc_all a1 ss = (rs1, a')" "rs = (k, off, round8 s) # rs1"
      using 2(3) Some p by (auto split: prod.splits)
    from cc_alloc_spec [OF Some [unfolded p] 2(2)] have c: "inside (ar_blocks a1) (k, off, round8 s)"
      "list_all block_ok (ar_blocks a1)" "blocks_le (ar_blocks a) (ar_blocks a1)"
      "k < length (ar_blocks a) \<Longrightarrow> ab_pos (ar_blocks a ! k) = off" by blast+
    from 2(1) [OF Some, of "(k, off)" a1 k off rs1 a'] c(2) r(1) p have ih: "list_all block_ok (ar_blocks a')" "blocks_le (ar_blocks a1) (ar_blocks a')"
      "list_all (inside (ar_blocks a')) rs1" "all_apart rs1" "\<And>r. inside (ar_blocks a1) r \<Longrightarrow> list_all (apart r) rs1" by (simp_all del: split_paired_All)
    have new: "apart r (k, off, round8 s)" if "inside (ar_blocks a) r" for r
      using that c(4) by (cases r) (auto simp: inside_def apart_def)
    show ?thesis
      using ih c inside_mono [OF c(1) ih(2,1)] new inside_mono [OF _ c(3,2)] blocks_le_trans [OF c(3) ih(2)] r(2) by auto
  qed
qed simp


end
