(* ===== verification/CTypes.thy ===== *)
theory CTypes
  imports Prelude
begin

text \<open>
  The types of the C front end (\<^verbatim>\<open>part1.c\<close>, \<^verbatim>\<open>part2.c\<close>) and the layout of structures and unions (\<^verbatim>\<open>part3.c\<close>). A type is
  an entry of the store \<open>tstore\<close> and a pointer to a type an index into it, \<open>None\<close> for a null pointer. Sizes,
  alignments and offsets are C ints: integers wrapped into 32 bits. The declarators of a body are given as the
  parser delivers them, with their names and types.
\<close>

unbundle bit_operations_syntax

subsection \<open>C ints\<close>

definition s32 :: "int \<Rightarrow> int" where
  "s32 x = (x + 2147483648) mod 4294967296 - 2147483648"

lemma s32_id [simp]: "- 2147483648 \<le> x \<Longrightarrow> x < 2147483648 \<Longrightarrow> s32 x = x"
  by (simp add: s32_def)

subsection \<open>Types\<close>

datatype ty_kind = TY_VOID | TY_CHAR | TY_UCHAR | TY_SHORT | TY_USHORT | TY_INT | TY_UINT | TY_LONG | TY_ULONG
  | TY_LONGLONG | TY_ULONGLONG | TY_FLOAT | TY_DOUBLE | TY_PTR | TY_ARRAY | TY_FUNC | TY_STRUCT | TY_UNION | TY_ENUM

type_synonym tptr = "nat option"

record field =
  fl_name :: cstr
  fl_type :: tptr
  fl_offset :: int

record ctype =
  ct_kind :: ty_kind
  ct_size :: int
  ct_align :: int
  ct_base :: tptr
  ct_array_len :: int
  ct_ret :: tptr
  ct_tag :: cstr
  ct_fields :: "field list"
  ct_complete :: bool
  ct_tbfp :: bool

type_synonym tstore = "ctype list"

definition base_size :: "ty_kind \<Rightarrow> int \<times> int" where
  "base_size k =
     (case k of TY_VOID \<Rightarrow> (0, 1) | TY_CHAR \<Rightarrow> (1, 1) | TY_UCHAR \<Rightarrow> (1, 1) | TY_SHORT \<Rightarrow> (2, 2) | TY_USHORT \<Rightarrow> (2, 2)
      | TY_INT \<Rightarrow> (4, 4) | TY_UINT \<Rightarrow> (4, 4) | TY_LONG \<Rightarrow> (8, 8) | TY_ULONG \<Rightarrow> (8, 8) | TY_LONGLONG \<Rightarrow> (8, 8)
      | TY_ULONGLONG \<Rightarrow> (8, 8) | TY_FLOAT \<Rightarrow> (4, 4) | TY_DOUBLE \<Rightarrow> (8, 8) | TY_PTR \<Rightarrow> (8, 8) | TY_ENUM \<Rightarrow> (4, 4)
      | TY_ARRAY \<Rightarrow> (0, 1) | TY_FUNC \<Rightarrow> (0, 1) | TY_STRUCT \<Rightarrow> (0, 1) | TY_UNION \<Rightarrow> (0, 1))"

definition fresh_type :: "ty_kind \<Rightarrow> ctype" where
  "fresh_type k = \<lparr> ct_kind = k, ct_size = fst (base_size k), ct_align = snd (base_size k), ct_base = None, ct_array_len = 0,
     ct_ret = None, ct_tag = [], ct_fields = [], ct_complete = False, ct_tbfp = False \<rparr>"

definition type_new :: "tstore \<Rightarrow> ty_kind \<Rightarrow> nat \<times> tstore" where
  "type_new ts k = (length ts, ts @ [fresh_type k])"

definition type_size :: "tstore \<Rightarrow> tptr \<Rightarrow> int" where
  "type_size ts t = (case t of None \<Rightarrow> 8 | Some i \<Rightarrow> ct_size (ts ! i))"

definition type_align :: "tstore \<Rightarrow> tptr \<Rightarrow> int" where
  "type_align ts t = (case t of None \<Rightarrow> 8 | Some i \<Rightarrow> ct_align (ts ! i))"

definition type_ptr :: "tstore \<Rightarrow> tptr \<Rightarrow> nat \<times> tstore" where
  "type_ptr ts b = (length ts, ts @ [(fresh_type TY_PTR)\<lparr> ct_base := b \<rparr>])"

definition type_array :: "tstore \<Rightarrow> tptr \<Rightarrow> int \<Rightarrow> nat \<times> tstore" where
  "type_array ts b len =
     (length ts, ts @ [(fresh_type TY_ARRAY)\<lparr> ct_base := b, ct_array_len := len, ct_size := s32 (type_size ts b * len), ct_align := type_align ts b \<rparr>])"

definition type_func :: "tstore \<Rightarrow> tptr \<Rightarrow> nat \<times> tstore" where
  "type_func ts r = (length ts, ts @ [(fresh_type TY_FUNC)\<lparr> ct_ret := r, ct_size := 8, ct_align := 8 \<rparr>])"

definition has_kind :: "tstore \<Rightarrow> tptr \<Rightarrow> ty_kind list \<Rightarrow> bool" where
  "has_kind ts t ks = (case t of None \<Rightarrow> False | Some i \<Rightarrow> List.member ks (ct_kind (ts ! i)))"

definition is_integer :: "tstore \<Rightarrow> tptr \<Rightarrow> bool" where
  "is_integer ts t = has_kind ts t [TY_CHAR, TY_UCHAR, TY_SHORT, TY_USHORT, TY_INT, TY_UINT, TY_LONG, TY_ULONG,
     TY_LONGLONG, TY_ULONGLONG, TY_ENUM]"

definition is_pointer :: "tstore \<Rightarrow> tptr \<Rightarrow> bool" where
  "is_pointer ts t = has_kind ts t [TY_PTR, TY_ARRAY]"

definition is_float_type :: "tstore \<Rightarrow> tptr \<Rightarrow> bool" where
  "is_float_type ts t = has_kind ts t [TY_FLOAT, TY_DOUBLE]"

definition is_unsigned_type :: "tstore \<Rightarrow> tptr \<Rightarrow> bool" where
  "is_unsigned_type ts t = has_kind ts t [TY_UCHAR, TY_USHORT, TY_UINT, TY_ULONG, TY_ULONGLONG]"

subsection \<open>Structures\<close>

definition MAX_STRUCTS :: nat where "MAX_STRUCTS = 65536"

text \<open>The table of tags has no scopes; a tag that does not fit is not entered.\<close>

definition find_struct :: "tstore \<Rightarrow> nat list \<Rightarrow> cstr \<Rightarrow> nat option" where
  "find_struct ts structs tag = find (\<lambda>i. ct_tag (ts ! i) = tag) structs"

definition register_struct :: "nat list \<Rightarrow> nat \<Rightarrow> nat list" where
  "register_struct structs t = (if length structs < MAX_STRUCTS then structs @ [t] else structs)"

text \<open>The type a structure specifier is about: the one its tag names, or a new one. The tag is the text of an
  identifier. Without a tag and a body it is an error (\<open>None\<close>).\<close>

definition struct_spec :: "tstore \<Rightarrow> nat list \<Rightarrow> bool \<Rightarrow> bool \<Rightarrow> cstr option \<Rightarrow> bool \<Rightarrow> (nat \<times> tstore \<times> nat list) option" where
  "struct_spec ts structs is_union tbfp tag body =
     (let new = (fresh_type (if is_union then TY_UNION else TY_STRUCT));
          known = (case tag of None \<Rightarrow> None | Some s \<Rightarrow> find_struct ts structs s)
      in if \<not> body then
           (case tag of None \<Rightarrow> None
            | Some s \<Rightarrow> (case known of Some i \<Rightarrow> Some (i, ts, structs)
                       | None \<Rightarrow> Some (length ts, ts @ [new\<lparr> ct_tag := s \<rparr>], register_struct structs (length ts))))
         else
           (case known of Some i \<Rightarrow> Some (i, (if tbfp then ts[i := (ts ! i)\<lparr> ct_tbfp := True \<rparr>] else ts), structs)
            | None \<Rightarrow>
                (let t = (if tbfp then new\<lparr> ct_tbfp := True \<rparr> else new) in
                 case tag of None \<Rightarrow> Some (length ts, ts @ [t], structs)
                 | Some s \<Rightarrow> Some (length ts, ts @ [t\<lparr> ct_tag := s \<rparr>], register_struct structs (length ts)))))"

definition align_up :: "int \<Rightarrow> int \<Rightarrow> int" where
  "align_up off a = s32 (s32 (off + a) - 1) AND NOT (a - 1)"

record layout =
  ly_fields :: "field list"
  ly_offset :: int
  ly_max_size :: int
  ly_max_align :: int

definition layout_init :: layout where
  "layout_init = \<lparr> ly_fields = [], ly_offset = 0, ly_max_size = 0, ly_max_align = 1 \<rparr>"

text \<open>One declarator, the first of a declaration or a further one.\<close>

definition add_field :: "tstore \<Rightarrow> bool \<Rightarrow> cstr \<times> tptr \<Rightarrow> layout \<Rightarrow> layout" where
  "add_field ts is_union d ly =
     (let falign = type_align ts (snd d);
          size = type_size ts (snd d);
          ly = (if falign > ly_max_align ly then ly\<lparr> ly_max_align := falign \<rparr> else ly)
      in if is_union then
           ly\<lparr> ly_fields := ly_fields ly @ [\<lparr> fl_name = fst d, fl_type = snd d, fl_offset = 0 \<rparr>],
               ly_max_size := (if size > ly_max_size ly then size else ly_max_size ly) \<rparr>
         else
           (let off = (if falign > 1 then align_up (ly_offset ly) falign else ly_offset ly)
            in ly\<lparr> ly_fields := ly_fields ly @ [\<lparr> fl_name = fst d, fl_type = snd d, fl_offset = off \<rparr>],
                   ly_offset := s32 (off + size) \<rparr>))"

definition layout_of :: "tstore \<Rightarrow> bool \<Rightarrow> (cstr \<times> tptr) list \<Rightarrow> layout" where
  "layout_of ts is_union ds = fold (add_field ts is_union) ds layout_init"

text \<open>The size of the body, rounded up to its alignment. A body without fields leaves the old ones.\<close>

definition parse_struct_or_union_body :: "tstore \<Rightarrow> nat \<Rightarrow> bool \<Rightarrow> (cstr \<times> tptr) list \<Rightarrow> tstore" where
  "parse_struct_or_union_body ts i is_union ds =
     (let ly = layout_of ts is_union ds;
          size = (if is_union then ly_max_size ly else ly_offset ly);
          size = (if ly_max_align ly > 1 then align_up size (ly_max_align ly) else size)
      in ts[i := (ts ! i)\<lparr> ct_size := size, ct_align := ly_max_align ly, ct_complete := True,
                          ct_fields := (if ly_fields ly = [] then ct_fields (ts ! i) else ly_fields ly) \<rparr>])"

text \<open>A member by name, through members without a name; the fuel bounds the nesting.\<close>

fun find_struct_member :: "nat \<Rightarrow> tstore \<Rightarrow> tptr \<Rightarrow> cstr \<Rightarrow> (field \<times> int) option option"
  and find_in_fields :: "nat \<Rightarrow> tstore \<Rightarrow> field list \<Rightarrow> cstr \<Rightarrow> (field \<times> int) option option" where
  "find_struct_member 0 ts t nm = None"
| "find_struct_member (Suc n) ts t nm = (case t of None \<Rightarrow> Some None | Some i \<Rightarrow> find_in_fields n ts (ct_fields (ts ! i)) nm)"
| "find_in_fields n ts [] nm = Some None"
| "find_in_fields n ts (f # fs) nm =
     (if fl_name f \<noteq> [] then (if fl_name f = nm then Some (Some (f, fl_offset f)) else find_in_fields n ts fs nm)
      else if has_kind ts (fl_type f) [TY_STRUCT, TY_UNION] then
        (case find_struct_member n ts (fl_type f) nm of None \<Rightarrow> None
         | Some (Some (g, sub)) \<Rightarrow> Some (Some (g, s32 (fl_offset f + sub)))
         | Some None \<Rightarrow> find_in_fields n ts fs nm)
      else find_in_fields n ts fs nm)"

end
