(* ===== verification/CTypesCorrect.thy ===== *)
theory CTypesCorrect
  imports CTypes
begin

text \<open>
  The layout of structures and unions is that of the C ABI on this target: each field at the least multiple of
  its alignment behind the field before it, the whole rounded up to the largest alignment. A structure that
  contains itself without a name makes the search for a member run without end.
\<close>

unbundle bit_operations_syntax

subsection \<open>Alignment\<close>

lemma and_not_mask: "(x :: int) AND NOT (2 ^ n - 1) = x div 2 ^ n * 2 ^ n"
proof -
  have "x AND NOT (mask n) = push_bit n (drop_bit n x)"
    by (rule bit_eqI) (auto simp: bit_simps)
  then show ?thesis by (simp add: mask_eq_exp_minus_1 push_bit_eq_mult drop_bit_eq_div)
qed

definition alignments :: "int list" where "alignments = [1, 2, 4, 8]"

lemma alignment_power: "a \<in> set alignments \<Longrightarrow> \<exists>n. a = 2 ^ n"
proof -
  have "set alignments = (\<lambda>n. 2 ^ n) ` {0, 1, 2, 3}" by (simp add: alignments_def)
  then show "a \<in> set alignments \<Longrightarrow> \<exists>n. a = 2 ^ n" by blast
qed

lemma align_up_least:
  assumes "a \<in> set alignments" "0 \<le> off" "off + 8 < 2147483648"
  shows "off \<le> align_up off a \<and> align_up off a < off + a \<and> align_up off a mod a = 0"
proof -
  obtain n where n: "a = 2 ^ n" using alignment_power [OF assms(1)] by blast
  have a: "0 < a" "a \<le> 8" using assms(1) by (auto simp: alignments_def)
  have "align_up off a = (off + a - 1) AND NOT (a - 1)" using assms(2,3) a by (simp add: align_up_def)
  also have "\<dots> = (off + a - 1) div a * a" unfolding n by (rule and_not_mask)
  also have "\<dots> = off + a - 1 - (off + a - 1) mod a" by (simp add: minus_mod_eq_div_mult)
  finally have e: "align_up off a = off + a - 1 - (off + a - 1) mod a" .
  have "(off + a - 1) mod a < a" "0 \<le> (off + a - 1) mod a" using a(1) by simp_all
  moreover have "(off + a - 1 - (off + a - 1) mod a) mod a = 0" by (simp add: mod_diff_right_eq)
  ultimately show ?thesis using e by simp
qed

subsection \<open>Structures\<close>

definition field_ok :: "tstore \<Rightarrow> cstr \<times> tptr \<Rightarrow> bool" where
  "field_ok ts d \<longleftrightarrow> 0 \<le> type_size ts (snd d) \<and> List.member alignments (type_align ts (snd d))"

definition room :: "tstore \<Rightarrow> (cstr \<times> tptr) list \<Rightarrow> int" where
  "room ts ds = (\<Sum>d\<leftarrow>ds. type_size ts (snd d) + 8)"

text \<open>The declarators of a body whose size stays within an \<^verbatim>\<open>int\<close>.\<close>

definition body_ok :: "tstore \<Rightarrow> (cstr \<times> tptr) list \<Rightarrow> bool" where
  "body_ok ts ds \<longleftrightarrow> list_all (field_ok ts) ds \<and> room ts ds + 8 < 2147483648"

text \<open>Fields from \<open>lo\<close> on that end at \<open>hi\<close>, each at the first place its alignment allows.\<close>

fun packed_from :: "tstore \<Rightarrow> int \<Rightarrow> field list \<Rightarrow> int \<Rightarrow> bool" where
  "packed_from ts lo [] hi \<longleftrightarrow> lo = hi"
| "packed_from ts lo (f # fs) hi \<longleftrightarrow>
     lo \<le> fl_offset f \<and> fl_offset f < lo + type_align ts (fl_type f) \<and> fl_offset f mod type_align ts (fl_type f) = 0
     \<and> packed_from ts (fl_offset f + type_size ts (fl_type f)) fs hi"

definition field_decl :: "field \<Rightarrow> cstr \<times> tptr" where
  "field_decl f = (fl_name f, fl_type f)"

lemma packed_from_append:
  "packed_from ts lo fs mid \<Longrightarrow> packed_from ts mid gs hi \<Longrightarrow> packed_from ts lo (fs @ gs) hi"
  by (induction ts lo fs mid rule: packed_from.induct) simp_all

lemma room_Cons: "room ts (d # ds) = type_size ts (snd d) + 8 + room ts ds"
  by (simp add: room_def)

lemma room_nonneg: "list_all (field_ok ts) ds \<Longrightarrow> 0 \<le> room ts ds"
  by (induction ds) (auto simp: room_def field_ok_def)

lemma alignment_dvd: "a \<in> set alignments \<Longrightarrow> b \<in> set alignments \<Longrightarrow> a \<le> b \<Longrightarrow> a dvd b"
  by (auto simp: alignments_def)

lemma struct_field:
  assumes "field_ok ts d" "0 \<le> ly_offset ly" "ly_offset ly + type_size ts (snd d) + 16 < 2147483648"
    "List.member alignments (ly_max_align ly)"
  shows "\<exists>f. field_decl f = d \<and> ly_fields (add_field ts False d ly) = ly_fields ly @ [f]
    \<and> packed_from ts (ly_offset ly) [f] (ly_offset (add_field ts False d ly))
    \<and> ly_offset (add_field ts False d ly) \<le> ly_offset ly + type_size ts (snd d) + 8
    \<and> ly_max_align (add_field ts False d ly) = max (ly_max_align ly) (type_align ts (snd d))"
proof -
  let ?a = "type_align ts (snd d)" and ?s = "type_size ts (snd d)"
  define off where "off = (if ?a > 1 then align_up (ly_offset ly) ?a else ly_offset ly)"
  have al: "?a \<in> set alignments" "0 \<le> ?s" using assms(1) by (simp_all add: field_ok_def)
  have off: "ly_offset ly \<le> off" "off < ly_offset ly + ?a" "off mod ?a = 0"
    using align_up_least [OF al(1) assms(2)] assms(3) al unfolding off_def by (auto simp: alignments_def)
  have a8: "?a \<le> 8" using al(1) by (auto simp: alignments_def)
  have s: "s32 (off + ?s) = off + ?s" using off a8 al(2) assms(2,3) by simp
  have upd: "ly_fields (add_field ts False d ly) = ly_fields ly @ [\<lparr> fl_name = fst d, fl_type = snd d, fl_offset = off \<rparr>]"
    "ly_offset (add_field ts False d ly) = s32 (off + ?s)" "ly_max_align (add_field ts False d ly) = max (ly_max_align ly) ?a"
    by (simp_all add: add_field_def Let_def off_def max_def)
  show ?thesis unfolding upd s
    by (rule exI [of _ "\<lparr> fl_name = fst d, fl_type = snd d, fl_offset = off \<rparr>"])
      (use off a8 in \<open>simp add: field_decl_def\<close>)
qed

lemma member_max: "List.member alignments a \<Longrightarrow> List.member alignments b \<Longrightarrow> List.member alignments (max a b)"
  by (simp add: max_def)

lemma struct_fields:
  "list_all (field_ok ts) ds \<Longrightarrow> 0 \<le> ly_offset ly \<Longrightarrow> ly_offset ly + room ts ds + 8 < 2147483648 \<Longrightarrow> List.member alignments (ly_max_align ly) \<Longrightarrow>
    \<exists>fs. map field_decl fs = ds \<and> ly_fields (fold (add_field ts False) ds ly) = ly_fields ly @ fs
      \<and> packed_from ts (ly_offset ly) fs (ly_offset (fold (add_field ts False) ds ly))
      \<and> 0 \<le> ly_offset (fold (add_field ts False) ds ly)
      \<and> ly_offset (fold (add_field ts False) ds ly) \<le> ly_offset ly + room ts ds
      \<and> List.member alignments (ly_max_align (fold (add_field ts False) ds ly))
      \<and> ly_max_align ly \<le> ly_max_align (fold (add_field ts False) ds ly)
      \<and> list_all (\<lambda>f. type_align ts (fl_type f) \<le> ly_max_align (fold (add_field ts False) ds ly)) fs"
proof (induction ds arbitrary: ly)
  case Nil
  then show ?case by (simp add: room_def)
next
  case (Cons d ds)
  let ?ly = "add_field ts False d ly"
  have ok: "field_ok ts d" "list_all (field_ok ts) ds" using Cons.prems(1) by simp_all
  have small: "ly_offset ly + type_size ts (snd d) + 16 < 2147483648"
    using Cons.prems(3) room_nonneg [OF ok(2)] by (simp add: room_Cons)
  obtain f where f: "field_decl f = d" "ly_fields ?ly = ly_fields ly @ [f]" "packed_from ts (ly_offset ly) [f] (ly_offset ?ly)"
    "ly_offset ?ly \<le> ly_offset ly + type_size ts (snd d) + 8" "ly_max_align ?ly = max (ly_max_align ly) (type_align ts (snd d))"
    using struct_field [OF ok(1) Cons.prems(2) small Cons.prems(4)] by blast
  have mem: "List.member alignments (ly_max_align ?ly)"
    unfolding f(5) using Cons.prems(4) ok(1) by (intro member_max) (simp_all add: field_ok_def)
  have sz: "0 \<le> type_size ts (snd d)" using ok(1) by (simp add: field_ok_def)
  have "snd d = fl_type f" using f(1) by (auto simp: field_decl_def)
  then have nonneg: "0 \<le> ly_offset ?ly" using f(3) sz Cons.prems(2) by simp
  have "ly_offset ?ly + room ts ds + 8 < 2147483648" using f(4) Cons.prems(3) by (simp add: room_Cons)
  from Cons.IH [OF ok(2) nonneg this mem] obtain fs where
    fs: "map field_decl fs = ds" "ly_fields (fold (add_field ts False) ds ?ly) = ly_fields ?ly @ fs"
      "packed_from ts (ly_offset ?ly) fs (ly_offset (fold (add_field ts False) ds ?ly))"
      "0 \<le> ly_offset (fold (add_field ts False) ds ?ly)"
      "ly_offset (fold (add_field ts False) ds ?ly) \<le> ly_offset ?ly + room ts ds"
      "List.member alignments (ly_max_align (fold (add_field ts False) ds ?ly))"
      "ly_max_align ?ly \<le> ly_max_align (fold (add_field ts False) ds ?ly)"
      "list_all (\<lambda>f. type_align ts (fl_type f) \<le> ly_max_align (fold (add_field ts False) ds ?ly)) fs" by blast
  show ?case
    by (rule exI [of _ "f # fs"])
      (use f fs packed_from_append [OF f(3) fs(3)] \<open>snd d = fl_type f\<close> in \<open>simp add: room_Cons\<close>)
qed

text \<open>A laid out structure: the fields of the declarators in their order, each at the least multiple of its
  alignment behind the one before, the size the least multiple of the alignment behind the last.\<close>

definition struct_laid_out :: "tstore \<Rightarrow> (cstr \<times> tptr) list \<Rightarrow> ctype \<Rightarrow> bool" where
  "struct_laid_out ts ds t \<longleftrightarrow>
     map field_decl (ct_fields t) = ds
     \<and> (\<exists>hi. packed_from ts 0 (ct_fields t) hi \<and> hi \<le> ct_size t \<and> ct_size t < hi + ct_align t)
     \<and> ct_size t mod ct_align t = 0 \<and> list_all (\<lambda>f. type_align ts (fl_type f) dvd ct_align t) (ct_fields t)"

lemma struct_body:
  assumes "body_ok ts ds" "ds \<noteq> []" "i < length ts"
  shows "struct_laid_out ts ds (parse_struct_or_union_body ts i False ds ! i)"
proof -
  have ok: "list_all (field_ok ts) ds" "room ts ds + 8 < 2147483648" using assms(1) by (simp_all add: body_ok_def)
  define ly where "ly = layout_of ts False ds"
  obtain fs where fs: "map field_decl fs = ds" "ly_fields ly = fs" "packed_from ts 0 fs (ly_offset ly)" "0 \<le> ly_offset ly"
    "ly_offset ly \<le> room ts ds" "List.member alignments (ly_max_align ly)"
    "list_all (\<lambda>f. type_align ts (fl_type f) \<le> ly_max_align ly) fs"
    using struct_fields [OF ok(1), of layout_init] ok(2) unfolding ly_def layout_of_def by (auto simp: layout_init_def alignments_def)
  define size where "size = (if ly_max_align ly > 1 then align_up (ly_offset ly) (ly_max_align ly) else ly_offset ly)"
  have mem: "ly_max_align ly \<in> set alignments" using fs(6) by simp
  have size: "ly_offset ly \<le> size" "size < ly_offset ly + ly_max_align ly" "size mod ly_max_align ly = 0"
    using align_up_least [OF mem fs(4)] fs(5) ok(2) mem unfolding size_def by (auto simp: alignments_def)
  have "type_align ts (fl_type f) dvd ly_max_align ly" if "f \<in> set fs" for f
  proof (rule alignment_dvd [OF _ mem])
    have "field_decl f \<in> set ds" using that fs(1) by auto
    then have "field_ok ts (field_decl f)" using ok(1) by (simp add: list_all_iff)
    then show "type_align ts (fl_type f) \<in> set alignments" by (simp add: field_ok_def field_decl_def)
    show "type_align ts (fl_type f) \<le> ly_max_align ly" using fs(7) that by (simp add: list_all_iff)
  qed
  moreover have "fs \<noteq> []" using fs(1) assms(2) by auto
  ultimately show ?thesis
    using fs(1,2,3) size assms(3)
    by (auto simp: struct_laid_out_def parse_struct_or_union_body_def Let_def ly_def [symmetric] size_def [symmetric] list_all_iff)
qed


definition sample_types :: tstore where
  "sample_types = map fresh_type [TY_CHAR, TY_LONG, TY_SHORT, TY_STRUCT]"

definition sample_decls :: "(cstr \<times> tptr) list" where
  "sample_decls = [(''c'', Some 0), (''l'', Some 1), (''s'', Some 2)]"


subsection \<open>Members\<close>

text \<open>A structure with a member of its own type and no name: no fuel is enough to look up a member.\<close>

definition knot :: "tstore" where
  "knot = [(fresh_type TY_STRUCT)\<lparr> ct_fields := [\<lparr> fl_name = [], fl_type = Some 0, fl_offset = 0 \<rparr>] \<rparr>]"

lemma member_search_diverges: "find_struct_member n knot (Some 0) nm = None"
proof (induction n)
  case (Suc n)
  then show ?case by (simp add: knot_def has_kind_def fresh_type_def)
qed simp

text \<open>What the search finds in a structure all of whose fields have names.\<close>

lemma find_in_named_fields:
  "list_all (\<lambda>f. fl_name f \<noteq> []) fs \<Longrightarrow>
    find_in_fields n ts fs nm = Some (map_option (\<lambda>f. (f, fl_offset f)) (find (\<lambda>f. fl_name f = nm) fs))"
  by (induction fs) auto

end
