(* ===== verification/Scopes.thy ===== *)
theory Scopes
  imports CTypesCorrect
begin

text \<open>
  Symbols, scopes and the stack slots of local variables (\<^verbatim>\<open>part2.c\<close>, and \<^verbatim>\<open>part3.c\<close> where an array takes its
  length from its initializer). A symbol is an entry of the store \<open>sc_syms\<close>, a pointer to it an index. The
  chain of scopes is a list, the current scope first; a scope lists its symbols, the newest first.
\<close>

record symbol =
  sy_name :: cstr
  sy_type :: tptr
  sy_is_local :: bool
  sy_stack_offset :: int

record scopes =
  sc_types :: tstore
  sc_syms :: "symbol list"
  sc_chain :: "nat list list"
  sc_local_offset :: int

definition scope_push :: "scopes \<Rightarrow> scopes" where
  "scope_push sc = sc\<lparr> sc_chain := [] # sc_chain sc \<rparr>"

definition scope_pop :: "scopes \<Rightarrow> scopes" where
  "scope_pop sc = sc\<lparr> sc_chain := tl (sc_chain sc) \<rparr>"

definition named :: "scopes \<Rightarrow> cstr \<Rightarrow> nat \<Rightarrow> bool" where
  "named sc nm i \<longleftrightarrow> sy_name (sc_syms sc ! i) = nm"

fun find_in :: "(nat \<Rightarrow> bool) \<Rightarrow> nat list list \<Rightarrow> nat option" where
  "find_in P [] = None"
| "find_in P (s # ss) = (case find P s of Some i \<Rightarrow> Some i | None \<Rightarrow> find_in P ss)"

definition scope_find :: "scopes \<Rightarrow> cstr \<Rightarrow> nat option" where
  "scope_find sc nm = find_in (named sc nm) (sc_chain sc)"

definition scope_find_local :: "scopes \<Rightarrow> cstr \<Rightarrow> nat option" where
  "scope_find_local sc nm = (case sc_chain sc of [] \<Rightarrow> None | s # _ \<Rightarrow> find (named sc nm) s)"

text \<open>Adding without a scope dereferences a null pointer (\<open>None\<close>). Names have room for 127 characters.\<close>

definition MAX_NAME :: nat where "MAX_NAME = 127"

definition scope_add :: "scopes \<Rightarrow> cstr \<Rightarrow> tptr \<Rightarrow> (nat \<times> scopes) option" where
  "scope_add sc nm t =
     (case sc_chain sc of [] \<Rightarrow> None
      | s # ss \<Rightarrow>
          Some (length (sc_syms sc),
            sc\<lparr> sc_syms := sc_syms sc @ [\<lparr> sy_name = take MAX_NAME nm, sy_type = t, sy_is_local = False, sy_stack_offset = 0 \<rparr>],
                sc_chain := (length (sc_syms sc) # s) # ss \<rparr>))"

definition slot_size :: "int \<Rightarrow> int" where
  "slot_size sz = (let sz = s32 (sz + 7) AND NOT 7 in if sz < 8 then 8 else sz)"

definition set_local :: "nat \<Rightarrow> int \<Rightarrow> scopes \<Rightarrow> scopes" where
  "set_local i off sc =
     sc\<lparr> sc_local_offset := off, sc_syms := (sc_syms sc)[i := (sc_syms sc ! i)\<lparr> sy_is_local := True, sy_stack_offset := off \<rparr>] \<rparr>"

definition scope_add_local :: "scopes \<Rightarrow> cstr \<Rightarrow> tptr \<Rightarrow> (nat \<times> scopes) option" where
  "scope_add_local sc nm t =
     map_option (\<lambda>(i, sc'). (i, set_local i (s32 (sc_local_offset sc - slot_size (type_size (sc_types sc) t))) sc')) (scope_add sc nm t)"

text \<open>A local array without a length gets the type of its initializer and a new slot in place of its first one.\<close>

definition resize_local :: "scopes \<Rightarrow> nat \<Rightarrow> nat \<Rightarrow> scopes" where
  "resize_local sc i t =
     (let sz = type_size (sc_types sc) (Some t);
          sz = (if sz < 8 then 8 else sz);
          off = s32 (s32 (sc_local_offset sc + 8) - sz)
      in sc\<lparr> sc_local_offset := off, sc_syms := (sc_syms sc)[i := (sc_syms sc ! i)\<lparr> sy_type := Some t, sy_stack_offset := off \<rparr>] \<rparr>)"

subsection \<open>Environments\<close>

text \<open>What the chain of scopes stands for: one map from names to symbols for each scope.\<close>

type_synonym env = "(cstr \<Rightarrow> nat option) list"

definition env_of :: "scopes \<Rightarrow> env" where
  "env_of sc = map (\<lambda>s. map_of (map (\<lambda>i. (sy_name (sc_syms sc ! i), i)) s)) (sc_chain sc)"

fun env_find :: "env \<Rightarrow> cstr \<Rightarrow> nat option" where
  "env_find [] nm = None"
| "env_find (m # ms) nm = (case m nm of Some i \<Rightarrow> Some i | None \<Rightarrow> env_find ms nm)"

definition chain_ok :: "scopes \<Rightarrow> bool" where
  "chain_ok sc \<longleftrightarrow> list_all (list_all (\<lambda>i. i < length (sc_syms sc))) (sc_chain sc)"

lemma find_map_of: "find (\<lambda>i. f i = nm) s = map_of (map (\<lambda>i. (f i, i)) s) nm"
  by (induction s) auto

lemma find_in_env:
  "find_in (\<lambda>i. f i = nm) ss = env_find (map (\<lambda>s. map_of (map (\<lambda>i. (f i, i)) s)) ss) nm"
  by (induction ss) (simp_all add: find_map_of split: option.splits)

lemma scope_find_env: "scope_find sc nm = env_find (env_of sc) nm"
  by (simp add: scope_find_def named_def [abs_def] find_in_env env_of_def)

lemma scope_find_local_env: "scope_find_local sc nm = (case env_of sc of [] \<Rightarrow> None | m # _ \<Rightarrow> m nm)"
  by (cases "sc_chain sc") (simp_all add: scope_find_local_def env_of_def named_def [abs_def] find_map_of)

text \<open>The operations of a parser on its scopes, on the code's state and on environments.\<close>

datatype scope_op = Push | Pop | Add cstr tptr | AddLocal cstr tptr

definition step :: "scope_op \<Rightarrow> scopes \<Rightarrow> scopes option" where
  "step oper sc =
     (case oper of Push \<Rightarrow> Some (scope_push sc) | Pop \<Rightarrow> Some (scope_pop sc)
      | Add nm t \<Rightarrow> map_option snd (scope_add sc nm t) | AddLocal nm t \<Rightarrow> map_option snd (scope_add_local sc nm t))"

fun run :: "scope_op list \<Rightarrow> scopes \<Rightarrow> scopes option" where
  "run [] sc = Some sc"
| "run (p # ps) sc = (case step p sc of None \<Rightarrow> None | Some sc' \<Rightarrow> run ps sc')"

definition env_step :: "scope_op \<Rightarrow> env \<times> nat \<Rightarrow> (env \<times> nat) option" where
  "env_step oper e =
     (case e of (ms, n) \<Rightarrow>
        (case oper of Push \<Rightarrow> Some ((\<lambda>_. None) # ms, n) | Pop \<Rightarrow> Some (tl ms, n)
         | Add nm t \<Rightarrow> (case ms of [] \<Rightarrow> None | m # ms \<Rightarrow> Some (m(take MAX_NAME nm \<mapsto> n) # ms, n + 1))
         | AddLocal nm t \<Rightarrow> (case ms of [] \<Rightarrow> None | m # ms \<Rightarrow> Some (m(take MAX_NAME nm \<mapsto> n) # ms, n + 1))))"

fun env_run :: "scope_op list \<Rightarrow> env \<times> nat \<Rightarrow> (env \<times> nat) option" where
  "env_run [] e = Some e"
| "env_run (p # ps) e = (case env_step p e of None \<Rightarrow> None | Some e' \<Rightarrow> env_run ps e')"

definition abstraction :: "scopes \<Rightarrow> env \<times> nat" where
  "abstraction sc = (env_of sc, length (sc_syms sc))"

lemma env_of_append:
  "chain_ok sc \<Longrightarrow> map (\<lambda>s. map_of (map (\<lambda>i. (sy_name ((sc_syms sc @ xs) ! i), i)) s)) (sc_chain sc) = env_of sc"
  unfolding env_of_def chain_ok_def
  by (intro map_cong HOL.refl arg_cong [where f = map_of]) (auto simp: list_all_iff nth_append)

lemma scope_add_env:
  assumes "chain_ok sc" "scope_add sc nm t = Some (i, sc')"
  shows "chain_ok sc' \<and> length (sc_syms sc') = Suc (length (sc_syms sc)) \<and> i = length (sc_syms sc)
    \<and> env_of sc' = (hd (env_of sc))(take MAX_NAME nm \<mapsto> i) # tl (env_of sc)"
proof -
  obtain s ss where c: "sc_chain sc = s # ss" using assms(2) by (cases "sc_chain sc") (simp_all add: scope_add_def)
  let ?new = "\<lparr> sy_name = take MAX_NAME nm, sy_type = t, sy_is_local = False, sy_stack_offset = 0 \<rparr>"
  have sc': "i = length (sc_syms sc)" "sc' = sc\<lparr> sc_syms := sc_syms sc @ [?new], sc_chain := (length (sc_syms sc) # s) # ss \<rparr>"
    using assms(2) c by (auto simp: scope_add_def)
  from env_of_append [OF assms(1), of "[?new]"] have e:
    "map_of (map (\<lambda>i. (sy_name ((sc_syms sc @ [?new]) ! i), i)) s) = hd (env_of sc)"
    "map (\<lambda>s. map_of (map (\<lambda>i. (sy_name ((sc_syms sc @ [?new]) ! i), i)) s)) ss = tl (env_of sc)"
    unfolding c by (auto simp: env_of_def c)
  have "chain_ok sc'" using assms(1) by (fastforce simp: chain_ok_def sc'(2) c list_all_iff intro: less_SucI)
  moreover have "env_of sc' = (hd (env_of sc))(take MAX_NAME nm \<mapsto> i) # tl (env_of sc)"
    using e by (subst env_of_def) (simp add: sc')
  ultimately show ?thesis by (simp add: sc')
qed

lemma set_local_env: "i < length (sc_syms sc) \<Longrightarrow> env_of (set_local i off sc) = env_of sc \<and> chain_ok (set_local i off sc) = chain_ok sc
    \<and> length (sc_syms (set_local i off sc)) = length (sc_syms sc)"
proof -
  assume "i < length (sc_syms sc)"
  then have "sy_name ((sc_syms sc)[i := (sc_syms sc ! i)\<lparr> sy_is_local := True, sy_stack_offset := off \<rparr>] ! k) = sy_name (sc_syms sc ! k)" for k
    by (cases "k = i") simp_all
  then show ?thesis by (simp add: env_of_def chain_ok_def set_local_def)
qed

lemma env_of_nil: "env_of sc = [] \<longleftrightarrow> sc_chain sc = []"
  by (simp add: env_of_def)

lemma step_refines:
  assumes "chain_ok sc"
  shows "map_option abstraction (step p sc) = env_step p (abstraction sc) \<and> (case step p sc of None \<Rightarrow> True | Some sc' \<Rightarrow> chain_ok sc')"
proof (cases p)
  case Push
  then show ?thesis using assms by (simp add: step_def env_step_def abstraction_def scope_push_def env_of_def chain_ok_def)
next
  case Pop
  then show ?thesis using assms
    by (cases "sc_chain sc") (simp_all add: step_def env_step_def abstraction_def scope_pop_def env_of_def chain_ok_def)
next
  case (Add nm t)
  show ?thesis
  proof (cases "scope_add sc nm t")
    case None
    then have "env_of sc = []" by (auto simp: scope_add_def env_of_nil split: list.splits)
    then show ?thesis using None by (simp add: step_def env_step_def abstraction_def Add)
  next
    case (Some r)
    obtain i sc' where r: "r = (i, sc')" by (cases r)
    have "sc_chain sc \<noteq> []" using Some by (auto simp: scope_add_def)
    then have "env_of sc \<noteq> []" by (simp add: env_of_nil)
    then show ?thesis using scope_add_env [OF assms Some [unfolded r]] Some r
      by (cases "env_of sc") (simp_all add: step_def env_step_def abstraction_def Add)
  qed
next
  case (AddLocal nm t)
  show ?thesis
  proof (cases "scope_add sc nm t")
    case None
    then have "env_of sc = []" by (auto simp: scope_add_def env_of_nil split: list.splits)
    then show ?thesis using None by (simp add: step_def env_step_def abstraction_def AddLocal scope_add_local_def)
  next
    case (Some r)
    obtain i sc' where r: "r = (i, sc')" by (cases r)
    have "sc_chain sc \<noteq> []" using Some by (auto simp: scope_add_def)
    then have "env_of sc \<noteq> []" by (simp add: env_of_nil)
    moreover note a = scope_add_env [OF assms Some [unfolded r]]
    moreover have "i < length (sc_syms sc')" using a by simp
    note set_local_env [OF this]
    ultimately show ?thesis using Some r
      by (cases "env_of sc") (simp_all add: step_def env_step_def abstraction_def AddLocal scope_add_local_def)
  qed
qed

lemma run_refines: "chain_ok sc \<Longrightarrow> map_option abstraction (run ps sc) = env_run ps (abstraction sc)"
proof (induction ps arbitrary: sc)
  case (Cons p ps)
  then show ?case using step_refines [OF Cons.prems, of p] by (cases "step p sc") (auto dest: sym)
qed simp

definition scopes_init :: "tstore \<Rightarrow> scopes" where
  "scopes_init ts = \<lparr> sc_types = ts, sc_syms = [], sc_chain = [[]], sc_local_offset = 0 \<rparr>"

text \<open>C38: The scopes of the front end are nested environments: after any pushes, pops and declarations from the
  global scope, looking a name up gives the symbol that nested maps give, where a push opens an empty map, a
  pop drops the innermost one and a declaration overrides the name, cut to 127 characters, in the innermost;
  the code dereferences a null pointer exactly where there is no map to declare in.\<close>

theorem scopes_refine_environments:
  "map_option (\<lambda>sc. (scope_find sc nm, scope_find_local sc nm)) (run ps (scopes_init ts))
    = map_option (\<lambda>(e, n). (env_find e nm, case e of [] \<Rightarrow> None | m # _ \<Rightarrow> m nm)) (env_run ps ([\<lambda>_. None], 0))"
proof -
  have "chain_ok (scopes_init ts)" by (simp add: chain_ok_def scopes_init_def)
  from run_refines [OF this, of ps] have "env_run ps ([\<lambda>_. None], 0) = map_option abstraction (run ps (scopes_init ts))"
    by (simp add: abstraction_def scopes_init_def env_of_def)
  then show ?thesis
    by (cases "run ps (scopes_init ts)") (simp_all add: abstraction_def scope_find_env scope_find_local_env)
qed

subsection \<open>Stack slots\<close>

definition locals_of :: "scopes \<Rightarrow> (int \<times> int) list" where
  "locals_of sc =
     map (\<lambda>s. (sy_stack_offset s, slot_size (type_size (sc_types sc) (sy_type s)))) (filter sy_is_local (sc_syms sc))"

text \<open>Slots given by offset and length that lie one below the other without gaps, from \<open>hi\<close> down to \<open>lo\<close>.\<close>

fun stacked :: "int \<Rightarrow> (int \<times> int) list \<Rightarrow> int \<Rightarrow> bool" where
  "stacked hi [] lo \<longleftrightarrow> hi = lo"
| "stacked hi ((off, n) # ls) lo \<longleftrightarrow> off + n = hi \<and> 8 \<le> n \<and> off mod 8 = 0 \<and> stacked off ls lo"

text \<open>What the declarations of a sequence of operations take, when no size is negative or near the limit.\<close>

fun demand :: "tstore \<Rightarrow> scope_op list \<Rightarrow> int" where
  "demand ts [] = 0"
| "demand ts (AddLocal nm t # ps) = slot_size (type_size ts t) + demand ts ps"
| "demand ts (Push # ps) = demand ts ps"
| "demand ts (Pop # ps) = demand ts ps"
| "demand ts (Add nm t # ps) = demand ts ps"

fun sizes_ok :: "tstore \<Rightarrow> scope_op list \<Rightarrow> bool" where
  "sizes_ok ts [] = True"
| "sizes_ok ts (AddLocal nm t # ps) \<longleftrightarrow> 0 \<le> type_size ts t \<and> type_size ts t < 2147483640 \<and> sizes_ok ts ps"
| "sizes_ok ts (Push # ps) = sizes_ok ts ps"
| "sizes_ok ts (Pop # ps) = sizes_ok ts ps"
| "sizes_ok ts (Add nm t # ps) = sizes_ok ts ps"

lemma stacked_append: "stacked hi ls mid \<Longrightarrow> stacked mid ms lo \<Longrightarrow> stacked hi (ls @ ms) lo"
  by (induction hi ls mid rule: stacked.induct) auto

lemma slot_size_fits:
  assumes "0 \<le> sz" "sz < 2147483640"
  shows "sz \<le> slot_size sz \<and> 8 \<le> slot_size sz \<and> slot_size sz mod 8 = 0"
proof -
  have "s32 (sz + 7) AND NOT 7 = (sz + 7) div 8 * 8" using assms and_not_mask [of "sz + 7" 3] by simp
  moreover have "sz \<le> (sz + 7) div 8 * 8" by linarith
  ultimately show ?thesis by (simp add: slot_size_def Let_def)
qed

lemma demand_nonneg: "sizes_ok ts ps \<Longrightarrow> 0 \<le> demand ts ps"
proof (induction ts ps rule: sizes_ok.induct)
  case (2 ts nm t ps)
  then show ?case using slot_size_fits [of "type_size ts t"] by simp
qed simp_all

lemma scope_add_syms:
  "scope_add sc nm t = Some (i, sc') \<Longrightarrow> i = length (sc_syms sc) \<and> sc_types sc' = sc_types sc \<and> sc_local_offset sc' = sc_local_offset sc
    \<and> sc_syms sc' = sc_syms sc @ [\<lparr> sy_name = take MAX_NAME nm, sy_type = t, sy_is_local = False, sy_stack_offset = 0 \<rparr>]"
  by (auto simp: scope_add_def split: list.splits)

lemma add_local_slots:
  assumes "scope_add_local sc nm t = Some (i, sc')"
  shows "sc_types sc' = sc_types sc \<and> sc_local_offset sc' = s32 (sc_local_offset sc - slot_size (type_size (sc_types sc) t))
    \<and> locals_of sc' = locals_of sc @ [(sc_local_offset sc', slot_size (type_size (sc_types sc) t))]"
proof -
  obtain sc1 where a: "scope_add sc nm t = Some (i, sc1)"
    "sc' = set_local i (s32 (sc_local_offset sc - slot_size (type_size (sc_types sc) t))) sc1"
    using assms by (auto simp: scope_add_local_def)
  from scope_add_syms [OF a(1)] show ?thesis by (simp add: a(2) set_local_def locals_of_def)
qed

lemma run_slots:
  "run ps sc = Some sc' \<Longrightarrow> sizes_ok (sc_types sc) ps \<Longrightarrow> sc_local_offset sc - demand (sc_types sc) ps \<ge> - 2147483648 \<Longrightarrow>
    sc_local_offset sc \<le> 0 \<Longrightarrow> sc_local_offset sc mod 8 = 0 \<Longrightarrow>
    sc_types sc' = sc_types sc \<and> (\<exists>ls. locals_of sc' = locals_of sc @ ls \<and> stacked (sc_local_offset sc) ls (sc_local_offset sc'))"
proof (induction ps arbitrary: sc)
  case (Cons p ps)
  obtain sc1 where st: "step p sc = Some sc1" "run ps sc1 = Some sc'" using Cons.prems(1) by (auto split: option.splits)
  show ?case
  proof (cases p)
    case (AddLocal nm t)
    let ?n = "slot_size (type_size (sc_types sc) t)"
    obtain i where "scope_add_local sc nm t = Some (i, sc1)" using st(1) by (auto simp: step_def AddLocal)
    note l = add_local_slots [OF this]
    have n: "8 \<le> ?n" "?n mod 8 = 0" using slot_size_fits [of "type_size (sc_types sc) t"] Cons.prems(2) by (simp_all add: AddLocal)
    have rest: "sizes_ok (sc_types sc) ps" using Cons.prems(2) by (simp add: AddLocal)
    have off: "sc_local_offset sc1 = sc_local_offset sc - ?n"
      using l n Cons.prems(3,4) demand_nonneg [OF rest] by (simp add: AddLocal)
    have mod8: "(sc_local_offset sc - ?n) mod 8 = 0" using n(2) Cons.prems(5) by (simp add: mod_diff_eq [symmetric])
    from Cons.IH [OF st(2)] obtain ls where "sc_types sc' = sc_types sc" "locals_of sc' = locals_of sc1 @ ls"
      "stacked (sc_local_offset sc1) ls (sc_local_offset sc')"
      using l off n(1) mod8 Cons.prems(2,3,4) by (auto simp: AddLocal)
    then show ?thesis using l off n mod8 by simp
  next
    case Push
    then have "locals_of sc1 = locals_of sc" "sc_types sc1 = sc_types sc" "sc_local_offset sc1 = sc_local_offset sc"
      using st(1) by (auto simp: step_def scope_push_def locals_of_def)
    then show ?thesis using Cons.IH [OF st(2)] Cons.prems Push by simp
  next
    case Pop
    then have "locals_of sc1 = locals_of sc" "sc_types sc1 = sc_types sc" "sc_local_offset sc1 = sc_local_offset sc"
      using st(1) by (auto simp: step_def scope_pop_def locals_of_def)
    then show ?thesis using Cons.IH [OF st(2)] Cons.prems Pop by simp
  next
    case (Add nm t)
    then obtain i where "scope_add sc nm t = Some (i, sc1)" using st(1) by (auto simp: step_def)
    from scope_add_syms [OF this] have "locals_of sc1 = locals_of sc" "sc_types sc1 = sc_types sc" "sc_local_offset sc1 = sc_local_offset sc"
      by (auto simp: locals_of_def)
    then show ?thesis using Cons.IH [OF st(2)] Cons.prems Add by simp
  qed
qed simp


definition sample_ops :: "scope_op list" where
  "sample_ops = [Push, AddLocal ''c'' (Some 0), Add ''T'' (Some 1), Push, AddLocal ''c'' (Some 1), Pop, AddLocal ''s'' (Some 2)]"



end
