(* ===== verification/Spec2Isabelle.thy ===== *)
theory Spec2Isabelle
  imports U256 Arith256 IR IRSem Passes Rewrite NameTable DeadCode ConstFold Dominance DomCorrect GVN
    EvmBytes EvmDiv EvmShift Keccak VulnTag Warden WardenMap WardenCorrect Taint Healer
    RegAlloc RegAllocCorrect RegAllocSpill
    SymCfg EvmMemory EvmTables EvmLifter EvmStep EvmTyping EvmConst
    Peephole PeepholeYul Lexer LexerCorrect LexerPrint
    Arena CTypes CTypesCorrect Scopes
begin

text \<open>
  This development verifies parts of the C compiler ZCC: the lexer of its C front end, its intermediate
  representation and the passes over it, its register allocator, and its EVM front end with the memory arena,
  the lifting of every instruction, the symbolic control flow and the peephole optimiser behind it.

  \<^bold>\<open>The program.\<close> A front end (C, Rust or EVM bytecode) emits functions as lists of IR nodes
  (\<^verbatim>\<open>ir.h\<close>, \<^verbatim>\<open>ir.c\<close>). The pass manager (\<^verbatim>\<open>ir_pass_manager.c\<close>) runs folding, strength reduction,
  dominance (\<^verbatim>\<open>ir_dominance.c\<close>), taint propagation and healing, dead code elimination, value numbering
  and the warden over every function. The back ends allocate registers (\<^verbatim>\<open>regalloc.c\<close>) and print assembly.
  The EVM lifter (\<^verbatim>\<open>evm_lifter.c\<close>) runs the bytecode on a virtual stack of IR names, folds constants with its
  own big-number code, keeps memory in an arena (\<^verbatim>\<open>src/evm/memory_v2.c\<close>), and leaves jumps to unknown targets
  to the symbolic control-flow pass; the peephole optimiser packs storage accesses into Yul text.

  \<^bold>\<open>Theories.\<close>
  \<^item> \<open>Prelude\<close>: machine integers, C strings in fixed arrays (\<open>c_copy\<close>), counted loops.
  \<^item> \<open>Lexer\<close>: \<^verbatim>\<open>part2.c\<close> from the keyword tables to \<^verbatim>\<open>peek_token\<close>; the state is the part of \<^verbatim>\<open>Compiler\<close> it uses, with
    the rest of the source as a list and the buffers as functions. \<open>LexerCorrect\<close>: progress, keywords, lookahead,
    the string buffer. \<open>LexerPrint\<close>: printing tokens and reading them back.
  \<^item> \<open>Arena\<close>: \<^verbatim>\<open>cc_alloc\<close>. \<open>CTypes\<close>, \<open>CTypesCorrect\<close>: the types of the C front end and the layout of structures
    (\<^verbatim>\<open>part2.c\<close>, \<^verbatim>\<open>part3.c\<close>). \<open>Scopes\<close>: symbols, scopes and the stack slots of locals.
  \<^item> \<open>Arith256\<close>: the locale \<open>arith256\<close>, the contract of 256-bit arithmetic (value, well-formedness, ring and
    bit operations); interpreted by \<open>U256\<close> on the four limbs of \<^verbatim>\<open>evm_uint256.h\<close> and by \<open>EvmBytes\<close> on the
    32 bytes of \<^verbatim>\<open>evm_lifter.c\<close>. \<open>EvmDiv\<close>: division, modular arithmetic, exponentiation; \<open>EvmShift\<close>:
    shifts, byte selection, sign extension; \<open>Keccak\<close>: the hash against FIPS 202.
  \<^item> \<open>EvmMemory\<close>: the arena and the locale \<open>evm_arena\<close> of what the lifter may rely on. \<open>EvmTables\<close>: the opcode
    tables and the scan for blocks. \<open>EvmLifter\<close>: the virtual stack, the emission of nodes and the handlers.
    \<open>EvmStep\<close>: the dispatch over all opcodes and the driver. \<open>EvmTyping\<close>: the stack effect of every step and the
    end of the lifting. \<open>EvmConst\<close>: the constants the lifter tracks against a concrete run of the bytecode.
  \<^item> \<open>SymCfg\<close>: the pass that turns symbolic jumps into direct ones, and its preservation of results.
  \<^item> \<open>Peephole\<close>, \<open>PeepholeYul\<close>: \<^verbatim>\<open>evm_peephole_optimizer.c\<close>, the grouping of accesses and the accounting, and the
    emitted text with the semantics of the Yul statements it stands for.
  \<^item> \<open>IR\<close>: nodes, functions, modules, emitter, queries, text form (\<^verbatim>\<open>ir.c\<close>). A function's linked list is
    \<open>fn_nodes\<close>, a node pointer an index. \<open>IRSem\<close>: the abstract machine the passes are proved against, with
    the outside (memory, calls, doubles) as parameters. \<open>Rewrite\<close>: node-local rewriting preserves results.
    \<open>Passes\<close>: pass results, registry and driver.
  \<^item> \<open>DeadCode\<close>, \<open>ConstFold\<close>, \<open>GVN\<close>: passes 1 to 4 of \<^verbatim>\<open>ir_pass_manager.c\<close> and load coalescing.
  \<^item> \<open>NameTable\<close>: the locale \<open>name_table\<close> of the tables keyed by C strings; interpreted on the constant map
    in \<open>ConstFold\<close> and on the hash table of the warden in \<open>WardenMap\<close>.
  \<^item> \<open>Dominance\<close>, \<open>DomCorrect\<close>: blocks, edges, 512-bit sets, the fixed-point iteration and the tree.
  \<^item> \<open>VulnTag\<close>: \<^verbatim>\<open>ir_vuln_tag.c\<close>. \<open>Warden\<close>, \<open>WardenMap\<close>, \<open>WardenCorrect\<close>: \<^verbatim>\<open>ir_pass_warden.c\<close>, its hash table
    as a map, and what its reports mean. \<open>Taint\<close>: \<^verbatim>\<open>ir_pass_taint.c\<close>. \<open>Healer\<close>: \<^verbatim>\<open>ir_pass_healer.c\<close> alone
    and behind the taint propagation.
  \<^item> \<open>RegAlloc\<close>, \<open>RegAllocCorrect\<close>, \<open>RegAllocSpill\<close>: \<^verbatim>\<open>regalloc.c\<close>, the absence of sharing, and the absence
    of spills under low pressure.

  \<^bold>\<open>What the theorems show.\<close> The lexer reaches the end of every source and reads a printed program back;
  a stray keyword, a lost suffix and a buffer overflow are exhibited. Memory of the front end, fields of a
  structure and slots of locals do not overlap, with one exception for arrays with an initializer; scopes are
  nested maps. The big-number operations equal the
  numbers they stand for, and for the two that do not (modular addition and multiplication) exactly when they
  fail. The arena is a flat memory. Every lifting step has the stack effect of its opcode, the lifting of any
  bytecode ends, and the slots it takes for constants hold the values of the EVM, where the operations folded
  with exchanged operands are the exception. Resolved symbolic jumps keep the results of a function. Packed
  accesses write and read exactly their bit ranges, and the grouping can lose a store. Each optimisation keeps
  every result of a function on the abstract machine, under stated conditions on the function; the error
  theorems show on concrete functions what happens outside these conditions. The dominator sets are the
  dominators of the graph that is built. The hash tables are maps. If the warden reports nothing, no source
  reaches a store or a self-destruct; some calls escape it. Taint propagation marks exactly the sinks a host
  value reaches, and the healer puts before each an owner check that only the owner passes. The allocator never
  gives two simultaneously live temporaries one register, and spills nothing while at most seven are live.

  \<^bold>\<open>Bounds and fuel.\<close> Loops with a decreasing measure are recursive functions; for the lexer the measure is the
  rest of the source. The driver of the lifter is a partial function and a theorem shows that it returns. The
  probing loops of the hash tables take the capacity as fuel and the invariants show that they stop within it;
  the dominator iteration takes fuel and a theorem gives a sufficient amount; chasing an idom chain takes fuel
  and one theorem shows the chains on which no fuel is enough; the allocator's simplification takes the number
  of nodes left, one of which it removes in every round. Machine integers keep their width, except counters
  that only grow from 0 (temporaries, labels, positions), which are numbers.

  \<^bold>\<open>Not modelled.\<close> Messages and traces on stderr and stdout, unless they are the result (the text form of
  the IR, the tag scan, the Yul text); allocation failure; releasing memory. The value of a floating-point
  literal and the loading of call data are parameters. The preprocessor, the parser and the code generators
  of the C front end, the Rust front end, SSA construction and the back ends are other components,
  listed in the manifest.
\<close>

end
